(* ===== verification/Pist_Prelude.thy ===== *)
theory Pist_Prelude
  imports Main "HOL-Library.Sublist" "HOL-Library.Code_Target_Nat"
begin

text \<open>
  The shared vocabulary of the development: exceptions as values of a sum type, the C and C++
  character and number routines the sources call (\<open>tolower\<close>, \<open>isdigit\<close>, \<open>std::from_chars\<close>,
  \<open>std::to_string\<close>, \<open>strncmp\<close>, \<open>std::string::find\<close>), the conversion of a 64-bit size to the
  signed \<open>ssize_t\<close>, and hash maps as association lists with the interface the clients rely on
  stated as a locale.  Bytes are values of \<^typ>\<open>char\<close>, which HOL keeps at eight bits.
\<close>

named_theorems pist_defs \<open>definitions that a component unfolds in its own proofs\<close>

named_theorems char_eval \<open>evaluation of the C character routines\<close>

section \<open>Exceptions\<close>

text \<open>
  Every exception class the modelled sources throw; \<open>Http_Error\<close> is \<open>HttpError\<close> of
  http_defs.h with its status code, the others are the standard classes.
\<close>

datatype exn =
    Http_Error int string
  | Runtime_Error string
  | Invalid_Argument string
  | Out_Of_Range string
  | Length_Error string
  | Range_Error string
  | Domain_Error string

type_synonym 'a result = "exn + 'a"

fun what :: "exn \<Rightarrow> string" where
  "what (Http_Error c m) = m"
| "what (Runtime_Error m) = m"
| "what (Invalid_Argument m) = m"
| "what (Out_Of_Range m) = m"
| "what (Length_Error m) = m"
| "what (Range_Error m) = m"
| "what (Domain_Error m) = m"

section \<open>Characters\<close>

abbreviation byte_of :: "char \<Rightarrow> nat" where
  "byte_of c \<equiv> of_char c"

abbreviation CR :: char where "CR \<equiv> CHR 0x0D"
abbreviation LF :: char where "LF \<equiv> CHR 0x0A"
abbreviation NUL :: char where "NUL \<equiv> CHR 0x00"
abbreviation SP :: char where "SP \<equiv> CHR '' ''"
abbreviation HTAB :: char where "HTAB \<equiv> CHR 0x09"
abbreviation crlf :: string where "crlf \<equiv> [CR, LF]"

text \<open>The \<open>char\<close> that \<open>static_cast<char>(EOF)\<close> yields: its value as a signed \<open>int\<close> is -1.\<close>

abbreviation EOF_char :: char where "EOF_char \<equiv> CHR 0xFF"

definition c_tolower :: "char \<Rightarrow> char" where
  "c_tolower c = (let n = byte_of c in if 65 \<le> n \<and> n \<le> 90 then char_of (n + 32) else c)"

definition c_isdigit :: "char \<Rightarrow> bool" where
  "c_isdigit c \<longleftrightarrow> 48 \<le> byte_of c \<and> byte_of c \<le> (57::nat)"

definition c_isalnum :: "char \<Rightarrow> bool" where
  "c_isalnum c \<longleftrightarrow> c_isdigit c
     \<or> (65 \<le> byte_of c \<and> byte_of c \<le> (90::nat)) \<or> (97 \<le> byte_of c \<and> byte_of c \<le> (122::nat))"

definition c_isblank :: "char \<Rightarrow> bool" where
  "c_isblank c \<longleftrightarrow> c = SP \<or> c = HTAB"

definition to_lower :: "string \<Rightarrow> string" where
  "to_lower s = map c_tolower s"

lemma c_tolower_idem [simp]: "c_tolower (c_tolower c) = c_tolower c"
  by (simp add: c_tolower_def Let_def)

text \<open>Evaluation of \<open>tolower\<close> on the characters that literals are made of.\<close>

lemma c_tolower_upper [simp, char_eval]:
  "c_tolower (CHR ''A'') = CHR ''a''"
  "c_tolower (CHR ''B'') = CHR ''b''"
  "c_tolower (CHR ''C'') = CHR ''c''"
  "c_tolower (CHR ''D'') = CHR ''d''"
  "c_tolower (CHR ''E'') = CHR ''e''"
  "c_tolower (CHR ''F'') = CHR ''f''"
  "c_tolower (CHR ''G'') = CHR ''g''"
  "c_tolower (CHR ''H'') = CHR ''h''"
  "c_tolower (CHR ''I'') = CHR ''i''"
  "c_tolower (CHR ''J'') = CHR ''j''"
  "c_tolower (CHR ''K'') = CHR ''k''"
  "c_tolower (CHR ''L'') = CHR ''l''"
  "c_tolower (CHR ''M'') = CHR ''m''"
  "c_tolower (CHR ''N'') = CHR ''n''"
  "c_tolower (CHR ''O'') = CHR ''o''"
  "c_tolower (CHR ''P'') = CHR ''p''"
  "c_tolower (CHR ''Q'') = CHR ''q''"
  "c_tolower (CHR ''R'') = CHR ''r''"
  "c_tolower (CHR ''S'') = CHR ''s''"
  "c_tolower (CHR ''T'') = CHR ''t''"
  "c_tolower (CHR ''U'') = CHR ''u''"
  "c_tolower (CHR ''V'') = CHR ''v''"
  "c_tolower (CHR ''W'') = CHR ''w''"
  "c_tolower (CHR ''X'') = CHR ''x''"
  "c_tolower (CHR ''Y'') = CHR ''y''"
  "c_tolower (CHR ''Z'') = CHR ''z''"
  by (simp_all add: c_tolower_def char_of_def bit_0)

lemma c_tolower_other [simp, char_eval]:
  "c_tolower (CHR ''a'') = CHR ''a''"
  "c_tolower (CHR ''b'') = CHR ''b''"
  "c_tolower (CHR ''c'') = CHR ''c''"
  "c_tolower (CHR ''d'') = CHR ''d''"
  "c_tolower (CHR ''e'') = CHR ''e''"
  "c_tolower (CHR ''f'') = CHR ''f''"
  "c_tolower (CHR ''g'') = CHR ''g''"
  "c_tolower (CHR ''h'') = CHR ''h''"
  "c_tolower (CHR ''i'') = CHR ''i''"
  "c_tolower (CHR ''j'') = CHR ''j''"
  "c_tolower (CHR ''k'') = CHR ''k''"
  "c_tolower (CHR ''l'') = CHR ''l''"
  "c_tolower (CHR ''m'') = CHR ''m''"
  "c_tolower (CHR ''n'') = CHR ''n''"
  "c_tolower (CHR ''o'') = CHR ''o''"
  "c_tolower (CHR ''p'') = CHR ''p''"
  "c_tolower (CHR ''q'') = CHR ''q''"
  "c_tolower (CHR ''r'') = CHR ''r''"
  "c_tolower (CHR ''s'') = CHR ''s''"
  "c_tolower (CHR ''t'') = CHR ''t''"
  "c_tolower (CHR ''u'') = CHR ''u''"
  "c_tolower (CHR ''v'') = CHR ''v''"
  "c_tolower (CHR ''w'') = CHR ''w''"
  "c_tolower (CHR ''x'') = CHR ''x''"
  "c_tolower (CHR ''y'') = CHR ''y''"
  "c_tolower (CHR ''z'') = CHR ''z''"
  "c_tolower (CHR ''-'') = CHR ''-''"
  "c_tolower (CHR ''/'') = CHR ''/''"
  "c_tolower (CHR ''+'') = CHR ''+''"
  "c_tolower (CHR ''='') = CHR ''=''"
  "c_tolower (CHR '';'') = CHR '';''"
  "c_tolower (CHR '':'') = CHR '':''"
  "c_tolower (CHR '','') = CHR '',''"
  "c_tolower (CHR ''.'') = CHR ''.''"
  "c_tolower (CHR ''*'') = CHR ''*''"
  "c_tolower (CHR ''_'') = CHR ''_''"
  "c_tolower (CHR '' '') = CHR '' ''"
  by (simp_all add: c_tolower_def)

lemma to_lower_idem [simp]: "to_lower (to_lower s) = to_lower s"
  by (simp add: to_lower_def)

lemma length_to_lower [simp]: "length (to_lower s) = length s"
  by (simp add: to_lower_def)

lemma to_lower_append [simp]: "to_lower (s @ t) = to_lower s @ to_lower t"
  by (simp add: to_lower_def)

section \<open>Decimal and hexadecimal numerals\<close>

text \<open>The digit a character stands for in a base up to 16, as \<open>std::from_chars\<close> reads it.\<close>

definition digit_of :: "nat \<Rightarrow> char \<Rightarrow> nat option" where
  "digit_of base c =
     (let n = byte_of c;
          d = (if 48 \<le> n \<and> n \<le> 57 then n - 48
               else if 97 \<le> n \<and> n \<le> 102 then n - 87
               else if 65 \<le> n \<and> n \<le> 70 then n - 55
               else 16)
      in if d < base then Some d else None)"

definition is_digit :: "nat \<Rightarrow> char \<Rightarrow> bool" where
  "is_digit base c \<longleftrightarrow> digit_of base c \<noteq> None"

definition digit_char :: "nat \<Rightarrow> char" where
  "digit_char d = char_of (if d < 10 then d + 48 else d + 87)"

fun num_val :: "nat \<Rightarrow> nat \<Rightarrow> string \<Rightarrow> nat" where
  "num_val base acc [] = acc"
| "num_val base acc (c # s) =
     num_val base (acc * base + (case digit_of base c of None \<Rightarrow> 0 | Some d \<Rightarrow> d)) s"

text \<open>
  \<open>std::from_chars\<close> on an unsigned type whose largest value is \<open>maxv\<close>: the longest run of
  digits is read; an empty run is \<open>invalid_argument\<close>, a value that does not fit is
  \<open>result_out_of_range\<close>; otherwise the value and the number of characters consumed.
\<close>

datatype from_chars_error = Errc_invalid_argument | Errc_result_out_of_range

definition from_chars_u :: "nat \<Rightarrow> nat \<Rightarrow> string \<Rightarrow> from_chars_error + (nat \<times> nat)" where
  "from_chars_u base maxv s =
     (let ds = takeWhile (is_digit base) s
      in if ds = [] then Inl Errc_invalid_argument
         else if maxv < num_val base 0 ds then Inl Errc_result_out_of_range
         else Inr (num_val base 0 ds, length ds))"

text \<open>\<open>operator<<\<close> on an unsigned integer, in base 10 (default) or 16 (\<open>std::hex\<close>).\<close>

function num_str :: "nat \<Rightarrow> nat \<Rightarrow> string" where
  "num_str base n =
     (if base < 2 \<or> n < base then [digit_char n]
      else num_str base (n div base) @ [digit_char (n mod base)])"
  by pat_completeness auto
termination
  by (relation "measure snd") auto

declare num_str.simps [simp del]

abbreviation dec_str :: "nat \<Rightarrow> string" where
  "dec_str \<equiv> num_str 10"

abbreviation hex_str :: "nat \<Rightarrow> string" where
  "hex_str \<equiv> num_str 16"

text \<open>\<open>operator<<\<close> and \<open>std::to_string\<close> on a signed integer.\<close>

definition int_str :: "int \<Rightarrow> string" where
  "int_str i = (if i < 0 then CHR ''-'' # dec_str (nat (- i)) else dec_str (nat i))"

lemma digit_of_digit_char:
  assumes "d < base" "base \<le> 16"
  shows "digit_of base (digit_char d) = Some d"
  using assms by (auto simp: digit_of_def digit_char_def Let_def of_char_of)

lemma is_digit_digit_char: "d < base \<Longrightarrow> base \<le> 16 \<Longrightarrow> is_digit base (digit_char d)"
  by (simp add: is_digit_def digit_of_digit_char)

lemma num_val_append: "num_val base acc (s @ t) = num_val base (num_val base acc s) t"
  by (induction s arbitrary: acc) auto


lemma num_str_nonempty [simp]: "num_str base n \<noteq> []"
  by (subst num_str.simps) simp

lemma num_str_digits:
  "2 \<le> base \<Longrightarrow> base \<le> 16 \<Longrightarrow> list_all (is_digit base) (num_str base n)"
proof (induction base n rule: num_str.induct)
  case (1 base n)
  show ?case
  proof (cases "n < base")
    case True
    with 1 show ?thesis by (subst num_str.simps) (simp add: is_digit_digit_char)
  next
    case False
    with 1 have "list_all (is_digit base) (num_str base (n div base))" by simp
    with False 1 show ?thesis by (subst num_str.simps) (simp add: is_digit_digit_char)
  qed
qed

lemma num_val_num_str:
  "2 \<le> base \<Longrightarrow> base \<le> 16 \<Longrightarrow> num_val base 0 (num_str base n) = n"
proof (induction base n rule: num_str.induct)
  case (1 base n)
  show ?case
  proof (cases "n < base")
    case True
    with 1 show ?thesis by (subst num_str.simps) (simp add: digit_of_digit_char)
  next
    case False
    with 1 have "num_val base 0 (num_str base (n div base)) = n div base" by simp
    with False 1 show ?thesis
      by (subst num_str.simps) (simp add: num_val_append digit_of_digit_char)
  qed
qed

lemma takeWhile_stop: "list_all P s \<Longrightarrow> (t = [] \<or> \<not> P (hd t)) \<Longrightarrow> takeWhile P (s @ t) = s"
  by (induction s) (auto simp: takeWhile_eq_Nil_iff)

text \<open>Printing and reading an unsigned number are inverse, in base 10 and in base 16.\<close>

lemma from_chars_num_str:
  assumes "2 \<le> base" "base \<le> 16" "n \<le> maxv" "t = [] \<or> \<not> is_digit base (hd t)"
  shows "from_chars_u base maxv (num_str base n @ t) = Inr (n, length (num_str base n))"
proof -
  have "takeWhile (is_digit base) (num_str base n @ t) = num_str base n"
    by (rule takeWhile_stop) (use assms num_str_digits in auto)
  with assms show ?thesis by (simp add: from_chars_u_def num_val_num_str)
qed

section \<open>C strings and std::string\<close>

text \<open>
  \<open>strncmp (s, t, n) == 0\<close>.  A list stands for the bytes from the pointer up to the
  terminating NUL, or up to what is read when the bound \<open>n\<close> stops the comparison first.
\<close>

fun strncmp_eq :: "string \<Rightarrow> string \<Rightarrow> nat \<Rightarrow> bool" where
  "strncmp_eq s t 0 = True"
| "strncmp_eq s t (Suc n) =
     (let a = (case s of [] \<Rightarrow> NUL | x # _ \<Rightarrow> x);
          b = (case t of [] \<Rightarrow> NUL | y # _ \<Rightarrow> y)
      in if a \<noteq> b then False else if a = NUL then True else strncmp_eq (tl s) (tl t) n)"

text \<open>\<open>strncasecmp (s, t, n) == 0\<close>: the same on lower-cased characters.\<close>

definition strncasecmp_eq :: "string \<Rightarrow> string \<Rightarrow> nat \<Rightarrow> bool" where
  "strncasecmp_eq s t n = strncmp_eq (to_lower s) (to_lower t) n"

text \<open>\<open>std::string::find (c, from)\<close>; \<open>None\<close> is \<open>npos\<close>.\<close>

fun find_from :: "char \<Rightarrow> string \<Rightarrow> nat \<Rightarrow> nat option" where
  "find_from c [] i = None"
| "find_from c (x # s) i = (if x = c then Some i else find_from c s (Suc i))"

definition str_find :: "string \<Rightarrow> char \<Rightarrow> nat \<Rightarrow> nat option" where
  "str_find s c from = find_from c (drop from s) from"

text \<open>\<open>std::string::substr (pos, len)\<close>, which throws when \<open>pos\<close> is past the end.\<close>

definition substr :: "string \<Rightarrow> nat \<Rightarrow> nat \<Rightarrow> string result" where
  "substr s pos len =
     (if length s < pos then Inl (Out_Of_Range ''basic_string::substr'')
      else Inr (take len (drop pos s)))"

lemma find_from_None: "find_from c s i = None \<longleftrightarrow> c \<notin> set s"
  by (induction s arbitrary: i) auto

lemma find_from_Some:
  "find_from c s i = Some j \<longleftrightarrow>
     i \<le> j \<and> j < i + length s \<and> s ! (j - i) = c \<and> c \<notin> set (take (j - i) s)"
proof (induction s arbitrary: i)
  case (Cons x s)
  show ?case
  proof (cases "i < j")
    case True
    then obtain d where d: "j = Suc (i + d)" using less_iff_Suc_add by auto
    show ?thesis using Cons.IH [of "Suc i"] by (auto simp: d)
  next
    case False
    then show ?thesis using Cons.IH [of "Suc i"] by auto
  qed
qed simp

lemma str_find_split:
  "c \<notin> set a \<Longrightarrow> str_find (a @ c # b) c 0 = Some (length a)"
  by (simp add: str_find_def find_from_Some nth_append)

lemma str_find_absent: "str_find s c 0 = None \<longleftrightarrow> c \<notin> set s"
  by (simp add: str_find_def find_from_None)

section \<open>Sizes\<close>

text \<open>
  Sizes are \<open>size_t\<close> values, kept as natural numbers; where the code converts one to the
  signed \<open>ssize_t\<close> or wraps, the conversion is written out at 64 bits.
\<close>

definition SIZE_MODULUS :: nat where "SIZE_MODULUS = 2 ^ 64"

definition sz_of_ssz :: "int \<Rightarrow> nat" where
  "sz_of_ssz i = nat (i mod 2 ^ 64)"

definition ssz_of_sz :: "nat \<Rightarrow> int" where
  "ssz_of_sz n = (let m = int n mod 2 ^ 64 in if m < 2 ^ 63 then m else m - 2 ^ 64)"

lemma ssz_of_sz_small [simp]:
  assumes "n < 2 ^ 63"
  shows "ssz_of_sz n = int n"
proof -
  have "int n < int (2 ^ 63)" using assms by (simp only: of_nat_less_iff)
  then have lt: "int n < 2 ^ 63" by simp
  then have "int n mod 2 ^ 64 = int n" by (intro mod_pos_pos_trivial) simp_all
  with lt show ?thesis by (simp add: ssz_of_sz_def)
qed

lemma ssz_of_sz_le: "ssz_of_sz n \<le> int n"
proof -
  have "int n mod 2 ^ 64 \<le> int n" by (rule zmod_le_nonneg_dividend) simp
  then show ?thesis by (simp add: ssz_of_sz_def Let_def)
qed

lemma sz_of_ssz_nonneg [simp]: "0 \<le> i \<Longrightarrow> i < 2 ^ 64 \<Longrightarrow> sz_of_ssz i = nat i"
  by (simp add: sz_of_ssz_def)

lemma sz_of_ssz_neg:
  assumes "- (2 ^ 63) \<le> i" "i < 0"
  shows "int (sz_of_ssz i) = i + 2 ^ 64"
proof -
  have "(i + 2 ^ 64) mod 2 ^ 64 = i + 2 ^ 64"
    using assms by (intro mod_pos_pos_trivial) simp_all
  then have "i mod 2 ^ 64 = i + 2 ^ 64" by simp
  with assms show ?thesis by (simp add: sz_of_ssz_def)
qed

lemma ssz_of_sz_of_ssz [simp]:
  assumes "- (2 ^ 63) \<le> i" "i < 2 ^ 63"
  shows "ssz_of_sz (sz_of_ssz i) = i"
proof (cases "0 \<le> i")
  case True
  with assms have "nat i < 2 ^ 63" by (simp add: nat_less_iff)
  with True assms show ?thesis by simp
next
  case False
  then have m: "int (sz_of_ssz i) = i + 2 ^ 64" using assms by (simp add: sz_of_ssz_neg)
  have "int (sz_of_ssz i) mod 2 ^ 64 = i + 2 ^ 64"
    unfolding m using False assms by (intro mod_pos_pos_trivial) simp_all
  moreover have "\<not> i + 2 ^ 64 < 2 ^ 63" using assms by simp
  ultimately show ?thesis by (simp add: ssz_of_sz_def Let_def)
qed

section \<open>Hash maps\<close>

text \<open>
  A \<open>std::unordered_map\<close> is an association list with distinct keys.  Its order stands for
  the iteration order of the container, which the standard leaves unspecified: theorems
  about loops over a map are stated for lists in every order.  \<open>um_insert\<close> is
  \<open>insert\<close> (and \<open>emplace\<close>), which leaves the map alone when the key is present;
  \<open>um_assign\<close> is \<open>m[k] = v\<close>; \<open>um_erase\<close> is \<open>erase\<close>.  The first argument
  is the key equality the container is instantiated with.
\<close>

fun um_find :: "('k \<Rightarrow> 'k \<Rightarrow> bool) \<Rightarrow> ('k \<times> 'v) list \<Rightarrow> 'k \<Rightarrow> 'v option" where
  "um_find eq [] k = None"
| "um_find eq ((k', v) # m) k = (if eq k' k then Some v else um_find eq m k)"

definition um_insert :: "('k \<Rightarrow> 'k \<Rightarrow> bool) \<Rightarrow> 'k \<Rightarrow> 'v \<Rightarrow> ('k \<times> 'v) list \<Rightarrow> ('k \<times> 'v) list" where
  "um_insert eq k v m = (case um_find eq m k of Some _ \<Rightarrow> m | None \<Rightarrow> (k, v) # m)"

fun um_assign :: "('k \<Rightarrow> 'k \<Rightarrow> bool) \<Rightarrow> 'k \<Rightarrow> 'v \<Rightarrow> ('k \<times> 'v) list \<Rightarrow> ('k \<times> 'v) list" where
  "um_assign eq k v [] = [(k, v)]"
| "um_assign eq k v ((k', w) # m) =
     (if eq k' k then (k', v) # m else (k', w) # um_assign eq k v m)"

definition um_erase :: "('k \<Rightarrow> 'k \<Rightarrow> bool) \<Rightarrow> 'k \<Rightarrow> ('k \<times> 'v) list \<Rightarrow> ('k \<times> 'v) list" where
  "um_erase eq k m = filter (\<lambda>(k', _). \<not> eq k' k) m"

text \<open>The part of the container's contract that clients use.\<close>

locale unordered_map =
  fixes key_eq :: "'k \<Rightarrow> 'k \<Rightarrow> bool"
    and look :: "'m \<Rightarrow> 'k \<Rightarrow> 'v option"
    and ins :: "'k \<Rightarrow> 'v \<Rightarrow> 'm \<Rightarrow> 'm"
    and era :: "'k \<Rightarrow> 'm \<Rightarrow> 'm"
  assumes key_refl: "key_eq k k"
    and key_sym: "key_eq k k' \<Longrightarrow> key_eq k' k"
    and key_trans: "key_eq k k' \<Longrightarrow> key_eq k' k'' \<Longrightarrow> key_eq k k''"
    and look_cong: "key_eq k k' \<Longrightarrow> look m k = look m k'"
    and look_ins: "look (ins k v m) k' =
          (if key_eq k k' \<and> look m k' = None then Some v else look m k')"
    and ins_present: "look m k \<noteq> None \<Longrightarrow> ins k v m = m"
    and look_era: "look (era k m) k' = (if key_eq k k' then None else look m k')"
begin

lemma look_ins_same: "look (ins k v m) k \<noteq> None"
  by (simp add: look_ins key_refl)

lemma ins_twice: "ins k w (ins k v m) = ins k v m"
  by (rule ins_present) (rule look_ins_same)

lemma look_fold_mono: "look m k \<noteq> None \<Longrightarrow> look (fold (\<lambda>(a, b). ins a b) kvs m) k = look m k"
proof (induction kvs arbitrary: m)
  case (Cons kv kvs)
  obtain a b where "kv = (a, b)" by (cases kv)
  moreover from Cons.prems have "look (ins a b m) k = look m k" by (simp add: look_ins)
  ultimately show ?case using Cons.IH [of "ins a b m"] Cons.prems by simp
qed simp

lemma look_fold_mem:
  "(k, v) \<in> set kvs \<Longrightarrow> look (fold (\<lambda>(a, b). ins a b) kvs m) k \<noteq> None"
proof (induction kvs arbitrary: m)
  case (Cons kv kvs)
  show ?case
  proof (cases "kv = (k, v)")
    case True
    then show ?thesis
      using look_fold_mono [of "ins k v m" k kvs] look_ins_same [of k v m] by simp
  next
    case False
    with Cons show ?thesis by (cases kv) auto
  qed
qed simp

text \<open>The value found after a sequence of insertions is the first one inserted.\<close>

lemma look_fold:
  "look (fold (\<lambda>(a, b). ins a b) kvs m) k =
     (case look m k of
        Some v \<Rightarrow> Some v
      | None \<Rightarrow> map_option snd (List.find (\<lambda>(a, _). key_eq a k) kvs))"
proof (induction kvs arbitrary: m)
  case (Cons kv kvs)
  obtain a b where kv: "kv = (a, b)" by (cases kv)
  show ?case
    using Cons.IH [of "ins a b m"] by (auto simp: kv look_ins split: option.split)
qed (simp split: option.split)

lemma fold_ins_absorb:
  "\<forall>(k, v) \<in> set kvs. look m k \<noteq> None \<Longrightarrow> fold (\<lambda>(a, b). ins a b) kvs m = m"
proof (induction kvs)
  case (Cons kv kvs)
  then show ?case by (cases kv) (auto simp: ins_present)
qed simp

text \<open>
  Inserting a sequence of which a prefix has been inserted before is inserting the
  sequence once: an interrupted run of insertions can be repeated from the start.
\<close>

lemma fold_ins_resume:
  "fold (\<lambda>(a, b). ins a b) (ps @ qs) (fold (\<lambda>(a, b). ins a b) ps m) =
   fold (\<lambda>(a, b). ins a b) (ps @ qs) m"
proof -
  have "fold (\<lambda>(a, b). ins a b) ps (fold (\<lambda>(a, b). ins a b) ps m) =
        fold (\<lambda>(a, b). ins a b) ps m"
    by (rule fold_ins_absorb) (auto dest: look_fold_mem)
  then show ?thesis by simp
qed

end

text \<open>Association lists under any equivalence of keys satisfy the contract.\<close>

lemma um_find_cong: "equivp eq \<Longrightarrow> eq k k' \<Longrightarrow> um_find eq m k = um_find eq m k'"
  by (induction m) (auto simp: equivp_def)

lemma um_find_erase:
  "equivp eq \<Longrightarrow> um_find eq (um_erase eq k m) k' = (if eq k k' then None else um_find eq m k')"
  by (induction m) (auto simp: um_erase_def equivp_def)

lemma um_find_insert:
  assumes "equivp eq"
  shows "um_find eq (um_insert eq k v m) k' =
     (if eq k k' \<and> um_find eq m k' = None then Some v else um_find eq m k')"
proof (cases "eq k k'")
  case True
  with assms have "um_find eq m k = um_find eq m k'" by (rule um_find_cong)
  with True show ?thesis by (auto simp: um_insert_def split: option.split)
next
  case False
  then show ?thesis by (auto simp: um_insert_def split: option.split)
qed

lemma um_insert_present: "um_find eq m k \<noteq> None \<Longrightarrow> um_insert eq k v m = m"
  by (auto simp: um_insert_def)

lemma unordered_map_um:
  assumes "equivp eq"
  shows "unordered_map eq (um_find eq) (um_insert eq) (um_erase eq)"
proof
  fix k k' k'' :: 'a and v :: 'b and m :: "('a \<times> 'b) list"
  show "eq k k" by (rule equivp_reflp [OF assms])
  show "eq k k' \<Longrightarrow> eq k' k" by (rule equivp_symp [OF assms])
  show "eq k k' \<Longrightarrow> eq k' k'' \<Longrightarrow> eq k k''" by (rule equivp_transp [OF assms])
  show "eq k k' \<Longrightarrow> um_find eq m k = um_find eq m k'" by (rule um_find_cong [OF assms])
qed (simp_all add: um_find_insert um_insert_present um_find_erase assms)

text \<open>The containers keyed by plain \<open>std::string\<close> equality.\<close>

interpretation str_map: unordered_map "(=)" "um_find (=)" "um_insert (=)" "um_erase (=)"
  by (rule unordered_map_um) (rule identity_equivp)

end
