(* ===== verification/Stream_Buf.thy ===== *)
theory Stream_Buf
  imports Pist_Prelude
begin

text \<open>
  The byte streams of include/pistache/stream.h and src/common/stream.cc: the get area and its
  cursor (\<open>StreamBuf\<close>, \<open>StreamCursor\<close>, \<open>Token\<close>, \<open>Revert\<close>), the matchers every parser of
  the library is written with, the bounded input buffer \<open>ArrayStreamBuf\<close>, the output buffer
  \<open>DynamicStreamBuf\<close> and \<open>RawBuffer\<close>.  The laws the parsers rely on (a matcher leaves the
  bytes alone and only moves the cursor forward) are the locale \<open>scanner\<close>, interpreted for
  every matcher.
\<close>

section \<open>The get area and its cursor\<close>

text \<open>
  \<open>sbuf\<close> is the area between \<open>eback\<close> and \<open>egptr\<close>, \<open>spos\<close> the offset of
  \<open>gptr\<close> in it.  A \<open>StreamCursor\<close> is a pointer to such a buffer, so that its operations
  return the buffer they leave.
\<close>

record scursor =
  sbuf :: string
  spos :: nat

definition RawStreamBuf :: "string \<Rightarrow> scursor" where
  "RawStreamBuf s = \<lparr>sbuf = s, spos = 0\<rparr>"

definition buf_reset :: "scursor \<Rightarrow> scursor" where
  "buf_reset c = \<lparr>sbuf = [], spos = 0\<rparr>"

definition rest :: "scursor \<Rightarrow> string" where
  "rest c = drop (spos c) (sbuf c)"

definition remaining :: "scursor \<Rightarrow> nat" where
  "remaining c = length (sbuf c) - spos c"

definition eof :: "scursor \<Rightarrow> bool" where
  "eof c \<longleftrightarrow> remaining c = 0"

text \<open>
  \<open>current\<close> casts \<open>sgetc\<close> to \<open>char\<close>, so that the end of the input reads as the byte 0xFF;
  \<open>next\<close> returns an \<open>int\<close> made from a signed \<open>char\<close> or \<open>Eof\<close> = -1, which again is the
  value of the byte 0xFF.  Both are given as that byte.
\<close>

definition current :: "scursor \<Rightarrow> char" where
  "current c = (case rest c of [] \<Rightarrow> EOF_char | x # _ \<Rightarrow> x)"

definition next_char :: "scursor \<Rightarrow> char" where
  "next_char c = (if remaining c \<le> 1 then EOF_char
                  else case rest c of _ # y # _ \<Rightarrow> y | _ \<Rightarrow> EOF_char)"

definition eol :: "scursor \<Rightarrow> bool" where
  "eol c \<longleftrightarrow> rest c \<noteq> [] \<and> current c = CR \<and> next_char c = LF"

text \<open>
  \<open>advance\<close> compares the count, converted to the signed \<open>ssize_t\<close>, with the bytes
  available; a count of 2^63 or more converts to a negative number, passes the test, and the
  loop makes all its \<open>sbumpc\<close> calls, of which those at the end of the buffer move nothing: the result
  is the end of the buffer, after a time that the model does not count.
\<close>

definition advance :: "nat \<Rightarrow> scursor \<Rightarrow> bool \<times> scursor" where
  "advance count c =
     (if int (remaining c) < ssz_of_sz count then (False, c)
      else (True, c\<lparr>spos := min (spos c + count) (max (spos c) (length (sbuf c)))\<rparr>))"

text \<open>The text between the start of a token and the cursor (\<open>StreamCursor::Token\<close>).\<close>

definition token_text :: "scursor \<Rightarrow> scursor \<Rightarrow> string" where
  "token_text start c = take (spos c - spos start) (rest start)"

definition diff :: "scursor \<Rightarrow> nat \<Rightarrow> nat" where
  "diff c other = spos c - other"

definition StreamCursor :: "scursor \<Rightarrow> nat \<Rightarrow> scursor" where
  "StreamCursor b initialPos = snd (advance initialPos b)"

section \<open>Matchers\<close>

datatype CaseSensitivity = Sensitive | Insensitive

definition match_raw :: "string \<Rightarrow> scursor \<Rightarrow> bool \<times> scursor" where
  "match_raw s c =
     (if remaining c < length s then (False, c)
      else if take (length s) (rest c) = s then (True, snd (advance (length s) c))
      else (False, c))"

definition match_string :: "string \<Rightarrow> CaseSensitivity \<Rightarrow> scursor \<Rightarrow> bool \<times> scursor" where
  "match_string s cs c =
     (if remaining c < length s then (False, c)
      else case cs of
        Sensitive \<Rightarrow>
          if strncmp_eq (rest c) s (length s) then (True, snd (advance (length s) c)) else (False, c)
      | Insensitive \<Rightarrow>
          if list_all2 (\<lambda>a b. c_tolower a = c_tolower b) s (take (length s) (rest c))
          then (True, snd (advance (length s) c)) else (False, c))"

definition match_literal :: "char \<Rightarrow> CaseSensitivity \<Rightarrow> scursor \<Rightarrow> bool \<times> scursor" where
  "match_literal ch cs c =
     (if eof c then (False, c)
      else let lhs = (if cs = Sensitive then ch else c_tolower ch);
               rhs = (if cs = Sensitive then current c else c_tolower (current c))
           in if lhs = rhs then (True, snd (advance 1 c)) else (False, c))"

text \<open>The lambda \<open>find\<close> of \<open>match_until\<close>, with its conditions as the source has them.\<close>

definition until_find :: "char list \<Rightarrow> CaseSensitivity \<Rightarrow> char \<Rightarrow> bool" where
  "until_find chars cs val =
     list_ex (\<lambda>ch. (if cs = Sensitive then ch else c_tolower ch)
                 = (if cs = Insensitive then val else c_tolower val)) chars"

lemma remaining_length_rest: "remaining c = length (rest c)"
  by (simp add: remaining_def rest_def)

lemma remaining_advance1:
  "\<not> eof c \<Longrightarrow> remaining (snd (advance 1 c)) < remaining c"
  by (auto simp: advance_def eof_def remaining_def)

function match_until_loop :: "(char \<Rightarrow> bool) \<Rightarrow> scursor \<Rightarrow> bool \<times> scursor" where
  "match_until_loop f c =
     (if eof c then (False, c)
      else if f (current c) then (True, c)
      else match_until_loop f (snd (advance 1 c)))"
  by pat_completeness auto
termination
  by (relation "measure (\<lambda>(f, c). remaining c)") (auto simp: remaining_advance1 simp del: One_nat_def)

declare match_until_loop.simps [simp del]

definition match_until :: "char list \<Rightarrow> CaseSensitivity \<Rightarrow> scursor \<Rightarrow> bool \<times> scursor" where
  "match_until chars cs c =
     (if eof c then (False, c) else match_until_loop (until_find chars cs) c)"

function skip_ws_loop :: "scursor \<Rightarrow> scursor" where
  "skip_ws_loop c =
     (if current c \<noteq> EOF_char \<and> (current c = SP \<or> current c = HTAB)
      then skip_ws_loop (snd (advance 1 c)) else c)"
  by pat_completeness auto
termination
proof (relation "measure remaining")
  fix c :: scursor
  assume "current c \<noteq> EOF_char \<and> (current c = SP \<or> current c = HTAB)"
  then have "\<not> eof c"
    by (auto simp: current_def eof_def remaining_length_rest split: list.splits)
  then show "(snd (advance 1 c), c) \<in> measure remaining"
    by (simp add: remaining_advance1 del: One_nat_def)
qed simp

declare skip_ws_loop.simps [simp del]

definition skip_whitespaces :: "scursor \<Rightarrow> scursor" where
  "skip_whitespaces c = (if eof c then c else skip_ws_loop c)"

text \<open>
  The loop \<open>while (p) if (!cursor.advance(1)) return State::Again;\<close> that the parsing steps
  are built from: \<open>(True, c)\<close> when the condition fails at \<open>c\<close>, \<open>(False, c)\<close> when the
  input ends first.
\<close>

function advance_while :: "(scursor \<Rightarrow> bool) \<Rightarrow> scursor \<Rightarrow> bool \<times> scursor" where
  "advance_while p c =
     (if \<not> p c then (True, c)
      else if fst (advance 1 c) then advance_while p (snd (advance 1 c))
      else (False, c))"
  by pat_completeness auto
termination
proof (relation "measure (\<lambda>(p, c). remaining c)")
  fix p :: "scursor \<Rightarrow> bool" and c :: scursor
  assume "fst (advance 1 c)"
  then have "\<not> eof c" by (auto simp: advance_def eof_def split: if_splits)
  then show "((p, snd (advance 1 c)), p, c) \<in> measure (\<lambda>(p, c). remaining c)"
    by (simp add: remaining_advance1 del: One_nat_def)
qed simp

declare advance_while.simps [simp del]

section \<open>Progress\<close>

text \<open>No operation gives bytes back, which is what the loops of the parsers terminate by.\<close>

lemma remaining_advance_le: "remaining (snd (advance n c)) \<le> remaining c"
  by (auto simp: advance_def remaining_def)

lemma remaining_match_raw_le: "remaining (snd (match_raw s c)) \<le> remaining c"
  by (simp add: match_raw_def remaining_advance_le)

lemma remaining_match_string_le: "remaining (snd (match_string s cs c)) \<le> remaining c"
  by (simp add: match_string_def remaining_advance_le split: CaseSensitivity.split)

lemma remaining_match_literal_le: "remaining (snd (match_literal ch cs c)) \<le> remaining c"
  by (simp add: match_literal_def Let_def remaining_advance_le del: One_nat_def)

lemma remaining_match_literal_less:
  "fst (match_literal ch cs c) \<Longrightarrow> remaining (snd (match_literal ch cs c)) < remaining c"
  by (auto simp: match_literal_def Let_def remaining_advance1 simp del: One_nat_def split: if_splits)

lemma remaining_match_string_less:
  assumes "match_string s cs c = (True, c1)" "s \<noteq> []"
  shows "remaining c1 < remaining c"
proof -
  have le: "length s \<le> remaining c" and c1: "c1 = snd (advance (length s) c)"
    using assms by (auto simp: match_string_def split: if_splits CaseSensitivity.splits)
  have "\<not> int (remaining c) < ssz_of_sz (length s)"
    using le ssz_of_sz_le [of "length s"] by linarith
  moreover have "0 < length s" using assms by simp
  ultimately show ?thesis
    using le by (simp only: c1 advance_def if_False snd_conv) (simp add: remaining_def del: length_greater_0_conv)
qed

lemma remaining_match_until_loop_le: "remaining (snd (match_until_loop f c)) \<le> remaining c"
proof (induction f c rule: match_until_loop.induct)
  case (1 f c)
  show ?case
    using 1 remaining_advance_le [of 1 c]
    by (subst match_until_loop.simps) (auto simp del: One_nat_def)
qed

lemma remaining_match_until_le: "remaining (snd (match_until chars cs c)) \<le> remaining c"
  by (simp add: match_until_def remaining_match_until_loop_le)

lemma remaining_advance_while_le: "remaining (snd (advance_while p c)) \<le> remaining c"
proof (induction p c rule: advance_while.induct)
  case (1 p c)
  show ?case
    using 1 remaining_advance_le [of 1 c]
    by (subst advance_while.simps) (auto simp del: One_nat_def)
qed

lemma remaining_skip_ws_loop_le: "remaining (skip_ws_loop c) \<le> remaining c"
proof (induction c rule: skip_ws_loop.induct)
  case (1 c)
  show ?case
    using 1 remaining_advance_le [of 1 c]
    by (subst skip_ws_loop.simps) (auto simp del: One_nat_def)
qed

lemma remaining_skip_whitespaces_le: "remaining (skip_whitespaces c) \<le> remaining c"
  by (simp add: skip_whitespaces_def remaining_skip_ws_loop_le)

lemmas remaining_le = remaining_advance_le remaining_match_raw_le remaining_match_string_le
  remaining_match_literal_le remaining_match_until_le remaining_advance_while_le
  remaining_skip_whitespaces_le

section \<open>Laws of the cursor\<close>

text \<open>
  A well-formed cursor is inside its buffer, and the buffer is an object in memory, shorter
  than 2^63 bytes.
\<close>

definition wf_cursor :: "scursor \<Rightarrow> bool" where
  "wf_cursor c \<longleftrightarrow> spos c \<le> length (sbuf c) \<and> length (sbuf c) < 2 ^ 63"

lemma wf_RawStreamBuf [simp]: "length s < 2 ^ 63 \<Longrightarrow> wf_cursor (RawStreamBuf s)"
  by (simp add: wf_cursor_def RawStreamBuf_def)

lemma rest_RawStreamBuf [simp]: "rest (RawStreamBuf s) = s"
  by (simp add: rest_def RawStreamBuf_def)

lemma eof_rest: "eof c \<longleftrightarrow> rest c = []"
  by (simp add: eof_def remaining_length_rest)

lemma current_rest:
  "rest c = x # xs \<Longrightarrow> current c = x" "rest c = [] \<Longrightarrow> current c = EOF_char"
  by (simp_all add: current_def)

lemma eol_rest: "eol c \<longleftrightarrow> (\<exists>t. rest c = CR # LF # t)"
  by (auto simp: eol_def current_def next_char_def remaining_length_rest split: list.splits)

lemma rest_move: "rest (c\<lparr>spos := spos c + n\<rparr>) = drop n (rest c)"
  by (simp add: rest_def add.commute)

lemma rest_Suc: "rest c = x # xs \<Longrightarrow> rest (c\<lparr>spos := Suc (spos c)\<rparr>) = xs"
  using rest_move [of c 1] by simp

lemma wf_move: "wf_cursor c \<Longrightarrow> n \<le> remaining c \<Longrightarrow> wf_cursor (c\<lparr>spos := spos c + n\<rparr>)"
  by (auto simp: wf_cursor_def remaining_def)

lemma advance_small:
  "n < 2 ^ 63 \<Longrightarrow> advance n c =
     (if remaining c < n then (False, c)
      else (True, c\<lparr>spos := min (spos c + n) (max (spos c) (length (sbuf c)))\<rparr>))"
  by (simp add: advance_def)

lemma advance_ok:
  assumes "wf_cursor c" "n \<le> remaining c"
  shows "advance n c = (True, c\<lparr>spos := spos c + n\<rparr>)"
proof -
  have "n < 2 ^ 63" using assms by (auto simp: wf_cursor_def remaining_def)
  moreover have "min (spos c + n) (max (spos c) (length (sbuf c))) = spos c + n"
    using assms by (auto simp: wf_cursor_def remaining_def)
  ultimately show ?thesis using assms by (simp add: advance_small)
qed

lemma advance_fail: "n < 2 ^ 63 \<Longrightarrow> remaining c < n \<Longrightarrow> advance n c = (False, c)"
  by (simp add: advance_small)

lemma advance1_Cons:
  "wf_cursor c \<Longrightarrow> rest c = x # xs \<Longrightarrow> advance 1 c = (True, c\<lparr>spos := Suc (spos c)\<rparr>)"
  using advance_ok [of c 1] by (simp add: remaining_length_rest)

lemma advance1_Nil: "rest c = [] \<Longrightarrow> advance 1 c = (False, c)"
  by (rule advance_fail) (simp_all add: remaining_length_rest)

lemma wf_Suc: "wf_cursor c \<Longrightarrow> rest c = x # xs \<Longrightarrow> wf_cursor (c\<lparr>spos := Suc (spos c)\<rparr>)"
  using wf_move [of c 1] by (simp add: remaining_length_rest)

lemma spos_le_end: "wf_cursor c \<Longrightarrow> spos c + length (rest c) = length (sbuf c)"
  by (simp add: wf_cursor_def rest_def)

text \<open>What every matcher owes its caller.\<close>

locale scanner =
  fixes scan :: "scursor \<Rightarrow> 'r \<times> scursor"
  assumes keeps_buf: "wf_cursor c \<Longrightarrow> sbuf (snd (scan c)) = sbuf c"
    and forward: "wf_cursor c \<Longrightarrow> spos c \<le> spos (snd (scan c))"
    and inside: "wf_cursor c \<Longrightarrow> spos (snd (scan c)) \<le> length (sbuf c)"
begin

lemma wf_scan: "wf_cursor c \<Longrightarrow> wf_cursor (snd (scan c))"
  using keeps_buf [of c] inside [of c] by (simp add: wf_cursor_def)

lemma remaining_scan: "wf_cursor c \<Longrightarrow> remaining (snd (scan c)) \<le> remaining c"
  using keeps_buf [of c] forward [of c] by (simp add: remaining_def)

lemma rest_scan: "wf_cursor c \<Longrightarrow> rest c = token_text c (snd (scan c)) @ rest (snd (scan c))"
proof -
  assume wf: "wf_cursor c"
  let ?n = "spos (snd (scan c)) - spos c"
  have "rest (snd (scan c)) = drop ?n (rest c)"
    using keeps_buf [OF wf] forward [OF wf] by (simp add: rest_def)
  then show ?thesis by (simp add: token_text_def)
qed

lemma scan_shape: "wf_cursor c \<Longrightarrow> scan c = (r, c') \<Longrightarrow>
    \<exists>n \<le> remaining c. c' = c\<lparr>spos := spos c + n\<rparr>"
  using keeps_buf [of c] forward [of c] inside [of c]
  by (intro exI [of _ "spos c' - spos c"]) (auto simp: remaining_def)

end

lemma scannerI:
  assumes "\<And>c. wf_cursor c \<Longrightarrow> \<exists>n \<le> remaining c. snd (scan c) = c\<lparr>spos := spos c + n\<rparr>"
  shows "scanner scan"
proof
  fix c assume wf: "wf_cursor c"
  then obtain n where n: "n \<le> remaining c" "snd (scan c) = c\<lparr>spos := spos c + n\<rparr>"
    using assms by blast
  then show "sbuf (snd (scan c)) = sbuf c" "spos c \<le> spos (snd (scan c))"
    "spos (snd (scan c)) \<le> length (sbuf c)"
    using wf by (auto simp: wf_cursor_def remaining_def)
qed

lemma advance_shape: "wf_cursor c \<Longrightarrow> \<exists>n \<le> remaining c. snd (advance k c) = c\<lparr>spos := spos c + n\<rparr>"
proof -
  assume wf: "wf_cursor c"
  have "min (spos c + k) (max (spos c) (length (sbuf c))) = spos c + min k (remaining c)"
    using wf by (auto simp: wf_cursor_def remaining_def)
  then show ?thesis
    by (cases "int (remaining c) < ssz_of_sz k")
      (auto simp: advance_def intro: exI [of _ 0] exI [of _ "min k (remaining c)"])
qed

interpretation adv: scanner "advance n" for n
  by (rule scannerI) (rule advance_shape)

interpretation mraw: scanner "match_raw s" for s
  by (rule scannerI) (auto simp: match_raw_def intro: advance_shape exI [of _ 0])

interpretation mstr: scanner "match_string s cs" for s cs
  by (rule scannerI)
    (auto simp: match_string_def intro: advance_shape exI [of _ 0] split: CaseSensitivity.split)

interpretation mlit: scanner "match_literal ch cs" for ch cs
  by (rule scannerI) (auto simp: match_literal_def Let_def intro: advance_shape exI [of _ 0])

section \<open>What the matchers compute\<close>

lemma match_until_loop_eq:
  "wf_cursor c \<Longrightarrow> match_until_loop f c =
     (list_ex f (rest c), c\<lparr>spos := spos c + length (takeWhile (\<lambda>x. \<not> f x) (rest c))\<rparr>)"
proof (induction f c rule: match_until_loop.induct)
  case (1 f c)
  show ?case
  proof (cases "rest c")
    case Nil
    then show ?thesis by (subst match_until_loop.simps) (simp add: eof_rest)
  next
    case (Cons x xs)
    let ?c = "c\<lparr>spos := Suc (spos c)\<rparr>"
    have a: "snd (advance 1 c) = ?c" using advance1_Cons [OF 1(2) Cons] by simp
    have wf: "wf_cursor ?c" using 1(2) Cons by (rule wf_Suc)
    have r: "rest ?c = xs" using Cons by (rule rest_Suc)
    show ?thesis
    proof (cases "f x")
      case True
      with Cons show ?thesis
        by (subst match_until_loop.simps) (simp add: eof_rest current_rest)
    next
      case False
      then have "match_until_loop f ?c =
          (list_ex f xs, ?c\<lparr>spos := spos ?c + length (takeWhile (\<lambda>x. \<not> f x) xs)\<rparr>)"
        using 1 Cons a wf r by (simp add: eof_rest current_rest)
      with False Cons a show ?thesis
        by (subst match_until_loop.simps) (simp add: eof_rest current_rest)
    qed
  qed
qed

text \<open>
  \<open>match_until\<close> stops in front of the first byte its predicate accepts, or at the end.
\<close>

lemma match_until_eq:
  assumes "wf_cursor c"
  shows "match_until chars cs c =
     (list_ex (until_find chars cs) (rest c),
      c\<lparr>spos := spos c + length (takeWhile (\<lambda>x. \<not> until_find chars cs x) (rest c))\<rparr>)"
  using assms by (simp add: match_until_def match_until_loop_eq eof_rest)

interpretation muntil: scanner "match_until chars cs" for chars cs
proof (rule scannerI)
  fix c assume wf: "wf_cursor c"
  have "length (takeWhile (\<lambda>x. \<not> until_find chars cs x) (rest c)) \<le> remaining c"
    by (simp add: remaining_length_rest length_takeWhile_le)
  with wf show "\<exists>n\<le>remaining c. snd (match_until chars cs c) = c\<lparr>spos := spos c + n\<rparr>"
    by (auto simp: match_until_eq)
qed

lemma skip_ws_loop_eq:
  "wf_cursor c \<Longrightarrow> skip_ws_loop c =
     c\<lparr>spos := spos c + length (takeWhile (\<lambda>x. x = SP \<or> x = HTAB) (rest c))\<rparr>"
proof (induction c rule: skip_ws_loop.induct)
  case (1 c)
  show ?case
  proof (cases "rest c")
    case Nil
    then show ?thesis by (subst skip_ws_loop.simps) (simp add: current_rest)
  next
    case (Cons x xs)
    let ?c = "c\<lparr>spos := Suc (spos c)\<rparr>"
    have a: "snd (advance 1 c) = ?c" using advance1_Cons [OF 1(2) Cons] by simp
    have wf: "wf_cursor ?c" using 1(2) Cons by (rule wf_Suc)
    have r: "rest ?c = xs" using Cons by (rule rest_Suc)
    show ?thesis
    proof (cases "x = SP \<or> x = HTAB")
      case True
      then have "skip_ws_loop ?c =
          ?c\<lparr>spos := spos ?c + length (takeWhile (\<lambda>x. x = SP \<or> x = HTAB) xs)\<rparr>"
        using 1 Cons a wf r by (auto simp: current_rest)
      with True Cons a show ?thesis
        by (subst skip_ws_loop.simps) (auto simp: current_rest)
    next
      case False
      with Cons show ?thesis by (subst skip_ws_loop.simps) (simp add: current_rest)
    qed
  qed
qed

lemma skip_whitespaces_eq:
  "wf_cursor c \<Longrightarrow> skip_whitespaces c =
     c\<lparr>spos := spos c + length (takeWhile (\<lambda>x. x = SP \<or> x = HTAB) (rest c))\<rparr>"
  by (simp add: skip_whitespaces_def skip_ws_loop_eq eof_rest)

interpretation skipws: scanner "\<lambda>c. ((), skip_whitespaces c)"
proof (rule scannerI)
  fix c assume wf: "wf_cursor c"
  have "length (takeWhile (\<lambda>x. x = SP \<or> x = HTAB) (rest c)) \<le> remaining c"
    by (simp add: remaining_length_rest length_takeWhile_le)
  with wf show "\<exists>n\<le>remaining c. snd ((), skip_whitespaces c) = c\<lparr>spos := spos c + n\<rparr>"
    by (auto simp: skip_whitespaces_eq)
qed

text \<open>
  The loop over a condition on the current byte.  Where the condition holds at the end of the
  input (\<open>q EOF_char\<close>) the loop reports that the input ended; otherwise it stops there.
\<close>

lemma advance_while_step:
  "p c \<Longrightarrow> fst (advance 1 c) \<Longrightarrow> advance_while p c = advance_while p (snd (advance 1 c))"
  "\<not> p c \<Longrightarrow> advance_while p c = (True, c)"
  "p c \<Longrightarrow> \<not> fst (advance 1 c) \<Longrightarrow> advance_while p c = (False, c)"
  by (subst advance_while.simps, simp)+

lemma advance_while_char:
  assumes "wf_cursor c" "q EOF_char"
  shows "advance_while (\<lambda>c. q (current c)) c =
     (list_ex (\<lambda>x. \<not> q x) (rest c), c\<lparr>spos := spos c + length (takeWhile q (rest c))\<rparr>)"
  using assms
proof (induction "rest c" arbitrary: c)
  case Nil
  then have r: "rest c = []" by simp
  then show ?case
    using Nil(3) advance_while_step(3) [of "\<lambda>c. q (current c)" c]
    by (simp add: current_rest advance1_Nil del: One_nat_def)
next
  case (Cons x xs)
  then have r: "rest c = x # xs" by simp
  let ?c = "c\<lparr>spos := Suc (spos c)\<rparr>"
  have a: "advance 1 c = (True, ?c)" using Cons.prems(1) r by (rule advance1_Cons)
  have "rest ?c = xs" using r by (rule rest_Suc)
  moreover have "wf_cursor ?c" using Cons.prems(1) r by (rule wf_Suc)
  ultimately have ih: "advance_while (\<lambda>c. q (current c)) ?c =
      (list_ex (\<lambda>x. \<not> q x) xs, ?c\<lparr>spos := spos ?c + length (takeWhile q xs)\<rparr>)"
    using Cons.hyps(1) [of ?c] Cons.prems(2) by simp
  show ?case
  proof (cases "q x")
    case True
    with ih a r advance_while_step(1) [of "\<lambda>c. q (current c)" c] show ?thesis
      by (simp add: current_rest del: One_nat_def)
  next
    case False
    with r advance_while_step(2) [of "\<lambda>c. q (current c)" c] show ?thesis
      by (simp add: current_rest)
  qed
qed

lemma advance_while_char_stop:
  assumes "wf_cursor c" "\<not> q EOF_char"
  shows "advance_while (\<lambda>c. q (current c)) c =
     (True, c\<lparr>spos := spos c + length (takeWhile q (rest c))\<rparr>)"
  using assms
proof (induction "rest c" arbitrary: c)
  case Nil
  then have r: "rest c = []" by simp
  then show ?case
    using Nil(3) advance_while_step(2) [of "\<lambda>c. q (current c)" c] by (simp add: current_rest)
next
  case (Cons x xs)
  then have r: "rest c = x # xs" by simp
  let ?c = "c\<lparr>spos := Suc (spos c)\<rparr>"
  have a: "advance 1 c = (True, ?c)" using Cons.prems(1) r by (rule advance1_Cons)
  have "rest ?c = xs" using r by (rule rest_Suc)
  moreover have "wf_cursor ?c" using Cons.prems(1) r by (rule wf_Suc)
  ultimately have ih: "advance_while (\<lambda>c. q (current c)) ?c =
      (True, ?c\<lparr>spos := spos ?c + length (takeWhile q xs)\<rparr>)"
    using Cons.hyps(1) [of ?c] Cons.prems(2) by simp
  show ?case
  proof (cases "q x")
    case True
    with ih a r advance_while_step(1) [of "\<lambda>c. q (current c)" c] show ?thesis
      by (simp add: current_rest del: One_nat_def)
  next
    case False
    with r advance_while_step(2) [of "\<lambda>c. q (current c)" c] show ?thesis
      by (simp add: current_rest)
  qed
qed

text \<open>The bytes in front of the first CRLF, which is what \<open>while (!cursor.eol())\<close> skips.\<close>

fun before_crlf :: "string \<Rightarrow> string option" where
  "before_crlf (x # y # s) =
     (if x = CR \<and> y = LF then Some [] else map_option ((#) x) (before_crlf (y # s)))"
| "before_crlf s = None"

lemma before_crlf_Some: "before_crlf s = Some l \<Longrightarrow> \<exists>t. s = l @ crlf @ t"
proof (induction s arbitrary: l rule: before_crlf.induct)
  case (1 x y s)
  then show ?case
    by (cases "x = CR \<and> y = LF") auto
qed simp_all

lemma before_crlf_append: "before_crlf s = Some l \<Longrightarrow> before_crlf (s @ t) = Some l"
proof (induction s arbitrary: l rule: before_crlf.induct)
  case (1 x y s)
  then show ?case by (cases "x = CR \<and> y = LF") auto
qed simp_all

lemma before_crlf_line: "CR \<notin> set l \<Longrightarrow> before_crlf (l @ CR # LF # t) = Some l"
proof (induction l)
  case (Cons x l)
  then show ?case by (cases "l @ CR # LF # t") auto
qed simp

lemma advance_while_eol:
  assumes "wf_cursor c"
  shows "advance_while (\<lambda>c. \<not> eol c) c =
     (case before_crlf (rest c) of
        Some l \<Rightarrow> (True, c\<lparr>spos := spos c + length l\<rparr>)
      | None \<Rightarrow> (False, c\<lparr>spos := length (sbuf c)\<rparr>))"
  using assms
proof (induction "rest c" arbitrary: c)
  case Nil
  then have r: "rest c = []" by simp
  then have "\<not> eol c" by (simp add: eol_rest)
  moreover have "c\<lparr>spos := length (sbuf c)\<rparr> = c" using spos_le_end [OF Nil(2)] r by simp
  ultimately show ?case
    using r advance_while_step(3) [of "\<lambda>c. \<not> eol c" c] advance1_Nil [OF r] by simp
next
  case (Cons x xs)
  then have r: "rest c = x # xs" by simp
  let ?c = "c\<lparr>spos := Suc (spos c)\<rparr>"
  have a: "advance 1 c = (True, ?c)" using Cons.prems r by (rule advance1_Cons)
  have r': "rest ?c = xs" using r by (rule rest_Suc)
  have ih: "advance_while (\<lambda>c. \<not> eol c) ?c =
      (case before_crlf xs of
         Some l \<Rightarrow> (True, ?c\<lparr>spos := spos ?c + length l\<rparr>)
       | None \<Rightarrow> (False, ?c\<lparr>spos := length (sbuf ?c)\<rparr>))"
    using Cons.hyps(1) [of ?c] r' wf_Suc [OF Cons.prems r] by simp
  show ?case
  proof (cases "eol c")
    case True
    with r advance_while_step(2) [of "\<lambda>c. \<not> eol c" c] show ?thesis
      by (auto simp: eol_rest)
  next
    case False
    then have "before_crlf (x # xs) = map_option ((#) x) (before_crlf xs)"
      using r by (cases xs) (auto simp: eol_rest)
    with False ih a r advance_while_step(1) [of "\<lambda>c. \<not> eol c" c] show ?thesis
      by (simp split: option.split del: One_nat_def)
  qed
qed

lemma match_raw_eq:
  assumes "wf_cursor c"
  shows "match_raw s c =
     (if prefix s (rest c) then (True, c\<lparr>spos := spos c + length s\<rparr>) else (False, c))"
proof (cases "prefix s (rest c)")
  case True
  then obtain t where "rest c = s @ t" by (auto simp: prefix_def)
  then show ?thesis using assms True
    by (simp add: match_raw_def remaining_length_rest advance_ok)
next
  case False
  moreover from False have "take (length s) (rest c) \<noteq> s"
    using take_is_prefix by metis
  ultimately show ?thesis by (simp add: match_raw_def)
qed

lemma match_literal_eq:
  assumes "wf_cursor c"
  shows "match_literal ch Insensitive c =
     (case rest c of
        [] \<Rightarrow> (False, c)
      | x # xs \<Rightarrow> if c_tolower ch = c_tolower x then (True, c\<lparr>spos := Suc (spos c)\<rparr>)
                  else (False, c))"
  using assms advance1_Cons [OF assms]
  by (auto simp: match_literal_def eof_rest current_rest split: list.split simp del: One_nat_def)

lemma list_all2_lower:
  "list_all2 (\<lambda>a b. c_tolower a = c_tolower b) s t \<longleftrightarrow> to_lower s = to_lower t"
  by (induction s t rule: list_induct2') (auto simp: to_lower_def)

text \<open>Case-insensitive matching compares with the lower-cased input.\<close>

lemma match_string_eq:
  assumes "wf_cursor c"
  shows "match_string s Insensitive c =
     (if prefix (to_lower s) (to_lower (rest c))
      then (True, c\<lparr>spos := spos c + length s\<rparr>) else (False, c))"
proof (cases "length s \<le> length (rest c)")
  case True
  have "to_lower (take (length s) (rest c)) = take (length s) (to_lower (rest c))"
    by (simp add: to_lower_def take_map)
  moreover have "prefix (to_lower s) (to_lower (rest c)) \<longleftrightarrow>
      to_lower s = take (length s) (to_lower (rest c))"
    by (metis length_to_lower append_eq_conv_conj prefix_def take_is_prefix)
  ultimately show ?thesis using True assms
    by (simp add: match_string_def remaining_length_rest list_all2_lower advance_ok)
next
  case False
  then have "\<not> prefix (to_lower s) (to_lower (rest c))"
    by (metis length_to_lower prefix_length_le)
  with False show ?thesis by (simp add: match_string_def remaining_length_rest)
qed

text \<open>Tokens: the text between two positions of one cursor.\<close>

lemma token_text_move [simp]: "token_text c (c\<lparr>spos := spos c + n\<rparr>) = take n (rest c)"
  by (simp add: token_text_def)

lemma takeWhile_neq_split:
  "x \<notin> set a \<Longrightarrow> t = [] \<or> hd t = x \<Longrightarrow> takeWhile (\<lambda>y. y \<noteq> x) (a @ t) = a"
  by (rule takeWhile_stop) (auto simp: list_all_iff)

text \<open>\<open>match_until\<close> with one character that has no upper case.\<close>

lemma match_until_one:
  assumes "wf_cursor c" "c_tolower ch = ch"
  shows "match_until [ch] Insensitive c =
     (ch \<in> set (rest c), c\<lparr>spos := spos c + length (takeWhile (\<lambda>x. x \<noteq> ch) (rest c))\<rparr>)"
  using assms by (auto simp: match_until_eq until_find_def list_ex_iff)

lemma match_until_stop:
  assumes "wf_cursor c" "c_tolower ch = ch" "rest c = a @ t" "ch \<notin> set a" "t = [] \<or> hd t = ch"
  shows "match_until [ch] Insensitive c = (t \<noteq> [], c\<lparr>spos := spos c + length a\<rparr>)"
proof -
  have "takeWhile (\<lambda>x. x \<noteq> ch) (rest c) = a"
    using takeWhile_neq_split [OF assms(4,5)] assms(3) by simp
  moreover have "ch \<in> set (rest c) \<longleftrightarrow> t \<noteq> []" using assms(3-5) by (cases t) auto
  ultimately show ?thesis unfolding match_until_one [OF assms(1,2)] by simp
qed

lemma move_move [simp]: "c\<lparr>spos := a\<rparr>\<lparr>spos := b\<rparr> = c\<lparr>spos := b\<rparr>" for c :: scursor
  by simp

lemma rest_at: "rest c = a @ t \<Longrightarrow> rest (c\<lparr>spos := spos c + length a\<rparr>) = t"
  by (simp add: rest_move)

lemma wf_at: "wf_cursor c \<Longrightarrow> rest c = a @ t \<Longrightarrow> wf_cursor (c\<lparr>spos := spos c + length a\<rparr>)"
  by (rule wf_move) (simp_all add: remaining_length_rest)

end
