(* ===== verification/Byte_Buffers.thy ===== *)
theory Byte_Buffers
  imports Stream_Buf
begin

text \<open>
  The buffers of stream.h: \<open>ArrayStreamBuf\<close>, the bounded buffer a parser is fed through;
  \<open>RawBuffer\<close>, the bytes handed to the transport; \<open>DynamicStreamBuf\<close>, the growing output
  buffer under an \<open>std::ostream\<close>.  The last one is shown to implement the contract of a
  bounded byte sink (locale \<open>byte_sink\<close>), which is all its clients use.
\<close>

section \<open>ArrayStreamBuf\<close>

text \<open>\<open>ab_area\<close> is the vector \<open>bytes\<close> with the read position, \<open>ab_max\<close> is \<open>maxSize_\<close>.\<close>

record array_buf =
  ab_area :: scursor
  ab_max :: nat

definition ArrayStreamBuf :: "nat \<Rightarrow> array_buf" where
  "ArrayStreamBuf maxSize = \<lparr>ab_area = \<lparr>sbuf = [], spos = 0\<rparr>, ab_max = maxSize\<rparr>"

definition array_feed :: "string \<Rightarrow> array_buf \<Rightarrow> bool \<times> array_buf" where
  "array_feed data b =
     (if ab_max b < length (sbuf (ab_area b)) + length data then (False, b)
      else (True, b\<lparr>ab_area := \<lparr>sbuf = sbuf (ab_area b) @ data, spos = spos (ab_area b)\<rparr>\<rparr>))"

definition array_reset :: "array_buf \<Rightarrow> array_buf" where
  "array_reset b = b\<lparr>ab_area := \<lparr>sbuf = [], spos = 0\<rparr>\<rparr>"

definition array_inv :: "array_buf \<Rightarrow> bool" where
  "array_inv b \<longleftrightarrow> spos (ab_area b) \<le> length (sbuf (ab_area b))
                \<and> length (sbuf (ab_area b)) \<le> ab_max b"

lemma array_inv_init: "array_inv (ArrayStreamBuf n)"
  by (simp add: array_inv_def ArrayStreamBuf_def)

lemma array_inv_feed: "array_inv b \<Longrightarrow> array_inv (snd (array_feed data b))"
  by (auto simp: array_inv_def array_feed_def)

lemma array_inv_reset: "array_inv (array_reset b)"
  by (simp add: array_inv_def array_reset_def)

lemma wf_array_area: "array_inv b \<Longrightarrow> ab_max b < 2 ^ 63 \<Longrightarrow> wf_cursor (ab_area b)"
  by (simp add: array_inv_def wf_cursor_def)

lemma rest_array_feed:
  "array_inv b \<Longrightarrow> fst (array_feed data b) \<Longrightarrow>
   rest (ab_area (snd (array_feed data b))) = rest (ab_area b) @ data"
  by (simp add: array_feed_def array_inv_def rest_def split: if_splits)

section \<open>RawBuffer\<close>

record raw_buffer =
  rb_data :: string
  rb_length :: nat

definition RawBuffer :: "string \<Rightarrow> nat \<Rightarrow> raw_buffer" where
  "RawBuffer data len = \<lparr>rb_data = data, rb_length = len\<rparr>"

text \<open>The constructor from a pointer copies \<open>length\<close> bytes.\<close>

definition RawBuffer_ptr :: "string \<Rightarrow> nat \<Rightarrow> raw_buffer" where
  "RawBuffer_ptr mem len = \<lparr>rb_data = take len mem, rb_length = len\<rparr>"

definition raw_copy :: "raw_buffer \<Rightarrow> nat \<Rightarrow> raw_buffer result" where
  "raw_copy b fromIndex =
     (if rb_data b = [] then Inr (RawBuffer [] 0)
      else if rb_length b < fromIndex
        then Inl (Range_Error ''Trying to detach buffer from an index bigger than lengthght.'')
      else let newDatalength = rb_length b - fromIndex
           in case substr (rb_data b) fromIndex newDatalength of
                Inl e \<Rightarrow> Inl e
              | Inr newData \<Rightarrow> Inr (RawBuffer newData newDatalength))"

text \<open>
  A buffer detached at an offset holds exactly the bytes from there on: what the transport
  still has to write after a short write.
\<close>

lemma raw_copy_suffix:
  assumes "rb_length b = length (rb_data b)" "n \<le> rb_length b" "rb_data b \<noteq> []"
  shows "raw_copy b n = Inr (RawBuffer (drop n (rb_data b)) (length (rb_data b) - n))"
  using assms by (simp add: raw_copy_def substr_def RawBuffer_def)

section \<open>DynamicStreamBuf\<close>

text \<open>
  \<open>ds_data\<close> is the backing vector \<open>data_\<close>, \<open>ds_pptr\<close> the offset of \<open>pptr\<close> in it
  (\<open>epptr\<close> is always the end of the vector), \<open>ds_max\<close> is \<open>maxSize_\<close>.  The bytes a
  \<open>resize\<close> adds are zero.
\<close>

record dyn_buf =
  ds_data :: string
  ds_pptr :: nat
  ds_max :: nat

definition dyn_reserve :: "nat \<Rightarrow> dyn_buf \<Rightarrow> dyn_buf" where
  "dyn_reserve size0 d =
     (let sz = (if ds_max d < size0 then ds_max d else size0);
          oldSize = length (ds_data d)
      in d\<lparr>ds_data := take sz (ds_data d) @ replicate (sz - oldSize) NUL,
           ds_pptr := oldSize\<rparr>)"

text \<open>The constructor asserts \<open>size <= maxSize\<close>; \<open>None\<close> is the failed assertion.\<close>

definition DynamicStreamBuf :: "nat \<Rightarrow> nat \<Rightarrow> dyn_buf option" where
  "DynamicStreamBuf sz maxSize =
     (if maxSize < sz then None
      else Some (dyn_reserve sz \<lparr>ds_data = [], ds_pptr = 0, ds_max = maxSize\<rparr>))"

definition dyn_store :: "char \<Rightarrow> dyn_buf \<Rightarrow> dyn_buf" where
  "dyn_store ch d = d\<lparr>ds_data := (ds_data d)[ds_pptr d := ch], ds_pptr := Suc (ds_pptr d)\<rparr>"

definition dyn_overflow :: "char \<Rightarrow> dyn_buf \<Rightarrow> bool \<times> dyn_buf" where
  "dyn_overflow ch d =
     (let sz = length (ds_data d)
      in if sz < ds_max d
         then (True, dyn_store ch (dyn_reserve ((if sz \<noteq> 0 then sz else 1) * 2) d))
         else (False, d))"

text \<open>\<open>std::streambuf::sputc\<close>: store in the put area, or call \<open>overflow\<close> when it is full.\<close>

definition dyn_sputc :: "char \<Rightarrow> dyn_buf \<Rightarrow> bool \<times> dyn_buf" where
  "dyn_sputc ch d =
     (if ds_pptr d < length (ds_data d) then (True, dyn_store ch d) else dyn_overflow ch d)"

text \<open>\<open>xsputn\<close>, under \<open>ostream::write\<close> and \<open>operator<<\<close>: it stops at the first failure.\<close>

fun dyn_sputn :: "string \<Rightarrow> dyn_buf \<Rightarrow> bool \<times> dyn_buf" where
  "dyn_sputn [] d = (True, d)"
| "dyn_sputn (ch # s) d =
     (case dyn_sputc ch d of (ok, d') \<Rightarrow> if ok then dyn_sputn s d' else (False, d'))"

definition dyn_buffer :: "dyn_buf \<Rightarrow> raw_buffer" where
  "dyn_buffer d = RawBuffer_ptr (ds_data d) (ds_pptr d)"

definition dyn_clear :: "dyn_buf \<Rightarrow> dyn_buf" where
  "dyn_clear d = d\<lparr>ds_pptr := 0\<rparr>"

text \<open>The move constructor: the new buffer and the one moved from.\<close>

definition dyn_move :: "dyn_buf \<Rightarrow> dyn_buf \<times> dyn_buf" where
  "dyn_move other = (other, other\<lparr>ds_data := [], ds_pptr := 0\<rparr>)"

subsection \<open>A bounded byte sink\<close>

text \<open>
  What \<open>ostream\<close> clients rely on: bytes are appended in order up to the limit, and a write
  that does not fit reports failure after storing what does fit.
\<close>

locale byte_sink =
  fixes put :: "string \<Rightarrow> 'd \<Rightarrow> bool \<times> 'd"
    and content :: "'d \<Rightarrow> string"
    and limit :: "'d \<Rightarrow> nat"
    and inv :: "'d \<Rightarrow> bool"
  assumes inv_put: "inv d \<Longrightarrow> inv (snd (put s d))"
    and limit_put: "inv d \<Longrightarrow> limit (snd (put s d)) = limit d"
    and content_put: "inv d \<Longrightarrow>
          content (snd (put s d)) = content d @ take (limit d - length (content d)) s"
    and put_ok: "inv d \<Longrightarrow> fst (put s d) \<longleftrightarrow> length (content d) + length s \<le> limit d"
    and content_limit: "inv d \<Longrightarrow> length (content d) \<le> limit d"
begin

lemma put_success:
  "inv d \<Longrightarrow> fst (put s d) \<Longrightarrow> content (snd (put s d)) = content d @ s"
  by (simp add: content_put put_ok)

lemma put_failure_fills:
  "inv d \<Longrightarrow> \<not> fst (put s d) \<Longrightarrow> length (content (snd (put s d))) = limit d"
  using content_limit [of d] by (simp add: content_put put_ok)

lemma put_append:
  "inv d \<Longrightarrow> fst (put s d) \<Longrightarrow>
   content (snd (put t (snd (put s d)))) = content (snd (put (s @ t) d))
   \<and> fst (put t (snd (put s d))) = fst (put (s @ t) d)"
  by (simp add: content_put put_ok inv_put limit_put add.assoc)

end

definition dyn_content :: "dyn_buf \<Rightarrow> string" where
  "dyn_content d = take (ds_pptr d) (ds_data d)"

definition dyn_inv :: "dyn_buf \<Rightarrow> bool" where
  "dyn_inv d \<longleftrightarrow> ds_pptr d \<le> length (ds_data d) \<and> length (ds_data d) \<le> ds_max d"

lemma rb_data_dyn_buffer: "rb_data (dyn_buffer d) = dyn_content d"
  by (simp add: dyn_buffer_def RawBuffer_ptr_def dyn_content_def)

lemma dyn_inv_init: "DynamicStreamBuf n m = Some d \<Longrightarrow> dyn_inv d \<and> dyn_content d = [] \<and> ds_max d = m"
  by (auto simp: DynamicStreamBuf_def dyn_reserve_def dyn_inv_def dyn_content_def Let_def
      split: if_splits)

lemma dyn_store_spec:
  assumes "ds_pptr d < length (ds_data d)" "dyn_inv d"
  shows "dyn_inv (dyn_store ch d)" "dyn_content (dyn_store ch d) = dyn_content d @ [ch]"
    "ds_max (dyn_store ch d) = ds_max d"
  using assms by (auto simp: dyn_store_def dyn_inv_def dyn_content_def take_Suc_conv_app_nth)

lemma dyn_sputc_spec:
  assumes "dyn_inv d"
  shows "dyn_inv (snd (dyn_sputc ch d)) \<and> ds_max (snd (dyn_sputc ch d)) = ds_max d
     \<and> (if length (dyn_content d) < ds_max d
        then fst (dyn_sputc ch d) \<and> dyn_content (snd (dyn_sputc ch d)) = dyn_content d @ [ch]
        else \<not> fst (dyn_sputc ch d) \<and> snd (dyn_sputc ch d) = d)"
proof (cases "ds_pptr d < length (ds_data d)")
  case True
  with assms have "length (dyn_content d) < ds_max d" by (simp add: dyn_content_def dyn_inv_def)
  with True assms show ?thesis by (simp add: dyn_sputc_def dyn_store_spec)
next
  case False
  with assms have full: "ds_pptr d = length (ds_data d)" by (simp add: dyn_inv_def)
  let ?size = "length (ds_data d)"
  let ?d = "dyn_reserve ((if ?size \<noteq> 0 then ?size else 1) * 2) d"
  show ?thesis
  proof (cases "?size < ds_max d")
    case True
    have inv: "dyn_inv ?d" "ds_pptr ?d < length (ds_data ?d)" "dyn_content ?d = dyn_content d"
      "ds_max ?d = ds_max d"
      using True full by (auto simp: dyn_reserve_def dyn_inv_def dyn_content_def Let_def)
    note st = dyn_store_spec [OF inv(2) inv(1), of ch]
    have s: "dyn_sputc ch d = (True, dyn_store ch ?d)"
      using True full by (simp add: dyn_sputc_def dyn_overflow_def)
    have "length (dyn_content d) < ds_max d" using True full by (simp add: dyn_content_def)
    then show ?thesis unfolding s fst_conv snd_conv using st inv(3,4) by simp
  next
    case False
    with full assms show ?thesis
      by (simp add: dyn_sputc_def dyn_overflow_def dyn_content_def)
  qed
qed

lemma dyn_sputn_spec:
  "dyn_inv d \<Longrightarrow> dyn_inv (snd (dyn_sputn s d)) \<and> ds_max (snd (dyn_sputn s d)) = ds_max d
     \<and> dyn_content (snd (dyn_sputn s d)) = dyn_content d @ take (ds_max d - length (dyn_content d)) s
     \<and> (fst (dyn_sputn s d) \<longleftrightarrow> length (dyn_content d) + length s \<le> ds_max d)"
proof (induction s arbitrary: d)
  case Nil
  then show ?case by (simp add: dyn_inv_def dyn_content_def)
next
  case (Cons ch s)
  obtain ok d' where c: "dyn_sputc ch d = (ok, d')" by (cases "dyn_sputc ch d")
  note spec = dyn_sputc_spec [OF Cons.prems, of ch, unfolded c, simplified]
  show ?case
  proof (cases "length (dyn_content d) < ds_max d")
    case True
    then have d': "ok" "dyn_inv d'" "ds_max d' = ds_max d" "dyn_content d' = dyn_content d @ [ch]"
      using spec by auto
    have "take (ds_max d - length (dyn_content d)) (ch # s) =
        ch # take (ds_max d - Suc (length (dyn_content d))) s"
      using True by (simp add: take_Cons')
    with Cons.IH [OF d'(2)] d' show ?thesis by (simp add: c)
  next
    case False
    with spec Cons.prems show ?thesis by (auto simp: c)
  qed
qed

interpretation dyn_sink: byte_sink dyn_sputn dyn_content ds_max dyn_inv
  by unfold_locales
    (auto simp: dyn_sputn_spec, auto simp: dyn_inv_def dyn_content_def)

end
