(* ===== verification/Base64_Codec.thy ===== *)
theory Base64_Codec
  imports Pist_Prelude "HOL-Library.Word"
begin

unbundle bit_operations_syntax

text \<open>
  src/common/base64.cc: \<open>Base64Encoder\<close> and \<open>Base64Decoder\<close>, with the index arithmetic and
  the bounds-checked \<open>at\<close> accesses of the source.  \<open>Encode\<close> is declared \<open>noexcept\<close>: an
  access out of range would terminate the program and is \<open>None\<close>.  The loops are shown equal
  to a block-by-block reference codec, from which the round trip follows.
\<close>

type_synonym byte = "8 word"

definition byte_char :: "byte \<Rightarrow> char" where
  "byte_char b = char_of (unat b)"

definition char_byte :: "char \<Rightarrow> byte" where
  "char_byte c = word_of_nat (of_char c)"

section \<open>The encoder\<close>

definition EncodeByte :: "byte \<Rightarrow> byte" where
  "EncodeByte ch =
     (if ch < 26 then ch + 65
      else if ch < 52 then ch + 71
      else if ch < 62 then ch - 4
      else if ch = 62 then 43
      else if ch = 63 then 47
      else 64)"

text \<open>\<open>((4 * DecodedSize / 3) + 3) & ~3\<close> on \<open>size_t\<close>.\<close>

definition CalculateEncodedSize :: "nat \<Rightarrow> nat" where
  "CalculateEncodedSize n =
     unat ((word_of_nat (4 * n mod 2 ^ 64 div 3) + 3) AND NOT (3 :: 64 word))"

definition enc_char :: "byte \<Rightarrow> char" where
  "enc_char b = byte_char (EncodeByte b)"

text \<open>The four sextets of one octet triplet, as the encoder's loop body computes them.\<close>

definition enc1 :: "byte \<Rightarrow> char" where
  "enc1 a = enc_char (drop_bit 2 a)"

definition enc2 :: "byte \<Rightarrow> byte \<Rightarrow> char" where
  "enc2 a b = enc_char (push_bit 4 (a AND 3) OR drop_bit 4 b)"

definition enc3 :: "byte \<Rightarrow> byte \<Rightarrow> char" where
  "enc3 b c = enc_char (push_bit 2 (b AND 15) OR drop_bit 6 c)"

definition enc4 :: "byte \<Rightarrow> char" where
  "enc4 c = enc_char (c AND 63)"

text \<open>\<open>at\<close> on a vector or a string: a read, and a write of consecutive positions.\<close>

definition at :: "'a list \<Rightarrow> nat \<Rightarrow> 'a option" where
  "at xs i = (if i < length xs then Some (xs ! i) else None)"

definition at_put4 :: "'a list \<Rightarrow> nat \<Rightarrow> 'a \<Rightarrow> 'a \<Rightarrow> 'a \<Rightarrow> 'a \<Rightarrow> 'a list option" where
  "at_put4 xs i a b c d =
     (if i + 3 < length xs then Some (xs[i := a, i + 1 := b, i + 2 := c, i + 3 := d]) else None)"

fun Encode_loop :: "nat \<Rightarrow> byte list \<Rightarrow> nat \<Rightarrow> nat \<Rightarrow> string \<Rightarrow> (nat \<times> nat \<times> string) option" where
  "Encode_loop 0 inp io oo out = Some (io, oo, out)"
| "Encode_loop (Suc k) inp io oo out =
     (case (at inp io, at inp (io + 1), at inp (io + 2)) of
        (Some a, Some b, Some c) \<Rightarrow>
          (case at_put4 out oo (enc1 a) (enc2 a b) (enc3 b c) (enc4 c) of
             Some out' \<Rightarrow> Encode_loop k inp (io + 3) (oo + 4) out'
           | None \<Rightarrow> None)
      | _ \<Rightarrow> None)"

definition Encode :: "byte list \<Rightarrow> string option" where
  "Encode inp =
     (let out = replicate (CalculateEncodedSize (length inp)) (CHR ''!'');
          OctetTriplets = length inp div 3
      in case Encode_loop OctetTriplets inp 0 0 out of
           None \<Rightarrow> None
         | Some (io, oo, out) \<Rightarrow>
             (if length inp mod 3 = 1 then
                (case at inp io of
                   Some a \<Rightarrow> at_put4 out oo (enc1 a) (enc2 a 0) (CHR ''='') (CHR ''='')
                 | None \<Rightarrow> None)
              else if length inp mod 3 = 2 then
                (case (at inp io, at inp (io + 1)) of
                   (Some a, Some b) \<Rightarrow>
                     at_put4 out oo (enc1 a) (enc2 a b) (enc3 b 0) (CHR ''='')
                 | _ \<Rightarrow> None)
              else Some out))"

definition EncodeString :: "string \<Rightarrow> string option" where
  "EncodeString s = Encode (map char_byte s)"

section \<open>The decoder\<close>

definition DecodeCharacter :: "char \<Rightarrow> byte" where
  "DecodeCharacter ch =
     (let c = char_byte ch
      in if 65 \<le> c \<and> c \<le> 90 then c - 65
         else if 97 \<le> c \<and> c \<le> 122 then c - (97 - 26)
         else if 48 \<le> c \<and> c \<le> 57 then c - (48 - 52)
         else if c = 43 then 62
         else if c = 47 then 63
         else 255)"

fun decodable :: "string \<Rightarrow> nat" where
  "decodable [] = 0"
| "decodable (c # s) = (if DecodeCharacter c < 64 then Suc (decodable s) else 0)"

definition CalculateDecodedSize :: "string \<Rightarrow> nat result" where
  "CalculateDecodedSize s =
     (if s = [] then Inr 0
      else if length s < 4 then
        Inl (Runtime_Error ''Base64 encoded stream should always be at least four bytes.'')
      else if length s mod 4 \<noteq> 0 then
        Inl (Runtime_Error ''Base64 encoded stream length should always be evenly divisible by four.'')
      else let InputSize = decodable s;
               DecodedSize = InputSize div 4 * 3
           in Inr (if InputSize mod 4 = 2 then DecodedSize + 1
                   else if InputSize mod 4 = 3 then DecodedSize + 2
                   else DecodedSize))"

text \<open>The octets the decoder's loop body makes from consecutive characters.\<close>

definition dec1 :: "char \<Rightarrow> char \<Rightarrow> byte" where
  "dec1 a b = push_bit 2 (DecodeCharacter a) OR drop_bit 4 (DecodeCharacter b)"

definition dec2 :: "char \<Rightarrow> char \<Rightarrow> byte" where
  "dec2 b c = push_bit 4 (DecodeCharacter b) OR drop_bit 2 (DecodeCharacter c)"

definition dec3 :: "char \<Rightarrow> char \<Rightarrow> byte" where
  "dec3 c d = push_bit 6 (DecodeCharacter c) OR DecodeCharacter d"

text \<open>
  The loop \<open>for (Index = 2; Index < DecodedSize; Index += 3)\<close>; the output holds the bytes
  written so far in front of the zero bytes it was allocated with.
\<close>

function Decode_loop :: "nat \<Rightarrow> nat \<Rightarrow> string \<Rightarrow> nat \<Rightarrow> nat \<Rightarrow> byte list \<Rightarrow> (nat \<times> nat \<times> byte list) result" where
  "Decode_loop Index DecodedSize s io oo out =
     (if Index < DecodedSize then
        (case (at s io, at s (io + 1), at s (io + 2), at s (io + 3)) of
           (Some a, Some b, Some c, Some d) \<Rightarrow>
             if oo + 2 < length out then
               Decode_loop (Index + 3) DecodedSize s (io + 4) (oo + 3)
                 (out[oo := dec1 a b, oo + 1 := dec2 b c, oo + 2 := dec3 c d])
             else Inl (Out_Of_Range ''vector::_M_range_check'')
         | _ \<Rightarrow> Inl (Out_Of_Range ''basic_string::at''))
      else Inr (io, oo, out))"
  by pat_completeness auto
termination
  by (relation "measure (\<lambda>(i, n, _). n - i)") auto

declare Decode_loop.simps [simp del]

definition Decode :: "string \<Rightarrow> byte list result" where
  "Decode s =
     (case CalculateDecodedSize s of
        Inl e \<Rightarrow> Inl e
      | Inr DecodedSize \<Rightarrow>
          (case Decode_loop 2 DecodedSize s 0 0 (replicate DecodedSize 0) of
             Inl e \<Rightarrow> Inl e
           | Inr (io, oo, out) \<Rightarrow>
               (if DecodedSize mod 3 = 1 then
                  (case (at s io, at s (io + 1)) of
                     (Some a, Some b) \<Rightarrow>
                       if oo < length out then Inr (out[oo := dec1 a b])
                       else Inl (Out_Of_Range ''vector::_M_range_check'')
                   | _ \<Rightarrow> Inl (Out_Of_Range ''basic_string::at''))
                else if DecodedSize mod 3 = 2 then
                  (case (at s io, at s (io + 1), at s (io + 2)) of
                     (Some a, Some b, Some c) \<Rightarrow>
                       if oo + 1 < length out then Inr (out[oo := dec1 a b, oo + 1 := dec2 b c])
                       else Inl (Out_Of_Range ''vector::_M_range_check'')
                   | _ \<Rightarrow> Inl (Out_Of_Range ''basic_string::at''))
                else Inr out)))"

section \<open>The reference codec\<close>

fun enc_ref :: "byte list \<Rightarrow> string" where
  "enc_ref (a # b # c # r) = [enc1 a, enc2 a b, enc3 b c, enc4 c] @ enc_ref r"
| "enc_ref [a, b] = [enc1 a, enc2 a b, enc3 b 0, CHR ''='']"
| "enc_ref [a] = [enc1 a, enc2 a 0, CHR ''='', CHR ''='']"
| "enc_ref [] = []"

text \<open>One sextet survives encoding and decoding; the padding does not decode.\<close>

lemma unat_byte: "unat (b :: byte) < 256"
  using unsigned_less [of b] by simp

lemma char_byte_byte_char [simp]: "char_byte (byte_char b) = b"
  using unat_byte [of b] by (simp add: char_byte_def byte_char_def of_char_of)

lemma of_char_256: "(of_char c :: nat) < 256"
  by (metis UNIV_I atLeast0LessThan image_eqI lessThan_iff range_nat_of_char)

lemma byte_char_char_byte [simp]: "byte_char (char_byte c) = c"
  using of_char_256 [of c] by (simp add: char_byte_def byte_char_def unat_of_nat)

lemma unat_minus_4: "4 \<le> unat (x :: byte) \<Longrightarrow> unat (x - 4) = unat x - 4"
  by (subst unat_sub) (simp_all add: word_le_nat_alt)

lemma decode_enc_char:
  assumes "x < 64"
  shows "DecodeCharacter (enc_char x) = x"
  using assms unfolding DecodeCharacter_def enc_char_def char_byte_byte_char EncodeByte_def Let_def
  by (auto simp: word_less_nat_alt word_le_nat_alt unat_word_ariths word_unat_eq_iff unat_minus_4)

lemma decode_padding [simp]: "DecodeCharacter (CHR ''='') = 255"
  by code_simp

lemma byte_eqI:
  "bit a 0 = bit b 0 \<Longrightarrow> bit a 1 = bit b 1 \<Longrightarrow> bit a 2 = bit b 2 \<Longrightarrow> bit a 3 = bit b 3 \<Longrightarrow>
   bit a 4 = bit b 4 \<Longrightarrow> bit a 5 = bit b 5 \<Longrightarrow> bit a 6 = bit b 6 \<Longrightarrow> bit a 7 = bit b 7 \<Longrightarrow> a = (b :: byte)"
  by (rule bit_word_eqI) (auto simp: less_Suc_eq numeral_eq_Suc)

lemma bit_byte_high: "8 \<le> n \<Longrightarrow> \<not> bit (a :: byte) n"
  using bit_imp_le_length [of a n] by auto

lemma lt_64_iff: "x < 64 \<longleftrightarrow> \<not> bit x 6 \<and> \<not> bit (x :: byte) 7"
proof -
  have "x < 64 \<longleftrightarrow> drop_bit 6 x = 0"
    using unat_byte [of x] by (auto simp: word_less_nat_alt word_unat_eq_iff drop_bit_eq_div unat_div)
  also have "\<dots> \<longleftrightarrow> \<not> bit x 6 \<and> \<not> bit x 7"
  proof
    assume "drop_bit 6 x = 0"
    then have "\<not> bit (drop_bit 6 x) 0" "\<not> bit (drop_bit 6 x) 1" by simp_all
    then show "\<not> bit x 6 \<and> \<not> bit x 7" by (simp add: bit_simps)
  next
    assume "\<not> bit x 6 \<and> \<not> bit x 7"
    then show "drop_bit 6 x = 0"
      by (intro byte_eqI) (auto simp: bit_simps bit_byte_high)
  qed
  finally show ?thesis .
qed

lemma sextet_bounds:
  "drop_bit 2 (a :: byte) < 64" "push_bit 4 (a AND 3) OR drop_bit 4 (b :: byte) < 64"
  "push_bit 2 (b AND 15) OR drop_bit 6 (c :: byte) < 64" "(c :: byte) AND 63 < 64"
  by (auto simp: lt_64_iff bit_simps bit_byte_high)

lemma octets:
  "push_bit 2 (drop_bit 2 a) OR drop_bit 4 (push_bit 4 (a AND 3) OR drop_bit 4 b) = (a :: byte)"
  "push_bit 4 (push_bit 4 (a AND 3) OR drop_bit 4 b) OR drop_bit 2 (push_bit 2 (b AND 15) OR drop_bit 6 c) = (b :: byte)"
  "push_bit 6 (push_bit 2 (b AND 15) OR drop_bit 6 c) OR (c AND 63) = (c :: byte)"
  by (rule byte_eqI; auto simp: bit_simps bit_byte_high)+

lemma dec_enc [simp]:
  "dec1 (enc1 a) (enc2 a b) = a"
  "dec2 (enc2 a b) (enc3 b c) = b"
  "dec3 (enc3 b c) (enc4 c) = c"
  by (simp_all only: dec1_def dec2_def dec3_def enc1_def enc2_def enc3_def enc4_def
      decode_enc_char sextet_bounds octets)

lemma enc_decodable [simp]:
  "DecodeCharacter (enc1 a) < 64" "DecodeCharacter (enc2 a b) < 64"
  "DecodeCharacter (enc3 b c) < 64" "DecodeCharacter (enc4 c) < 64"
  by (simp_all only: enc1_def enc2_def enc3_def enc4_def decode_enc_char sextet_bounds)

section \<open>The loops compute the reference codec\<close>

lemma and_not_3: "(w :: 64 word) AND NOT 3 = push_bit 2 (drop_bit 2 w)"
proof -
  have "w AND NOT (mask 2) = push_bit 2 (drop_bit 2 w)"
  proof (rule bit_eqI)
    fix n
    have "2 \<le> n \<Longrightarrow> Suc (Suc (n - 2)) = n" by simp
    then show "bit (w AND NOT (mask 2)) n = bit (push_bit 2 (drop_bit 2 w)) n"
      using bit_imp_le_length [of w n] by (auto simp: bit_simps)
  qed
  then show ?thesis by (simp add: mask_eq_exp_minus_1)
qed

lemma unat_and_not_3: "unat ((w :: 64 word) AND NOT 3) = unat w div 4 * 4"
proof -
  have "unat w < 2 ^ 64" using unsigned_less [of w] by simp
  then show ?thesis unfolding and_not_3
    by (simp add: push_bit_eq_mult drop_bit_eq_div unat_word_ariths unat_div)
qed

lemma CalculateEncodedSize_eq:
  assumes "n < 2 ^ 62"
  shows "CalculateEncodedSize n = 4 * ((n + 2) div 3)"
proof -
  have small: "4 * n mod 2 ^ 64 = 4 * n" using assms by simp
  have "unat (word_of_nat (4 * n mod 2 ^ 64 div 3) + 3 :: 64 word) = 4 * n div 3 + 3"
    using assms by (simp add: small unat_word_ariths unat_of_nat)
  then have "CalculateEncodedSize n = (4 * n div 3 + 3) div 4 * 4"
    by (simp only: CalculateEncodedSize_def unat_and_not_3)
  moreover have "(4 * n div 3 + 3) div 4 = (n + 2) div 3"
  proof -
    define q r where "q = n div 3" "r = n mod 3"
    have n: "n = r + q * 3" "r = 0 \<or> r = 1 \<or> r = 2" unfolding q_r_def by presburger+
    have "4 * n div 3 = 4 * q + 4 * r div 3"
      using div_mult_self1 [of 3 "4 * r" "4 * q"] by (simp add: n(1) algebra_simps)
    with n(2) show ?thesis by (auto simp: n(1))
  qed
  ultimately show ?thesis by simp
qed

lemma length_enc_ref: "length (enc_ref inp) = 4 * ((length inp + 2) div 3)"
proof (induction inp rule: enc_ref.induct)
  case (1 a b c r)
  have "(length (a # b # c # r) + 2) div 3 = Suc ((length r + 2) div 3)"
    using div_add_self2 [of 3 "length r + 2"] by (simp add: add.commute)
  with 1 show ?case by (simp del: length_Cons)
qed simp_all

lemma at_append [simp]: "at (xs @ y # ys) (length xs) = Some y"
  by (simp add: at_def)

lemma at_append_off [simp]: "at (xs @ ys) (length xs + k) = at ys k"
  by (auto simp: at_def nth_append)

lemma at_put4_append:
  "4 \<le> n \<Longrightarrow> at_put4 (xs @ replicate n p) (length xs) a b c d =
     Some (xs @ [a, b, c, d] @ replicate (n - 4) p)"
proof -
  assume "4 \<le> n"
  then obtain m where "n = Suc (Suc (Suc (Suc m)))"
    by (metis add_Suc le_Suc_ex numeral_eq_Suc numeral_3_eq_3 pred_numeral_simps(2) semiring_norm(26,27) add_0)
  then show ?thesis by (simp add: at_put4_def list_update_append numeral_3_eq_3)
qed

lemma at_append_1_2:
  "at (xs @ a # b # r) (length xs + 1) = Some b"
  "at (xs @ a # b # c # r') (length xs + 2) = Some c"
  by (simp_all only: at_append_off) (simp_all add: at_def)

lemma Encode_loop_ref:
  "length xs = 3 * k \<Longrightarrow> 4 * k \<le> n \<Longrightarrow>
   Encode_loop k (pre @ xs @ ys) (length pre) (length out) (out @ replicate n p) =
     Some (length pre + 3 * k, length out + 4 * k, out @ enc_ref xs @ replicate (n - 4 * k) p)"
proof (induction k arbitrary: xs pre out n)
  case (Suc k)
  then obtain a b c r where xs: "xs = a # b # c # r"
    by (cases xs rule: enc_ref.cases) auto
  have k: "length r = 3 * k" "4 * k \<le> n - 4" "4 \<le> n" using Suc.prems by (simp_all add: xs)
  let ?pre = "pre @ [a, b, c]" and ?out = "out @ [enc1 a, enc2 a b, enc3 b c, enc4 c]"
  have "Encode_loop (Suc k) (pre @ xs @ ys) (length pre) (length out) (out @ replicate n p) =
      Encode_loop k (?pre @ r @ ys) (length ?pre) (length ?out) (?out @ replicate (n - 4) p)"
    using k(3) by (simp add: xs at_append_1_2 [simplified] at_put4_append numeral_eq_Suc)
  with Suc.IH [OF k(1,2), of ?pre ?out] show ?case by (simp add: xs)
qed simp

text \<open>The encoder never reads or writes out of range and computes the reference encoding.\<close>

lemma enc_ref_blocks:
  "length xs = 3 * k \<Longrightarrow> enc_ref (xs @ ys) = enc_ref xs @ enc_ref ys"
proof (induction k arbitrary: xs)
  case (Suc k)
  then obtain a b c r where "xs = a # b # c # r"
    by (cases xs rule: enc_ref.cases) auto
  with Suc show ?case by simp
qed simp

lemma blocks_and_tail:
  fixes zs :: "'a list"
  obtains k xs ys where "k = length zs div 3" "zs = xs @ ys" "length xs = 3 * k"
    "length ys < 3" "length ys = length zs mod 3"
proof
  let ?k = "length zs div 3"
  show "?k = length zs div 3" by (rule refl)
  show "zs = take (3 * ?k) zs @ drop (3 * ?k) zs" by (rule append_take_drop_id [symmetric])
  have "3 * ?k \<le> length zs" by (rule times_div_less_eq_dividend)
  then show "length (take (3 * ?k) zs) = 3 * ?k" by (simp only: length_take min_absorb2)
  show d: "length (drop (3 * ?k) zs) = length zs mod 3"
    by (simp only: length_drop minus_mult_div_eq_mod)
  show "length (drop (3 * ?k) zs) < 3" unfolding d by simp
qed

lemma Encode_enc_ref:
  assumes "length inp < 2 ^ 62"
  shows "Encode inp = Some (enc_ref inp)"
proof -
  obtain k xs ys where k: "k = length inp div 3" and inp: "inp = xs @ ys"
    and xs: "length xs = 3 * k" and y3: "length ys < 3" and ys: "length ys = length inp mod 3"
    by (rule blocks_and_tail)
  define n where "n = CalculateEncodedSize (length inp)"
  have "(length inp + 2) div 3 = k + (length ys + 2) div 3"
    using div_mult_self4 [of 3 k "length ys + 2"] by (simp add: inp xs add.assoc)
  then have n: "n = 4 * k + 4 * ((length ys + 2) div 3)"
    using CalculateEncodedSize_eq [OF assms] by (simp add: n_def)
  have len: "length (enc_ref xs) = 4 * k"
    by (simp add: length_enc_ref xs)
  have loop: "Encode_loop k inp 0 0 (replicate n (CHR ''!'')) =
      Some (length xs, length (enc_ref xs), enc_ref xs @ replicate (4 * ((length ys + 2) div 3)) (CHR ''!''))"
    using Encode_loop_ref [OF xs, of n "[]" ys "[]"] by (simp add: n len xs inp)
  have mod: "length inp mod 3 = length ys" by (simp add: ys)
  have ref: "enc_ref inp = enc_ref xs @ enc_ref ys" using xs by (simp add: inp enc_ref_blocks)
  consider "ys = []" | a where "ys = [a]" | a b where "ys = [a, b]"
    using y3 by (cases ys rule: enc_ref.cases) auto
  then show ?thesis
  proof cases
    case 1
    with loop mod ref show ?thesis by (simp add: Encode_def Let_def flip: k n_def)
  next
    case (2 a)
    with loop mod ref show ?thesis
      by (simp add: Encode_def Let_def at_put4_append flip: k n_def) (simp add: inp at_put4_append)
  next
    case (3 a b)
    with loop mod ref show ?thesis
      by (simp add: Encode_def Let_def at_put4_append flip: k n_def)
        (simp add: inp at_put4_append at_append_1_2 [simplified])
  qed
qed

text \<open>The decoder undoes the reference encoding.\<close>

lemma decodable_append:
  "list_all (\<lambda>c. DecodeCharacter c < 64) s \<Longrightarrow> decodable (s @ t) = length s + decodable t"
  by (induction s) auto

lemma enc_ref_decodable:
  "length xs = 3 * k \<Longrightarrow> list_all (\<lambda>c. DecodeCharacter c < 64) (enc_ref xs)"
proof (induction k arbitrary: xs)
  case (Suc k)
  then obtain a b c r where "xs = a # b # c # r"
    by (cases xs rule: enc_ref.cases) auto
  with Suc show ?case by simp
qed simp

lemma CalculateDecodedSize_enc_ref: "CalculateDecodedSize (enc_ref inp) = Inr (length inp)"
proof -
  obtain k xs ys where inp: "inp = xs @ ys" and xs: "length xs = 3 * k" and y3: "length ys < 3"
    by (rule blocks_and_tail)
  have ref: "enc_ref inp = enc_ref xs @ enc_ref ys" using xs by (simp add: inp enc_ref_blocks)
  have lx: "length (enc_ref xs) = 4 * k" by (simp add: length_enc_ref xs)
  have d: "decodable (enc_ref inp) = 4 * k + decodable (enc_ref ys)"
    unfolding ref lx [symmetric] by (rule decodable_append) (rule enc_ref_decodable [OF xs])
  have "length (enc_ref inp) mod 4 = 0" "length (enc_ref inp) = 0 \<or> 4 \<le> length (enc_ref inp)"
    using length_enc_ref [of inp] by (cases "(length inp + 2) div 3"; simp)+
  then have l4: "length (enc_ref inp) mod 4 = 0" "enc_ref inp \<noteq> [] \<Longrightarrow> \<not> length (enc_ref inp) < 4"
    by auto
  consider "ys = []" | a where "ys = [a]" | a b where "ys = [a, b]"
    using y3 by (cases ys rule: enc_ref.cases) auto
  moreover have "Suc (Suc (4 * k)) mod 4 = 2" "Suc (Suc (4 * k)) div 4 = k"
    "Suc (Suc (Suc (4 * k))) mod 4 = 3" "Suc (Suc (Suc (4 * k))) div 4 = k"
    by presburger+
  ultimately show ?thesis
    using d l4 by cases (auto simp: CalculateDecodedSize_def Let_def inp xs)
qed

lemma list_update_block:
  "3 \<le> n \<Longrightarrow> (xs @ replicate n p)[length xs := a, length xs + 1 := b, length xs + 2 := c] =
     xs @ [a, b, c] @ replicate (n - 3) p"
proof -
  assume "3 \<le> n"
  then obtain m where "n = Suc (Suc (Suc m))"
    by (metis Suc_le_D numeral_3_eq_3 Suc_le_mono)
  then show ?thesis by (simp add: list_update_append)
qed

lemma at_append_3: "at (xs @ a # b # c # d # r) (length xs + 3) = Some d"
  by (simp only: at_append_off) (simp add: at_def)

lemma Decode_loop_ref:
  "length xs = 3 * k \<Longrightarrow> length ys < 3 \<Longrightarrow> n = length xs + length ys \<Longrightarrow>
   Decode_loop (length out + 2) (length out + n) (pre @ enc_ref xs @ t) (length pre) (length out)
       (out @ replicate n 0) =
     Inr (length pre + length (enc_ref xs), length out + length xs,
          out @ xs @ replicate (length ys) 0)"
proof (induction k arbitrary: xs pre out n)
  case 0
  then show ?case by (subst Decode_loop.simps) simp
next
  case (Suc k)
  then obtain a b c r where xs: "xs = a # b # c # r"
    by (cases xs rule: enc_ref.cases) auto
  let ?pre = "pre @ [enc1 a, enc2 a b, enc3 b c, enc4 c]" and ?out = "out @ [a, b, c]"
  have n: "n - 3 = length r + length ys" "3 \<le> n" and k: "length r = 3 * k"
    using Suc.prems by (simp_all add: xs)
  have upd: "(out @ replicate n 0)[length out := a, length out + 1 := b, length out + 2 := c] =
      ?out @ replicate (n - 3) 0"
    using n(2) by (simp only: list_update_block) simp
  have eqs: "length out + 2 + 3 = length ?out + 2" "length out + n = length ?out + (n - 3)"
      "length pre + 4 = length ?pre" "length out + 3 = length ?out"
      "pre @ enc_ref xs @ t = ?pre @ enc_ref r @ t"
    using n(2) by (simp_all add: xs)
  have at: "at (pre @ enc_ref xs @ t) (length pre) = Some (enc1 a)"
      "at (pre @ enc_ref xs @ t) (length pre + 1) = Some (enc2 a b)"
      "at (pre @ enc_ref xs @ t) (length pre + 2) = Some (enc3 b c)"
      "at (pre @ enc_ref xs @ t) (length pre + 3) = Some (enc4 c)"
    by (simp_all only: xs enc_ref.simps append.simps at_append at_append_1_2 at_append_3)
  have g: "length out + 2 < length out + n" "length out + 2 < length (out @ replicate n 0)"
    using n(2) by simp_all
  have "Decode_loop (length out + 2) (length out + n) (pre @ enc_ref xs @ t) (length pre) (length out)
       (out @ replicate n 0) =
     Decode_loop (length ?out + 2) (length ?out + (n - 3)) (?pre @ enc_ref r @ t) (length ?pre)
       (length ?out) (?out @ replicate (n - 3) 0)"
    by (subst Decode_loop.simps) (simp only: at g upd dec_enc option.case prod.case if_True, simp only: eqs)
  also note Suc.IH [OF k Suc.prems(2) n(1), of ?out ?pre]
  finally show ?case by (simp add: xs)
qed

lemma Decode_enc_ref: "Decode (enc_ref inp) = Inr inp"
proof -
  obtain k xs ys where k: "k = length inp div 3" and inp: "inp = xs @ ys"
    and xs: "length xs = 3 * k" and y3: "length ys < 3" and ys: "length ys = length inp mod 3"
    by (rule blocks_and_tail)
  have ref: "enc_ref inp = enc_ref xs @ enc_ref ys" using xs by (simp add: inp enc_ref_blocks)
  have loop: "Decode_loop 2 (length inp) (enc_ref inp) 0 0 (replicate (length inp) 0) =
      Inr (length (enc_ref xs), length xs, xs @ replicate (length ys) 0)"
    using Decode_loop_ref [OF xs y3 refl, of "[]" "[]" "enc_ref ys"]
    by (simp add: inp ref [unfolded inp] flip: numeral_2_eq_2)
  consider "ys = []" | a where "ys = [a]" | a b where "ys = [a, b]"
    using y3 by (cases ys rule: enc_ref.cases) auto
  then show ?thesis
  proof cases
    case 1
    with ys have "length inp mod 3 = 0" by simp
    with loop 1 show ?thesis
      by (simp only: Decode_def CalculateDecodedSize_enc_ref sum.case prod.case) (simp add: inp)
  next
    case (2 a)
    with ys have "length inp mod 3 = 1" by simp
    with loop 2 show ?thesis
      by (simp only: Decode_def CalculateDecodedSize_enc_ref sum.case prod.case, simp only: ref)
        (simp add: inp at_append_1_2 [simplified])
  next
    case (3 a b)
    with ys have "length inp mod 3 = 2" by simp
    with loop 3 show ?thesis
      by (simp only: Decode_def CalculateDecodedSize_enc_ref sum.case prod.case, simp only: ref)
        (simp add: inp list_update_append at_append_1_2 [simplified])
  qed
qed

section \<open>The properties of the codec\<close>

text \<open>
  C34: decoding what the encoder produces gives back the bytes that were encoded, for every
  input a process can hold; neither side leaves its buffers on the way.
\<close>

theorem base64_round_trip:
  assumes "length inp < 2 ^ 62"
  shows "\<exists>s. Encode inp = Some s \<and> length s = CalculateEncodedSize (length inp) \<and> Decode s = Inr inp"
  using Encode_enc_ref [OF assms] CalculateEncodedSize_eq [OF assms] length_enc_ref [of inp]
    Decode_enc_ref [of inp]
  by simp

theorem base64_round_trip_witness:
  "\<exists>s. Encode [77, 97, 110, 255] = Some s \<and> length s = CalculateEncodedSize (length [77 :: byte, 97, 110, 255])
     \<and> Decode s = Inr [77, 97, 110, 255]"
  using base64_round_trip [of "[77, 97, 110, 255]"] by simp

end
