(* ===== verification/Http_Defs.thy ===== *)
theory Http_Defs
  imports Pist_Prelude
begin

text \<open>
  include/pistache/http_defs.h and src/common/http_defs.cc: methods, status codes, versions,
  cache directives, dates and \<open>HttpError\<close>, together with the lookup tables \<open>httpMethods\<close> and
  the version literals the parser uses.  The date library (date.h, \<open>put_time\<close>) is third-party
  code and is a parameter of the definitions that call it.
\<close>

section \<open>Methods\<close>

datatype Method =
    Options
  | Get
  | Post
  | Head
  | Put
  | Patch
  | Delete
  | Trace
  | Connect
  | Acl
  | BaselineControl
  | Bind
  | Checkin
  | Checkout
  | Copy
  | Label
  | Link
  | Lock
  | Merge
  | Mkactivity
  | Mkcalendar
  | Mkcol
  | Mkredirectref
  | Mkworkspace
  | Move
  | Orderpatch
  | Pri
  | Propfind
  | Proppatch
  | Rebind
  | Report
  | Search
  | Unbind
  | Uncheckout
  | Unlink
  | Unlock
  | Update
  | Updateredirectref
  | VersionControl

definition HTTP_METHODS :: "(Method \<times> string) list" where
  "HTTP_METHODS =
     [(Options, ''OPTIONS''),
      (Get, ''GET''),
      (Post, ''POST''),
      (Head, ''HEAD''),
      (Put, ''PUT''),
      (Patch, ''PATCH''),
      (Delete, ''DELETE''),
      (Trace, ''TRACE''),
      (Connect, ''CONNECT''),
      (Acl, ''ACL''),
      (BaselineControl, ''BASELINE-CONTROL''),
      (Bind, ''BIND''),
      (Checkin, ''CHECKIN''),
      (Checkout, ''CHECKOUT''),
      (Copy, ''COPY''),
      (Label, ''LABEL''),
      (Link, ''LINK''),
      (Lock, ''LOCK''),
      (Merge, ''MERGE''),
      (Mkactivity, ''MKACTIVITY''),
      (Mkcalendar, ''MKCALENDAR''),
      (Mkcol, ''MKCOL''),
      (Mkredirectref, ''MKREDIRECTREF''),
      (Mkworkspace, ''MKWORKSPACE''),
      (Move, ''MOVE''),
      (Orderpatch, ''ORDERPATCH''),
      (Pri, ''PRI''),
      (Propfind, ''PROPFIND''),
      (Proppatch, ''PROPPATCH''),
      (Rebind, ''REBIND''),
      (Report, ''REPORT''),
      (Search, ''SEARCH''),
      (Unbind, ''UNBIND''),
      (Uncheckout, ''UNCHECKOUT''),
      (Unlink, ''UNLINK''),
      (Unlock, ''UNLOCK''),
      (Update, ''UPDATE''),
      (Updateredirectref, ''UPDATEREDIRECTREF''),
      (VersionControl, ''VERSION-CONTROL'')]"

fun methodString :: "Method \<Rightarrow> string" where
  "methodString Options = ''OPTIONS''"
| "methodString Get = ''GET''"
| "methodString Post = ''POST''"
| "methodString Head = ''HEAD''"
| "methodString Put = ''PUT''"
| "methodString Patch = ''PATCH''"
| "methodString Delete = ''DELETE''"
| "methodString Trace = ''TRACE''"
| "methodString Connect = ''CONNECT''"
| "methodString Acl = ''ACL''"
| "methodString BaselineControl = ''BASELINE-CONTROL''"
| "methodString Bind = ''BIND''"
| "methodString Checkin = ''CHECKIN''"
| "methodString Checkout = ''CHECKOUT''"
| "methodString Copy = ''COPY''"
| "methodString Label = ''LABEL''"
| "methodString Link = ''LINK''"
| "methodString Lock = ''LOCK''"
| "methodString Merge = ''MERGE''"
| "methodString Mkactivity = ''MKACTIVITY''"
| "methodString Mkcalendar = ''MKCALENDAR''"
| "methodString Mkcol = ''MKCOL''"
| "methodString Mkredirectref = ''MKREDIRECTREF''"
| "methodString Mkworkspace = ''MKWORKSPACE''"
| "methodString Move = ''MOVE''"
| "methodString Orderpatch = ''ORDERPATCH''"
| "methodString Pri = ''PRI''"
| "methodString Propfind = ''PROPFIND''"
| "methodString Proppatch = ''PROPPATCH''"
| "methodString Rebind = ''REBIND''"
| "methodString Report = ''REPORT''"
| "methodString Search = ''SEARCH''"
| "methodString Unbind = ''UNBIND''"
| "methodString Uncheckout = ''UNCHECKOUT''"
| "methodString Unlink = ''UNLINK''"
| "methodString Unlock = ''UNLOCK''"
| "methodString Update = ''UPDATE''"
| "methodString Updateredirectref = ''UPDATEREDIRECTREF''"
| "methodString VersionControl = ''VERSION-CONTROL''"

section \<open>Status codes\<close>

text \<open>
  \<open>enum class Code\<close> has an \<open>int\<close> as its representation and the client casts any integer it
  reads into it, so a code is an integer; \<open>STATUS_CODES\<close> lists the named ones.
\<close>

type_synonym Code = int

definition STATUS_CODES :: "(Code \<times> string) list" where
  "STATUS_CODES =
     [(100, ''Continue''),
      (101, ''Switching Protocols''),
      (102, ''Processing''),
      (103, ''Early Hints''),
      (200, ''OK''),
      (201, ''Created''),
      (202, ''Accepted''),
      (203, ''Non-Authoritative Information''),
      (204, ''No Content''),
      (205, ''Reset Content''),
      (206, ''Partial Content''),
      (207, ''Multi-Status''),
      (208, ''Already Reported''),
      (226, ''IM Used''),
      (300, ''Multiple Choices''),
      (301, ''Moved Permanently''),
      (302, ''Found''),
      (303, ''See Other''),
      (304, ''Not Modified''),
      (305, ''Use Proxy''),
      (307, ''Temporary Redirect''),
      (308, ''Permanent Redirect''),
      (400, ''Bad Request''),
      (401, ''Unauthorized''),
      (402, ''Payment Required''),
      (403, ''Forbidden''),
      (404, ''Not Found''),
      (405, ''Method Not Allowed''),
      (406, ''Not Acceptable''),
      (407, ''Proxy Authentication Required''),
      (408, ''Request Timeout''),
      (409, ''Conflict''),
      (410, ''Gone''),
      (411, ''Length Required''),
      (412, ''Precondition Failed''),
      (413, ''Request Entity Too Large''),
      (414, ''Request-URI Too Long''),
      (415, ''Unsupported Media Type''),
      (416, ''Requested Range Not Satisfiable''),
      (417, ''Expectation Failed''),
      (418, ''I'' @ CHR 0x27 # ''m a teapot''),
      (421, ''Misdirected Request''),
      (422, ''Unprocessable Entity''),
      (423, ''Locked''),
      (424, ''Failed Dependency''),
      (426, ''Upgrade Required''),
      (428, ''Precondition Required''),
      (429, ''Too Many Requests''),
      (431, ''Request Header Fields Too Large''),
      (444, ''Connection Closed Without Response''),
      (451, ''Unavailable For Legal Reasons''),
      (499, ''Client Closed Request''),
      (500, ''Internal Server Error''),
      (501, ''Not Implemented''),
      (502, ''Bad Gateway''),
      (503, ''Service Unavailable''),
      (504, ''Gateway Timeout''),
      (505, ''HTTP Version Not Supported''),
      (506, ''Variant Also Negotiates''),
      (507, ''Insufficient Storage''),
      (508, ''Loop Detected''),
      (510, ''Not Extended''),
      (511, ''Network Authentication Required''),
      (599, ''Network Connect Timeout Error'')]"

definition codeString :: "Code \<Rightarrow> string" where
  "codeString code = (case map_of STATUS_CODES code of Some s \<Rightarrow> s | None \<Rightarrow> [])"

abbreviation (input) Code_Continue :: Code where "Code_Continue \<equiv> 100"
abbreviation (input) Code_Ok :: Code where "Code_Ok \<equiv> 200"
abbreviation (input) Code_Bad_Request :: Code where "Code_Bad_Request \<equiv> 400"
abbreviation (input) Code_Not_Found :: Code where "Code_Not_Found \<equiv> 404"
abbreviation (input) Code_Method_Not_Allowed :: Code where "Code_Method_Not_Allowed \<equiv> 405"
abbreviation (input) Code_Request_Timeout :: Code where "Code_Request_Timeout \<equiv> 408"
abbreviation (input) Code_Request_Entity_Too_Large :: Code where "Code_Request_Entity_Too_Large \<equiv> 413"
abbreviation (input) Code_Unsupported_Media_Type :: Code where "Code_Unsupported_Media_Type \<equiv> 415"
abbreviation (input) Code_Internal_Server_Error :: Code where "Code_Internal_Server_Error \<equiv> 500"
abbreviation (input) Code_Not_Implemented :: Code where "Code_Not_Implemented \<equiv> 501"

text \<open>The constructors of \<open>HttpError\<close>.\<close>

definition HttpError :: "Code \<Rightarrow> string \<Rightarrow> exn" where
  "HttpError code reason = Http_Error code reason"

section \<open>Versions and connection control\<close>

datatype Version = Http10 | Http11

fun versionString :: "Version \<Rightarrow> string" where
  "versionString Http10 = ''HTTP/1.0''"
| "versionString Http11 = ''HTTP/1.1''"

datatype ConnectionControl = Close | KeepAlive | Conn_Ext

datatype Expectation = Expect_Continue | Expect_Ext

section \<open>Cache directives\<close>

datatype Directive =
    NoCache | NoStore | MaxAge | MaxStale | MinFresh | NoTransform | OnlyIfCached
  | Public | Private | MustRevalidate | ProxyRevalidate | SMaxAge | Dir_Ext

text \<open>\<open>cd_data\<close> is the union of four \<open>uint64_t\<close> members.\<close>

record CacheDirective =
  cd_directive :: Directive
  cd_data :: nat

definition CacheDirective_init :: "Directive \<Rightarrow> int \<Rightarrow> CacheDirective" where
  "CacheDirective_init d delta =
     \<lparr>cd_directive = d,
      cd_data = (case d of MaxAge \<Rightarrow> sz_of_ssz delta | SMaxAge \<Rightarrow> sz_of_ssz delta
                 | MaxStale \<Rightarrow> sz_of_ssz delta | MinFresh \<Rightarrow> sz_of_ssz delta | _ \<Rightarrow> 0)\<rparr>"

definition CacheDirective_plain :: "Directive \<Rightarrow> CacheDirective" where
  "CacheDirective_plain d = CacheDirective_init d 0"

definition CacheDirective_delta :: "CacheDirective \<Rightarrow> int result" where
  "CacheDirective_delta c =
     (case cd_directive c of
        MaxAge \<Rightarrow> Inr (ssz_of_sz (cd_data c))
      | SMaxAge \<Rightarrow> Inr (ssz_of_sz (cd_data c))
      | MaxStale \<Rightarrow> Inr (ssz_of_sz (cd_data c))
      | MinFresh \<Rightarrow> Inr (ssz_of_sz (cd_data c))
      | _ \<Rightarrow> Inl (Domain_Error ''Invalid operation on cache directive''))"

definition has_delta :: "Directive \<Rightarrow> bool" where
  "has_delta d \<longleftrightarrow> d \<in> {MaxAge, SMaxAge, MaxStale, MinFresh}"

lemma CacheDirective_delta_init:
  assumes "- (2 ^ 63) \<le> x" "x < 2 ^ 63"
  shows "CacheDirective_delta (CacheDirective_init d x) =
     (if has_delta d then Inr x else Inl (Domain_Error ''Invalid operation on cache directive''))"
  using assms
  by (cases d) (simp_all add: CacheDirective_delta_def CacheDirective_init_def has_delta_def)

section \<open>Dates\<close>

text \<open>
  A time point is a signed 64-bit count of nanoseconds.  \<open>dl_parse\<close> is
  \<open>in >> date::parse(format, tp)\<close> on a stream over the string: \<open>None\<close> when the stream
  fails.  \<open>dl_to_stream\<close> is \<open>date::to_stream\<close>, \<open>dl_put_gmt\<close> is \<open>gmtime\<close> with
  \<open>std::put_time\<close>.
\<close>

record date_lib =
  dl_parse :: "string \<Rightarrow> string \<Rightarrow> int option"
  dl_to_stream :: "string \<Rightarrow> int \<Rightarrow> string"
  dl_put_gmt :: "string \<Rightarrow> int \<Rightarrow> string"

definition parse_RFC_1123 :: "date_lib \<Rightarrow> string \<Rightarrow> int option" where
  "parse_RFC_1123 L s =
     (case dl_parse L ''%a, %d %b %Y %T %Z'' s of
        Some tp \<Rightarrow> Some tp
      | None \<Rightarrow> dl_parse L ''%a, %d-%b-%Y %T %Z'' s)"

definition parse_RFC_850 :: "date_lib \<Rightarrow> string \<Rightarrow> int option" where
  "parse_RFC_850 L s = dl_parse L ''%A, %d-%b-%y %T %Z'' s"

definition parse_asctime :: "date_lib \<Rightarrow> string \<Rightarrow> int option" where
  "parse_asctime L s = dl_parse L ''%a %b %d %T %Y'' s"

text \<open>
  \<open>parse_epoch\<close>: \<open>stoull\<close> throws \<open>invalid_argument\<close> on the empty string, which is not caught,
  and \<open>out_of_range\<close>, which is.  The conversion to a time point wraps at 64 bits.
\<close>

definition parse_epoch :: "string \<Rightarrow> int option result" where
  "parse_epoch s =
     (if list_ex (\<lambda>c. \<not> c_isdigit c) s then Inr None
      else case from_chars_u 10 (2 ^ 64 - 1) s of
             Inl Errc_invalid_argument \<Rightarrow> Inl (Invalid_Argument ''stoull'')
           | Inl Errc_result_out_of_range \<Rightarrow> Inr None
           | Inr (n, _) \<Rightarrow> Inr (Some (ssz_of_sz (sz_of_ssz (ssz_of_sz n * 1000000000)))))"

definition FullDate_fromString :: "date_lib \<Rightarrow> string \<Rightarrow> int result" where
  "FullDate_fromString L s =
     (case parse_RFC_1123 L s of Some tp \<Rightarrow> Inr tp | None \<Rightarrow>
     (case parse_RFC_850 L s of Some tp \<Rightarrow> Inr tp | None \<Rightarrow>
     (case parse_asctime L s of Some tp \<Rightarrow> Inr tp | None \<Rightarrow>
     (case parse_epoch s of
        Inl e \<Rightarrow> Inl e
      | Inr (Some tp) \<Rightarrow> Inr tp
      | Inr None \<Rightarrow> Inl (Runtime_Error ''Invalid Date format'')))))"

datatype DateType = RFC1123 | RFC850 | AscTime | RFC1123GMT

fun FullDate_write :: "date_lib \<Rightarrow> DateType \<Rightarrow> int \<Rightarrow> string" where
  "FullDate_write L RFC1123 tp = dl_to_stream L ''%a, %d %b %Y %T %Z'' tp"
| "FullDate_write L RFC1123GMT tp = dl_put_gmt L ''%a, %d %b %Y %T GMT'' tp"
| "FullDate_write L RFC850 tp = dl_to_stream L ''%a, %d-%b-%y %T %Z'' tp"
| "FullDate_write L AscTime tp = dl_to_stream L ''%a %b %d %T %Y'' tp"

section \<open>Lemmas\<close>

text \<open>
  What the date library promises for the dates it can print in a format: it reads back what it wrote.
\<close>

definition reads_back :: "date_lib \<Rightarrow> int \<Rightarrow> bool" where
  "reads_back L tp \<longleftrightarrow> dl_parse L ''%a, %d %b %Y %T %Z'' (dl_to_stream L ''%a, %d %b %Y %T %Z'' tp) = Some tp"

definition reads_back_GMT :: "date_lib \<Rightarrow> int \<Rightarrow> bool" where
  "reads_back_GMT L tp \<longleftrightarrow> dl_parse L ''%a, %d %b %Y %T %Z'' (dl_put_gmt L ''%a, %d %b %Y %T GMT'' tp) = Some tp"

lemma FullDate_round_trip:
  "reads_back L tp \<Longrightarrow> FullDate_fromString L (FullDate_write L RFC1123 tp) = Inr tp"
  "reads_back_GMT L tp \<Longrightarrow> FullDate_fromString L (FullDate_write L RFC1123GMT tp) = Inr tp"
  by (simp_all add: reads_back_def reads_back_GMT_def FullDate_fromString_def parse_RFC_1123_def)

lemma methodString_table: "HTTP_METHODS = map (\<lambda>m. (m, methodString m)) (map fst HTTP_METHODS)"
  by (simp add: HTTP_METHODS_def)

lemma methodString_all: "m \<in> set (map fst HTTP_METHODS)"
  by (cases m) (simp_all add: HTTP_METHODS_def)

lemma methodString_distinct: "distinct (map snd HTTP_METHODS)"
  by code_simp

text \<open>The strings of the methods are distinct and are sent as one token.\<close>

lemma methodString_inj: "methodString m = methodString m' \<Longrightarrow> m = m'"
proof -
  assume eq: "methodString m = methodString m'"
  have *: "map_of (map (\<lambda>(a, b). (b, a)) HTTP_METHODS) (methodString x) = Some x" for x
  proof (rule map_of_is_SomeI)
    show "distinct (map fst (map (\<lambda>(a, b). (b, a)) HTTP_METHODS))"
      using methodString_distinct by (simp add: comp_def case_prod_unfold)
    have "(x, methodString x) \<in> set HTTP_METHODS"
      using methodString_all [of x] by (subst methodString_table) auto
    then show "(methodString x, x) \<in> set (map (\<lambda>(a, b). (b, a)) HTTP_METHODS)" by force
  qed
  show ?thesis using * [of m, unfolded eq] * [of m'] by (metis option.inject)
qed

lemma methodString_token: "SP \<notin> set (methodString m)" "methodString m \<noteq> []"
  by (cases m; simp)+

lemma codeString_named: "(c, s) \<in> set STATUS_CODES \<Longrightarrow> codeString c = s"
proof -
  assume "(c, s) \<in> set STATUS_CODES"
  moreover have "distinct (map fst STATUS_CODES)" by code_simp
  ultimately show ?thesis by (simp add: codeString_def map_of_is_SomeI)
qed

end
