(* ===== verification/Cookie_Jar.thy ===== *)
theory Cookie_Jar
  imports Stream_Buf Http_Defs
begin

text \<open>
  include/pistache/cookie.h and src/common/cookie.cc: \<open>Cookie\<close> with its parser
  \<open>Cookie::fromRaw\<close> and printer \<open>Cookie::write\<close>, and \<open>CookieJar\<close>, the two-level hash map of
  the cookies of a request or response.  The date library is the parameter of Http_Defs.
\<close>

section \<open>Ordered maps\<close>

text \<open>
  \<open>std::map<std::string, std::string>\<close>: an association list sorted by key, in the
  lexicographic order of \<open>char_traits\<close>, which compares bytes as unsigned numbers.
\<close>

fun str_less :: "string \<Rightarrow> string \<Rightarrow> bool" where
  "str_less s [] = False"
| "str_less [] (b # t) = True"
| "str_less (a # s) (b # t) =
     (byte_of a < (byte_of b :: nat) \<or> (a = b \<and> str_less s t))"

fun om_insert :: "string \<Rightarrow> 'v \<Rightarrow> (string \<times> 'v) list \<Rightarrow> (string \<times> 'v) list" where
  "om_insert k v [] = [(k, v)]"
| "om_insert k v ((k', w) # m) =
     (if k = k' then (k', w) # m
      else if str_less k k' then (k, v) # (k', w) # m
      else (k', w) # om_insert k v m)"

section \<open>Cookies\<close>

record cookie =
  ck_name :: string
  ck_value :: string
  ck_path :: "string option"
  ck_domain :: "string option"
  ck_expires :: "int option"
  ck_maxAge :: "int option"
  ck_secure :: bool
  ck_httpOnly :: bool
  ck_ext :: "(string \<times> string) list"

definition Cookie :: "string \<Rightarrow> string \<Rightarrow> cookie" where
  "Cookie n v = \<lparr>ck_name = n, ck_value = v, ck_path = None, ck_domain = None, ck_expires = None,
     ck_maxAge = None, ck_secure = False, ck_httpOnly = False, ck_ext = []\<rparr>"

text \<open>The value token: its text and the cursor behind it.\<close>

definition matchValue :: "scursor \<Rightarrow> (string \<times> scursor) result" where
  "matchValue c =
     (if current c \<noteq> EOF_char \<and> current c \<noteq> CHR ''='' then Inl (Runtime_Error ''Invalid cookie'')
      else case advance 1 c of
        (False, _) \<Rightarrow> Inl (Runtime_Error ''Invalid cookie, early eof'')
      | (True, c1) \<Rightarrow>
          let c2 = snd (match_until [CHR '';''] Insensitive c1) in Inr (token_text c1 c2, c2))"

text \<open>The \<open>int\<close> arithmetic of \<open>strntol\<close>, at 32 bits.\<close>

definition wrap32 :: "int \<Rightarrow> int" where
  "wrap32 i = (i + 2 ^ 31) mod 2 ^ 32 - 2 ^ 31"

fun strntol :: "int \<Rightarrow> string \<Rightarrow> int result" where
  "strntol ret [] = Inr ret"
| "strntol ret (ch # s) =
     (if \<not> c_isdigit ch then Inl (Invalid_Argument ''Invalid conversion'')
      else strntol (wrap32 (wrap32 (ret * 10) + (int (byte_of ch) - 48))) s)"

datatype attribute = A_Path | A_Domain | A_Secure | A_HttpOnly | A_MaxAge | A_Expires

text \<open>The overloads of \<open>AttributeMatcher<T>::match\<close>, selected by the type of the attribute.\<close>

fun AttributeMatcher :: "date_lib \<Rightarrow> attribute \<Rightarrow> scursor \<Rightarrow> cookie \<Rightarrow> (cookie \<times> scursor) result" where
  "AttributeMatcher L A_Path c ck =
     (case matchValue c of Inl e \<Rightarrow> Inl e | Inr (t, c') \<Rightarrow> Inr (ck\<lparr>ck_path := Some t\<rparr>, c'))"
| "AttributeMatcher L A_Domain c ck =
     (case matchValue c of Inl e \<Rightarrow> Inl e | Inr (t, c') \<Rightarrow> Inr (ck\<lparr>ck_domain := Some t\<rparr>, c'))"
| "AttributeMatcher L A_Secure c ck = Inr (ck\<lparr>ck_secure := True\<rparr>, c)"
| "AttributeMatcher L A_HttpOnly c ck = Inr (ck\<lparr>ck_httpOnly := True\<rparr>, c)"
| "AttributeMatcher L A_MaxAge c ck =
     (case matchValue c of
        Inl e \<Rightarrow> Inl e
      | Inr (t, c') \<Rightarrow>
          (case strntol 0 t of Inl e \<Rightarrow> Inl e | Inr n \<Rightarrow> Inr (ck\<lparr>ck_maxAge := Some n\<rparr>, c')))"
| "AttributeMatcher L A_Expires c ck =
     (case matchValue c of
        Inl e \<Rightarrow> Inl e
      | Inr (t, c') \<Rightarrow>
          (case FullDate_fromString L t of
             Inl e \<Rightarrow> Inl e | Inr d \<Rightarrow> Inr (ck\<lparr>ck_expires := Some d\<rparr>, c')))"

text \<open>\<open>match_attribute\<close>: \<open>None\<close> is \<open>false\<close>.\<close>

definition match_attribute ::
  "date_lib \<Rightarrow> string \<Rightarrow> attribute \<Rightarrow> scursor \<Rightarrow> cookie \<Rightarrow> (cookie \<times> scursor) result option" where
  "match_attribute L name a c ck =
     (case match_string name Insensitive c of
        (False, _) \<Rightarrow> None
      | (True, c1) \<Rightarrow>
          (case AttributeMatcher L a c1 ck of
             Inl e \<Rightarrow> Some (Inl e)
           | Inr (ck', c2) \<Rightarrow> Some (Inr (ck', snd (advance 1 c2)))))"

definition attribute_names :: "(string \<times> attribute) list" where
  "attribute_names = [(''Path'', A_Path), (''Domain'', A_Domain), (''Secure'', A_Secure),
     (''HttpOnly'', A_HttpOnly), (''Max-Age'', A_MaxAge), (''Expires'', A_Expires)]"

fun match_attributes ::
  "date_lib \<Rightarrow> (string \<times> attribute) list \<Rightarrow> scursor \<Rightarrow> cookie \<Rightarrow> (cookie \<times> scursor) result option" where
  "match_attributes L [] c ck = None"
| "match_attributes L ((n, a) # as) c ck =
     (case match_attribute L n a c ck of Some r \<Rightarrow> Some r | None \<Rightarrow> match_attributes L as c ck)"

text \<open>The branch for extension attributes.\<close>

definition cookie_ext :: "scursor \<Rightarrow> cookie \<Rightarrow> (cookie \<times> scursor) result" where
  "cookie_ext c ck =
     (let c1 = snd (match_until [CHR ''=''] Insensitive c);
          name = token_text c c1
      in if eof c1 then Inr (ck\<lparr>ck_ext := om_insert name [] (ck_ext ck)\<rparr>, c1)
         else case matchValue c1 of
           Inl e \<Rightarrow> Inl e
         | Inr (value, c2) \<Rightarrow> Inr (ck\<lparr>ck_ext := om_insert name value (ck_ext ck)\<rparr>, c2))"

definition cookie_step :: "date_lib \<Rightarrow> scursor \<Rightarrow> cookie \<Rightarrow> (cookie \<times> scursor) result" where
  "cookie_step L c0 ck =
     (let c = skip_whitespaces c0
      in case match_attributes L attribute_names c ck of
           Some r \<Rightarrow> r
         | None \<Rightarrow> cookie_ext c ck)"

lemma remaining_matchValue: "matchValue c = Inr (t, c') \<Longrightarrow> remaining c' \<le> remaining c"
  using remaining_advance_le [of 1 c]
    remaining_match_until_le [of "[CHR '';'']" Insensitive "snd (advance 1 c)"]
  by (auto simp: matchValue_def Let_def simp del: One_nat_def split: if_splits prod.splits bool.splits)

lemma remaining_matchValue_less: "matchValue c = Inr (t, c') \<Longrightarrow> remaining c' < remaining c"
proof -
  assume m: "matchValue c = Inr (t, c')"
  then obtain c1 where a: "advance 1 c = (True, c1)" and "c' = snd (match_until [CHR '';''] Insensitive c1)"
    by (auto simp: matchValue_def Let_def simp del: One_nat_def split: if_splits prod.splits bool.splits)
  then have "remaining c' \<le> remaining c1" by (simp add: remaining_match_until_le)
  moreover have "\<not> eof c" using a by (auto simp: advance_def eof_def split: if_splits)
  then have "remaining c1 < remaining c" using remaining_advance1 [of c] a by simp
  ultimately show ?thesis by simp
qed

text \<open>Every round of the attribute loop that does not end the input consumes some of it.\<close>

lemma remaining_AttributeMatcher:
  "AttributeMatcher L a c ck = Inr (ck', c') \<Longrightarrow> remaining c' \<le> remaining c"
  by (cases a) (auto dest: remaining_matchValue split: sum.splits)

lemma remaining_match_attribute:
  assumes "match_attribute L n a c ck = Some (Inr (ck', c'))" "n \<noteq> []"
  shows "remaining c' < remaining c"
proof -
  from assms obtain c1 c2 where m: "match_string n Insensitive c = (True, c1)"
    and a: "AttributeMatcher L a c1 ck = Inr (ck', c2)" and c': "c' = snd (advance 1 c2)"
    by (auto simp: match_attribute_def simp del: One_nat_def split: prod.splits bool.splits sum.splits)
  have "remaining c' \<le> remaining c2" unfolding c' by (rule remaining_advance_le)
  also have "\<dots> \<le> remaining c1" using a by (rule remaining_AttributeMatcher)
  also have "\<dots> < remaining c" using m assms(2) by (rule remaining_match_string_less)
  finally show ?thesis .
qed

lemma remaining_match_attributes:
  "match_attributes L as c ck = Some (Inr (ck', c')) \<Longrightarrow> \<forall>(n, a) \<in> set as. n \<noteq> [] \<Longrightarrow>
   remaining c' < remaining c"
  by (induction as) (auto split: option.splits dest: remaining_match_attribute)

lemma remaining_cookie_step:
  assumes "cookie_step L c ck = Inr (ck', c')" "\<not> eof c'"
  shows "remaining c' < remaining c"
proof -
  let ?c = "skip_whitespaces c"
  have "remaining c' < remaining ?c"
  proof (cases "match_attributes L attribute_names ?c ck")
    case None
    with assms show ?thesis
      using remaining_match_until_le [of "[CHR ''='']" Insensitive ?c]
      by (auto simp: cookie_step_def cookie_ext_def Let_def split: if_splits sum.splits
          dest!: remaining_matchValue_less)
  next
    case (Some r)
    with assms have "match_attributes L attribute_names ?c ck = Some (Inr (ck', c'))"
      by (simp add: cookie_step_def)
    then show ?thesis by (rule remaining_match_attributes) (simp add: attribute_names_def)
  qed
  then show ?thesis using remaining_skip_whitespaces_le [of c] by simp
qed

text \<open>The \<open>do ... while (!cursor.eof())\<close> loop over the attributes.\<close>

function cookie_attrs :: "date_lib \<Rightarrow> scursor \<Rightarrow> cookie \<Rightarrow> cookie result" where
  "cookie_attrs L c ck =
     (case cookie_step L c ck of
        Inl e \<Rightarrow> Inl e
      | Inr (ck', c') \<Rightarrow> if eof c' then Inr ck' else cookie_attrs L c' ck')"
  by pat_completeness auto
termination
  by (relation "measure (\<lambda>(L, c, ck). remaining c)") (auto intro: remaining_cookie_step)

declare cookie_attrs.simps [simp del]

definition Cookie_fromRaw :: "date_lib \<Rightarrow> string \<Rightarrow> nat \<Rightarrow> cookie result" where
  "Cookie_fromRaw L mem len =
     (let c = RawStreamBuf (take len mem)
      in case match_until [CHR ''=''] Insensitive c of
           (False, _) \<Rightarrow> Inl (Runtime_Error ''Invalid cookie, missing value'')
         | (True, c1) \<Rightarrow>
             let name = token_text c c1
             in case advance 1 c1 of
                  (False, _) \<Rightarrow> Inl (Runtime_Error ''Invalid cookie, missing value'')
                | (True, c2) \<Rightarrow>
                    let c3 = snd (match_until [CHR '';''] Insensitive c2);
                        ck = Cookie name (token_text c2 c3)
                    in if eof c3 then Inr ck else cookie_attrs L (snd (advance 1 c3)) ck)"

definition Cookie_fromString :: "date_lib \<Rightarrow> string \<Rightarrow> cookie result" where
  "Cookie_fromString L s = Cookie_fromRaw L s (length s)"

text \<open>\<open>std::distance (it, end) > 1\<close> holds for every element but the last.\<close>

fun write_ext :: "(string \<times> string) list \<Rightarrow> string" where
  "write_ext [] = []"
| "write_ext [(k, v)] = k @ ''='' @ v"
| "write_ext ((k, v) # m) = k @ ''='' @ v @ ''; '' @ write_ext m"

definition Cookie_write :: "date_lib \<Rightarrow> cookie \<Rightarrow> string" where
  "Cookie_write L ck =
     ck_name ck @ ''='' @ ck_value ck
     @ (case ck_path ck of Some v \<Rightarrow> ''; '' @ ''Path='' @ v | None \<Rightarrow> [])
     @ (case ck_domain ck of Some v \<Rightarrow> ''; '' @ ''Domain='' @ v | None \<Rightarrow> [])
     @ (case ck_maxAge ck of Some v \<Rightarrow> ''; '' @ ''Max-Age='' @ int_str v | None \<Rightarrow> [])
     @ (case ck_expires ck of Some v \<Rightarrow> ''; '' @ ''Expires='' @ FullDate_write L RFC1123 v | None \<Rightarrow> [])
     @ (if ck_secure ck then ''; Secure'' else [])
     @ (if ck_httpOnly ck then ''; HttpOnly'' else [])
     @ (if ck_ext ck \<noteq> [] then ''; '' @ write_ext (ck_ext ck) else [])"

section \<open>The cookie jar\<close>

text \<open>A hash map from names to hash maps from values to cookies.\<close>

type_synonym cookie_jar = "(string \<times> (string \<times> cookie) list) list"

definition CookieJar :: cookie_jar where
  "CookieJar = []"

definition jar_add :: "cookie \<Rightarrow> cookie_jar \<Rightarrow> cookie_jar" where
  "jar_add ck jar =
     (case um_find (=) jar (ck_name ck) of
        None \<Rightarrow> um_insert (=) (ck_name ck) (um_insert (=) (ck_value ck) ck []) jar
      | Some m \<Rightarrow> um_assign (=) (ck_name ck) (um_insert (=) (ck_value ck) ck m) jar)"

definition jar_removeAllCookies :: "cookie_jar \<Rightarrow> cookie_jar" where
  "jar_removeAllCookies jar = []"

text \<open>
  \<open>addFromRaw\<close>: the cookies read before an exception stay in the jar, so the result is the
  exception, if any, and the jar.
\<close>

function jar_add_loop :: "scursor \<Rightarrow> cookie_jar \<Rightarrow> exn option \<times> cookie_jar" where
  "jar_add_loop c jar =
     (if eof c then (None, jar)
      else case match_until [CHR ''=''] Insensitive c of
        (False, _) \<Rightarrow> (Some (Runtime_Error ''Invalid cookie, missing value''), jar)
      | (True, c1) \<Rightarrow>
          (case advance 1 c1 of
             (False, _) \<Rightarrow> (Some (Runtime_Error ''Invalid cookie, missing value''), jar)
           | (True, c2) \<Rightarrow>
               let c3 = snd (match_until [CHR '';''] Insensitive c2);
                   ck = Cookie (token_text c c1) (token_text c2 c3)
               in jar_add_loop (skip_whitespaces (snd (advance 1 c3))) (jar_add ck jar)))"
  by pat_completeness auto
termination
proof (relation "measure (\<lambda>(c, jar). remaining c)", simp_all del: One_nat_def)
  fix c c1 c2 :: scursor
  assume ne: "\<not> eof c" and m: "(True, c1) = match_until [CHR ''=''] Insensitive c"
    and a: "(True, c2) = advance 1 c1"
  let ?c3 = "snd (match_until [CHR '';''] Insensitive c2)"
  have "\<not> eof c1" using a [symmetric] by (auto simp: advance_def eof_def split: if_splits)
  then have "remaining c2 < remaining c1" using remaining_advance1 [of c1] a [symmetric] by simp
  moreover have "remaining c1 \<le> remaining c"
    using remaining_match_until_le [of "[CHR ''='']" Insensitive c] m [symmetric] by simp
  moreover have "remaining ?c3 \<le> remaining c2" by (rule remaining_match_until_le)
  moreover have "remaining (skip_whitespaces (snd (advance 1 ?c3))) \<le> remaining ?c3"
    using remaining_skip_whitespaces_le [of "snd (advance 1 ?c3)"] remaining_advance_le [of 1 ?c3] by linarith
  ultimately show "remaining (skip_whitespaces (snd (advance 1 ?c3))) < remaining c" by linarith
qed

declare jar_add_loop.simps [simp del]

definition jar_addFromRaw :: "string \<Rightarrow> nat \<Rightarrow> cookie_jar \<Rightarrow> exn option \<times> cookie_jar" where
  "jar_addFromRaw mem len jar = jar_add_loop (RawStreamBuf (take len mem)) jar"

definition jar_get :: "string \<Rightarrow> cookie_jar \<Rightarrow> cookie result" where
  "jar_get name jar =
     (case um_find (=) jar name of
        Some ((_, ck) # _) \<Rightarrow> Inr ck
      | _ \<Rightarrow> Inl (Runtime_Error ''Could not find requested cookie''))"

definition jar_has :: "string \<Rightarrow> cookie_jar \<Rightarrow> bool" where
  "jar_has name jar \<longleftrightarrow> um_find (=) jar name \<noteq> None"

text \<open>The cookies in the order of the jar's iterator.\<close>

definition jar_cookies :: "cookie_jar \<Rightarrow> cookie list" where
  "jar_cookies jar = concat (map (\<lambda>(_, m). map snd m) jar)"

section \<open>Parsing what is printed\<close>

lemma matchValue_text:
  assumes wf: "wf_cursor c" and r: "rest c = CHR ''='' # v @ t" and v: "CHR '';'' \<notin> set v"
    and t: "t = [] \<or> hd t = CHR '';''"
  shows "matchValue c = Inr (v, c\<lparr>spos := spos c + Suc (length v)\<rparr>)"
proof -
  let ?c = "c\<lparr>spos := Suc (spos c)\<rparr>"
  have c1: "advance 1 c = (True, ?c)" using wf r by (rule advance1_Cons)
  have wf1: "wf_cursor ?c" and r1: "rest ?c = v @ t" using wf_Suc [OF wf r] rest_Suc [OF r] by simp_all
  have "match_until [CHR '';''] Insensitive ?c = (t \<noteq> [], ?c\<lparr>spos := spos ?c + length v\<rparr>)"
    by (rule match_until_stop [OF wf1 _ r1 v t]) simp
  then have "snd (match_until [CHR '';''] Insensitive ?c) = ?c\<lparr>spos := spos ?c + length v\<rparr>" by simp
  moreover have "token_text ?c (?c\<lparr>spos := spos ?c + length v\<rparr>) = v"
    unfolding token_text_move r1 by simp
  ultimately show ?thesis
    unfolding matchValue_def c1 using r by (simp add: current_rest Let_def)
qed

text \<open>An attribute as it is printed, and what reading its value does.\<close>

fun attr_name :: "attribute \<Rightarrow> string" where
  "attr_name A_Path = ''Path''"
| "attr_name A_Domain = ''Domain''"
| "attr_name A_Secure = ''Secure''"
| "attr_name A_HttpOnly = ''HttpOnly''"
| "attr_name A_MaxAge = ''Max-Age''"
| "attr_name A_Expires = ''Expires''"

definition is_flag :: "attribute \<Rightarrow> bool" where
  "is_flag a \<longleftrightarrow> a \<in> {A_Secure, A_HttpOnly}"

fun attr_value :: "attribute \<times> string \<Rightarrow> string" where
  "attr_value (a, v) = (if is_flag a then [] else CHR ''='' # v)"

fun attr_set :: "date_lib \<Rightarrow> attribute \<Rightarrow> string \<Rightarrow> cookie \<Rightarrow> cookie result" where
  "attr_set L A_Path t ck = Inr (ck\<lparr>ck_path := Some t\<rparr>)"
| "attr_set L A_Domain t ck = Inr (ck\<lparr>ck_domain := Some t\<rparr>)"
| "attr_set L A_Secure t ck = Inr (ck\<lparr>ck_secure := True\<rparr>)"
| "attr_set L A_HttpOnly t ck = Inr (ck\<lparr>ck_httpOnly := True\<rparr>)"
| "attr_set L A_MaxAge t ck =
     (case strntol 0 t of Inl e \<Rightarrow> Inl e | Inr n \<Rightarrow> Inr (ck\<lparr>ck_maxAge := Some n\<rparr>))"
| "attr_set L A_Expires t ck =
     (case FullDate_fromString L t of Inl e \<Rightarrow> Inl e | Inr d \<Rightarrow> Inr (ck\<lparr>ck_expires := Some d\<rparr>))"

fun attr_sets :: "date_lib \<Rightarrow> (attribute \<times> string) list \<Rightarrow> cookie \<Rightarrow> cookie result" where
  "attr_sets L [] ck = Inr ck"
| "attr_sets L ((a, v) # as) ck =
     (case attr_set L a v ck of Inl e \<Rightarrow> Inl e | Inr ck' \<Rightarrow> attr_sets L as ck')"

fun attrs_text :: "(attribute \<times> string) list \<Rightarrow> string" where
  "attrs_text [] = []"
| "attrs_text (av # as) = ''; '' @ attr_name (fst av) @ attr_value av @ attrs_text as"

lemma attrs_text_stop: "attrs_text as = [] \<or> hd (attrs_text as) = CHR '';''"
  by (cases as) simp_all

lemma AttributeMatcher_text:
  assumes "wf_cursor c" "rest c = attr_value (a, v) @ t" "CHR '';'' \<notin> set v"
    "t = [] \<or> hd t = CHR '';''"
  shows "AttributeMatcher L a c ck =
     (case attr_set L a v ck of
        Inl e \<Rightarrow> Inl e | Inr ck' \<Rightarrow> Inr (ck', c\<lparr>spos := spos c + length (attr_value (a, v))\<rparr>))"
proof (cases "is_flag a")
  case True
  then show ?thesis by (cases a) (simp_all add: is_flag_def)
next
  case False
  with assms have "matchValue c = Inr (v, c\<lparr>spos := spos c + Suc (length v)\<rparr>)"
    by (intro matchValue_text) auto
  with False show ?thesis by (cases a) (simp_all add: is_flag_def split: sum.split)
qed

lemma match_string_self:
  "wf_cursor c \<Longrightarrow> rest c = s @ t \<Longrightarrow> match_string s Insensitive c = (True, c\<lparr>spos := spos c + length s\<rparr>)"
  by (simp add: match_string_eq)

lemma match_string_differ:
  "wf_cursor c \<Longrightarrow> rest c = y # t \<Longrightarrow> c_tolower x \<noteq> c_tolower y \<Longrightarrow> match_string (x # s) Insensitive c = (False, c)"
  by (simp add: match_string_eq to_lower_def)

lemma match_attributes_text:
  assumes wf: "wf_cursor c" and r: "rest c = attr_name a @ t"
  shows "match_attributes L attribute_names c ck = match_attribute L (attr_name a) a c ck"
  using r match_string_differ [OF wf, of _ _] match_string_self [OF wf r]
  by (cases a)
    (simp_all add: attribute_names_def match_attribute_def split: option.split sum.split)

lemma skip_one_space:
  assumes "wf_cursor c" "rest c = SP # x # t" "x \<noteq> SP" "x \<noteq> HTAB"
  shows "skip_whitespaces c = c\<lparr>spos := Suc (spos c)\<rparr>"
  using assms by (simp add: skip_whitespaces_eq)

lemma attr_name_head: "\<exists>x n. attr_name a = x # n \<and> x \<noteq> SP \<and> x \<noteq> HTAB"
  by (cases a) simp_all

text \<open>One round of the attribute loop.\<close>

lemma cookie_step_text:
  assumes wf: "wf_cursor c" and r: "rest c = SP # attr_name a @ attr_value (a, v) @ t"
    and v: "CHR '';'' \<notin> set v" and t: "t = [] \<or> hd t = CHR '';''"
  shows "\<exists>c'. cookie_step L c ck =
            (case attr_set L a v ck of Inl e \<Rightarrow> Inl e | Inr ck' \<Rightarrow> Inr (ck', c'))
          \<and> wf_cursor c' \<and> rest c' = tl t"
proof -
  let ?c1 = "c\<lparr>spos := Suc (spos c)\<rparr>"
  have c1: "skip_whitespaces c = ?c1"
    using attr_name_head [of a] r wf by (auto intro!: skip_one_space)
  have wf1: "wf_cursor ?c1" and r1: "rest ?c1 = attr_name a @ attr_value (a, v) @ t"
    using wf_Suc [OF wf r] rest_Suc [OF r] by simp_all
  let ?c2 = "?c1\<lparr>spos := spos ?c1 + length (attr_name a)\<rparr>"
  have wf2: "wf_cursor ?c2" and r2: "rest ?c2 = attr_value (a, v) @ t"
    using wf_at [OF wf1 r1] rest_at [OF r1] by simp_all
  let ?c3 = "?c2\<lparr>spos := spos ?c2 + length (attr_value (a, v))\<rparr>"
  have wf3: "wf_cursor ?c3" and r3: "rest ?c3 = t"
    using wf_at [OF wf2 r2] rest_at [OF r2] by simp_all
  have "wf_cursor (snd (advance 1 ?c3)) \<and> rest (snd (advance 1 ?c3)) = tl t"
  proof (cases t)
    case Nil
    then show ?thesis using advance1_Nil [of ?c3] r3 wf3 by simp
  next
    case (Cons x t')
    then have "rest ?c3 = x # t'" using r3 by simp
    then show ?thesis using advance1_Cons [OF wf3] wf_Suc [OF wf3] rest_Suc [of ?c3 x t'] Cons by simp
  qed
  moreover have "cookie_step L c ck =
      (case attr_set L a v ck of Inl e \<Rightarrow> Inl e | Inr ck' \<Rightarrow> Inr (ck', snd (advance 1 ?c3)))"
    using match_attributes_text [OF wf1 r1] match_string_self [OF wf1 r1]
      AttributeMatcher_text [OF wf2 r2 v t]
    by (simp add: cookie_step_def c1 match_attribute_def Let_def split: sum.split)
  ultimately show ?thesis by blast
qed

lemma cookie_attrs_text:
  "wf_cursor c \<Longrightarrow> rest c = tl (attrs_text (av # as)) \<Longrightarrow>
   list_all (\<lambda>(a, v). CHR '';'' \<notin> set v) (av # as) \<Longrightarrow>
   cookie_attrs L c ck = attr_sets L (av # as) ck"
proof (induction as arbitrary: av c ck)
  case Nil
  obtain a v where av: "av = (a, v)" by (cases av)
  from Nil obtain c' where "cookie_step L c ck =
      (case attr_set L a v ck of Inl e \<Rightarrow> Inl e | Inr ck' \<Rightarrow> Inr (ck', c'))" "rest c' = []"
    using cookie_step_text [of c a v "[]" L ck] by (auto simp: av)
  then show ?case by (subst cookie_attrs.simps) (simp add: av eof_rest split: sum.split)
next
  case (Cons aw as)
  obtain a v where av: "av = (a, v)" by (cases av)
  from Cons.prems obtain c' where c': "cookie_step L c ck =
      (case attr_set L a v ck of Inl e \<Rightarrow> Inl e | Inr ck' \<Rightarrow> Inr (ck', c'))" "wf_cursor c'"
      "rest c' = tl (attrs_text (aw # as))"
    using cookie_step_text [of c a v "attrs_text (aw # as)" L ck] by (auto simp: av)
  have "cookie_attrs L c' ck' = attr_sets L (aw # as) ck'" for ck'
    using Cons.IH [OF c'(2,3)] Cons.prems by simp
  moreover have "\<not> eof c'" using c'(3) by (simp add: eof_rest)
  ultimately show ?case
    using c'(1) by (subst cookie_attrs.simps) (simp add: av split: sum.split)
qed

text \<open>The attributes of a cookie in the order they are printed.\<close>

definition cookie_attr_list :: "date_lib \<Rightarrow> cookie \<Rightarrow> (attribute \<times> string) list" where
  "cookie_attr_list L ck =
     (case ck_path ck of Some v \<Rightarrow> [(A_Path, v)] | None \<Rightarrow> [])
     @ (case ck_domain ck of Some v \<Rightarrow> [(A_Domain, v)] | None \<Rightarrow> [])
     @ (case ck_maxAge ck of Some v \<Rightarrow> [(A_MaxAge, int_str v)] | None \<Rightarrow> [])
     @ (case ck_expires ck of Some v \<Rightarrow> [(A_Expires, FullDate_write L RFC1123 v)] | None \<Rightarrow> [])
     @ (if ck_secure ck then [(A_Secure, [])] else [])
     @ (if ck_httpOnly ck then [(A_HttpOnly, [])] else [])"

lemma attrs_text_append: "attrs_text (as @ bs) = attrs_text as @ attrs_text bs"
  by (induction as) simp_all

lemma Cookie_write_attrs:
  "ck_ext ck = [] \<Longrightarrow>
   Cookie_write L ck = ck_name ck @ ''='' @ ck_value ck @ attrs_text (cookie_attr_list L ck)"
  by (simp add: Cookie_write_def cookie_attr_list_def attrs_text_append is_flag_def split: option.split)

lemma Cookie_fromString_text:
  assumes n: "CHR ''='' \<notin> set n" and v: "CHR '';'' \<notin> set v"
    and as: "list_all (\<lambda>(a, v). CHR '';'' \<notin> set v) as"
    and len: "length (n @ ''='' @ v @ attrs_text as) < 2 ^ 63"
  shows "Cookie_fromString L (n @ ''='' @ v @ attrs_text as) = attr_sets L as (Cookie n v)"
proof -
  let ?c = "RawStreamBuf (n @ ''='' @ v @ attrs_text as)"
  have wf: "wf_cursor ?c" using len by (rule wf_RawStreamBuf)
  have r: "rest ?c = n @ CHR ''='' # v @ attrs_text as" by simp
  let ?c1 = "?c\<lparr>spos := spos ?c + length n\<rparr>"
  have wf1: "wf_cursor ?c1" and r1: "rest ?c1 = CHR ''='' # v @ attrs_text as"
    using wf_at [OF wf r] rest_at [OF r] by simp_all
  have m1: "match_until [CHR ''=''] Insensitive ?c = (True, ?c1)"
    using match_until_stop [OF wf _ r n] by simp
  let ?c2 = "?c1\<lparr>spos := Suc (spos ?c1)\<rparr>"
  have a: "advance 1 ?c1 = (True, ?c2)" by (rule advance1_Cons [OF wf1 r1])
  have wf2: "wf_cursor ?c2" and r2: "rest ?c2 = v @ attrs_text as"
    using wf_Suc [OF wf1 r1] rest_Suc [OF r1] by simp_all
  let ?c3 = "?c2\<lparr>spos := spos ?c2 + length v\<rparr>"
  have wf3: "wf_cursor ?c3" and r3: "rest ?c3 = attrs_text as"
    using wf_at [OF wf2 r2] rest_at [OF r2] by simp_all
  have m2: "match_until [CHR '';''] Insensitive ?c2 = (attrs_text as \<noteq> [], ?c3)"
    by (rule match_until_stop [OF wf2 _ r2 v attrs_text_stop]) simp
  have t: "token_text ?c ?c1 = n" "token_text ?c2 ?c3 = v"
    unfolding token_text_move using r r2 by simp_all
  have step: "Cookie_fromString L (n @ ''='' @ v @ attrs_text as) =
      (if eof ?c3 then Inr (Cookie n v) else cookie_attrs L (snd (advance 1 ?c3)) (Cookie n v))"
    unfolding Cookie_fromString_def Cookie_fromRaw_def Let_def take_all_iff [THEN iffD2, OF order.refl]
      m1 a m2 t prod.case bool.case snd_conv by (rule refl)
  show ?thesis
  proof (cases as)
    case Nil
    then show ?thesis using step r3 by (simp add: eof_rest)
  next
    case (Cons av as')
    let ?c4 = "?c3\<lparr>spos := Suc (spos ?c3)\<rparr>"
    have r3': "rest ?c3 = CHR '';'' # tl (attrs_text as)" using r3 Cons by simp
    have "cookie_attrs L ?c4 (Cookie n v) = attr_sets L as (Cookie n v)"
      using cookie_attrs_text [of ?c4 av as' L "Cookie n v"] wf_Suc [OF wf3 r3'] rest_Suc [OF r3'] as Cons
      by simp
    moreover have "snd (advance 1 ?c3) = ?c4" using advance1_Cons [OF wf3 r3'] by simp
    moreover have "\<not> eof ?c3" using r3' by (simp add: eof_rest)
    ultimately show ?thesis using step by simp
  qed
qed

lemma wrap32_small [simp]: "- (2 ^ 31) \<le> i \<Longrightarrow> i < 2 ^ 31 \<Longrightarrow> wrap32 i = i"
  by (simp add: wrap32_def)

lemma is_digit_10:
  "is_digit 10 ch \<Longrightarrow> c_isdigit ch \<and> digit_of 10 ch = Some (byte_of ch - 48)"
  by (auto simp: is_digit_def digit_of_def c_isdigit_def Let_def split: if_splits)

lemma num_val_ge: "2 \<le> base \<Longrightarrow> acc \<le> num_val base acc s"
proof (induction s arbitrary: acc)
  case (Cons ch s)
  let ?acc = "acc * base + (case digit_of base ch of None \<Rightarrow> 0 | Some d \<Rightarrow> d)"
  have "acc \<le> ?acc" using Cons.prems by (cases base) auto
  also have "\<dots> \<le> num_val base ?acc s" using Cons by simp
  finally show ?case by simp
qed simp

lemma strntol_digits:
  "list_all (is_digit 10) s \<Longrightarrow> num_val 10 acc s < 2 ^ 31 \<Longrightarrow>
   strntol (int acc) s = Inr (int (num_val 10 acc s))"
proof (induction s arbitrary: acc)
  case (Cons ch s)
  then have d: "c_isdigit ch" "digit_of 10 ch = Some (byte_of ch - 48)" using is_digit_10 by auto
  let ?n = "acc * 10 + (byte_of ch - 48)"
  have "48 \<le> (byte_of ch :: nat)" using d(1) by (simp add: c_isdigit_def)
  then have n: "int acc * 10 + (int (byte_of ch) - 48) = int ?n" by simp
  have "?n \<le> num_val 10 ?n s" by (rule num_val_ge) simp
  then have lt: "?n < 2 ^ 31" using Cons.prems d by simp
  have "int ?n < int (2 ^ 31)" unfolding of_nat_less_iff by (rule lt)
  then have "wrap32 (int acc * 10) = int acc * 10" "wrap32 (int ?n) = int ?n"
    by (intro wrap32_small; simp)+
  moreover have "strntol (int ?n) s = Inr (int (num_val 10 ?n s))"
    using Cons.prems d by (intro Cons.IH) simp_all
  ultimately show ?case by (simp only: strntol.simps d n if_False not_True_eq_False num_val.simps option.case)
qed simp

lemma strntol_dec_str: "n < 2 ^ 31 \<Longrightarrow> strntol 0 (dec_str n) = Inr (int n)"
  using strntol_digits [of "dec_str n" 0] num_str_digits [of 10 n] num_val_num_str [of 10 n] by simp

lemma digits_no_semicolon: "CHR '';'' \<notin> set (dec_str n)"
proof
  assume "CHR '';'' \<in> set (dec_str n)"
  then have "is_digit 10 (CHR '';'')" using num_str_digits [of 10 n] by (simp add: list_all_iff)
  moreover have "\<not> is_digit 10 (CHR '';'')" by code_simp
  ultimately show False by simp
qed

text \<open>The cookies that come back: the conditions are on the texts, the age and the expiry date.\<close>

definition plain_cookie :: "date_lib \<Rightarrow> cookie \<Rightarrow> bool" where
  "plain_cookie L ck \<longleftrightarrow> CHR ''='' \<notin> set (ck_name ck) \<and> CHR '';'' \<notin> set (ck_value ck)
     \<and> (\<forall>p. ck_path ck = Some p \<longrightarrow> CHR '';'' \<notin> set p) \<and> (\<forall>d. ck_domain ck = Some d \<longrightarrow> CHR '';'' \<notin> set d)
     \<and> (\<forall>n. ck_maxAge ck = Some n \<longrightarrow> 0 \<le> n \<and> n < 2 ^ 31)
     \<and> (\<forall>d. ck_expires ck = Some d \<longrightarrow> reads_back L d \<and> CHR '';'' \<notin> set (FullDate_write L RFC1123 d))
     \<and> ck_ext ck = [] \<and> length (Cookie_write L ck) < 2 ^ 63"

lemma plain_cookie_read:
  assumes "plain_cookie L ck"
  shows "Cookie_fromString L (Cookie_write L ck) = Inr ck"
proof -
  have name: "CHR ''='' \<notin> set (ck_name ck)" and val: "CHR '';'' \<notin> set (ck_value ck)"
    and path: "\<forall>p. ck_path ck = Some p \<longrightarrow> CHR '';'' \<notin> set p" and dom: "\<forall>d. ck_domain ck = Some d \<longrightarrow> CHR '';'' \<notin> set d"
    and age: "\<forall>n. ck_maxAge ck = Some n \<longrightarrow> 0 \<le> n \<and> n < 2 ^ 31"
    and date: "\<forall>d. ck_expires ck = Some d \<longrightarrow> reads_back L d \<and> CHR '';'' \<notin> set (FullDate_write L RFC1123 d)"
    and ext: "ck_ext ck = []" and len: "length (Cookie_write L ck) < 2 ^ 63"
    using assms unfolding plain_cookie_def by blast+
  note date' = date FullDate_round_trip(1) [of L]
  have as: "list_all (\<lambda>(a, v). CHR '';'' \<notin> set v) (cookie_attr_list L ck)"
    using path dom age date digits_no_semicolon
    by (auto simp: cookie_attr_list_def int_str_def split: option.split)
  have "Cookie_fromString L (Cookie_write L ck) =
      attr_sets L (cookie_attr_list L ck) (Cookie (ck_name ck) (ck_value ck))"
    using Cookie_fromString_text [OF name val as] len by (simp add: Cookie_write_attrs [OF ext])
  also have "\<dots> = Inr ck"
    using age date' strntol_dec_str [of "nat (the (ck_maxAge ck))"] ext
    by (cases ck) (auto simp: cookie_attr_list_def Cookie_def int_str_def nat_less_iff split: option.split)
  finally show ?thesis .
qed

text \<open>
  C35: a cookie without extension attributes is recovered from its printed form: name without an
  equals sign, value, path and domain without a semicolon, a non-negative age, any flags, and an expiry
  date that the date library reads back from what it wrote.  A negative age is printed but not read.
\<close>

theorem cookie_round_trip:
  assumes name: "CHR ''='' \<notin> set (ck_name ck)" and val: "CHR '';'' \<notin> set (ck_value ck)"
    and path: "\<forall>p. ck_path ck = Some p \<longrightarrow> CHR '';'' \<notin> set p"
    and dom: "\<forall>d. ck_domain ck = Some d \<longrightarrow> CHR '';'' \<notin> set d"
    and age: "\<forall>n. ck_maxAge ck = Some n \<longrightarrow> 0 \<le> n \<and> n < 2 ^ 31"
    and date: "\<forall>d. ck_expires ck = Some d \<longrightarrow>
          reads_back L d \<and> CHR '';'' \<notin> set (FullDate_write L RFC1123 d)"
    and ext: "ck_ext ck = []" and len: "length (Cookie_write L ck) < 2 ^ 63"
  shows "Cookie_fromString L (Cookie_write L ck) = Inr ck"
  by (rule plain_cookie_read) (use assms in \<open>unfold plain_cookie_def, blast\<close>)

text \<open>A date library for the witness: one date, printed and read as a fixed text.\<close>

definition one_date_lib :: date_lib where
  "one_date_lib =
     \<lparr>dl_parse = (\<lambda>f s. if s = ''Sun, 06 Nov 1994 08:49:37 GMT'' then Some 784111777000000000 else None),
      dl_to_stream = (\<lambda>f d. ''Sun, 06 Nov 1994 08:49:37 GMT''),
      dl_put_gmt = (\<lambda>f d. ''Sun, 06 Nov 1994 08:49:37 GMT'')\<rparr>"

definition sample_cookie :: cookie where
  "sample_cookie = (Cookie ''lang'' ''fr-FR'')\<lparr>ck_path := Some ''/'', ck_maxAge := Some 3600,
     ck_expires := Some 784111777000000000, ck_secure := True\<rparr>"

theorem cookie_round_trip_witness:
  "Cookie_fromString one_date_lib (Cookie_write one_date_lib sample_cookie) = Inr sample_cookie"
proof (rule cookie_round_trip)
  have "length (Cookie_write one_date_lib sample_cookie) = 79" by code_simp
  then show "length (Cookie_write one_date_lib sample_cookie) < 2 ^ 63" by simp
qed (simp_all add: sample_cookie_def Cookie_def one_date_lib_def reads_back_def)

text \<open>
  An attribute that follows an extension attribute is not recognised: the loop does not
  step over the semicolon behind the extension value, which becomes part of the next name.
\<close>

lemma cookie_after_extension:
  "Cookie_fromString L ''a=b; foo=bar; Path=/x'' =
     Inr ((Cookie ''a'' ''b'')\<lparr>ck_ext := [(''; Path'', ''/x''), (''foo'', ''bar'')]\<rparr>)"
  by code_simp

section \<open>The cookies of a request\<close>

fun cookies_text :: "(string \<times> string) list \<Rightarrow> string" where
  "cookies_text [] = []"
| "cookies_text [(n, v)] = n @ ''='' @ v"
| "cookies_text ((n, v) # kvs) = n @ ''='' @ v @ ''; '' @ cookies_text kvs"

definition cookie_pair :: "string \<times> string \<Rightarrow> bool" where
  "cookie_pair nv \<longleftrightarrow> CHR ''='' \<notin> set (fst nv) \<and> CHR '';'' \<notin> set (snd nv)
     \<and> (fst nv = [] \<or> (hd (fst nv) \<noteq> SP \<and> hd (fst nv) \<noteq> HTAB))"

text \<open>One round of \<open>addFromRaw\<close>.\<close>

lemma jar_add_loop_step:
  assumes wf: "wf_cursor c" and r: "rest c = n @ ''='' @ v @ t" and nv: "cookie_pair (n, v)"
    and t: "t = [] \<or> (\<exists>u. t = ''; '' @ u \<and> (u = [] \<or> (hd u \<noteq> SP \<and> hd u \<noteq> HTAB)))"
  shows "\<exists>c'. jar_add_loop c jar = jar_add_loop c' (jar_add (Cookie n v) jar)
           \<and> wf_cursor c' \<and> rest c' = drop 2 t"
proof -
  have r0: "rest c = n @ CHR ''='' # v @ t" using r by simp
  let ?c1 = "c\<lparr>spos := spos c + length n\<rparr>"
  have wf1: "wf_cursor ?c1" and r1: "rest ?c1 = CHR ''='' # v @ t"
    using wf_at [OF wf r0] rest_at [OF r0] by simp_all
  have m1: "match_until [CHR ''=''] Insensitive c = (True, ?c1)"
    using match_until_stop [OF wf _ r0] nv by (simp add: cookie_pair_def)
  let ?c2 = "?c1\<lparr>spos := Suc (spos ?c1)\<rparr>"
  have a: "advance 1 ?c1 = (True, ?c2)" by (rule advance1_Cons [OF wf1 r1])
  have wf2: "wf_cursor ?c2" and r2: "rest ?c2 = v @ t"
    using wf_Suc [OF wf1 r1] rest_Suc [OF r1] by simp_all
  let ?c3 = "?c2\<lparr>spos := spos ?c2 + length v\<rparr>"
  have wf3: "wf_cursor ?c3" and r3: "rest ?c3 = t"
    using wf_at [OF wf2 r2] rest_at [OF r2] by simp_all
  have m2: "match_until [CHR '';''] Insensitive ?c2 = (t \<noteq> [], ?c3)"
    using nv t by (intro match_until_stop [OF wf2 _ r2]) (auto simp: cookie_pair_def)
  have tt: "token_text c ?c1 = n" "token_text ?c2 ?c3 = v"
    unfolding token_text_move using r0 r2 by simp_all
  let ?c4 = "skip_whitespaces (snd (advance 1 ?c3))"
  have ne: "\<not> eof c" using r by (simp add: eof_rest)
  have "jar_add_loop c jar = jar_add_loop ?c4 (jar_add (Cookie n v) jar)"
    by (subst jar_add_loop.simps)
      (simp only: ne m1 a m2 tt prod.case bool.case snd_conv Let_def if_False)
  moreover have "wf_cursor ?c4 \<and> rest ?c4 = drop 2 t"
  proof (cases t)
    case Nil
    then show ?thesis using advance1_Nil [of ?c3] r3 wf3 by (simp add: skip_whitespaces_eq)
  next
    case (Cons x t')
    with t obtain u where u: "t = CHR '';'' # SP # u" "u = [] \<or> (hd u \<noteq> SP \<and> hd u \<noteq> HTAB)" by auto
    let ?d = "?c3\<lparr>spos := Suc (spos ?c3)\<rparr>"
    have d: "advance 1 ?c3 = (True, ?d)" "wf_cursor ?d" "rest ?d = SP # u"
      using advance1_Cons [OF wf3] wf_Suc [OF wf3] rest_Suc [of ?c3] r3 u by auto
    have "takeWhile (\<lambda>x. x = SP \<or> x = HTAB) (rest ?d) = [SP]"
      unfolding d(3) using u(2) by (cases u) auto
    then have "?c4 = ?d\<lparr>spos := Suc (spos ?d)\<rparr>" by (simp only: d(1) snd_conv skip_whitespaces_eq [OF d(2)]) simp
    then show ?thesis using wf_Suc [OF d(2,3)] rest_Suc [OF d(3)] u(1) by simp
  qed
  ultimately show ?thesis by blast
qed

lemma cookies_text_head:
  "\<forall>nv \<in> set kvs. cookie_pair nv \<Longrightarrow>
   cookies_text kvs = [] \<or> (hd (cookies_text kvs) \<noteq> SP \<and> hd (cookies_text kvs) \<noteq> HTAB)"
  by (cases kvs rule: cookies_text.cases) (auto simp: cookie_pair_def hd_append)

lemma jar_add_loop_text:
  "\<forall>nv \<in> set kvs. cookie_pair nv \<Longrightarrow> wf_cursor c \<Longrightarrow> rest c = cookies_text kvs \<Longrightarrow>
   jar_add_loop c jar = (None, fold (\<lambda>(n, v). jar_add (Cookie n v)) kvs jar)"
proof (induction kvs arbitrary: c jar rule: cookies_text.induct)
  case 1
  then show ?case by (subst jar_add_loop.simps) (simp add: eof_rest)
next
  case (2 n v)
  then obtain c' where "jar_add_loop c jar = jar_add_loop c' (jar_add (Cookie n v) jar)" "rest c' = []"
    using jar_add_loop_step [of c n v "[]" jar] by auto
  then show ?case by (subst (asm) (2) jar_add_loop.simps) (simp add: eof_rest)
next
  case (3 n v kv kvs)
  let ?u = "cookies_text (kv # kvs)"
  have "?u = [] \<or> (hd ?u \<noteq> SP \<and> hd ?u \<noteq> HTAB)" using 3(2) by (intro cookies_text_head) simp
  then obtain c' where c': "jar_add_loop c jar = jar_add_loop c' (jar_add (Cookie n v) jar)"
      "wf_cursor c'" "rest c' = ?u"
    using jar_add_loop_step [of c n v "''; '' @ ?u" jar] 3(2-4) by (auto simp: cookie_pair_def)
  then show ?case using 3(1) [OF _ c'(2,3)] 3(2) by simp
qed

text \<open>The jar as a finite map from a name and a value to the cookie stored for them.\<close>

definition jar_look :: "cookie_jar \<Rightarrow> string \<times> string \<Rightarrow> cookie option" where
  "jar_look jar nv = (case um_find (=) jar (fst nv) of Some m \<Rightarrow> um_find (=) m (snd nv) | None \<Rightarrow> None)"

lemma um_find_assign_eq: "um_find (=) (um_assign (=) k v m) k' = (if k = k' then Some v else um_find (=) m k')"
  by (induction m) auto

lemma jar_look_add:
  "jar_look (jar_add ck jar) nv =
     (if nv = (ck_name ck, ck_value ck) \<and> jar_look jar nv = None then Some ck else jar_look jar nv)"
  by (cases nv) (auto simp: jar_look_def jar_add_def um_find_assign_eq str_map.look_ins split: option.split)

text \<open>
  Reading the \<open>Cookie\<close> header of a request adds exactly its name-value pairs: no
  exception, every pair of the header is in the jar afterwards, and nothing else is new.
\<close>

theorem jar_addFromRaw_pairs:
  assumes "\<forall>nv \<in> set kvs. cookie_pair nv" "length (cookies_text kvs) < 2 ^ 63"
  shows "\<exists>jar'. jar_addFromRaw (cookies_text kvs) (length (cookies_text kvs)) jar = (None, jar')
     \<and> (\<forall>n v. jar_look jar' (n, v) =
           (case jar_look jar (n, v) of
              Some ck \<Rightarrow> Some ck
            | None \<Rightarrow> if (n, v) \<in> set kvs then Some (Cookie n v) else None))"
proof -
  let ?add = "\<lambda>(n, v). jar_add (Cookie n v)"
  have look: "jar_look (fold ?add kvs jar) (n, v) =
      (case jar_look jar (n, v) of
         Some ck \<Rightarrow> Some ck
       | None \<Rightarrow> if (n, v) \<in> set kvs then Some (Cookie n v) else None)" for n v
  proof (induction kvs arbitrary: jar)
    case Nil
    then show ?case by (simp split: option.split)
  next
    case (Cons kv kvs)
    show ?case
      unfolding fold_Cons comp_apply Cons.IH
      by (cases kv) (auto simp: jar_look_add Cookie_def split: option.split)
  qed
  have "jar_addFromRaw (cookies_text kvs) (length (cookies_text kvs)) jar = (None, fold ?add kvs jar)"
    using jar_add_loop_text [OF assms(1), of "RawStreamBuf (cookies_text kvs)"] assms(2)
    by (simp add: jar_addFromRaw_def)
  with look show ?thesis by blast
qed

theorem jar_addFromRaw_pairs_witness:
  "\<exists>jar'. jar_addFromRaw ''a=1; b=2'' (length ''a=1; b=2'') CookieJar = (None, jar')
     \<and> jar_look jar' (''b'', ''2'') = Some (Cookie ''b'' ''2'')"
  using jar_addFromRaw_pairs [of "[(''a'', ''1''), (''b'', ''2'')]" CookieJar]
  by (auto simp: cookie_pair_def CookieJar_def jar_look_def [of "[]"])

end
