(* ===== verification/Mime_Type.thy ===== *)
theory Mime_Type
  imports Stream_Buf Http_Defs
begin

text \<open>
  include/pistache/mime.h and src/common/mime.cc: quality values and media types, with the parser
  \<open>MediaType::parseRaw\<close> and the printer \<open>MediaType::toString\<close>; and \<open>strToQvalue\<close> of
  src/common/http_headers.cc, which the parser calls.  A function that the source calls with a
  pointer and a length takes the memory from the pointer on and the length, because
  \<open>strToQvalue\<close> reads past the length it is given no knowledge of.
\<close>

section \<open>Quality values\<close>

text \<open>The byte at an offset from a pointer; the memory ends with a NUL.\<close>

definition mem_at :: "string \<Rightarrow> nat \<Rightarrow> char" where
  "mem_at m i = (if i < length m then m ! i else NUL)"

text \<open>
  The scanning loop of \<open>strToQvalue\<close>: \<open>None\<close> is its early \<open>return false\<close>, otherwise the
  number of characters accepted.
\<close>

fun qvalue_scan :: "nat \<Rightarrow> string \<Rightarrow> nat \<Rightarrow> nat option" where
  "qvalue_scan 0 str qlen = Some qlen"
| "qvalue_scan (Suc k) str qlen =
     (let ch = mem_at str qlen
      in if ch = CHR ''.'' \<and> qlen \<noteq> 1 then None
         else if ch \<noteq> CHR ''.'' \<and> \<not> c_isdigit ch then Some qlen
         else qvalue_scan k str (Suc qlen))"

definition digit_at :: "string \<Rightarrow> nat \<Rightarrow> int" where
  "digit_at str i = int (byte_of (mem_at str i)) - 48"

text \<open>
  The quality is a \<open>float\<close> \<open>qint / 1000.0F\<close>; distinct thousandths in the range are distinct
  floats in the same order, so the model keeps \<open>qint\<close>.  \<open>None\<close> is \<open>false\<close>.
\<close>

definition strToQvalue :: "string \<Rightarrow> (int \<times> nat) option" where
  "strToQvalue str =
     (case qvalue_scan 6 str 0 of
        None \<Rightarrow> None
      | Some qlen \<Rightarrow>
          if qlen < 1 \<or> qlen = 2 \<or> 5 < qlen then None
          else if mem_at str 0 \<noteq> CHR ''0'' \<and> mem_at str 0 \<noteq> CHR ''1'' then None
          else let qint = (if qlen = 5 then digit_at str 4 else 0)
                        + (if 4 \<le> qlen then digit_at str 3 * 10 else 0)
                        + (if 3 \<le> qlen then digit_at str 2 * 100 else 0)
                        + digit_at str 0 * 1000
               in if 1000 < qint then None else Some (qint, qlen))"

text \<open>
  \<open>Q::fromFloat (qint / 1000.0F)\<close>.  The single-precision quotient is \<open>m / 2 ^ e\<close> with a
  24-bit mantissa \<open>m\<close>, rounded to nearest, ties to even; its product with 100 needs at most 31
  bits and is exact in double precision, and \<open>round\<close> takes halves away from zero.
\<close>

fun float_exp :: "nat \<Rightarrow> int \<Rightarrow> nat \<Rightarrow> nat" where
  "float_exp 0 qint e = e"
| "float_exp (Suc k) qint e =
     (if qint * 2 ^ e < 1000 * 2 ^ 23 then float_exp k qint (Suc e) else e)"

definition round_half_even :: "int \<Rightarrow> int \<Rightarrow> int" where
  "round_half_even a b =
     (let f = a div b; r = a mod b
      in if 2 * r < b \<or> (2 * r = b \<and> even f) then f else f + 1)"

definition Q_round :: "int \<Rightarrow> int" where
  "Q_round qint =
     (if qint = 0 then 0
      else let e = float_exp 40 qint 0;
               m = round_half_even (qint * 2 ^ e) 1000
           in (2 * (m * 100) + 2 ^ e) div (2 * 2 ^ e))"

definition Q :: "int \<Rightarrow> int result" where
  "Q v = (if 100 < v
          then Inl (Runtime_Error ''Invalid quality value, must be in the [0; 100] range'')
          else Inr v)"

definition Q_fromFloat :: "int \<Rightarrow> int result" where
  "Q_fromFloat qint = Q (Q_round qint)"

definition Q_toString :: "int \<Rightarrow> string" where
  "Q_toString v =
     (if v = 0 then ''q=0''
      else if v = 100 then ''q=1''
      else if v mod 10 = 0 then ''q=0.'' @ [digit_char (nat (v div 10))]
      else ''q=0.'' @ [digit_char (nat (v div 10)), digit_char (nat (v mod 10))])"

section \<open>Media types\<close>

datatype MType = T_Star | T_Text | T_Image | T_Audio | T_Video | T_Application | T_Message | T_Multipart | T_None

datatype MSubtype =
    S_Star
  | S_Plain
  | S_Html
  | S_Xhtml
  | S_Xml
  | S_Javascript
  | S_Css
  | S_OctetStream
  | S_Json
  | S_JsonSchema
  | S_JsonSchemaInstance
  | S_FormUrlEncoded
  | S_FormData
  | S_Png
  | S_Gif
  | S_Bmp
  | S_Jpeg
  | S_Vendor | S_Ext | S_None

datatype MSuffix = X_Json | X_Ber | X_Der | X_Fastinfoset | X_Wbxml | X_Zip | X_Xml | X_None | X_Ext

definition MIME_TYPES :: "(MType \<times> string) list" where
  "MIME_TYPES =
     [(T_Star, ''*''),
      (T_Text, ''text''),
      (T_Image, ''image''),
      (T_Audio, ''audio''),
      (T_Video, ''video''),
      (T_Application, ''application''),
      (T_Message, ''message''),
      (T_Multipart, ''multipart'')]"

definition MIME_SUBTYPES :: "(MSubtype \<times> string) list" where
  "MIME_SUBTYPES =
     [(S_Star, ''*''),
      (S_Plain, ''plain''),
      (S_Html, ''html''),
      (S_Xhtml, ''xhtml''),
      (S_Xml, ''xml''),
      (S_Javascript, ''javascript''),
      (S_Css, ''css''),
      (S_OctetStream, ''octet-stream''),
      (S_Json, ''json''),
      (S_JsonSchema, ''schema+json''),
      (S_JsonSchemaInstance, ''schema-instance+json''),
      (S_FormUrlEncoded, ''x-www-form-urlencoded''),
      (S_FormData, ''form-data''),
      (S_Png, ''png''),
      (S_Gif, ''gif''),
      (S_Bmp, ''bmp''),
      (S_Jpeg, ''jpeg'')]"

definition MIME_SUFFIXES :: "(MSuffix \<times> string) list" where
  "MIME_SUFFIXES =
     [(X_Json, ''json''),
      (X_Ber, ''ber''),
      (X_Der, ''der''),
      (X_Fastinfoset, ''fastinfoset''),
      (X_Wbxml, ''wbxml''),
      (X_Zip, ''zip''),
      (X_Xml, ''xml'')]"

record MediaType =
  mt_top :: MType
  mt_sub :: MSubtype
  mt_suffix :: MSuffix
  mt_raw :: string
  mt_rawSub :: "nat \<times> nat"
  mt_rawSuffix :: "nat \<times> nat"
  mt_params :: "(string \<times> string) list"
  mt_q :: "int option"

definition MediaType0 :: MediaType where
  "MediaType0 = \<lparr>mt_top = T_None, mt_sub = S_None, mt_suffix = X_None, mt_raw = [],
     mt_rawSub = (0, 0), mt_rawSuffix = (0, 0), mt_params = [], mt_q = None\<rparr>"

definition MediaType3 :: "MType \<Rightarrow> MSubtype \<Rightarrow> MSuffix \<Rightarrow> MediaType" where
  "MediaType3 t s x = MediaType0\<lparr>mt_top := t, mt_sub := s, mt_suffix := x\<rparr>"

definition unsupported :: "string \<Rightarrow> exn" where
  "unsupported msg = HttpError Code_Unsupported_Media_Type msg"

text \<open>The cascades of \<open>match_string\<close> calls that the item-list macros expand to.\<close>

fun match_table :: "('a \<times> string) list \<Rightarrow> scursor \<Rightarrow> ('a \<times> scursor) option" where
  "match_table [] c = None"
| "match_table ((v, s) # tab) c =
     (case match_string s Insensitive c of
        (True, c') \<Rightarrow> Some (v, c')
      | (False, _) \<Rightarrow> match_table tab c)"

text \<open>
  The loop over the parameters; \<open>mem\<close> is the memory the cursor's buffer is a prefix of.
\<close>

function mime_params :: "string \<Rightarrow> scursor \<Rightarrow> MediaType \<Rightarrow> MediaType result" where
  "mime_params mem c m =
     (if eof c then Inr m
      else if current c = CHR '';'' \<or> current c = SP then
        (if next_char c = EOF_char \<or> next_char c = NUL
         then Inl (unsupported ''Malformed Media Type, expected parameter got EOF'')
         else mime_params mem (snd (advance 1 c)) m)
      else if fst (match_literal (CHR ''q'') Insensitive c) then
        (let c1 = snd (match_literal (CHR ''q'') Insensitive c)
         in if eof c1 then Inl (unsupported ''Invalid quality factor'')
            else case match_literal (CHR ''='') Insensitive c1 of
              (True, c2) \<Rightarrow>
                (case strToQvalue (drop (spos c2) mem) of
                   None \<Rightarrow> Inl (unsupported ''Invalid quality factor'')
                 | Some (qint, qlen) \<Rightarrow>
                     (case Q_fromFloat qint of
                        Inl e \<Rightarrow> Inl e
                      | Inr q \<Rightarrow> mime_params mem (snd (advance qlen c2)) (m\<lparr>mt_q := Some q\<rparr>)))
            | (False, _) \<Rightarrow> Inl (unsupported ''Missing quality factor''))
      else
        (let c1 = snd (match_until [CHR ''=''] Insensitive c)
         in if eof c1 \<or> next_char c1 = EOF_char \<or> next_char c1 = NUL
            then Inl (unsupported ''Unfinished Media Type parameter'')
            else let key = token_text c c1;
                     c2 = snd (advance 1 c1);
                     c3 = snd (match_until [SP, CHR '';''] Insensitive c2);
                     v = token_text c2 c3
                 in mime_params mem c3 (m\<lparr>mt_params := um_insert (=) key v (mt_params m)\<rparr>)))"
  by pat_completeness auto
termination
proof (relation "measure (\<lambda>(mem, c, m). remaining c)", simp_all del: One_nat_def)
  fix c :: scursor
  show "\<not> eof c \<Longrightarrow> remaining (snd (advance 1 c)) < remaining c" by (rule remaining_advance1)
next
  fix c c2 :: scursor and qlen
  assume "fst (match_literal (CHR ''q'') Insensitive c)"
    and c2: "(True, c2) = match_literal (CHR ''='') Insensitive (snd (match_literal (CHR ''q'') Insensitive c))"
  then show "remaining (snd (advance qlen c2)) < remaining c"
    using remaining_match_literal_less [of "CHR ''q''" Insensitive c]
      remaining_match_literal_le [of "CHR ''=''" Insensitive "snd (match_literal (CHR ''q'') Insensitive c)"]
      remaining_advance_le [of qlen c2]
    by (metis order.strict_trans1 order.trans snd_conv)
next
  fix c :: scursor
  let ?c1 = "snd (match_until [CHR ''=''] Insensitive c)"
  assume "\<not> eof ?c1 \<and> next_char ?c1 \<noteq> EOF_char \<and> next_char ?c1 \<noteq> NUL"
  then have "remaining (snd (advance 1 ?c1)) < remaining ?c1"
    by (intro remaining_advance1) blast
  then show "remaining (snd (match_until [SP, CHR '';''] Insensitive (snd (advance 1 ?c1)))) < remaining c"
    using remaining_match_until_le [of "[CHR ''='']" Insensitive c]
      remaining_match_until_le [of "[SP, CHR '';'']" Insensitive "snd (advance 1 ?c1)"]
    by linarith
qed

declare mime_params.simps [simp del]

definition mime_suffix :: "string \<Rightarrow> scursor \<Rightarrow> MediaType \<Rightarrow> MediaType result" where
  "mime_suffix mem c m =
     (case match_literal (CHR ''+'') Insensitive c of
        (False, _) \<Rightarrow> mime_params mem c m
      | (True, c1) \<Rightarrow>
          if eof c1 then Inl (unsupported ''Malformed Media Type, expected suffix, got EOF'')
          else case match_table MIME_SUFFIXES c1 of
            Some (x, c2) \<Rightarrow> mime_params mem c2 (m\<lparr>mt_suffix := x\<rparr>)
          | None \<Rightarrow>
              let c2 = snd (match_until [CHR '';'', CHR ''+''] Insensitive c1)
              in mime_params mem c2
                   (m\<lparr>mt_rawSuffix := (spos c1, sz_of_ssz (int (spos c2) - 1)), mt_suffix := X_Ext\<rparr>))"

definition mime_subtype :: "scursor \<Rightarrow> MSubtype \<times> scursor" where
  "mime_subtype c =
     (case match_raw ''vnd.'' c of
        (True, c1) \<Rightarrow> (S_Vendor, c1)
      | (False, _) \<Rightarrow>
          (case match_table MIME_SUBTYPES c of Some (s, c1) \<Rightarrow> (s, c1) | None \<Rightarrow> (S_Ext, c)))"

text \<open>
  \<open>MediaType::parseRaw\<close> on an object \<open>m\<close>.  When it throws, the object is abandoned by every
  caller.
\<close>

definition MediaType_parseRaw :: "string \<Rightarrow> nat \<Rightarrow> MediaType \<Rightarrow> MediaType result" where
  "MediaType_parseRaw mem len m =
     (let c0 = RawStreamBuf (take len mem);
          m = m\<lparr>mt_raw := take len mem\<rparr>
      in case match_table MIME_TYPES c0 of
           None \<Rightarrow> Inl (unsupported ''Unknown Media Type'')
         | Some (t, c1) \<Rightarrow>
             (case match_literal (CHR ''/'') Insensitive c1 of
                (False, _) \<Rightarrow>
                  Inl (unsupported (''Malformed Media Type, expected a '' @ [CHR 0x27, CHR ''/'', CHR 0x27]
                         @ '' after the top type''))
              | (True, c2) \<Rightarrow>
                  if eof c2 then Inl (unsupported ''Malformed Media type, missing subtype'')
                  else
                    let (sub, c3) = mime_subtype c2;
                        c4 = (if sub = S_Ext \<or> sub = S_Vendor
                              then snd (match_until [CHR '';'', CHR ''+''] Insensitive c3) else c3);
                        m1 = (if sub = S_Ext \<or> sub = S_Vendor
                              then m\<lparr>mt_rawSub := (spos c2, sz_of_ssz (int (spos c4) - 1))\<rparr> else m);
                        m2 = m1\<lparr>mt_top := t, mt_sub := sub\<rparr>
                    in if eof c4 then Inr m2 else mime_suffix mem c4 m2))"

definition MediaType_fromRaw :: "string \<Rightarrow> nat \<Rightarrow> MediaType result" where
  "MediaType_fromRaw mem len = MediaType_parseRaw mem len MediaType0"

definition MediaType_fromString :: "string \<Rightarrow> MediaType result" where
  "MediaType_fromString s = MediaType_fromRaw s (length s)"

definition KnownExtensions :: "(string \<times> MType \<times> MSubtype) list" where
  "KnownExtensions =
     [(''jpg'', T_Image, S_Jpeg), (''jpeg'', T_Image, S_Jpeg), (''png'', T_Image, S_Png),
      (''bmp'', T_Image, S_Bmp), (''txt'', T_Text, S_Plain), (''md'', T_Text, S_Plain),
      (''bin'', T_Application, S_OctetStream)]"

text \<open>The text after the last dot of a C string.\<close>

fun file_extension :: "string \<Rightarrow> string option" where
  "file_extension [] = None"
| "file_extension (ch # s) =
     (case file_extension s of
        Some e \<Rightarrow> Some e
      | None \<Rightarrow> if ch = CHR ''.'' then Some s else None)"

definition MediaType_fromFile :: "string \<Rightarrow> MediaType" where
  "MediaType_fromFile fileName =
     (case file_extension fileName of
        None \<Rightarrow> MediaType0
      | Some e \<Rightarrow>
          (case map_of KnownExtensions e of
             Some (t, s) \<Rightarrow> MediaType3 t s X_None
           | None \<Rightarrow> MediaType0))"

definition MediaType_setQuality :: "int \<Rightarrow> MediaType \<Rightarrow> MediaType" where
  "MediaType_setQuality q m = m\<lparr>mt_q := Some q\<rparr>"

definition MediaType_getParam :: "string \<Rightarrow> MediaType \<Rightarrow> string option" where
  "MediaType_getParam name m = um_find (=) (mt_params m) name"

definition MediaType_setParam :: "string \<Rightarrow> string \<Rightarrow> MediaType \<Rightarrow> MediaType" where
  "MediaType_setParam name v m = m\<lparr>mt_params := um_assign (=) name v (mt_params m)\<rparr>"

definition table_string :: "('a \<times> string) list \<Rightarrow> 'a \<Rightarrow> string" where
  "table_string tab v = (case map_of tab v of Some s \<Rightarrow> s | None \<Rightarrow> [])"

definition suffixString :: "MSuffix \<Rightarrow> string" where
  "suffixString x = (case map_of MIME_SUFFIXES x of Some s \<Rightarrow> CHR ''+'' # s | None \<Rightarrow> [])"

definition MediaType_toString :: "MediaType \<Rightarrow> string" where
  "MediaType_toString m =
     (if mt_raw m \<noteq> [] then mt_raw m
      else table_string MIME_TYPES (mt_top m) @ ''/'' @ table_string MIME_SUBTYPES (mt_sub m)
         @ (if mt_suffix m \<noteq> X_None then suffixString (mt_suffix m) else [])
         @ (case mt_q m of Some q \<Rightarrow> ''; '' @ Q_toString q | None \<Rightarrow> [])
         @ concat (map (\<lambda>(k, v). ''; '' @ k @ ''='' @ v) (mt_params m)))"

definition MediaType_isValid :: "MediaType \<Rightarrow> bool" where
  "MediaType_isValid m \<longleftrightarrow> mt_top m \<noteq> T_None \<and> mt_sub m \<noteq> S_None"

definition MediaType_eq :: "MediaType \<Rightarrow> MediaType \<Rightarrow> bool" where
  "MediaType_eq a b \<longleftrightarrow> mt_top a = mt_top b \<and> mt_sub a = mt_sub b \<and> mt_suffix a = mt_suffix b"

text \<open>\<open>Index::splice\<close> for the raw subtype; \<open>None\<close> is the failed assertion.\<close>

definition MediaType_rawSub :: "MediaType \<Rightarrow> string result option" where
  "MediaType_rawSub m =
     (case mt_rawSub m of (b, e) \<Rightarrow>
        if e < b then None else Some (substr (mt_raw m) b (e - b + 1)))"

section \<open>Quality values stay in range\<close>

lemma round_half_even_le:
  assumes "0 < b" "a \<le> k * b"
  shows "round_half_even a b \<le> k"
proof -
  have "a div b \<le> k" using assms zdiv_mono1 [of a "k * b" b] by simp
  moreover have "a div b = k \<Longrightarrow> a mod b = 0"
    using assms div_mult_mod_eq [of a b] pos_mod_sign [of b a] by (metis add_le_same_cancel1 order_antisym)
  ultimately show ?thesis
    using assms by (cases "a div b = k") (auto simp: round_half_even_def Let_def)
qed

lemma round_half_even_nonneg: "0 < b \<Longrightarrow> 0 \<le> a \<Longrightarrow> 0 \<le> round_half_even a b"
  by (auto simp: round_half_even_def Let_def pos_imp_zdiv_nonneg_iff)

lemma Q_round_range:
  assumes "0 \<le> q" "q \<le> 1000"
  shows "0 \<le> Q_round q \<and> Q_round q \<le> 100"
proof -
  define e where "e = float_exp 40 q 0"
  define m where "m = round_half_even (q * 2 ^ e) 1000"
  define p :: int where "p = 2 ^ e"
  have p: "0 < p" by (simp add: p_def)
  have "q * p \<le> 1000 * p" using assms p by (simp add: mult_right_mono)
  then have m: "m \<le> p" "0 \<le> m"
    using assms unfolding m_def p_def
    by (auto intro!: round_half_even_le round_half_even_nonneg)
  have "(2 * (m * 100) + p) div (2 * p) \<le> (p + 100 * (2 * p)) div (2 * p)"
    using m p by (intro zdiv_mono1) simp_all
  moreover have "(p + 100 * (2 * p)) div (2 * p) = 100"
    using p by (simp only: div_mult_self1) (simp add: div_pos_pos_trivial)
  moreover have "0 \<le> (2 * (m * 100) + p) div (2 * p)"
    using m p by (simp add: pos_imp_zdiv_nonneg_iff)
  ultimately show ?thesis
    unfolding p_def m_def e_def by (simp add: Q_round_def Let_def)
qed

lemma qvalue_scan_le: "qvalue_scan k str i = Some n \<Longrightarrow> i \<le> n \<and> n \<le> i + k"
  by (induction k str i rule: qvalue_scan.induct) (auto simp: Let_def split: if_splits)

lemma qvalue_scan_digits:
  "qvalue_scan k str i = Some n \<Longrightarrow> i \<le> j \<Longrightarrow> j < n \<Longrightarrow> j \<noteq> 1 \<Longrightarrow> c_isdigit (mem_at str j)"
proof (induction k str i rule: qvalue_scan.induct)
  case (2 k str i)
  then show ?case
    by (cases "j = i") (auto simp: Let_def split: if_splits)
qed simp

lemma digit_at_range: "c_isdigit (mem_at str j) \<Longrightarrow> 0 \<le> digit_at str j \<and> digit_at str j \<le> 9"
  by (simp add: digit_at_def c_isdigit_def)

lemma strToQvalue_bounds:
  assumes "strToQvalue str = Some (q, n)"
  shows "0 \<le> q \<and> q \<le> 1000 \<and> n \<in> {1, 3, 4, 5}"
proof -
  from assms have scan: "qvalue_scan 6 str 0 = Some n" and n: "1 \<le> n" "n \<noteq> 2" "n \<le> 5" and q: "q \<le> 1000"
    and val: "q = (if n = 5 then digit_at str 4 else 0) + (if 4 \<le> n then digit_at str 3 * 10 else 0)
           + (if 3 \<le> n then digit_at str 2 * 100 else 0) + digit_at str 0 * 1000"
    by (auto simp: strToQvalue_def Let_def split: option.splits if_splits)
  have d: "j < n \<Longrightarrow> j \<noteq> 1 \<Longrightarrow> 0 \<le> digit_at str j" for j
    using qvalue_scan_digits [OF scan, of j] digit_at_range by simp
  have "0 \<le> q"
    unfolding val using d [of 0] d [of 2] d [of 3] d [of 4] n by auto
  moreover have "n \<in> {1, 3, 4, 5}" using n by auto
  ultimately show ?thesis using q by simp
qed

text \<open>
  C40: whatever \<open>strToQvalue\<close> accepts is a quality between 0 and 1 read from one to five
  characters, and converting it to a percentage never throws.
\<close>

theorem strToQvalue_range:
  assumes "strToQvalue str = Some (q, n)"
  shows "0 \<le> q \<and> q \<le> 1000 \<and> n \<in> {1, 3, 4, 5} \<and> (\<exists>v. Q_fromFloat q = Inr v \<and> 0 \<le> v \<and> v \<le> 100)"
  using strToQvalue_bounds [OF assms] Q_round_range [of q] by (simp add: Q_fromFloat_def Q_def)

theorem strToQvalue_range_witness:
  "\<exists>v. Q_fromFloat 333 = Inr v \<and> 0 \<le> v \<and> v \<le> 100"
proof -
  have "strToQvalue ''0.333, x'' = Some (333, 5)" by code_simp
  from strToQvalue_range [OF this] show ?thesis by blast
qed

section \<open>Printing and parsing\<close>

lemma match_table_eq:
  "wf_cursor c \<Longrightarrow> match_table tab c =
     map_option (\<lambda>(v, p). (v, c\<lparr>spos := spos c + length p\<rparr>))
       (List.find (\<lambda>(v, p). prefix (to_lower p) (to_lower (rest c))) tab)"
proof (induction tab)
  case (Cons vp tab)
  then show ?case by (cases vp) (simp add: match_string_eq)
qed simp

lemmas table_eval = to_lower_def c_tolower_def table_string_def

lemma find_type:
  "t \<noteq> T_None \<Longrightarrow>
   List.find (\<lambda>(v, p). prefix (to_lower p) (to_lower (table_string MIME_TYPES t @ CHR ''/'' # r))) MIME_TYPES
     = Some (t, table_string MIME_TYPES t)"
  by (cases t) (simp_all add: MIME_TYPES_def table_eval)

definition printed_sub :: "MSubtype \<Rightarrow> bool" where
  "printed_sub s \<longleftrightarrow> s \<notin> {S_Vendor, S_Ext, S_None}"

lemma find_subtype:
  "printed_sub s \<Longrightarrow> r = [] \<or> hd r \<in> {CHR '';'', CHR ''+''} \<Longrightarrow>
   List.find (\<lambda>(v, p). prefix (to_lower p) (to_lower (table_string MIME_SUBTYPES s @ r))) MIME_SUBTYPES
     = Some (s, table_string MIME_SUBTYPES s)"
  by (cases s) (simp_all add: MIME_SUBTYPES_def table_eval printed_sub_def)

lemma find_suffix:
  "x \<noteq> X_None \<Longrightarrow> x \<noteq> X_Ext \<Longrightarrow>
   List.find (\<lambda>(v, p). prefix (to_lower p) (to_lower (table_string MIME_SUFFIXES x @ r))) MIME_SUFFIXES
     = Some (x, table_string MIME_SUFFIXES x)"
  by (cases x) (simp_all add: MIME_SUFFIXES_def table_eval)

lemma printed_short:
  "length (table_string MIME_TYPES t) \<le> 11" "length (table_string MIME_SUBTYPES s) \<le> 21"
  "length (suffixString x) \<le> 12" "length (Q_toString v) \<le> 6"
  subgoal by (cases t) (simp_all add: MIME_TYPES_def table_string_def)
  subgoal by (cases s) (simp_all add: MIME_SUBTYPES_def table_string_def)
  subgoal by (cases x) (simp_all add: MIME_SUFFIXES_def suffixString_def)
  subgoal by (simp add: Q_toString_def)
  done

lemma printed_sub_head: 
  "printed_sub s \<Longrightarrow> table_string MIME_SUBTYPES s \<noteq> [] \<and> \<not> prefix ''vnd.'' (table_string MIME_SUBTYPES s @ r)"
  by (cases s) (simp_all add: MIME_SUBTYPES_def table_string_def printed_sub_def)

lemma float_exp_stop: "float_exp k q e = e + k \<or> 1000 * 2 ^ 23 \<le> q * 2 ^ float_exp k q e"
proof (induction k q e rule: float_exp.induct)
  case (2 k q e)
  then show ?case by auto
qed simp

lemma float_exp_large:
  assumes "q \<le> 1000"
  shows "128 \<le> (2 :: int) ^ float_exp 40 q 0"
proof -
  have "7 \<le> float_exp 40 q 0"
  proof (rule ccontr)
    assume "\<not> 7 \<le> float_exp 40 q 0"
    then have "float_exp 40 q 0 \<le> 7" and n: "float_exp 40 q 0 \<noteq> 0 + 40" by simp_all
    from this(1) have "(2 :: int) ^ float_exp 40 q 0 \<le> 2 ^ 7" by (rule power_increasing) simp
    then have "q * 2 ^ float_exp 40 q 0 \<le> 1000 * 2 ^ 7"
      using assms by (intro mult_mono) auto
    with n float_exp_stop [of 40 q 0] show False by simp
  qed
  then have "(2 :: int) ^ 7 \<le> 2 ^ float_exp 40 q 0" by (rule power_increasing) simp
  then show ?thesis by simp
qed

lemma round_half_even_near:
  assumes "0 < b"
  shows "2 * (b * round_half_even a b) \<le> 2 * a + b" "2 * a \<le> 2 * (b * round_half_even a b) + b"
proof -
  define f r where "f = a div b" "r = a mod b"
  have "a = b * f + r" "0 \<le> r" "r < b" using assms by (simp_all add: f_r_def)
  then show "2 * (b * round_half_even a b) \<le> 2 * a + b" "2 * a \<le> 2 * (b * round_half_even a b) + b"
    unfolding round_half_even_def Let_def f_r_def [symmetric] by (auto simp: algebra_simps)
qed

text \<open>A percentage survives the detour through a single-precision float.\<close>

lemma Q_round_percent:
  assumes "0 \<le> v" "v \<le> 100"
  shows "Q_fromFloat (10 * v) = Inr v"
proof (cases "v = 0")
  case True
  then show ?thesis by (simp add: Q_fromFloat_def Q_def Q_round_def)
next
  case False
  define p :: int where "p = 2 ^ float_exp 40 (10 * v) 0"
  define m where "m = round_half_even (10 * v * p) 1000"
  have p: "128 \<le> p" using assms float_exp_large [of "10 * v"] by (simp add: p_def)
  have m: "200 * m \<le> 2 * v * p + 100" "2 * v * p \<le> 200 * m + 100"
    using round_half_even_near [of 1000 "10 * v * p"] by (auto simp: m_def)
  have "(2 * (m * 100) + p) div (2 * p) = v"
  proof (rule int_div_pos_eq)
    show "2 * (m * 100) + p = 2 * p * v + (2 * (m * 100) + p - 2 * p * v)" by simp
    show "0 \<le> 2 * (m * 100) + p - 2 * p * v" "2 * (m * 100) + p - 2 * p * v < 2 * p"
      using m p by (simp_all add: algebra_simps)
  qed
  with assms False show ?thesis
    unfolding p_def m_def by (simp add: Q_fromFloat_def Q_def Q_round_def Let_def mult.assoc)
qed

lemma digit_char_eval:
  assumes "d < 10"
  shows "c_isdigit (digit_char d)" "digit_char d \<noteq> CHR ''.''" "int (of_char (digit_char d)) = int d + 48"
proof -
  have v: "(of_char (digit_char d) :: nat) = d + 48"
    using assms by (simp add: digit_char_def of_char_of)
  then show "c_isdigit (digit_char d)" "int (of_char (digit_char d)) = int d + 48"
    using assms by (simp_all add: c_isdigit_def)
  show "digit_char d \<noteq> CHR ''.''"
  proof
    assume "digit_char d = CHR ''.''"
    then have "d + 48 = (of_char (CHR ''.'') :: nat)" using v by simp
    then show False by simp
  qed
qed

lemma strToQvalue_digits:
  "a < 10 \<Longrightarrow> strToQvalue [CHR ''0'', CHR ''.'', digit_char a] = Some (int a * 100, 3)"
  "a < 10 \<Longrightarrow> b < 10 \<Longrightarrow>
   strToQvalue [CHR ''0'', CHR ''.'', digit_char a, digit_char b] = Some (int a * 100 + int b * 10, 4)"
  by (simp_all add: strToQvalue_def eval_nat_numeral mem_at_def digit_at_def digit_char_eval
      c_isdigit_def [of NUL] c_isdigit_def [of "CHR ''0''"])

lemma strToQvalue_print:
  assumes "0 \<le> v" "v \<le> 100"
  shows "\<exists>s. Q_toString v = ''q='' @ s \<and> strToQvalue s = Some (10 * v, length s)"
proof -
  define a b where "a = nat (v div 10)" "b = nat (v mod 10)"
  have v: "v = int a * 10 + int b" and b: "b < 10" using assms by (auto simp: a_b_def)
  have q01: "strToQvalue ''0'' = Some (0, 1)" "strToQvalue ''1'' = Some (1000, 1)" by code_simp+
  consider "v = 0" | "v = 100" | "v \<noteq> 0" "v \<noteq> 100" by blast
  then show ?thesis
  proof cases
    case 3
    then have a: "a < 10" using assms by (auto simp: a_b_def)
    have "b = 0 \<longleftrightarrow> v mod 10 = 0" by (auto simp: a_b_def)
    then have "Q_toString v = ''q='' @ (if b = 0 then [CHR ''0'', CHR ''.'', digit_char a]
        else [CHR ''0'', CHR ''.'', digit_char a, digit_char b])"
      using 3 by (simp add: Q_toString_def a_b_def)
    then show ?thesis
      using strToQvalue_digits(1) [OF a] strToQvalue_digits(2) [OF a b] v
      by (cases "b = 0") simp_all
  qed (simp_all add: Q_toString_def q01)
qed

lemma next_char_rest: "rest c = x # y # r \<Longrightarrow> next_char c = y"
  by (simp add: next_char_def remaining_length_rest)

lemma mime_params_skip:
  assumes "wf_cursor c" "rest c = x # y # r" "x = CHR '';'' \<or> x = SP" "y \<noteq> EOF_char" "y \<noteq> NUL"
  shows "mime_params mem c m = mime_params mem (c\<lparr>spos := Suc (spos c)\<rparr>) m"
  using assms advance1_Cons [OF assms(1,2)]
  by (subst mime_params.simps)
    (auto simp: eof_rest current_rest next_char_rest simp del: One_nat_def)

lemma mime_params_end: "rest c = [] \<Longrightarrow> mime_params mem c m = Inr m"
  by (subst mime_params.simps) (simp add: eof_rest)

lemma mime_params_quality:
  assumes wf: "wf_cursor c" and r: "rest c = ''q='' @ s"
    and s: "strToQvalue s = Some (10 * v, length s)" and v: "0 \<le> v" "v \<le> 100"
  shows "mime_params (sbuf c) c m = Inr (m\<lparr>mt_q := Some v\<rparr>)"
proof -
  let ?c1 = "c\<lparr>spos := Suc (spos c)\<rparr>" and ?c2 = "c\<lparr>spos := Suc (Suc (spos c))\<rparr>"
  have r0: "rest c = CHR ''q'' # CHR ''='' # s" using r by simp
  have wf1: "wf_cursor ?c1" and r1: "rest ?c1 = CHR ''='' # s"
    using wf_Suc [OF wf r0] rest_Suc [OF r0] by simp_all
  have wf2: "wf_cursor ?c2" and r2: "rest ?c2 = s"
    using wf_Suc [OF wf1 r1] rest_Suc [OF r1] by simp_all
  have m1: "match_literal (CHR ''q'') Insensitive c = (True, ?c1)"
    using wf r0 by (simp add: match_literal_eq)
  have m2: "match_literal (CHR ''='') Insensitive ?c1 = (True, ?c2)"
    using wf1 r1 by (simp add: match_literal_eq)
  have "drop (spos ?c2) (sbuf c) = s" using r2 by (simp add: rest_def)
  moreover have "rest (snd (advance (length s) ?c2)) = []"
    using advance_ok [OF wf2, of "length s"] r2 rest_move [of ?c2 "length s"]
    by (simp add: remaining_length_rest)
  ultimately show ?thesis
    using m1 m2 s Q_round_percent [OF v] r0 r1
    by (subst mime_params.simps) (simp add: eof_rest current_rest mime_params_end)
qed

lemma mime_params_printed:
  assumes wf: "wf_cursor c" and r: "rest c = (case q of Some v \<Rightarrow> ''; '' @ Q_toString v | None \<Rightarrow> [])"
    and q: "\<forall>v. q = Some v \<longrightarrow> 0 \<le> v \<and> v \<le> 100"
  shows "\<exists>m'. mime_params (sbuf c) c m = Inr m' \<and> MediaType_eq m' m
            \<and> mt_q m' = (case q of Some v \<Rightarrow> Some v | None \<Rightarrow> mt_q m)"
proof (cases q)
  case None
  with r show ?thesis by (simp add: mime_params_end MediaType_eq_def)
next
  case (Some v)
  with q obtain s where v: "0 \<le> v" "v \<le> 100"
    and s: "Q_toString v = ''q='' @ s" "strToQvalue s = Some (10 * v, length s)"
    using strToQvalue_print by blast
  let ?c1 = "c\<lparr>spos := Suc (spos c)\<rparr>" and ?c2 = "c\<lparr>spos := Suc (Suc (spos c))\<rparr>"
  have r0: "rest c = CHR '';'' # SP # CHR ''q'' # CHR ''='' # s" using r s Some by simp
  have wf1: "wf_cursor ?c1" and r1: "rest ?c1 = SP # CHR ''q'' # CHR ''='' # s"
    using wf_Suc [OF wf r0] rest_Suc [OF r0] by simp_all
  have wf2: "wf_cursor ?c2" and r2: "rest ?c2 = ''q='' @ s"
    using wf_Suc [OF wf1 r1] rest_Suc [OF r1] by simp_all
  have "mime_params (sbuf c) c m = mime_params (sbuf ?c2) ?c2 m"
    using mime_params_skip [OF wf r0] mime_params_skip [OF wf1 r1] by simp
  also have "\<dots> = Inr (m\<lparr>mt_q := Some v\<rparr>)"
    by (rule mime_params_quality [OF wf2 r2 s(2) v])
  finally show ?thesis using Some by (simp add: MediaType_eq_def)
qed

lemma suffixString_cases:
  "x \<noteq> X_None \<Longrightarrow> x \<noteq> X_Ext \<Longrightarrow>
   suffixString x = CHR ''+'' # table_string MIME_SUFFIXES x \<and> table_string MIME_SUFFIXES x \<noteq> []"
  by (cases x) (simp_all add: suffixString_def table_string_def MIME_SUFFIXES_def)

lemma mime_suffix_printed:
  assumes wf: "wf_cursor c" and x: "x \<noteq> X_Ext" "mt_suffix m = X_None"
    and r: "rest c = (if x \<noteq> X_None then suffixString x else []) @ t" and t: "t = [] \<or> hd t = CHR '';''"
    and k: "\<And>c' m'. wf_cursor c' \<Longrightarrow> sbuf c' = sbuf c \<Longrightarrow> rest c' = t \<Longrightarrow> MediaType_eq m' (m\<lparr>mt_suffix := x\<rparr>) \<Longrightarrow>
      mt_q m' = mt_q m \<Longrightarrow> P (mime_params mem c' m')"
  shows "P (mime_suffix mem c m)"
proof (cases "x = X_None")
  case True
  then have r': "rest c = t" using r by simp
  then have "match_literal (CHR ''+'') Insensitive c = (False, c)"
    using t wf by (cases t) (auto simp: match_literal_eq c_tolower_def)
  moreover have "P (mime_params mem c m)"
    using True x by (intro k wf r') (simp_all add: MediaType_eq_def)
  ultimately show ?thesis by (simp add: mime_suffix_def)
next
  case False
  let ?s = "table_string MIME_SUFFIXES x"
  have s: "suffixString x = CHR ''+'' # ?s" "?s \<noteq> []" using suffixString_cases [OF False x(1)] by auto
  let ?c1 = "c\<lparr>spos := Suc (spos c)\<rparr>" and ?c2 = "c\<lparr>spos := Suc (spos c) + length ?s\<rparr>"
  have r0: "rest c = CHR ''+'' # ?s @ t" using r s False by simp
  have wf1: "wf_cursor ?c1" and r1: "rest ?c1 = ?s @ t"
    using wf_Suc [OF wf r0] rest_Suc [OF r0] by simp_all
  have r2: "rest ?c2 = t" using rest_move [of ?c1 "length ?s"] r1 by simp
  have wf2: "wf_cursor ?c2" using wf_move [OF wf1, of "length ?s"] r1 by (simp add: remaining_length_rest)
  have "match_literal (CHR ''+'') Insensitive c = (True, ?c1)"
    using wf r0 by (simp add: match_literal_eq)
  moreover have "match_table MIME_SUFFIXES ?c1 = Some (x, ?c2)"
    using wf1 find_suffix [OF False x(1), of t] by (simp add: match_table_eq r1)
  moreover have "\<not> eof ?c1" using r1 s by (simp add: eof_rest)
  moreover have "P (mime_params mem ?c2 (m\<lparr>mt_suffix := x\<rparr>))"
    using wf2 r2 by (intro k) (simp_all add: MediaType_eq_def)
  ultimately show ?thesis by (simp add: mime_suffix_def)
qed

text \<open>Behind the text, in the memory it lies in, there may be anything (\<open>u\<close>).\<close>

lemma MediaType_parseRaw_front:
  assumes t: "t \<noteq> T_None" and s: "printed_sub s" and tail: "r = [] \<or> hd r \<in> {CHR '';'', CHR ''+''}"
    and W: "W = table_string MIME_TYPES t @ CHR ''/'' # table_string MIME_SUBTYPES s @ r"
    and len: "length W < 2 ^ 63"
  shows "MediaType_parseRaw (W @ u) (length W) MediaType0 =
     (let m = MediaType0\<lparr>mt_raw := W, mt_top := t, mt_sub := s\<rparr>
      in if r = [] then Inr m else mime_suffix (W @ u) \<lparr>sbuf = W, spos = length W - length r\<rparr> m)"
proof -
  let ?t = "table_string MIME_TYPES t" and ?s = "table_string MIME_SUBTYPES s"
  let ?c = "\<lambda>n. \<lparr>sbuf = W, spos = n\<rparr>"
  have c0: "RawStreamBuf W = ?c 0" by (simp add: RawStreamBuf_def)
  have wf: "n \<le> length W \<Longrightarrow> wf_cursor (?c n)" for n using len by (simp add: wf_cursor_def)
  let ?n1 = "length ?t" and ?n2 = "Suc (length ?t)" and ?n3 = "Suc (length ?t) + length ?s"
  have n: "?n1 \<le> length W" "?n2 \<le> length W" "?n3 = length W - length r" by (simp_all add: W)
  have r0: "rest (?c 0) = ?t @ CHR ''/'' # ?s @ r" and r1: "rest (?c ?n1) = CHR ''/'' # ?s @ r"
    and r2: "rest (?c ?n2) = ?s @ r" and r3: "rest (?c ?n3) = r"
    by (simp_all add: rest_def W)
  have m1: "match_table MIME_TYPES (RawStreamBuf W) = Some (t, ?c ?n1)"
    using match_table_eq [OF wf [of 0], of MIME_TYPES] find_type [OF t, of "?s @ r"] by (simp add: c0 r0)
  have m2: "match_literal (CHR ''/'') Insensitive (?c ?n1) = (True, ?c ?n2)"
    using match_literal_eq [OF wf [OF n(1)], of "CHR ''/''"] by (simp add: r1)
  have "match_raw ''vnd.'' (?c ?n2) = (False, ?c ?n2)"
    using match_raw_eq [OF wf [OF n(2)], of "''vnd.''"] printed_sub_head [OF s, of r] by (simp add: r2)
  then have m3: "mime_subtype (?c ?n2) = (s, ?c ?n3)"
    using match_table_eq [OF wf [OF n(2)], of MIME_SUBTYPES] find_subtype [OF s tail]
    by (simp add: mime_subtype_def r2)
  have "\<not> eof (?c ?n2)" using printed_sub_head [OF s] by (simp add: eof_rest r2)
  moreover have "eof (?c ?n3) \<longleftrightarrow> r = []" unfolding eof_rest r3 by (rule refl)
  ultimately show ?thesis
    using m1 m2 m3 s n(3)
    by (simp add: MediaType_parseRaw_def printed_sub_def Let_def)
qed

lemma MediaType_printed:
  assumes t: "t \<noteq> T_None" and s: "printed_sub s" and x: "x \<noteq> X_Ext"
    and q: "\<forall>v. q = Some v \<longrightarrow> 0 \<le> v \<and> v \<le> 100" and u: "q = None \<or> u = []"
    and W: "W = MediaType_toString ((MediaType3 t s x)\<lparr>mt_q := q\<rparr>)"
  shows "\<exists>m'. MediaType_parseRaw (W @ u) (length W) MediaType0 = Inr m'
           \<and> MediaType_eq m' (MediaType3 t s x) \<and> mt_q m' = q"
proof -
  define xs where "xs = (if x \<noteq> X_None then suffixString x else [])"
  define qs where "qs = (case q of Some v \<Rightarrow> ''; '' @ Q_toString v | None \<Rightarrow> [])"
  have W: "W = table_string MIME_TYPES t @ CHR ''/'' # table_string MIME_SUBTYPES s @ xs @ qs"
    by (simp add: W MediaType_toString_def MediaType3_def MediaType0_def xs_def qs_def)
  have "length xs \<le> 12" "length qs \<le> 8"
    using printed_short(3) [of x] printed_short(4) by (auto simp: xs_def qs_def split: option.split)
  then have len: "length W < 2 ^ 63"
    using printed_short(1) [of t] printed_short(2) [of s] by (simp add: W)
  have tail: "xs @ qs = [] \<or> hd (xs @ qs) \<in> {CHR '';'', CHR ''+''}" "qs = [] \<or> hd qs = CHR '';''"
    using suffixString_cases [of x] x by (auto simp: xs_def qs_def split: option.split)
  let ?m = "MediaType0\<lparr>mt_raw := W, mt_top := t, mt_sub := s\<rparr>"
  let ?c = "\<lparr>sbuf = W, spos = length W - length (xs @ qs)\<rparr>"
  have wf: "wf_cursor ?c" using len by (simp add: wf_cursor_def)
  have r: "rest ?c = (if x \<noteq> X_None then suffixString x else []) @ qs" 
    unfolding xs_def [symmetric] by (simp add: rest_def W)
  note front = MediaType_parseRaw_front [OF t s tail(1) W len, where u = u, unfolded Let_def]
  show ?thesis
  proof (cases "xs @ qs = []")
    case True
    then have "x = X_None" "q = None"
      using x suffixString_cases [of x] by (auto simp: xs_def qs_def split: option.splits if_splits)
    with True show ?thesis unfolding front by (simp add: MediaType_eq_def MediaType3_def MediaType0_def)
  next
    case False
    have "\<exists>m'. mime_suffix (W @ u) ?c ?m = Inr m' \<and> MediaType_eq m' (MediaType3 t s x) \<and> mt_q m' = q"
    proof (rule mime_suffix_printed [OF wf x _ r tail(2)])
      fix c' m' assume c': "wf_cursor c'" "sbuf c' = sbuf ?c" "rest c' = qs"
        "MediaType_eq m' (?m\<lparr>mt_suffix := x\<rparr>)" "mt_q m' = mt_q ?m"
      have "\<exists>m''. mime_params (W @ u) c' m' = Inr m'' \<and> MediaType_eq m'' m'
          \<and> mt_q m'' = (case q of Some v \<Rightarrow> Some v | None \<Rightarrow> mt_q m')"
      proof (cases q)
        case None
        then show ?thesis using c'(3) by (simp add: qs_def mime_params_end MediaType_eq_def)
      next
        case (Some v)
        then show ?thesis using mime_params_printed [OF c'(1) c'(3) [unfolded qs_def] q, of m'] u c'(2) by simp
      qed
      then show "\<exists>m''. mime_params (W @ u) c' m' = Inr m''
          \<and> MediaType_eq m'' (MediaType3 t s x) \<and> mt_q m'' = q"
        using c'(4,5) by (auto simp: MediaType_eq_def MediaType3_def MediaType0_def split: option.splits)
    qed (simp add: MediaType0_def)
    with False show ?thesis unfolding front by auto
  qed
qed

text \<open>
  C36: a media type built from a known type, subtype and suffix, with or without a quality,
  is recovered by parsing what it prints as, the quality included.
\<close>

theorem media_type_round_trip:
  assumes "t \<noteq> T_None" "printed_sub s" "x \<noteq> X_Ext" "\<forall>v. q = Some v \<longrightarrow> 0 \<le> v \<and> v \<le> 100"
  shows "\<exists>m'. MediaType_fromString (MediaType_toString ((MediaType3 t s x)\<lparr>mt_q := q\<rparr>)) = Inr m'
           \<and> MediaType_eq m' (MediaType3 t s x) \<and> mt_q m' = q"
  using MediaType_printed [OF assms, of "[]", OF _ refl]
  by (simp add: MediaType_fromString_def MediaType_fromRaw_def)

theorem media_type_round_trip_witness:
  "\<exists>m'. MediaType_fromString (MediaType_toString ((MediaType3 T_Application S_Json X_Zip)\<lparr>mt_q := Some 35\<rparr>)) = Inr m'
     \<and> MediaType_eq m' (MediaType3 T_Application S_Json X_Zip) \<and> mt_q m' = Some 35"
  by (rule media_type_round_trip) (simp_all add: printed_sub_def)

end
