(* ===== verification/Net_Address.thy ===== *)
theory Net_Address
  imports Pist_Prelude
begin

text \<open>
  include/pistache/net.h and src/common/net.cc: ports, IP addresses, the address parser and
  \<open>Address\<close>; \<open>ps_strlcpy\<close> of src/common/ps_strl.cc.  The resolver, the numeric formatting of
  addresses and \<open>inet_pton\<close> are system calls and are parameters (record \<open>net_lib\<close>).
\<close>

section \<open>strtol\<close>

definition c_isspace :: "char \<Rightarrow> bool" where
  "c_isspace c \<longleftrightarrow> c = SP \<or> (9 \<le> byte_of c \<and> byte_of c \<le> (13 :: nat))"

text \<open>The bytes of a string up to its first NUL, as \<open>c_str ()\<close> shows them to C code.\<close>

definition c_str :: "string \<Rightarrow> string" where
  "c_str s = takeWhile (\<lambda>c. c \<noteq> NUL) s"

text \<open>
  The subject sequence of \<open>strtol\<close> and \<open>strtoull\<close> in base 10: an optional sign and the
  digits, with what follows them; \<open>None\<close> when there are no digits.
\<close>

definition num_subject :: "string \<Rightarrow> (bool \<times> nat \<times> string) option" where
  "num_subject s =
     (let t = dropWhile c_isspace s;
          neg = (t \<noteq> [] \<and> hd t = CHR ''-'');
          u = (if t \<noteq> [] \<and> (hd t = CHR ''-'' \<or> hd t = CHR ''+'') then tl t else t);
          ds = takeWhile (is_digit 10) u
      in if ds = [] then None else Some (neg, num_val 10 0 ds, drop (length ds) u))"

text \<open>\<open>strtol (s, &end, 10)\<close> with a 64-bit \<open>long\<close>: the value and the text at \<open>end\<close>.\<close>

definition strtol10 :: "string \<Rightarrow> int \<times> string" where
  "strtol10 s =
     (case num_subject (c_str s) of
        None \<Rightarrow> (0, c_str s)
      | Some (neg, n, r) \<Rightarrow>
          (if neg then max (- (2 ^ 63)) (- int n) else min (2 ^ 63 - 1) (int n), r))"

section \<open>Ports\<close>

type_synonym port = nat

definition Port :: "string \<Rightarrow> port result" where
  "Port data =
     (if data = [] then Inl (Invalid_Argument ''Invalid port: empty port'')
      else case strtol10 data of (n, e) \<Rightarrow>
        if e \<noteq> [] \<or> n < 0 \<or> 65535 < n then Inl (Invalid_Argument (''Invalid port: '' @ data))
        else Inr (nat n))"

definition Port_isReserved :: "port \<Rightarrow> bool" where
  "Port_isReserved p \<longleftrightarrow> p < 1024"

definition Port_toString :: "port \<Rightarrow> string" where
  "Port_toString p = dec_str p"

section \<open>IP addresses\<close>

datatype family = AF_UNSPEC | AF_INET | AF_INET6 | AF_UNIX | AF_other nat

text \<open>
  \<open>sockaddr_storage\<close>: the family, the port in host order, the address bytes in network order
  and the path of a unix domain socket.
\<close>

record IP =
  ip_family :: family
  ip_port :: nat
  ip_bytes :: "nat list"
  ip_path :: string

definition IP0 :: IP where
  "IP0 = \<lparr>ip_family = AF_UNSPEC, ip_port = 0, ip_bytes = [], ip_path = []\<rparr>"

definition IPv4 :: "nat \<Rightarrow> nat \<Rightarrow> nat \<Rightarrow> nat \<Rightarrow> IP" where
  "IPv4 a b c d = IP0\<lparr>ip_family := AF_INET, ip_bytes := [a, b, c, d]\<rparr>"

text \<open>The eight groups are stored most significant byte first on every machine.\<close>

definition IPv6 :: "nat list \<Rightarrow> IP" where
  "IPv6 groups = IP0\<lparr>ip_family := AF_INET6,
     ip_bytes := concat (map (\<lambda>g. [g div 256, g mod 256]) groups)\<rparr>"

definition IP_of_sockaddr :: "IP \<Rightarrow> IP result" where
  "IP_of_sockaddr sa =
     (case ip_family sa of
        AF_INET \<Rightarrow> Inr (IP0\<lparr>ip_family := AF_INET, ip_bytes := ip_bytes sa, ip_port := ip_port sa\<rparr>)
      | AF_INET6 \<Rightarrow> Inr (IP0\<lparr>ip_family := AF_INET6, ip_bytes := ip_bytes sa, ip_port := ip_port sa\<rparr>)
      | AF_UNIX \<Rightarrow> Inr (IP0\<lparr>ip_family := AF_UNIX, ip_path := ip_path sa\<rparr>)
      | _ \<Rightarrow> Inl (Invalid_Argument ''Invalid socket family''))"

definition IP_any :: "bool \<Rightarrow> IP" where
  "IP_any v6 = (if v6 then IPv6 [0, 0, 0, 0, 0, 0, 0, 0] else IPv4 0 0 0 0)"

definition IP_loopback :: "bool \<Rightarrow> IP" where
  "IP_loopback v6 = (if v6 then IPv6 [0, 0, 0, 0, 0, 0, 0, 1] else IPv4 127 0 0 1)"

text \<open>\<open>getPort\<close>; \<open>None\<close> is \<open>unreachable ()\<close>.\<close>

definition IP_getPort :: "IP \<Rightarrow> nat option" where
  "IP_getPort ip =
     (case ip_family ip of
        AF_INET \<Rightarrow> Some (ip_port ip)
      | AF_INET6 \<Rightarrow> Some (ip_port ip)
      | AF_UNIX \<Rightarrow> Some 0
      | _ \<Rightarrow> None)"

definition IP_toNetwork4 :: "IP \<Rightarrow> nat list result" where
  "IP_toNetwork4 ip =
     (if ip_family ip \<noteq> AF_INET then Inl (Invalid_Argument ''Inapplicable or invalid address family'')
      else Inr (ip_bytes ip))"

definition IP_toNetwork6 :: "IP \<Rightarrow> nat list result" where
  "IP_toNetwork6 ip =
     (if ip_family ip \<noteq> AF_INET then Inl (Invalid_Argument ''Inapplicable or invalid address family'')
      else Inr (ip_bytes ip))"

text \<open>
  The system's network functions.  \<open>nl_pton6\<close> is \<open>inet_pton\<close> for IPv6 followed by
  \<open>inet_ntop\<close>: the normalised text of an address, \<open>None\<close> when the text is none.
  \<open>nl_nameinfo\<close> is \<open>getnameinfo\<close> with \<open>NI_NUMERICHOST\<close>.  \<open>nl_getaddrinfo\<close> takes the
  host (\<open>None\<close> is a null pointer), the service and whether \<open>AI_PASSIVE\<close> is set, and yields the
  error text or the socket address of the first result.
\<close>

record net_lib =
  nl_pton6 :: "string \<Rightarrow> string option"
  nl_nameinfo :: "IP \<Rightarrow> string + string"
  nl_getaddrinfo :: "string option \<Rightarrow> string \<Rightarrow> bool \<Rightarrow> string + IP"

definition IP_toString :: "net_lib \<Rightarrow> IP \<Rightarrow> string result" where
  "IP_toString N ip =
     (if ip_family ip = AF_UNIX then
        (if ip_path ip = [] \<or> hd (ip_path ip) = NUL then Inr ''[Abstract]''
         else Inr (c_str (ip_path ip)))
      else case nl_nameinfo N ip of Inl err \<Rightarrow> Inl (Runtime_Error err) | Inr s \<Rightarrow> Inr s)"

section \<open>The address parser\<close>

record AddressParser =
  ap_host :: string
  ap_port :: string
  ap_hasColon :: bool
  ap_hasNumericPort :: bool
  ap_family :: family

text \<open>\<open>data.substr (pos)\<close> to the end.\<close>

definition substr_from :: "string \<Rightarrow> nat \<Rightarrow> string result" where
  "substr_from s pos = substr s pos (length s)"

definition parse_port_part :: "string \<Rightarrow> nat option \<Rightarrow> AddressParser \<Rightarrow> AddressParser result" where
  "parse_port_part data end_pos p =
     (case end_pos of
        Some e \<Rightarrow>
          if ap_hasColon p then
            (case substr_from data (e + 1) of
               Inl ex \<Rightarrow> Inl ex
             | Inr port \<Rightarrow>
                 if port = [] then Inl (Invalid_Argument ''Invalid port'')
                 else case strtol10 port of (n, r) \<Rightarrow>
                   if n < 0 then Inl (Invalid_Argument ''Invalid port'')
                   else Inr (p\<lparr>ap_port := port, ap_hasNumericPort := (r = [])\<rparr>))
          else Inr p
      | None \<Rightarrow> Inr p)"

definition parse_address :: "net_lib \<Rightarrow> string \<Rightarrow> AddressParser result" where
  "parse_address N data =
     (let p0 = \<lparr>ap_host = [], ap_port = [], ap_hasColon = False, ap_hasNumericPort = False,
               ap_family = AF_UNSPEC\<rparr>
      in case nl_pton6 N (c_str data) of
           Some norm \<Rightarrow> Inr (p0\<lparr>ap_host := norm, ap_family := AF_INET6\<rparr>)
         | None \<Rightarrow>
             (case (str_find data (CHR ''['') 0, str_find data (CHR '']'') 0) of
                (Some s, Some e) \<Rightarrow>
                  if s < e then
                    let colon = (str_find data (CHR '':'') e \<noteq> None)
                    in (case substr data (s + 1) (e - 1) of
                          Inl ex \<Rightarrow> Inl ex
                        | Inr host \<Rightarrow>
                            parse_port_part data (Some (e + 1))
                              (p0\<lparr>ap_host := host, ap_family := AF_INET6, ap_hasColon := colon\<rparr>))
                  else
                    let colon = str_find data (CHR '':'') 0
                    in parse_port_part data colon
                         (p0\<lparr>ap_host := (case colon of Some i \<Rightarrow> take i data | None \<Rightarrow> data),
                             ap_family := AF_INET, ap_hasColon := (colon \<noteq> None)\<rparr>)
              | _ \<Rightarrow>
                  let colon = str_find data (CHR '':'') 0
                  in parse_port_part data colon
                       (p0\<lparr>ap_host := (case colon of Some i \<Rightarrow> take i data | None \<Rightarrow> data),
                           ap_family := AF_INET, ap_hasColon := (colon \<noteq> None)\<rparr>)))"

section \<open>Addresses\<close>

datatype Scheme = Scheme_Unspecified | Scheme_Http | Scheme_Https

record Address =
  ad_ip :: IP
  ad_port :: port
  ad_addrLen :: nat
  ad_scheme :: Scheme
  ad_page :: string

text \<open>The sizes of the socket address structures on Linux.\<close>

definition sizeof_sockaddr_in :: nat where "sizeof_sockaddr_in = 16"
definition sizeof_sockaddr_in6 :: nat where "sizeof_sockaddr_in6 = 28"
definition sizeof_sun_family :: nat where "sizeof_sun_family = 2"
definition sizeof_sun_path :: nat where "sizeof_sun_path = 108"

text \<open>What \<open>ps_strlcpy (dst, src, n)\<close> leaves in \<open>dst\<close>, as a C string.\<close>

definition ps_strlcpy :: "string \<Rightarrow> nat \<Rightarrow> string" where
  "ps_strlcpy src n =
     (if n = 0 then [] else if n = 1 then []
      else if n < length (c_str src) + 1 then take (n - 1) (c_str src) else c_str src)"

definition isUnixDomain :: "string \<Rightarrow> bool" where
  "isUnixDomain addr \<longleftrightarrow> addr = [] \<or> hd addr = NUL \<or> str_find addr (CHR ''/'') 0 \<noteq> None"

definition Address0 :: Address where
  "Address0 = \<lparr>ad_ip = IP0, ad_port = 0, ad_addrLen = sizeof_sockaddr_in6,
     ad_scheme = Scheme_Unspecified, ad_page = []\<rparr>"

definition Address_unix :: "string \<Rightarrow> Address \<Rightarrow> Address" where
  "Address_unix addr a =
     (let size0 = min (length addr) sizeof_sun_path;
          path = (if size0 = 0 then []
                  else if hd addr = NUL then take size0 addr
                  else ps_strlcpy addr size0);
          len = sizeof_sun_family + size0
      in a\<lparr>ad_scheme := Scheme_Unspecified, ad_addrLen := len,
           ad_ip := IP0\<lparr>ip_family := AF_UNIX, ip_path := path\<rparr>, ad_port := 0\<rparr>)"

text \<open>\<open>Address::init (addr, default_port)\<close>.\<close>

definition Address_init :: "net_lib \<Rightarrow> string \<Rightarrow> port \<Rightarrow> Address \<Rightarrow> Address result" where
  "Address_init N addr default_port a =
     (if isUnixDomain addr then Inr (Address_unix addr a)
      else
        let dport = (if default_port = 0 then 80 else default_port);
            a = a\<lparr>ad_scheme := Scheme_Unspecified,
                  ad_addrLen := (if ip_family (ad_ip a) = AF_INET then sizeof_sockaddr_in
                                 else sizeof_sockaddr_in6)\<rparr>
        in case parse_address N addr of
             Inl e \<Rightarrow> Inl e
           | Inr p \<Rightarrow>
               let wildcard = (ap_host p = ''*'');
                   h = (if ap_host p = [] \<or> wildcard then None else Some (c_str (ap_host p)));
                   s = (if ap_port p = [] then dec_str dport else c_str (ap_port p))
               in case nl_getaddrinfo N h s wildcard of
                    Inl err \<Rightarrow> Inl (Invalid_Argument err)
                  | Inr sa \<Rightarrow>
                      (case IP_of_sockaddr sa of
                         Inl e \<Rightarrow> Inl e
                       | Inr ip \<Rightarrow>
                           (case IP_getPort ip of
                              None \<Rightarrow> Inl (Runtime_Error ''unreachable'')
                            | Some pt \<Rightarrow>
                                if ap_hasNumericPort p \<and> int pt \<noteq> fst (strtol10 s)
                                then Inl (Invalid_Argument ''Invalid numeric port'')
                                else Inr (a\<lparr>ad_ip := ip, ad_port := pt\<rparr>))))"

definition Address_of_string :: "net_lib \<Rightarrow> string \<Rightarrow> Address result" where
  "Address_of_string N addr = Address_init N addr 0 Address0"

definition Address_host_port :: "net_lib \<Rightarrow> string \<Rightarrow> port \<Rightarrow> Address result" where
  "Address_host_port N host p = Address_init N (host @ '':'' @ Port_toString p) 0 Address0"

definition Address_makeWithDefaultPort ::
  "net_lib \<Rightarrow> string \<Rightarrow> port \<Rightarrow> Scheme \<Rightarrow> string option \<Rightarrow> Address result" where
  "Address_makeWithDefaultPort N addr dport sch page =
     (case Address_init N addr dport Address0 of
        Inl e \<Rightarrow> Inl e
      | Inr a \<Rightarrow> Inr (a\<lparr>ad_scheme := sch, ad_page := (case page of Some p \<Rightarrow> p | None \<Rightarrow> ad_page a)\<rparr>))"

definition Address_of_ip :: "IP \<Rightarrow> port \<Rightarrow> Address" where
  "Address_of_ip ip p = Address0\<lparr>ad_ip := ip, ad_port := p,
     ad_addrLen := (if ip_family ip = AF_INET then sizeof_sockaddr_in else sizeof_sockaddr_in6)\<rparr>"

definition Address_fromUnix :: "IP \<Rightarrow> Address result" where
  "Address_fromUnix sa =
     (if ip_family sa \<in> {AF_INET, AF_INET6, AF_UNIX} then
        (case IP_of_sockaddr sa of
           Inl e \<Rightarrow> Inl e
         | Inr ip \<Rightarrow>
             (case IP_getPort ip of
                Some p \<Rightarrow> Inr (Address_of_ip ip p)
              | None \<Rightarrow> Inl (Runtime_Error ''unreachable'')))
      else Inl (Runtime_Error ''Not an IP or unix domain socket''))"

definition Address_write :: "net_lib \<Rightarrow> Address \<Rightarrow> string result" where
  "Address_write N a =
     (case IP_toString N (ad_ip a) of
        Inl e \<Rightarrow> Inl e
      | Inr h \<Rightarrow>
          (let v6 = (ip_family (ad_ip a) = AF_INET6)
           in Inr ((if v6 then ''['' else []) @ h @ (if v6 then '']'' else []) @ '':''
                   @ Port_toString (ad_port a))))"

text \<open>\<open>digitsCount\<close> of net.h on a non-negative number.\<close>

function digitsCount :: "nat \<Rightarrow> nat" where
  "digitsCount v = (if v mod 10 = 0 then 0 else Suc (digitsCount (v div 10)))"
  by pat_completeness auto
termination
  by (relation "measure id") (auto intro: Suc_leI)

declare digitsCount.simps [simp del]

section \<open>Lemmas\<close>

lemma digit_not_space: "is_digit 10 c \<Longrightarrow> \<not> c_isspace c \<and> c \<noteq> NUL \<and> c \<noteq> CHR ''-'' \<and> c \<noteq> CHR ''+''"
proof -
  assume "is_digit 10 c"
  then have r: "48 \<le> (byte_of c :: nat)" "byte_of c \<le> (57 :: nat)"
    by (auto simp: is_digit_def digit_of_def Let_def split: if_splits)
  moreover have "(byte_of SP :: nat) = 32" "(byte_of NUL :: nat) = 0" "(byte_of (CHR ''-'') :: nat) = 45"
    "(byte_of (CHR ''+'') :: nat) = 43" by simp_all
  ultimately show ?thesis by (auto simp: c_isspace_def)
qed

lemma num_subject_dec_str:
  assumes "t = [] \<or> \<not> is_digit 10 (hd t)"
  shows "num_subject (dec_str n @ t) = Some (False, n, t)"
proof -
  let ?s = "dec_str n"
  have ds: "list_all (is_digit 10) ?s" by (rule num_str_digits) simp_all
  obtain c u where s: "?s = c # u" using num_str_nonempty [of 10 n] by (cases ?s) blast
  have c: "is_digit 10 c" using ds s by simp
  have "dropWhile c_isspace (?s @ t) = ?s @ t" using digit_not_space [OF c] s by simp
  moreover have "takeWhile (is_digit 10) (?s @ t) = ?s" using ds assms by (rule takeWhile_stop)
  moreover have "num_val 10 0 ?s = n" by (rule num_val_num_str) simp_all
  moreover have "hd (?s @ t) \<noteq> CHR ''-''" "hd (?s @ t) \<noteq> CHR ''+''" using digit_not_space [OF c] s by auto
  ultimately show ?thesis unfolding num_subject_def Let_def by simp
qed

lemma c_str_dec_str: "c_str (dec_str n) = dec_str n"
  using num_str_digits [of 10 n] digit_not_space
  by (auto simp: c_str_def takeWhile_eq_all_conv list_all_iff)

lemma strtol10_dec_str:
  assumes "n < 2 ^ 63"
  shows "strtol10 (dec_str n) = (int n, [])"
proof -
  have "int n < int (2 ^ 63)" unfolding of_nat_less_iff by (rule assms)
  then show ?thesis using num_subject_dec_str [of "[]" n] by (simp add: strtol10_def c_str_dec_str)
qed

lemma Port_range: "Port data = Inr p \<Longrightarrow> p \<le> 65535"
  by (auto simp: Port_def split: if_splits prod.splits)

text \<open>Reading back a printed port.\<close>

lemma Port_toString_parse: "p \<le> 65535 \<Longrightarrow> Port (Port_toString p) = Inr p"
  by (simp add: Port_def Port_toString_def strtol10_dec_str)

lemma IP_toNetwork6_wrong_family: "IP_toNetwork6 (IPv6 g) = Inl (Invalid_Argument ''Inapplicable or invalid address family'')"
  by (simp add: IP_toNetwork6_def IPv6_def IP0_def)

text \<open>A digit count is cut off at the first zero from the right.\<close>

lemma digitsCount_ten: "digitsCount 10 = 0" "digitsCount 101 = 1"
  by (simp add: digitsCount.simps, subst digitsCount.simps, simp, subst digitsCount.simps, simp)

text \<open>
  The address of a pathname socket loses its last character: the buffer size handed to
  \<open>ps_strlcpy\<close> leaves no room for the terminating NUL.
\<close>

lemma unix_path_truncated:
  assumes "addr = CHR ''/'' # p" "p \<noteq> []" "NUL \<notin> set p" "length addr < 108"
  shows "Address_of_string N addr = Inr (Address0\<lparr>ad_addrLen := 2 + length addr,
     ad_ip := IP0\<lparr>ip_family := AF_UNIX, ip_path := butlast addr\<rparr>\<rparr>)"
proof -
  have c: "c_str addr = addr" using assms by (auto simp: c_str_def takeWhile_eq_all_conv)
  have "isUnixDomain addr" using assms by (simp add: isUnixDomain_def str_find_def)
  moreover have "ps_strlcpy addr (length addr) = butlast addr"
    using assms(1,2) by (simp add: ps_strlcpy_def c [unfolded assms(1)] butlast_conv_take)
  ultimately show ?thesis
    using assms
    by (simp add: Address_of_string_def Address_init_def Address_unix_def Address0_def Let_def
        sizeof_sun_path_def sizeof_sun_family_def)
qed

section \<open>Host and port\<close>

lemma parse_address_host_port:
  assumes "nl_pton6 N (c_str (h @ '':'' @ dec_str p)) = None" "p \<le> 65535"
    "CHR '':'' \<notin> set h" "CHR ''['' \<notin> set h"
  shows "parse_address N (h @ '':'' @ dec_str p) =
     Inr \<lparr>ap_host = h, ap_port = dec_str p, ap_hasColon = True, ap_hasNumericPort = True,
          ap_family = AF_INET\<rparr>"
proof -
  let ?d = "h @ CHR '':'' # dec_str p"
  have "CHR ''['' \<notin> set (dec_str p)"
  proof
    assume "CHR ''['' \<in> set (dec_str p)"
    then have "is_digit 10 (CHR ''['')" using num_str_digits [of 10 p] by (simp add: list_all_iff)
    moreover have "\<not> is_digit 10 (CHR ''['')" by code_simp
    ultimately show False by simp
  qed
  then have "str_find ?d (CHR ''['') 0 = None" using assms by (simp add: str_find_absent)
  moreover have "str_find ?d (CHR '':'') 0 = Some (length h)" using assms by (intro str_find_split)
  moreover have "substr_from ?d (length h + 1) = Inr (dec_str p)"
    by (simp add: substr_from_def substr_def)
  ultimately show ?thesis
    using assms strtol10_dec_str [of p] by (simp add: parse_address_def parse_port_part_def Let_def)
qed

text \<open>
  An address made from a host name and a port asks the resolver for exactly that host and
  port, and is accepted exactly when the resolver answers with an Internet address on that port.
\<close>

theorem address_host_port:
  assumes "nl_pton6 N (c_str (h @ '':'' @ Port_toString p)) = None" "p \<le> 65535"
    "CHR '':'' \<notin> set h" "CHR ''['' \<notin> set h" "CHR ''/'' \<notin> set h" "NUL \<notin> set h" "h \<noteq> []" "h \<noteq> ''*''"
    and res: "nl_getaddrinfo N (Some h) (Port_toString p) False = Inr sa"
    and fam: "ip_family sa = AF_INET \<or> ip_family sa = AF_INET6"
  shows "Address_host_port N h p =
     (if ip_port sa = p
      then Inr (Address0\<lparr>ad_ip := IP0\<lparr>ip_family := ip_family sa, ip_bytes := ip_bytes sa, ip_port := p\<rparr>,
                        ad_port := p\<rparr>)
      else Inl (Invalid_Argument ''Invalid numeric port''))"
proof -
  have digits: "c \<in> set (dec_str p) \<Longrightarrow> is_digit 10 c" for c
    using num_str_digits [of 10 p] by (simp add: list_all_iff)
  have "\<not> is_digit 10 (CHR ''/'')" by code_simp
  then have unix: "\<not> isUnixDomain (h @ '':'' @ dec_str p)"
    using assms digits [of "CHR ''/''"] by (cases h) (auto simp: isUnixDomain_def str_find_absent)
  have "c_str h = h" using assms by (auto simp: c_str_def takeWhile_eq_all_conv)
  then show ?thesis
    using unix assms parse_address_host_port [of N h p] strtol10_dec_str [of p]
    by (auto simp: Address_host_port_def Address_init_def Port_toString_def Let_def c_str_dec_str
        IP_of_sockaddr_def IP_getPort_def Address0_def IP0_def)
qed

text \<open>A resolver for the witness that knows one host.\<close>

definition one_host_lib :: net_lib where
  "one_host_lib = \<lparr>nl_pton6 = (\<lambda>s. None), nl_nameinfo = (\<lambda>ip. Inr ''127.0.0.1''),
     nl_getaddrinfo = (\<lambda>h s passive. Inr ((IPv4 127 0 0 1)\<lparr>ip_port := 9080\<rparr>))\<rparr>"

theorem address_host_port_witness:
  "Address_host_port one_host_lib ''localhost'' 9080 =
     Inr (Address0\<lparr>ad_ip := (IPv4 127 0 0 1)\<lparr>ip_port := 9080\<rparr>, ad_port := 9080\<rparr>)"
  using address_host_port [of one_host_lib "''localhost''" 9080 "(IPv4 127 0 0 1)\<lparr>ip_port := 9080\<rparr>"]
  by (simp add: one_host_lib_def IPv4_def IP0_def)

end
