(* ===== verification/Http_Header.thy ===== *)
theory Http_Header
  imports Base64_Codec Mime_Type Net_Address
begin

text \<open>
  include/pistache/http_header.h and src/common/http_header.cc: the typed headers, each with its
  parser and printer.  \<open>parseRaw (str, len)\<close> is given the memory from \<open>str\<close> on and the length,
  because several parsers read past the length.  The date library and the network functions are
  parameters, collected in the record \<open>http_env\<close>; which content encodings are compiled in is a
  parameter too.
\<close>

record http_env =
  he_date :: date_lib
  he_net :: net_lib
  he_brotli :: bool
  he_zstd :: bool
  he_deflate :: bool

section \<open>Encodings\<close>

datatype Encoding = Gzip | Br | Compress | Deflate | Zstd | Identity | Chunked | Enc_Unknown

fun encodingString :: "Encoding \<Rightarrow> string" where
  "encodingString Gzip = ''gzip''"
| "encodingString Br = ''br''"
| "encodingString Zstd = ''zstd''"
| "encodingString Compress = ''compress''"
| "encodingString Deflate = ''deflate''"
| "encodingString Identity = ''identity''"
| "encodingString Chunked = ''chunked''"
| "encodingString Enc_Unknown = ''unknown''"

definition encodingFromString :: "string \<Rightarrow> Encoding" where
  "encodingFromString str =
     (let is = (\<lambda>name. strncasecmp_eq str name (length str))
      in if str = [] then Enc_Unknown
         else if is ''zstd'' then Zstd
         else if is ''gzip'' then Gzip
         else if is ''br'' then Br
         else if is ''deflate'' then Deflate
         else if is ''compress'' then Compress
         else if is ''identity'' then Identity
         else if is ''chunked'' then Chunked
         else Enc_Unknown)"

fun encodingSupported :: "http_env \<Rightarrow> Encoding \<Rightarrow> bool" where
  "encodingSupported E Zstd = he_zstd E"
| "encodingSupported E Br = he_brotli E"
| "encodingSupported E Deflate = he_deflate E"
| "encodingSupported E Identity = True"
| "encodingSupported E _ = False"

section \<open>Allow\<close>

text \<open>The separator is written behind every element but the last.\<close>

fun write_sep :: "('a \<Rightarrow> string) \<Rightarrow> string \<Rightarrow> 'a list \<Rightarrow> string" where
  "write_sep f sep [] = []"
| "write_sep f sep [x] = f x"
| "write_sep f sep (x # y # xs) = f x @ sep @ write_sep f sep (y # xs)"

definition Allow_write :: "Method list \<Rightarrow> string" where
  "Allow_write ms = write_sep methodString '', '' ms"

definition Allow_addMethod :: "Method \<Rightarrow> Method list \<Rightarrow> Method list" where
  "Allow_addMethod m ms = ms @ [m]"

definition Allow_addMethods :: "Method list \<Rightarrow> Method list \<Rightarrow> Method list" where
  "Allow_addMethods ns ms = ms @ ns"

section \<open>Cache-Control\<close>

definition TrivialDirectives :: "(string \<times> Directive) list" where
  "TrivialDirectives =
     [(''no-cache'', NoCache), (''no-store'', NoStore), (''no-transform'', NoTransform),
      (''only-if-cached'', OnlyIfCached), (''public'', Public), (''private'', Private),
      (''must-revalidate'', MustRevalidate), (''proxy-revalidate'', ProxyRevalidate)]"

definition TimedDirectives :: "(string \<times> Directive) list" where
  "TimedDirectives =
     [(''max-age'', MaxAge), (''max-stale'', MaxStale), (''min-fresh'', MinFresh),
      (''s-maxage'', SMaxAge)]"

fun match_directive :: "(string \<times> Directive) list \<Rightarrow> scursor \<Rightarrow> (Directive \<times> scursor) option" where
  "match_directive [] c = None"
| "match_directive ((s, d) # tab) c =
     (case match_raw s c of (True, c') \<Rightarrow> Some (d, c') | (False, _) \<Rightarrow> match_directive tab c)"

definition cc_timed :: "Directive \<Rightarrow> scursor \<Rightarrow> (CacheDirective \<times> scursor) result" where
  "cc_timed d c =
     (case advance 1 c of
        (False, _) \<Rightarrow> Inl (Runtime_Error ''Invalid caching directive, missing delta-seconds'')
      | (True, c1) \<Rightarrow>
          (case from_chars_u 10 (2 ^ 64 - 1) (rest c1) of
             Inl _ \<Rightarrow> Inl (Runtime_Error ''Invalid caching directive, malformated delta-seconds'')
           | Inr (secs, n) \<Rightarrow>
               let c2 = snd (advance n c1)
               in if \<not> eof c2 \<and> current c2 \<noteq> CHR '',''
                  then Inl (Runtime_Error ''Invalid caching directive, malformated delta-seconds'')
                  else Inr (CacheDirective_init d (ssz_of_sz secs), c2)))"

text \<open>One directive: the directives read so far are extended, or not when none matches.\<close>

definition cc_directive :: "scursor \<Rightarrow> CacheDirective list \<Rightarrow> (CacheDirective list \<times> scursor) result" where
  "cc_directive c ds =
     (case match_directive TrivialDirectives c of
        Some (d, c1) \<Rightarrow> Inr (ds @ [CacheDirective_plain d], c1)
      | None \<Rightarrow>
          (case match_directive TimedDirectives c of
             None \<Rightarrow> Inr (ds, c)
           | Some (d, c1) \<Rightarrow>
               (case cc_timed d c1 of Inl e \<Rightarrow> Inl e | Inr (x, c2) \<Rightarrow> Inr (ds @ [x], c2))))"

text \<open>\<open>while (c == ',' || c == ' ') cursor.advance (1)\<close>; the end of the input reads as 0xFF.\<close>

definition cc_skip :: "scursor \<Rightarrow> scursor" where
  "cc_skip c = snd (advance_while (\<lambda>c. current c = CHR '','' \<or> current c = SP) c)"

lemma remaining_match_directive:
  "match_directive tab c = Some (d, c') \<Longrightarrow> remaining c' \<le> remaining c"
proof (induction tab)
  case (Cons sd tab)
  then show ?case
    using remaining_match_raw_le [of "fst sd" c]
    by (cases sd) (auto split: prod.splits bool.splits)
qed simp

lemma remaining_cc_timed: "cc_timed d c = Inr (x, c') \<Longrightarrow> remaining c' \<le> remaining c"
proof -
  assume "cc_timed d c = Inr (x, c')"
  then obtain c1 n where "advance 1 c = (True, c1)" "c' = snd (advance n c1)"
    by (auto simp: cc_timed_def Let_def simp del: One_nat_def split: prod.splits bool.splits sum.splits if_splits)
  then show ?thesis using remaining_advance_le [of 1 c] remaining_advance_le [of n c1] by simp
qed

lemma remaining_cc_directive: "cc_directive c ds = Inr (ds', c') \<Longrightarrow> remaining c' \<le> remaining c"
  by (auto simp: cc_directive_def split: option.splits sum.splits
      dest!: remaining_match_directive remaining_cc_timed)

lemma remaining_cc_skip:
  assumes "\<not> eof c" "current c = CHR '',''"
  shows "remaining (cc_skip c) < remaining c"
proof -
  let ?p = "\<lambda>c. current c = CHR '','' \<or> current c = SP"
  have "fst (advance 1 c)" using assms by (simp add: advance_small eof_def)
  then have "cc_skip c = snd (advance_while ?p (snd (advance 1 c)))"
    using assms advance_while_step(1) [of ?p c] by (simp add: cc_skip_def)
  moreover have "remaining (snd (advance 1 c)) < remaining c" by (rule remaining_advance1 [OF assms(1)])
  ultimately show ?thesis using remaining_advance_while_le [of ?p "snd (advance 1 c)"] by simp
qed

lemma remaining_cc_round:
  "cc_directive c ds = Inr (ds', c1) \<Longrightarrow> \<not> eof c1 \<Longrightarrow> current c1 = CHR '','' \<Longrightarrow>
   remaining (cc_skip c1) < remaining c"
  using remaining_cc_directive [of c ds ds' c1] remaining_cc_skip [of c1] by simp

function cc_loop :: "scursor \<Rightarrow> CacheDirective list \<Rightarrow> CacheDirective list result" where
  "cc_loop c ds =
     (case cc_directive c ds of
        Inl e \<Rightarrow> Inl e
      | Inr (ds', c1) \<Rightarrow>
          if eof c1 then Inr ds'
          else if current c1 \<noteq> CHR '','' then
            Inl (Runtime_Error ''Invalid caching directive, expected a comma'')
          else let c2 = cc_skip c1 in if eof c2 then Inr ds' else cc_loop c2 ds')"
  by pat_completeness auto
termination
  by (relation "measure (\<lambda>(c, ds). remaining c)") (auto intro: remaining_cc_round)

declare cc_loop.simps [simp del]

definition CacheControl_parseRaw :: "string \<Rightarrow> nat \<Rightarrow> CacheDirective list \<Rightarrow> CacheDirective list result" where
  "CacheControl_parseRaw mem len ds = cc_loop (RawStreamBuf (take len mem)) ds"

fun directiveString :: "Directive \<Rightarrow> string" where
  "directiveString NoCache = ''no-cache''"
| "directiveString NoStore = ''no-store''"
| "directiveString NoTransform = ''no-transform''"
| "directiveString OnlyIfCached = ''only-if-cached''"
| "directiveString Public = ''public''"
| "directiveString Private = ''private''"
| "directiveString MustRevalidate = ''must-revalidate''"
| "directiveString ProxyRevalidate = ''proxy-revalidate''"
| "directiveString MaxAge = ''max-age''"
| "directiveString MaxStale = ''max-stale''"
| "directiveString MinFresh = ''min-fresh''"
| "directiveString SMaxAge = ''s-maxage''"
| "directiveString Dir_Ext = ''''"

definition write_directive :: "CacheDirective \<Rightarrow> string" where
  "write_directive d =
     directiveString (cd_directive d)
     @ (case CacheDirective_delta d of
          Inr delta \<Rightarrow> if 0 < delta then ''='' @ int_str delta else []
        | Inl _ \<Rightarrow> [])"

definition CacheControl_write :: "CacheDirective list \<Rightarrow> string" where
  "CacheControl_write ds = write_sep write_directive '', '' ds"

section \<open>Connection, Content-Length, Expect\<close>

definition Connection_parseRaw :: "string \<Rightarrow> nat \<Rightarrow> ConnectionControl" where
  "Connection_parseRaw mem len =
     (let c = RawStreamBuf (take len mem)
      in if fst (match_string ''close'' Insensitive c) then Close
         else if fst (match_string ''keep-alive'' Insensitive c) then KeepAlive
         else Conn_Ext)"

fun Connection_write :: "ConnectionControl \<Rightarrow> string" where
  "Connection_write Close = ''Close''"
| "Connection_write KeepAlive = ''Keep-Alive''"
| "Connection_write Conn_Ext = ''Ext''"

text \<open>\<open>std::stoull\<close>: a sign is accepted and a negative number wraps.\<close>

definition stoull :: "string \<Rightarrow> nat result" where
  "stoull s =
     (case num_subject (c_str s) of
        None \<Rightarrow> Inl (Invalid_Argument ''stoull'')
      | Some (neg, n, _) \<Rightarrow>
          if 2 ^ 64 \<le> n then Inl (Out_Of_Range ''stoull'')
          else Inr (if neg then sz_of_ssz (- int n) else n))"

text \<open>An invalid number leaves the value alone; one that is out of range throws.\<close>

definition ContentLength_parse :: "string \<Rightarrow> nat \<Rightarrow> nat result" where
  "ContentLength_parse data v =
     (case stoull data of
        Inr n \<Rightarrow> Inr n
      | Inl (Invalid_Argument _) \<Rightarrow> Inr v
      | Inl e \<Rightarrow> Inl e)"

text \<open>\<open>strcmp\<close> on the memory behind the pointer; the length is not used.\<close>

definition Expect_parseRaw :: "string \<Rightarrow> nat \<Rightarrow> Expectation" where
  "Expect_parseRaw mem len = (if c_str mem = ''100-continue'' then Expect_Continue else Expect_Ext)"

fun Expect_write :: "Expectation \<Rightarrow> string" where
  "Expect_write Expect_Continue = ''100-continue''"
| "Expect_write Expect_Ext = ''''"

section \<open>Authorization\<close>

datatype AuthMethod = Basic | Bearer | Auth_Unknown

definition hasMethod_Basic :: "string \<Rightarrow> bool" where
  "hasMethod_Basic v \<longleftrightarrow> prefix ''Basic '' v \<and> length ''Basic '' < length v"

definition hasMethod_Bearer :: "string \<Rightarrow> bool" where
  "hasMethod_Bearer v \<longleftrightarrow> prefix ''Bearer '' v \<and> length ''Bearer '' < length v"

definition getMethod :: "string \<Rightarrow> AuthMethod" where
  "getMethod v = (if hasMethod_Basic v then Basic else if hasMethod_Bearer v then Bearer else Auth_Unknown)"

definition basicCredentials :: "string \<Rightarrow> string result" where
  "basicCredentials v =
     (if \<not> hasMethod_Basic v then
        Inl (Runtime_Error ''Authorization header does not use Basic method.'')
      else case Decode (drop (length ''Basic '') v) of
        Inl e \<Rightarrow> Inl e | Inr bytes \<Rightarrow> Inr (map byte_char bytes))"

definition getBasicUser :: "string \<Rightarrow> string result" where
  "getBasicUser v =
     (case basicCredentials v of
        Inl e \<Rightarrow> Inl e
      | Inr cred \<Rightarrow>
          (case str_find cred (CHR '':'') 0 of None \<Rightarrow> Inr [] | Some i \<Rightarrow> Inr (take i cred)))"

definition getBasicPassword :: "string \<Rightarrow> string result" where
  "getBasicPassword v =
     (case basicCredentials v of
        Inl e \<Rightarrow> Inl e
      | Inr cred \<Rightarrow>
          (case str_find cred (CHR '':'') 0 of None \<Rightarrow> Inr [] | Some i \<Rightarrow> Inr (drop (i + 1) cred)))"

text \<open>The new value of the header; \<open>None\<close> is a termination inside the \<open>noexcept\<close> encoder.\<close>

definition setBasicUserPassword :: "string \<Rightarrow> string \<Rightarrow> string result option" where
  "setBasicUserPassword user password =
     (if str_find user (CHR '':'') 0 \<noteq> None then Some (Inl (Runtime_Error ''User ID cannot contain a colon.''))
      else case EncodeString (user @ '':'' @ password) of
        None \<Rightarrow> None
      | Some s \<Rightarrow> Some (Inr (''Basic '' @ s)))"

section \<open>ETag\<close>

record etag =
  et_etagc :: string
  et_weak :: bool

definition isValidEtagc :: "string \<Rightarrow> bool" where
  "isValidEtagc s = list_all (\<lambda>c. let n = (byte_of c :: nat)
     in n = 0x21 \<or> (0x23 \<le> n \<and> n \<le> 0x7E) \<or> 0x80 \<le> n) s"

definition parseOpaqueTag :: "string \<Rightarrow> string result" where
  "parseOpaqueTag s =
     (if length s < 2 \<or> hd s \<noteq> CHR 0x22 \<or> last s \<noteq> CHR 0x22 then Inl (Runtime_Error ''Invalid ETag format'')
      else Inr (take (length s - 2) (drop 1 s)))"

definition ETag_parse :: "string \<Rightarrow> etag result" where
  "ETag_parse str =
     (let weak = prefix ''W/'' str
      in case parseOpaqueTag (if weak then drop 2 str else str) of
           Inl e \<Rightarrow> Inl e
         | Inr v \<Rightarrow>
             if \<not> isValidEtagc v then
               Inl (Runtime_Error ''Invalid ETag format: etagc must contain chars in a range of 0x21 / 0x23-0x7E / 0x80-0xFF'')
             else Inr \<lparr>et_etagc = v, et_weak = weak\<rparr>)"

definition ETag_write :: "etag \<Rightarrow> string" where
  "ETag_write e = (if et_weak e then ''W/'' else []) @ [CHR 0x22] @ et_etagc e @ [CHR 0x22]"

section \<open>Host\<close>

record host_header =
  hh_host :: string
  hh_port :: port

definition HTTP_STANDARD_PORT :: port where "HTTP_STANDARD_PORT = 80"

definition Host_parse :: "net_lib \<Rightarrow> string \<Rightarrow> host_header result" where
  "Host_parse N data =
     (case parse_address N data of
        Inl e \<Rightarrow> Inl e
      | Inr p \<Rightarrow>
          let h = (if ap_family p = AF_INET6 then ''['' @ ap_host p @ '']'' else ap_host p)
          in if ap_port p = [] then Inr \<lparr>hh_host = h, hh_port = HTTP_STANDARD_PORT\<rparr>
             else case Port (ap_port p) of
               Inl e \<Rightarrow> Inl e | Inr pt \<Rightarrow> Inr \<lparr>hh_host = h, hh_port = pt\<rparr>)"

definition Host_write :: "host_header \<Rightarrow> string" where
  "Host_write h = hh_host h @ (if hh_port h \<noteq> 0 then '':'' @ dec_str (hh_port h) else [])"

definition Host_of :: "net_lib \<Rightarrow> string \<Rightarrow> port \<Rightarrow> host_header result" where
  "Host_of N h p = Host_parse N (h @ '':'' @ dec_str p)"

section \<open>Server\<close>

definition Server_write :: "string list \<Rightarrow> string" where
  "Server_write toks = write_sep id '' '' toks"

section \<open>Accept\<close>

text \<open>\<open>while ((c = cursor.next ()) != Eof && c != ',') cursor.advance (1)\<close>.\<close>

definition accept_scan :: "scursor \<Rightarrow> scursor" where
  "accept_scan c = snd (advance_while (\<lambda>c. next_char c \<noteq> EOF_char \<and> next_char c \<noteq> CHR '','') c)"

definition accept_blanks :: "scursor \<Rightarrow> scursor" where
  "accept_blanks c = snd (advance_while (\<lambda>c. \<not> eof c \<and> current c = SP) c)"

function accept_loop :: "string \<Rightarrow> scursor \<Rightarrow> MediaType list \<Rightarrow> MediaType list result" where
  "accept_loop mem c ms =
     (let c1 = snd (advance 1 (accept_scan c))
      in case MediaType_fromRaw (drop (spos c) mem) (diff c1 (spos c)) of
           Inl e \<Rightarrow> Inl e
         | Inr m \<Rightarrow>
             if eof c1 then Inr (ms @ [m])
             else let c2 = snd (advance 1 c1)
                  in if next_char c2 = EOF_char \<or> next_char c2 = CHR '','' \<or> next_char c2 = NUL
                     then Inl (Runtime_Error ''Ill-formed Accept header'')
                     else let c3 = accept_blanks c2
                          in if eof c3 then Inr (ms @ [m]) else accept_loop mem c3 (ms @ [m]))"
  by pat_completeness auto
termination
proof (relation "measure (\<lambda>(mem, c, ms). remaining c)", simp_all del: One_nat_def)
  fix c :: scursor
  let ?c1 = "snd (advance 1 (accept_scan c))"
  assume "\<not> eof ?c1"
  then have "remaining (snd (advance 1 ?c1)) < remaining ?c1" by (rule remaining_advance1)
  moreover have "remaining ?c1 \<le> remaining (accept_scan c)" by (rule remaining_advance_le)
  moreover have "remaining (accept_scan c) \<le> remaining c"
    unfolding accept_scan_def by (rule remaining_advance_while_le)
  moreover have "remaining (accept_blanks (snd (advance 1 ?c1))) \<le> remaining (snd (advance 1 ?c1))"
    unfolding accept_blanks_def by (rule remaining_advance_while_le)
  ultimately show "remaining (accept_blanks (snd (advance 1 ?c1))) < remaining c" by linarith
qed

declare accept_loop.simps [simp del]

definition Accept_parseRaw :: "string \<Rightarrow> nat \<Rightarrow> MediaType list \<Rightarrow> MediaType list result" where
  "Accept_parseRaw mem len ms = accept_loop mem (RawStreamBuf (take len mem)) ms"

definition Accept_write :: "MediaType list \<Rightarrow> string" where
  "Accept_write ms = write_sep MediaType_toString '', '' ms"

section \<open>Accept-Encoding\<close>

definition is_http_token :: "char \<Rightarrow> bool" where
  "is_http_token c \<longleftrightarrow> c \<in> set (''!#$%&'' @ [CHR 0x27] @ ''*+-.^_'' @ [CHR 0x60] @ ''|~'') \<or> c_isalnum c"

text \<open>The vector is kept sorted by decreasing quality; equal elements stay in order of arrival.\<close>

fun insertEncoding :: "Encoding \<times> int \<Rightarrow> (Encoding \<times> int) list \<Rightarrow> (Encoding \<times> int) list" where
  "insertEncoding e [] = [e]"
| "insertEncoding e (x # xs) = (if snd x < snd e then e # x # xs else x # insertEncoding e xs)"

text \<open>
  One element of the list: the quality of the element whose text is \<open>take e mem\<close> and whose
  token ends at \<open>te\<close>; \<open>None\<close> is the malformed case.
\<close>

definition accept_enc_quality :: "string \<Rightarrow> nat \<Rightarrow> nat \<Rightarrow> int option" where
  "accept_enc_quality mem e te =
     (let par = dropWhile (\<lambda>c. c \<noteq> CHR '';'') (drop te (take e mem))
      in if par = [] then Some 1000
         else let sc = e - length par;
                  ows_end = sc + 1 + length (takeWhile c_isblank (drop (sc + 1) (take e mem)))
              in if mem_at mem ows_end \<noteq> CHR ''q'' \<or> mem_at mem (ows_end + 1) \<noteq> CHR ''='' then None
                 else map_option fst (strToQvalue (drop (ows_end + 2) mem)))"

lemma accept_enc_progress:
  assumes "s \<noteq> []" "e = length (takeWhile (\<lambda>c. c \<noteq> CHR '','') s)"
  shows "0 < e + length (takeWhile (\<lambda>c. \<not> is_http_token c) (drop e s))"
proof (cases "hd s = CHR '',''")
  case True
  have "\<not> is_http_token (CHR '','')" by code_simp
  with True assms show ?thesis by (cases s) auto
next
  case False
  with assms show ?thesis by (cases s) auto
qed

function accept_enc_loop :: "string \<Rightarrow> nat \<Rightarrow> (Encoding \<times> int) list \<Rightarrow> (Encoding \<times> int) list" where
  "accept_enc_loop mem n encs =
     (if n = 0 then encs
      else let s = take n mem;
               e = length (takeWhile (\<lambda>c. c \<noteq> CHR '','') s);
               te = length (takeWhile is_http_token (take e s))
           in case accept_enc_quality mem e te of
                None \<Rightarrow> []
              | Some q \<Rightarrow>
                  let encs' = (if te = 0 then encs
                               else insertEncoding (encodingFromString (take te s), q) encs);
                      next_start = e + length (takeWhile (\<lambda>c. \<not> is_http_token c) (drop e s))
                  in if length s \<le> next_start then encs'
                     else accept_enc_loop (drop next_start mem) (n - next_start) encs')"
  by pat_completeness auto
termination
proof (relation "measure (\<lambda>(mem, n, encs). n)")
  fix mem s :: string and n e next_start :: nat and encs encs' :: "(Encoding \<times> int) list"
  assume n: "n \<noteq> 0" and e: "e = length (takeWhile (\<lambda>c. c \<noteq> CHR '','') s)"
    and ns: "next_start = e + length (takeWhile (\<lambda>c. \<not> is_http_token c) (drop e s))"
    and lt: "\<not> length s \<le> next_start"
  from lt have "s \<noteq> []" by auto
  then have "0 < next_start" unfolding ns using e by (rule accept_enc_progress)
  with n show "((drop next_start mem, n - next_start, encs'), mem, n, encs) \<in> measure (\<lambda>(mem, n, encs). n)"
    by simp
qed simp

declare accept_enc_loop.simps [simp del]

definition AcceptEncoding_parseRaw :: "string \<Rightarrow> nat \<Rightarrow> (Encoding \<times> int) list \<Rightarrow> (Encoding \<times> int) list" where
  "AcceptEncoding_parseRaw mem len encs = accept_enc_loop mem len encs"

text \<open>
  \<open>operator<<\<close> on a quality with the default precision of six digits: thousandths without
  trailing zeros.
\<close>

definition float_str :: "int \<Rightarrow> string" where
  "float_str q =
     (let i = dec_str (nat (q div 1000));
          d = [digit_char (nat (q div 100 mod 10)), digit_char (nat (q div 10 mod 10)), digit_char (nat (q mod 10))];
          f = rev (dropWhile (\<lambda>c. c = CHR ''0'') (rev d))
      in if f = [] then i else i @ ''.'' @ f)"

definition AcceptEncoding_write :: "(Encoding \<times> int) list \<Rightarrow> string" where
  "AcceptEncoding_write encs =
     write_sep (\<lambda>(e, q). encodingString e @ '';q='' @ float_str q) '', '' encs"

section \<open>The headers\<close>

datatype Header =
    H_Accept "MediaType list"
  | H_AccessControlAllowOrigin string
  | H_AccessControlAllowHeaders string
  | H_AccessControlExposeHeaders string
  | H_AccessControlAllowMethods string
  | H_Allow "Method list"
  | H_CacheControl "CacheDirective list"
  | H_Connection ConnectionControl
  | H_AcceptEncoding "(Encoding \<times> int) list"
  | H_ContentEncoding Encoding
  | H_TransferEncoding Encoding
  | H_ContentLength nat
  | H_ContentType MediaType
  | H_Authorization string
  | H_Date int
  | H_ETag etag
  | H_Expect Expectation
  | H_Host host_header
  | H_LastModified int
  | H_Location string
  | H_Server "string list"
  | H_UserAgent string

fun header_name :: "Header \<Rightarrow> string" where
  "header_name (H_Accept _) = ''Accept''"
| "header_name (H_AccessControlAllowOrigin _) = ''Access-Control-Allow-Origin''"
| "header_name (H_AccessControlAllowHeaders _) = ''Access-Control-Allow-Headers''"
| "header_name (H_AccessControlExposeHeaders _) = ''Access-Control-Expose-Headers''"
| "header_name (H_AccessControlAllowMethods _) = ''Access-Control-Allow-Methods''"
| "header_name (H_Allow _) = ''Allow''"
| "header_name (H_CacheControl _) = ''Cache-Control''"
| "header_name (H_Connection _) = ''Connection''"
| "header_name (H_AcceptEncoding _) = ''Accept-Encoding''"
| "header_name (H_ContentEncoding _) = ''Content-Encoding''"
| "header_name (H_TransferEncoding _) = ''Transfer-Encoding''"
| "header_name (H_ContentLength _) = ''Content-Length''"
| "header_name (H_ContentType _) = ''Content-Type''"
| "header_name (H_Authorization _) = ''Authorization''"
| "header_name (H_Date _) = ''Date''"
| "header_name (H_ETag _) = ''ETag''"
| "header_name (H_Expect _) = ''Expect''"
| "header_name (H_Host _) = ''Host''"
| "header_name (H_LastModified _) = ''Last-Modified''"
| "header_name (H_Location _) = ''Location''"
| "header_name (H_Server _) = ''Server''"
| "header_name (H_UserAgent _) = ''User-Agent''"

text \<open>The object the default constructor of the same class makes.\<close>

fun header_init :: "Header \<Rightarrow> Header" where
  "header_init (H_Accept _) = H_Accept []"
| "header_init (H_AccessControlAllowOrigin _) = H_AccessControlAllowOrigin []"
| "header_init (H_AccessControlAllowHeaders _) = H_AccessControlAllowHeaders []"
| "header_init (H_AccessControlExposeHeaders _) = H_AccessControlExposeHeaders []"
| "header_init (H_AccessControlAllowMethods _) = H_AccessControlAllowMethods []"
| "header_init (H_Allow _) = H_Allow []"
| "header_init (H_CacheControl _) = H_CacheControl []"
| "header_init (H_Connection _) = H_Connection KeepAlive"
| "header_init (H_AcceptEncoding _) = H_AcceptEncoding []"
| "header_init (H_ContentEncoding _) = H_ContentEncoding Identity"
| "header_init (H_TransferEncoding _) = H_TransferEncoding Identity"
| "header_init (H_ContentLength _) = H_ContentLength 0"
| "header_init (H_ContentType _) = H_ContentType MediaType0"
| "header_init (H_Authorization _) = H_Authorization ''NONE''"
| "header_init (H_Date _) = H_Date 0"
| "header_init (H_ETag _) = H_ETag \<lparr>et_etagc = [], et_weak = False\<rparr>"
| "header_init (H_Expect _) = H_Expect Expect_Continue"
| "header_init (H_Host _) = H_Host \<lparr>hh_host = [], hh_port = 0\<rparr>"
| "header_init (H_LastModified _) = H_LastModified 0"
| "header_init (H_Location _) = H_Location []"
| "header_init (H_Server _) = H_Server []"
| "header_init (H_UserAgent _) = H_UserAgent []"

text \<open>
  The virtual call \<open>header->parseRaw (str, len)\<close>: classes that override \<open>parse\<close> get the
  \<open>len\<close> bytes as a string.
\<close>

fun header_parseRaw :: "http_env \<Rightarrow> string \<Rightarrow> nat \<Rightarrow> Header \<Rightarrow> Header result" where
  "header_parseRaw E mem len (H_Accept ms) = map_sum id H_Accept (Accept_parseRaw mem len ms)"
| "header_parseRaw E mem len (H_AccessControlAllowOrigin _) = Inr (H_AccessControlAllowOrigin (take len mem))"
| "header_parseRaw E mem len (H_AccessControlAllowHeaders _) = Inr (H_AccessControlAllowHeaders (take len mem))"
| "header_parseRaw E mem len (H_AccessControlExposeHeaders _) = Inr (H_AccessControlExposeHeaders (take len mem))"
| "header_parseRaw E mem len (H_AccessControlAllowMethods _) = Inr (H_AccessControlAllowMethods (take len mem))"
| "header_parseRaw E mem len (H_Allow ms) = Inr (H_Allow ms)"
| "header_parseRaw E mem len (H_CacheControl ds) = map_sum id H_CacheControl (CacheControl_parseRaw mem len ds)"
| "header_parseRaw E mem len (H_Connection _) = Inr (H_Connection (Connection_parseRaw mem len))"
| "header_parseRaw E mem len (H_AcceptEncoding es) = Inr (H_AcceptEncoding (AcceptEncoding_parseRaw mem len es))"
| "header_parseRaw E mem len (H_ContentEncoding _) = Inr (H_ContentEncoding (encodingFromString (take len mem)))"
| "header_parseRaw E mem len (H_TransferEncoding _) = Inr (H_TransferEncoding (encodingFromString (take len mem)))"
| "header_parseRaw E mem len (H_ContentLength v) = map_sum id H_ContentLength (ContentLength_parse (take len mem) v)"
| "header_parseRaw E mem len (H_ContentType m) = map_sum id H_ContentType (MediaType_parseRaw mem len m)"
| "header_parseRaw E mem len (H_Authorization _) = Inr (H_Authorization (take len mem))"
| "header_parseRaw E mem len (H_Date _) = map_sum id H_Date (FullDate_fromString (he_date E) (take len mem))"
| "header_parseRaw E mem len (H_ETag _) = map_sum id H_ETag (ETag_parse (take len mem))"
| "header_parseRaw E mem len (H_Expect _) = Inr (H_Expect (Expect_parseRaw mem len))"
| "header_parseRaw E mem len (H_Host _) = map_sum id H_Host (Host_parse (he_net E) (take len mem))"
| "header_parseRaw E mem len (H_LastModified _) =
     map_sum id H_LastModified (FullDate_fromString (he_date E) (take len mem))"
| "header_parseRaw E mem len (H_Location _) = Inr (H_Location (take len mem))"
| "header_parseRaw E mem len (H_Server ts) = Inr (H_Server (ts @ [take len mem]))"
| "header_parseRaw E mem len (H_UserAgent _) = Inr (H_UserAgent (take len mem))"

definition header_parse :: "http_env \<Rightarrow> string \<Rightarrow> Header \<Rightarrow> Header result" where
  "header_parse E data h = header_parseRaw E data (length data) h"

fun header_write :: "http_env \<Rightarrow> Header \<Rightarrow> string" where
  "header_write E (H_Accept ms) = Accept_write ms"
| "header_write E (H_AccessControlAllowOrigin v) = v"
| "header_write E (H_AccessControlAllowHeaders v) = v"
| "header_write E (H_AccessControlExposeHeaders v) = v"
| "header_write E (H_AccessControlAllowMethods v) = v"
| "header_write E (H_Allow ms) = Allow_write ms"
| "header_write E (H_CacheControl ds) = CacheControl_write ds"
| "header_write E (H_Connection c) = Connection_write c"
| "header_write E (H_AcceptEncoding es) = AcceptEncoding_write es"
| "header_write E (H_ContentEncoding e) = encodingString e"
| "header_write E (H_TransferEncoding e) = encodingString e"
| "header_write E (H_ContentLength v) = dec_str v"
| "header_write E (H_ContentType m) = MediaType_toString m"
| "header_write E (H_Authorization v) = v"
| "header_write E (H_Date d) = FullDate_write (he_date E) RFC1123 d"
| "header_write E (H_ETag e) = ETag_write e"
| "header_write E (H_Expect x) = Expect_write x"
| "header_write E (H_Host h) = Host_write h"
| "header_write E (H_LastModified d) = FullDate_write (he_date E) RFC1123GMT d"
| "header_write E (H_Location v) = v"
| "header_write E (H_Server ts) = Server_write ts"
| "header_write E (H_UserAgent v) = v"

section \<open>Accept-Encoding is sorted by preference\<close>

definition enc_sorted :: "(Encoding \<times> int) list \<Rightarrow> bool" where
  "enc_sorted es \<longleftrightarrow> sorted_wrt (\<lambda>a b. snd b \<le> snd a) es \<and> (\<forall>e \<in> set es. 0 \<le> snd e \<and> snd e \<le> 1000)"

lemma set_insertEncoding: "set (insertEncoding e es) = insert e (set es)"
  by (induction es) auto

lemma enc_sorted_insert:
  "enc_sorted es \<Longrightarrow> 0 \<le> snd e \<Longrightarrow> snd e \<le> 1000 \<Longrightarrow> enc_sorted (insertEncoding e es)"
  by (induction es) (auto simp: enc_sorted_def set_insertEncoding)

lemma accept_enc_quality_bounds:
  "accept_enc_quality mem e te = Some q \<Longrightarrow> 0 \<le> q \<and> q \<le> 1000"
  by (auto simp: accept_enc_quality_def Let_def split: if_splits dest: strToQvalue_bounds)

text \<open>
  C38: whatever the bytes of an \<open>Accept-Encoding\<close> header, the encodings it yields are sorted by
  decreasing quality, and every quality is between 0 and 1.
\<close>

theorem AcceptEncoding_sorted:
  "enc_sorted es \<Longrightarrow> enc_sorted (AcceptEncoding_parseRaw mem len es)"
  unfolding AcceptEncoding_parseRaw_def
proof (induction mem len es rule: accept_enc_loop.induct)
  case (1 mem n es)
  define s where "s = take n mem"
  define e where "e = length (takeWhile (\<lambda>c. c \<noteq> CHR '','') s)"
  define te where "te = length (takeWhile is_http_token (take e s))"
  show ?case
  proof (cases "n = 0")
    case True
    with 1 show ?thesis by (subst accept_enc_loop.simps) simp
  next
    case False
    show ?thesis
    proof (cases "accept_enc_quality mem e te")
      case None
      with False show ?thesis
        by (subst accept_enc_loop.simps) (simp add: Let_def enc_sorted_def flip: s_def e_def te_def)
    next
      case (Some q)
      define es' where "es' = (if te = 0 then es else insertEncoding (encodingFromString (take te s), q) es)"
      have "enc_sorted es'"
        using 1(2) accept_enc_quality_bounds [OF Some] by (simp add: es'_def enc_sorted_insert)
      then show ?thesis
        using False Some 1(1) [OF False s_def e_def te_def Some es'_def refl]
        by (subst accept_enc_loop.simps)
          (cases "te = 0", simp_all add: Let_def es'_def flip: s_def e_def te_def)
    qed
  qed
qed

theorem AcceptEncoding_sorted_witness:
  "enc_sorted (AcceptEncoding_parseRaw ''gzip;q=0.5, br'' 14 [])
   \<and> AcceptEncoding_parseRaw ''gzip;q=0.5, br'' 14 [] = [(Br, 1000), (Gzip, 500)]"
proof
  show "enc_sorted (AcceptEncoding_parseRaw ''gzip;q=0.5, br'' 14 [])"
    by (rule AcceptEncoding_sorted) (simp add: enc_sorted_def)
  show "AcceptEncoding_parseRaw ''gzip;q=0.5, br'' 14 [] = [(Br, 1000), (Gzip, 500)]" by code_simp
qed

section \<open>Printing and parsing\<close>

text \<open>A cache directive that is printed in full.\<close>

definition printed_directive :: "CacheDirective \<Rightarrow> bool" where
  "printed_directive d \<longleftrightarrow> cd_directive d \<noteq> Dir_Ext
     \<and> (if has_delta (cd_directive d) then 0 < cd_data d \<and> cd_data d < 2 ^ 63 else cd_data d = 0)"

lemma int_str_nat [simp]: "int_str (int n) = dec_str n"
  by (simp add: int_str_def)

lemma write_directive_printed:
  "printed_directive d \<Longrightarrow> write_directive d = directiveString (cd_directive d)
     @ (if has_delta (cd_directive d) then ''='' @ dec_str (cd_data d) else [])"
  by (cases "cd_directive d")
    (auto simp: printed_directive_def write_directive_def CacheDirective_delta_def has_delta_def)

lemma match_directive_eq:
  "wf_cursor c \<Longrightarrow> match_directive tab c =
     map_option (\<lambda>(s, d). (d, c\<lparr>spos := spos c + length s\<rparr>)) (List.find (\<lambda>(s, d). prefix s (rest c)) tab)"
proof (induction tab)
  case (Cons sd tab)
  then show ?case by (cases sd) (simp add: match_raw_eq)
qed simp

lemma find_trivial:
  "d \<noteq> Dir_Ext \<Longrightarrow> List.find (\<lambda>(s, d'). prefix s (directiveString d @ r)) TrivialDirectives =
     (if has_delta d then None else Some (directiveString d, d))"
  by (cases d) (simp_all add: TrivialDirectives_def has_delta_def)

lemma find_timed:
  "has_delta d \<Longrightarrow> List.find (\<lambda>(s, d'). prefix s (directiveString d @ r)) TimedDirectives =
     Some (directiveString d, d)"
  by (cases d) (simp_all add: TimedDirectives_def has_delta_def)

lemma comma_not_digit: "\<not> is_digit 10 (CHR '','')"
  by code_simp

lemma cc_timed_text:
  assumes wf: "wf_cursor c" and r: "rest c = CHR ''='' # dec_str n @ t" and n: "n < 2 ^ 63"
    and t: "t = [] \<or> hd t = CHR '',''"
  shows "cc_timed d c = Inr (CacheDirective_init d (int n), c\<lparr>spos := spos c + Suc (length (dec_str n))\<rparr>)"
proof -
  let ?c1 = "c\<lparr>spos := Suc (spos c)\<rparr>"
  have a: "advance 1 c = (True, ?c1)" using wf r by (rule advance1_Cons)
  have wf1: "wf_cursor ?c1" and r1: "rest ?c1 = dec_str n @ t"
    using wf_Suc [OF wf r] rest_Suc [OF r] by simp_all
  have fc: "from_chars_u 10 (2 ^ 64 - 1) (rest ?c1) = Inr (n, length (dec_str n))"
    unfolding r1 using n t comma_not_digit by (intro from_chars_num_str) auto
  let ?c2 = "?c1\<lparr>spos := spos ?c1 + length (dec_str n)\<rparr>"
  have a2: "advance (length (dec_str n)) ?c1 = (True, ?c2)"
    using wf1 by (rule advance_ok) (simp add: remaining_length_rest r1)
  have r2: "rest ?c2 = t" using r1 by (rule rest_at)
  have "eof ?c2 \<or> current ?c2 = CHR '',''" using t r2 by (cases t) (auto simp: eof_rest current_def)
  moreover have "ssz_of_sz n = int n" using n by simp
  ultimately show ?thesis unfolding cc_timed_def a prod.case bool.case fc sum.case Let_def a2 snd_conv by auto
qed

lemma cc_directive_text:
  assumes wf: "wf_cursor c" and d: "printed_directive d" and r: "rest c = write_directive d @ t"
    and t: "t = [] \<or> hd t = CHR '',''"
  shows "cc_directive c ds = Inr (ds @ [d], c\<lparr>spos := spos c + length (write_directive d)\<rparr>)"
proof (cases "has_delta (cd_directive d)")
  case True
  let ?s = "directiveString (cd_directive d)" and ?c1 = "c\<lparr>spos := spos c + length (directiveString (cd_directive d))\<rparr>"
  have w: "write_directive d = ?s @ CHR ''='' # dec_str (cd_data d)"
    using d True by (simp add: write_directive_printed)
  have r': "rest c = ?s @ CHR ''='' # dec_str (cd_data d) @ t" using r w by simp
  have wf1: "wf_cursor ?c1" and r1: "rest ?c1 = CHR ''='' # dec_str (cd_data d) @ t"
    using wf_at [OF wf r'] rest_at [OF r'] by simp_all
  have "cd_directive d \<noteq> Dir_Ext" "cd_data d < 2 ^ 63" using d True by (auto simp: printed_directive_def)
  moreover have "CacheDirective_init (cd_directive d) (int (cd_data d)) = d"
    using True \<open>cd_data d < 2 ^ 63\<close> by (cases d; cases "cd_directive d") (auto simp: CacheDirective_init_def has_delta_def)
  ultimately show ?thesis
    using True cc_timed_text [OF wf1 r1 _ t] find_trivial [of "cd_directive d"] find_timed [OF True]
    by (simp add: cc_directive_def match_directive_eq [OF wf] r' w)
next
  case False
  then have w: "write_directive d = directiveString (cd_directive d)"
    using d by (simp add: write_directive_printed)
  have "cd_directive d \<noteq> Dir_Ext" "CacheDirective_plain (cd_directive d) = d"
    using d False by (cases d; cases "cd_directive d"; auto simp: printed_directive_def CacheDirective_plain_def CacheDirective_init_def has_delta_def)+
  then show ?thesis
    using False find_trivial [of "cd_directive d" t]
    by (simp add: cc_directive_def match_directive_eq [OF wf] r w)
qed

lemma cc_skip_separator:
  assumes wf: "wf_cursor c" and r: "rest c = '', '' @ x # t" and x: "x \<noteq> CHR '',''" "x \<noteq> SP"
  shows "cc_skip c = c\<lparr>spos := spos c + 2\<rparr>"
proof -
  let ?q = "\<lambda>x. x = CHR '','' \<or> x = SP"
  have "takeWhile ?q (rest c) = '', ''" using r x by simp
  moreover have "\<not> ?q EOF_char" by simp
  ultimately show ?thesis using advance_while_char_stop [OF wf, of ?q] by (simp add: cc_skip_def)
qed

lemma write_directive_head:
  "printed_directive d \<Longrightarrow> \<exists>x t. write_directive d @ r = x # t \<and> x \<noteq> CHR '','' \<and> x \<noteq> SP"
  by (cases "cd_directive d") (simp_all add: write_directive_printed printed_directive_def)

lemma write_sep_Cons: "xs \<noteq> [] \<Longrightarrow> write_sep f sep (x # xs) = f x @ sep @ write_sep f sep xs"
  by (cases xs) simp_all

lemma cc_loop_text:
  "ds \<noteq> [] \<Longrightarrow> list_all printed_directive ds \<Longrightarrow> wf_cursor c \<Longrightarrow> rest c = CacheControl_write ds \<Longrightarrow>
   cc_loop c acc = Inr (acc @ ds)"
proof (induction ds arbitrary: c acc)
  case (Cons d ds)
  show ?case
  proof (cases ds)
    case Nil
    with Cons.prems have r: "rest c = write_directive d @ []" by (simp add: CacheControl_write_def)
    then have "cc_directive c acc = Inr (acc @ [d], c\<lparr>spos := spos c + length (write_directive d)\<rparr>)"
      using Cons.prems by (intro cc_directive_text [OF _ _ r]) simp_all
    moreover have "rest (c\<lparr>spos := spos c + length (write_directive d)\<rparr>) = []" using r by (rule rest_at)
    ultimately show ?thesis using Nil by (subst cc_loop.simps) (simp add: eof_rest)
  next
    case (Cons d' ds')
    let ?t = "CacheControl_write ds"
    have r: "rest c = write_directive d @ '', '' @ ?t"
      using Cons.prems(4) Cons by (simp add: CacheControl_write_def)
    let ?c1 = "c\<lparr>spos := spos c + length (write_directive d)\<rparr>"
    have d: "cc_directive c acc = Inr (acc @ [d], ?c1)"
      using Cons.prems by (intro cc_directive_text [OF _ _ r]) simp_all
    have wf1: "wf_cursor ?c1" and r1: "rest ?c1 = '', '' @ ?t"
      using wf_at [OF Cons.prems(3) r] rest_at [OF r] by simp_all
    obtain x t where x: "?t = x # t" "x \<noteq> CHR '',''" "x \<noteq> SP"
      using write_directive_head [of d' "if ds' = [] then [] else '', '' @ CacheControl_write ds'"] Cons.prems(2) Cons
      by (cases ds') (auto simp: CacheControl_write_def)
    let ?c2 = "?c1\<lparr>spos := spos ?c1 + 2\<rparr>"
    have sk: "cc_skip ?c1 = ?c2" using cc_skip_separator [OF wf1, of x t] r1 x by simp
    have wf2: "wf_cursor ?c2" and r2: "rest ?c2 = ?t"
      using wf_at [OF wf1 r1] rest_at [OF r1] by (simp_all add: numeral_2_eq_2)
    have "\<not> eof ?c1" "current ?c1 = CHR '',''" "\<not> eof ?c2"
      using r1 r2 x by (simp_all add: eof_rest current_def)
    moreover have "cc_loop ?c2 (acc @ [d]) = Inr ((acc @ [d]) @ ds)"
      using Cons.prems Cons by (intro Cons.IH wf2 r2) simp_all
    ultimately show ?thesis using d sk by (subst cc_loop.simps) (simp add: Let_def)
  qed
qed simp

lemma CacheControl_round_trip:
  "ds \<noteq> [] \<Longrightarrow> list_all printed_directive ds \<Longrightarrow> length (CacheControl_write ds) < 2 ^ 63 \<Longrightarrow>
   CacheControl_parseRaw (CacheControl_write ds) (length (CacheControl_write ds)) [] = Inr ds"
  using cc_loop_text [of ds "RawStreamBuf (CacheControl_write ds)" "[]"]
  by (simp add: CacheControl_parseRaw_def)

text \<open>A directive with a delta of zero is printed without it and does not parse.\<close>

lemma CacheControl_zero_delta:
  "CacheControl_write [CacheDirective_init MaxAge 0] = ''max-age''
   \<and> CacheControl_parseRaw ''max-age'' 7 [] =
       Inl (Runtime_Error ''Invalid caching directive, missing delta-seconds'')"
  by code_simp

text \<open>Any prefix of the name of an encoding is read as that encoding.\<close>

lemma encodingFromString_prefixes:
  "encodingFromString ''z'' = Zstd \<and> encodingFromString ''ch'' = Chunked \<and> encodingFromString ''Identi'' = Identity"
  by code_simp

lemma encoding_round_trip: "encodingFromString (encodingString e) = e"
  by (cases e; hypsubst; code_simp)

lemma Connection_round_trip:
  "Connection_parseRaw (Connection_write c) (length (Connection_write c)) = c"
  by (cases c; hypsubst; code_simp)

lemma ContentLength_round_trip:
  assumes "n < 2 ^ 64"
  shows "ContentLength_parse (dec_str n) v = Inr n"
  using assms num_subject_dec_str [of "[]" n]
  by (simp add: ContentLength_parse_def stoull_def c_str_dec_str)

lemma ETag_round_trip:
  assumes "isValidEtagc (et_etagc e)"
  shows "ETag_parse (ETag_write e) = Inr e"
proof -
  have "parseOpaqueTag (CHR 0x22 # et_etagc e @ [CHR 0x22]) = Inr (et_etagc e)"
    by (simp add: parseOpaqueTag_def)
  then show ?thesis using assms by (cases e; cases "et_weak e") (auto simp: ETag_parse_def ETag_write_def)
qed

lemma Host_round_trip:
  assumes "nl_pton6 N (c_str (Host_write h)) = None" "0 < hh_port h" "hh_port h \<le> 65535"
    "CHR '':'' \<notin> set (hh_host h)" "CHR ''['' \<notin> set (hh_host h)"
  shows "Host_parse N (Host_write h) = Inr h"
  using assms parse_address_host_port [of N "hh_host h" "hh_port h"] Port_toString_parse [of "hh_port h"]
  by (simp add: Host_parse_def Host_write_def Port_toString_def)

text \<open>
  What a header is read as: the same object; for a media type, which keeps the text it was read from,
  one with the same type, subtype, suffix and quality.
\<close>

fun same_header :: "Header \<Rightarrow> Header \<Rightarrow> bool" where
  "same_header (H_ContentType m) h' \<longleftrightarrow> (\<exists>m'. h' = H_ContentType m' \<and> MediaType_eq m' m \<and> mt_q m' = mt_q m)"
| "same_header h h' \<longleftrightarrow> h' = h"

lemma same_header_refl [simp]: "same_header h h"
  by (cases h) (simp_all add: MediaType_eq_def)

text \<open>A media type made of known parts, with a quality in range or none, and no other parameters.\<close>

definition known_media :: "MediaType \<Rightarrow> bool" where
  "known_media m \<longleftrightarrow> m = (MediaType3 (mt_top m) (mt_sub m) (mt_suffix m))\<lparr>mt_q := mt_q m\<rparr>
     \<and> mt_top m \<noteq> T_None \<and> printed_sub (mt_sub m) \<and> mt_suffix m \<noteq> X_Ext
     \<and> (\<forall>v. mt_q m = Some v \<longrightarrow> 0 \<le> v \<and> v \<le> 100)"

lemma known_media_read:
  assumes "known_media m" "mt_q m = None \<or> u = []"
  shows "\<exists>m'. MediaType_parseRaw (MediaType_toString m @ u) (length (MediaType_toString m)) MediaType0 = Inr m'
    \<and> MediaType_eq m' m \<and> mt_q m' = mt_q m"
proof -
  let ?m = "(MediaType3 (mt_top m) (mt_sub m) (mt_suffix m))\<lparr>mt_q := mt_q m\<rparr>"
  have m: "?m = m" using assms(1) by (simp add: known_media_def)
  have "MediaType_eq m' (MediaType3 (mt_top m) (mt_sub m) (mt_suffix m)) \<longleftrightarrow> MediaType_eq m' m" for m'
    by (simp add: MediaType_eq_def MediaType3_def)
  then show ?thesis
    using MediaType_printed [where t = "mt_top m" and s = "mt_sub m" and x = "mt_suffix m" and q = "mt_q m" and u = u,
        OF _ _ _ _ assms(2) refl] assms(1) unfolding m by (simp add: known_media_def)
qed

text \<open>The headers that are recovered from their printed form, with the conditions on their values.\<close>

fun recoverable :: "http_env \<Rightarrow> Header \<Rightarrow> bool" where
  "recoverable E (H_Accept _) \<longleftrightarrow> False"
| "recoverable E (H_Allow _) \<longleftrightarrow> False"
| "recoverable E (H_AcceptEncoding _) \<longleftrightarrow> False"
| "recoverable E (H_ContentType m) \<longleftrightarrow> known_media m"
| "recoverable E (H_CacheControl ds) \<longleftrightarrow> ds \<noteq> [] \<and> list_all printed_directive ds"
| "recoverable E (H_ContentLength n) \<longleftrightarrow> n < 2 ^ 64"
| "recoverable E (H_Date d) \<longleftrightarrow> reads_back (he_date E) d"
| "recoverable E (H_LastModified d) \<longleftrightarrow> reads_back_GMT (he_date E) d"
| "recoverable E (H_ETag e) \<longleftrightarrow> isValidEtagc (et_etagc e)"
| "recoverable E (H_Host h) \<longleftrightarrow> nl_pton6 (he_net E) (c_str (Host_write h)) = None
     \<and> 0 < hh_port h \<and> hh_port h \<le> 65535 \<and> CHR '':'' \<notin> set (hh_host h) \<and> CHR ''['' \<notin> set (hh_host h)"
| "recoverable E (H_Server ts) \<longleftrightarrow> length ts = 1"
| "recoverable E _ \<longleftrightarrow> True"

text \<open>
  C32: a header of any class but \<open>Accept\<close>, \<open>Accept-Encoding\<close> and \<open>Allow\<close> that the library prints is parsed
  back by a freshly constructed object of its class into the same header (\<open>same_header\<close>).  The
  conditions of \<open>recoverable\<close> are on the value: at least one cache directive, all of them known and none with a
  zero delta; an entity tag of valid characters; a host with a port, without a colon or a bracket, that is no
  IPv6 address; a media type of known parts; one server token; a date that the date library reads back
  from what it wrote.
\<close>

theorem header_round_trip:
  assumes "recoverable E h" "length (header_write E h) < 2 ^ 63"
  shows "\<exists>h'. header_parse E (header_write E h) (header_init h) = Inr h' \<and> same_header h h'"
proof (cases h)
  case (H_Expect x)
  have "c_str ''100-continue'' = ''100-continue''" by code_simp
  with H_Expect show ?thesis by (cases x) (simp_all add: header_parse_def Expect_parseRaw_def c_str_def)
next
  case (H_Server ts)
  with assms show ?thesis by (cases ts) (simp_all add: header_parse_def Server_write_def)
next
  case (H_ContentType m)
  with assms known_media_read [of m "[]"] show ?thesis by (auto simp: header_parse_def)
qed (use assms in \<open>simp_all add: header_parse_def CacheControl_round_trip encoding_round_trip
      Connection_round_trip ContentLength_round_trip ETag_round_trip Host_round_trip FullDate_round_trip del: FullDate_write.simps\<close>)

text \<open>An environment for witnesses: no date is recognised and one host resolves.\<close>

definition sample_env :: http_env where
  "sample_env = \<lparr>he_date = \<lparr>dl_parse = (\<lambda>f s. None), dl_to_stream = (\<lambda>f d. []), dl_put_gmt = (\<lambda>f d. [])\<rparr>,
     he_net = one_host_lib, he_brotli = False, he_zstd = False, he_deflate = True\<rparr>"

theorem header_round_trip_witness:
  "header_parse sample_env ''max-age=60, public'' (H_CacheControl []) =
     Inr (H_CacheControl [CacheDirective_init MaxAge 60, CacheDirective_plain Public])"
proof -
  let ?h = "H_CacheControl [CacheDirective_init MaxAge 60, CacheDirective_plain Public]"
  have w: "header_write sample_env ?h = ''max-age=60, public''" by code_simp
  have "recoverable sample_env ?h"
    by (simp add: printed_directive_def CacheDirective_plain_def CacheDirective_init_def has_delta_def)
  moreover have "length (header_write sample_env ?h) < 2 ^ 63" unfolding w by simp
  ultimately show ?thesis using header_round_trip [of sample_env ?h] unfolding w by simp
qed

section \<open>Basic authentication\<close>

text \<open>
  The credentials set on an \<open>Authorization\<close> header are the ones a server reads back
  from it, whatever the bytes of the password; the header is recognised as \<open>Basic\<close>.
\<close>

theorem basic_credentials_round_trip:
  assumes "CHR '':'' \<notin> set user" "length user + length password + 1 < 2 ^ 62"
  shows "\<exists>v. setBasicUserPassword user password = Some (Inr v) \<and> getMethod v = Basic
           \<and> getBasicUser v = Inr user \<and> getBasicPassword v = Inr password"
proof -
  let ?cred = "user @ CHR '':'' # password"
  let ?enc = "enc_ref (map char_byte ?cred)"
  have "length ?cred < 2 ^ 62" using assms by simp
  then have enc: "EncodeString ?cred = Some ?enc" by (simp add: EncodeString_def Encode_enc_ref)
  have set: "setBasicUserPassword user password = Some (Inr (''Basic '' @ ?enc))"
    using assms enc by (simp add: setBasicUserPassword_def str_find_absent)
  have "length ?enc \<noteq> 0" by (simp add: length_enc_ref)
  then have basic: "hasMethod_Basic (''Basic '' @ ?enc)" by (simp add: hasMethod_Basic_def)
  have "map byte_char (map char_byte ?cred) = ?cred" by (simp add: map_idI comp_def)
  then have cred: "basicCredentials (''Basic '' @ ?enc) = Inr ?cred"
    using basic Decode_enc_ref [of "map char_byte ?cred"] by (simp add: basicCredentials_def)
  have "str_find ?cred (CHR '':'') 0 = Some (length user)" using assms(1) by (rule str_find_split)
  with set basic cred show ?thesis
    by (simp add: getMethod_def getBasicUser_def getBasicPassword_def)
qed

theorem basic_credentials_round_trip_witness:
  "\<exists>v. setBasicUserPassword ''Aladdin'' ''open:sesame'' = Some (Inr v) \<and> getMethod v = Basic
     \<and> getBasicUser v = Inr ''Aladdin'' \<and> getBasicPassword v = Inr ''open:sesame''"
  by (rule basic_credentials_round_trip) simp_all

end
