(* ===== verification/Header_Collection.thy ===== *)
theory Header_Collection
  imports Http_Header
begin

text \<open>
  include/pistache/http_headers.h and src/common/http_headers.cc: the registry of header classes
  and the collection of the headers of a message.  Both are hash maps whose keys are compared
  without regard to case; they interpret the locale of the prelude with that key equality, and
  what the parser relies on (the first header of a name wins, adding again changes nothing) is
  inherited from it.
\<close>

section \<open>Keys\<close>

definition toLowercase :: "string \<Rightarrow> string" where
  "toLowercase s = to_lower s"

definition LowercaseEqual :: "string \<Rightarrow> string \<Rightarrow> bool" where
  "LowercaseEqual l r = list_all2 (\<lambda>a b. c_tolower a = c_tolower b) l r"

text \<open>Only the first argument is lower-cased.\<close>

definition LowercaseEqualStatic :: "string \<Rightarrow> string \<Rightarrow> bool" where
  "LowercaseEqualStatic dynamic statik = list_all2 (\<lambda>a b. c_tolower a = b) dynamic statik"

lemma LowercaseEqual_iff: "LowercaseEqual l r \<longleftrightarrow> to_lower l = to_lower r"
  by (simp add: LowercaseEqual_def list_all2_lower)

lemma LowercaseEqualStatic_iff: "LowercaseEqualStatic d s \<longleftrightarrow> to_lower d = s"
  unfolding LowercaseEqualStatic_def to_lower_def
  by (induction d s rule: list_induct2') auto

lemma equivp_LowercaseEqual: "equivp LowercaseEqual"
  by (rule equivpI) (auto simp: reflp_def symp_def transp_def LowercaseEqual_iff)

interpretation hdr_map: unordered_map LowercaseEqual "um_find LowercaseEqual" "um_insert LowercaseEqual"
    "um_erase LowercaseEqual"
  by (rule unordered_map_um) (rule equivp_LowercaseEqual)

section \<open>The registry\<close>

text \<open>A registered factory is represented by the object it makes.\<close>

type_synonym registry = "(string \<times> Header) list"

definition registerHeader :: "string \<Rightarrow> Header \<Rightarrow> registry \<Rightarrow> registry result" where
  "registerHeader name h reg =
     (case um_find LowercaseEqual reg name of
        Some _ \<Rightarrow> Inl (Runtime_Error ''Header already registered'')
      | None \<Rightarrow> Inr (um_insert LowercaseEqual name h reg))"

definition headersList :: "registry \<Rightarrow> string list" where
  "headersList reg = map fst reg"

definition makeHeader :: "registry \<Rightarrow> string \<Rightarrow> Header result" where
  "makeHeader reg name =
     (case um_find LowercaseEqual reg name of
        None \<Rightarrow> Inl (Runtime_Error ''Unknown header'')
      | Some h \<Rightarrow> Inr h)"

definition isRegistered :: "registry \<Rightarrow> string \<Rightarrow> bool" where
  "isRegistered reg name \<longleftrightarrow> um_find LowercaseEqual reg name \<noteq> None"

text \<open>The \<open>RegisterHeader\<close> lines, in order, as the objects their factories make.\<close>

definition registered_headers :: "Header list" where
  "registered_headers = map header_init
     [H_Accept [], H_AccessControlAllowOrigin [], H_AccessControlAllowHeaders [],
      H_AccessControlExposeHeaders [], H_AccessControlAllowMethods [], H_Allow [],
      H_CacheControl [], H_Connection KeepAlive, H_AcceptEncoding [], H_ContentEncoding Identity,
      H_TransferEncoding Identity, H_ContentLength 0, H_ContentType MediaType0, H_Authorization [],
      H_Date 0, H_Expect Expect_Continue, H_Host \<lparr>hh_host = [], hh_port = 0\<rparr>, H_LastModified 0,
      H_Location [], H_Server [], H_UserAgent []]"

fun register_all :: "Header list \<Rightarrow> registry \<Rightarrow> registry result" where
  "register_all [] reg = Inr reg"
| "register_all (h # hs) reg =
     (case registerHeader (header_name h) h reg of Inl e \<Rightarrow> Inl e | Inr reg' \<Rightarrow> register_all hs reg')"

definition Registry :: registry where
  "Registry = (case register_all registered_headers [] of Inr r \<Rightarrow> r | Inl _ \<Rightarrow> [])"

text \<open>The static initialisation throws nothing: the registered names are distinct.\<close>

lemma register_all_distinct:
  "distinct (map (\<lambda>h. to_lower (header_name h)) hs) \<Longrightarrow>
   \<forall>h \<in> set hs. um_find LowercaseEqual reg (header_name h) = None \<Longrightarrow>
   register_all hs reg = Inr (rev (map (\<lambda>h. (header_name h, h)) hs) @ reg)"
proof (induction hs arbitrary: reg)
  case (Cons h hs)
  have "\<forall>h' \<in> set hs. \<not> LowercaseEqual (header_name h) (header_name h')"
    using Cons.prems(1) by (auto simp: LowercaseEqual_iff image_iff)
  with Cons show ?case by (simp add: registerHeader_def um_insert_def)
qed simp

lemma registered_names_distinct: "distinct (map (\<lambda>h. to_lower (header_name h)) registered_headers)"
  by (simp add: registered_headers_def to_lower_def)

lemma Registry_eq: "Registry = rev (map (\<lambda>h. (header_name h, h)) registered_headers)"
  using register_all_distinct [OF registered_names_distinct, of "[]"] by (simp add: Registry_def)

declare Registry_eq [code]

lemma register_all_ok: "register_all registered_headers [] = Inr Registry"
  using register_all_distinct [OF registered_names_distinct, of "[]"] by (simp add: Registry_eq)

lemma registry_names: "list_all (\<lambda>(n, h). n = header_name h \<and> header_init h = h) Registry"
  by (simp add: Registry_eq registered_headers_def)

lemma makeHeader_name:
  assumes "makeHeader Registry name = Inr h"
  shows "LowercaseEqual (header_name h) name \<and> header_init h = h"
proof -
  have "um_find LowercaseEqual m name = Some h \<Longrightarrow> list_all (\<lambda>(n, h). n = header_name h \<and> header_init h = h) m \<Longrightarrow>
      LowercaseEqual (header_name h) name \<and> header_init h = h" for m
    by (induction m) (auto split: if_splits)
  then show ?thesis using assms registry_names by (simp add: makeHeader_def split: option.splits)
qed

section \<open>Collections\<close>

type_synonym Raw = "string \<times> string"

record Collection =
  co_headers :: "(string \<times> Header) list"
  co_rawHeaders :: "(string \<times> Raw) list"

definition Collection0 :: Collection where
  "Collection0 = \<lparr>co_headers = [], co_rawHeaders = []\<rparr>"

definition Collection_add :: "Header \<Rightarrow> Collection \<Rightarrow> Collection" where
  "Collection_add h c = c\<lparr>co_headers := um_insert LowercaseEqual (header_name h) h (co_headers c)\<rparr>"

definition Collection_addRaw :: "Raw \<Rightarrow> Collection \<Rightarrow> Collection" where
  "Collection_addRaw r c = c\<lparr>co_rawHeaders := um_insert LowercaseEqual (fst r) r (co_rawHeaders c)\<rparr>"

definition Collection_getImpl :: "string \<Rightarrow> Collection \<Rightarrow> Header option" where
  "Collection_getImpl name c = um_find LowercaseEqual (co_headers c) name"

definition Collection_get :: "string \<Rightarrow> Collection \<Rightarrow> Header result" where
  "Collection_get name c =
     (case Collection_getImpl name c of
        None \<Rightarrow> Inl (Runtime_Error ''Could not find header'') | Some h \<Rightarrow> Inr h)"

definition Collection_getRaw :: "string \<Rightarrow> Collection \<Rightarrow> Raw result" where
  "Collection_getRaw name c =
     (case um_find LowercaseEqual (co_rawHeaders c) name of
        None \<Rightarrow> Inl (Runtime_Error ''Could not find header'') | Some r \<Rightarrow> Inr r)"

definition Collection_tryGet :: "string \<Rightarrow> Collection \<Rightarrow> Header option" where
  "Collection_tryGet name c = Collection_getImpl name c"

definition Collection_tryGetRaw :: "string \<Rightarrow> Collection \<Rightarrow> Raw option" where
  "Collection_tryGetRaw name c = um_find LowercaseEqual (co_rawHeaders c) name"

definition Collection_has :: "string \<Rightarrow> Collection \<Rightarrow> bool" where
  "Collection_has name c \<longleftrightarrow> Collection_getImpl name c \<noteq> None"

definition Collection_list :: "Collection \<Rightarrow> Header list" where
  "Collection_list c = map snd (co_headers c)"

definition Collection_remove :: "string \<Rightarrow> Collection \<Rightarrow> bool \<times> Collection" where
  "Collection_remove name c =
     (case um_find LowercaseEqual (co_headers c) name of
        None \<Rightarrow>
          (case um_find LowercaseEqual (co_rawHeaders c) name of
             None \<Rightarrow> (False, c)
           | Some _ \<Rightarrow> (True, c\<lparr>co_rawHeaders := um_erase LowercaseEqual name (co_rawHeaders c)\<rparr>))
      | Some _ \<Rightarrow> (True, c\<lparr>co_headers := um_erase LowercaseEqual name (co_headers c)\<rparr>))"

definition Collection_clear :: "Collection \<Rightarrow> Collection" where
  "Collection_clear c = Collection0"

text \<open>
  The typed lookups the parser and the writers use: \<open>static_pointer_cast\<close> assumes that an
  object stored under a class's name is of that class, which \<open>collection_inv\<close> states.
\<close>

definition tryGet_ContentLength :: "Collection \<Rightarrow> nat option" where
  "tryGet_ContentLength c =
     (case Collection_tryGet ''Content-Length'' c of Some (H_ContentLength n) \<Rightarrow> Some n | _ \<Rightarrow> None)"

definition tryGet_TransferEncoding :: "Collection \<Rightarrow> Encoding option" where
  "tryGet_TransferEncoding c =
     (case Collection_tryGet ''Transfer-Encoding'' c of Some (H_TransferEncoding e) \<Rightarrow> Some e | _ \<Rightarrow> None)"

definition tryGet_AcceptEncoding :: "Collection \<Rightarrow> (Encoding \<times> int) list option" where
  "tryGet_AcceptEncoding c =
     (case Collection_tryGet ''Accept-Encoding'' c of Some (H_AcceptEncoding es) \<Rightarrow> Some es | _ \<Rightarrow> None)"

definition tryGet_Connection :: "Collection \<Rightarrow> ConnectionControl option" where
  "tryGet_Connection c =
     (case Collection_tryGet ''Connection'' c of Some (H_Connection x) \<Rightarrow> Some x | _ \<Rightarrow> None)"

definition collection_inv :: "Collection \<Rightarrow> bool" where
  "collection_inv c \<longleftrightarrow> (\<forall>(k, h) \<in> set (co_headers c). k = header_name h) \<and> (\<forall>(k, r) \<in> set (co_rawHeaders c). k = fst r)"

lemma collection_inv_ops:
  "collection_inv Collection0"
  "collection_inv c \<Longrightarrow> collection_inv (Collection_add h c)"
  "collection_inv c \<Longrightarrow> collection_inv (Collection_addRaw r c)"
  "collection_inv c \<Longrightarrow> collection_inv (snd (Collection_remove name c))"
  by (auto simp: collection_inv_def Collection0_def Collection_add_def Collection_addRaw_def
      Collection_remove_def um_insert_def um_erase_def split: option.splits)

lemma um_find_mem: "um_find eq m k = Some v \<Longrightarrow> \<exists>k'. (k', v) \<in> set m \<and> eq k' k"
  by (induction m) (auto split: if_splits)

lemma Collection_getImpl_class:
  "collection_inv c \<Longrightarrow> Collection_getImpl name c = Some h \<Longrightarrow> LowercaseEqual (header_name h) name"
  by (auto simp: collection_inv_def Collection_getImpl_def dest!: um_find_mem)

lemma Collection_getImpl_add:
  "Collection_getImpl name (Collection_add h c) =
     (if LowercaseEqual (header_name h) name \<and> Collection_getImpl name c = None then Some h
      else Collection_getImpl name c)"
  by (simp add: Collection_getImpl_def Collection_add_def hdr_map.look_ins)

lemma fold_Collection_add:
  "fold Collection_add hs c =
     c\<lparr>co_headers := fold (\<lambda>(k, h). um_insert LowercaseEqual k h) (map (\<lambda>h. (header_name h, h)) hs) (co_headers c)\<rparr>"
  by (induction hs arbitrary: c) (simp_all add: Collection_add_def)

text \<open>
  C33: after any sequence of additions a lookup, in any letter case, yields the header that was
  in the collection before or else the first one added under that name; \<open>remove\<close> then takes it
  away for every letter case.
\<close>

theorem collection_first_wins:
  "Collection_tryGet name (fold Collection_add hs c) =
     (case Collection_tryGet name c of
        Some h \<Rightarrow> Some h
      | None \<Rightarrow> List.find (\<lambda>h. LowercaseEqual (header_name h) name) hs)
   \<and> (Collection_has name c \<longrightarrow>
        fst (Collection_remove name c)
        \<and> (\<forall>name'. LowercaseEqual name name' \<longrightarrow> \<not> Collection_has name' (snd (Collection_remove name c))))"
proof
  have find: "map_option snd (List.find (\<lambda>(a, _). LowercaseEqual a name) (map (\<lambda>h. (header_name h, h)) hs)) =
      List.find (\<lambda>h. LowercaseEqual (header_name h) name) hs"
    by (induction hs) auto
  show "Collection_tryGet name (fold Collection_add hs c) =
     (case Collection_tryGet name c of
        Some h \<Rightarrow> Some h
      | None \<Rightarrow> List.find (\<lambda>h. LowercaseEqual (header_name h) name) hs)"
    by (simp add: Collection_tryGet_def Collection_getImpl_def fold_Collection_add hdr_map.look_fold)
      (use find in \<open>auto split: option.split\<close>)
  show "Collection_has name c \<longrightarrow> fst (Collection_remove name c)
      \<and> (\<forall>name'. LowercaseEqual name name' \<longrightarrow> \<not> Collection_has name' (snd (Collection_remove name c)))"
    by (auto simp: Collection_has_def Collection_getImpl_def Collection_remove_def hdr_map.look_era)
qed

theorem collection_first_wins_witness:
  "Collection_tryGet ''content-LENGTH'' (fold Collection_add [H_ContentLength 3, H_ContentLength 5] Collection0)
     = Some (H_ContentLength 3)"
proof -
  have "LowercaseEqual ''Content-Length'' ''content-LENGTH''" by code_simp
  then show ?thesis
    using collection_first_wins [of "''content-LENGTH''" "[H_ContentLength 3, H_ContentLength 5]" Collection0]
    by (simp add: Collection_tryGet_def Collection_getImpl_def Collection0_def)
qed

end
