(* ===== verification/Header_Locality.thy ===== *)
theory Header_Locality
  imports Header_Collection
begin

text \<open>
  The raw parsers of headers get a pointer into the receive buffer and a length, and some of
  them look at bytes behind that length (the scanner of quality values, \<open>Accept-Encoding\<close>,
  \<open>Expect\<close>).  In the buffer of a message the value is followed by a carriage return.  This
  theory shows that every parser stops there: the result depends on the value alone and not on
  what has been received behind it, which is what lets the header step be repeated when more
  input arrives.
\<close>

text \<open>Two memories that agree on \<open>n\<close> bytes and the carriage return behind them.\<close>

definition same_mem :: "nat \<Rightarrow> string \<Rightarrow> string \<Rightarrow> bool" where
  "same_mem n a b \<longleftrightarrow> (\<exists>v t t'. a = v @ CR # t \<and> b = v @ CR # t' \<and> length v = n)"

lemma same_mem_take: "same_mem n a b \<Longrightarrow> k \<le> n \<Longrightarrow> take k a = take k b"
  by (auto simp: same_mem_def)

lemma same_mem_at: "same_mem n a b \<Longrightarrow> i \<le> n \<Longrightarrow> mem_at a i = mem_at b i"
  by (auto simp: same_mem_def mem_at_def nth_append)

lemma same_mem_cr: "same_mem n a b \<Longrightarrow> mem_at a n = CR"
  by (auto simp: same_mem_def mem_at_def)

lemma same_mem_drop: "same_mem n a b \<Longrightarrow> k \<le> n \<Longrightarrow> same_mem (n - k) (drop k a) (drop k b)"
  unfolding same_mem_def by (elim exE conjE) (rule exI, rule exI, rule exI, auto)

lemma c_isdigit_CR [simp]: "\<not> c_isdigit CR"
  by code_simp

lemma qvalue_scan_same:
  assumes "same_mem n a b" "q \<le> n"
  shows "qvalue_scan k a q = qvalue_scan k b q \<and> (\<forall>r. qvalue_scan k a q = Some r \<longrightarrow> r \<le> n)"
  using assms(2)
proof (induction k arbitrary: q)
  case (Suc k)
  have at: "mem_at a q = mem_at b q" using assms(1) Suc.prems by (rule same_mem_at)
  show ?case
  proof (cases "q = n")
    case True
    then have "mem_at a q = CR" using same_mem_cr [OF assms(1)] by simp
    with at True show ?thesis by (simp add: Let_def)
  next
    case False
    with Suc.prems have "Suc q \<le> n" by simp
    from Suc.IH [OF this] at Suc.prems show ?thesis by (auto simp: Let_def)
  qed
qed simp

lemma strToQvalue_same:
  assumes "same_mem n a b"
  shows "strToQvalue a = strToQvalue b"
proof (cases "qvalue_scan 6 a 0")
  case None
  then show ?thesis using qvalue_scan_same [OF assms, of 0 6] by (simp add: strToQvalue_def)
next
  case (Some r)
  with qvalue_scan_same [OF assms, of 0 6] have r: "qvalue_scan 6 b 0 = Some r" "r \<le> n" by auto
  have "mem_at a i = mem_at b i" if "i < r \<or> i = 0" for i
    using same_mem_at [OF assms, of i] that r(2) by auto
  then show ?thesis using Some r(1) by (simp add: strToQvalue_def digit_at_def)
qed


text \<open>A cursor in the first \<open>n\<close> bytes stays there.\<close>

definition cursor_upto :: "nat \<Rightarrow> scursor \<Rightarrow> bool" where
  "cursor_upto n c \<longleftrightarrow> wf_cursor c \<and> length (sbuf c) \<le> n"

lemma cursor_upto_scan:
  assumes "cursor_upto n c"
  shows "cursor_upto n (snd (advance k c))" "cursor_upto n (snd (match_until cs s c))"
    "cursor_upto n (snd (match_literal ch s c))" "cursor_upto n (snd (match_string str s c))"
    "cursor_upto n (snd (match_raw str c))"
  using assms
  by (simp_all add: cursor_upto_def adv.wf_scan adv.keeps_buf muntil.wf_scan muntil.keeps_buf
      mlit.wf_scan mlit.keeps_buf mstr.wf_scan mstr.keeps_buf mraw.wf_scan mraw.keeps_buf)

lemma cursor_upto_eq:
  "cursor_upto n c \<Longrightarrow> match_literal ch s c = (r, c') \<Longrightarrow> cursor_upto n c'"
  "cursor_upto n c \<Longrightarrow> match_string str s c = (r, c') \<Longrightarrow> cursor_upto n c'"
  "cursor_upto n c \<Longrightarrow> match_raw str c = (r, c') \<Longrightarrow> cursor_upto n c'"
  using cursor_upto_scan(3) [of n c ch s] cursor_upto_scan(4) [of n c str s] cursor_upto_scan(5) [of n c str]
  by simp_all

lemma strToQvalue_drop_same:
  assumes "same_mem n a b" "cursor_upto n c"
  shows "strToQvalue (drop (spos c) a) = strToQvalue (drop (spos c) b)"
proof -
  have "spos c \<le> n" using assms(2) by (simp add: cursor_upto_def wf_cursor_def)
  then show ?thesis by (rule strToQvalue_same [OF same_mem_drop [OF assms(1)]])
qed

lemma mime_params_same:
  assumes "same_mem n a b" "cursor_upto n c"
  shows "mime_params a c m = mime_params b c m"
  using assms
proof (induction a c m rule: mime_params.induct)
  case (1 mem c m)
  let ?c1 = "snd (match_literal (CHR ''q'') Insensitive c)"
  obtain r c2 where c2: "match_literal (CHR ''='') Insensitive ?c1 = (r, c2)" by fastforce
  have in2: "cursor_upto n c2"
    using c2 cursor_upto_scan(3) [OF cursor_upto_scan(3) [OF "1.prems"(2)]] by (metis snd_conv)
  note q = strToQvalue_drop_same [OF "1.prems"(1) in2]
  show ?case
    using "1.IH" "1.prems" c2 q
    by (subst mime_params.simps, subst mime_params.simps [of b])
      (auto simp: Let_def cursor_upto_scan in2 simp del: One_nat_def split: option.split sum.split bool.split)
qed

lemma cursor_upto_match_table:
  "match_table tab c = Some (x, c') \<Longrightarrow> cursor_upto n c \<Longrightarrow> cursor_upto n c'"
proof (induction tab)
  case (Cons vs tab)
  then show ?case
    by (cases vs) (auto split: prod.splits bool.splits intro: cursor_upto_eq)
qed simp

lemma mime_suffix_same:
  assumes "same_mem n a b" "cursor_upto n c"
  shows "mime_suffix a c m = mime_suffix b c m"
  using assms
  by (auto simp: mime_suffix_def Let_def split: prod.split bool.split option.split
      intro!: mime_params_same cursor_upto_scan dest: cursor_upto_eq cursor_upto_match_table)

lemma cursor_upto_mime_subtype:
  "mime_subtype c = (s, c') \<Longrightarrow> cursor_upto n c \<Longrightarrow> cursor_upto n c'"
  by (auto simp: mime_subtype_def split: prod.splits bool.splits option.splits
      dest: cursor_upto_eq cursor_upto_match_table)

lemma cursor_upto_RawStreamBuf: "k \<le> n \<Longrightarrow> n < 2 ^ 63 \<Longrightarrow> cursor_upto n (RawStreamBuf (take k a))"
  by (auto simp: cursor_upto_def RawStreamBuf_def wf_cursor_def)

lemma MediaType_parseRaw_same:
  assumes "same_mem n a b" "n < 2 ^ 63" "len \<le> n"
  shows "MediaType_parseRaw a len m = MediaType_parseRaw b len m"
proof -
  have t: "take len a = take len b" by (rule same_mem_take [OF assms(1,3)])
  note c0 = cursor_upto_RawStreamBuf [OF assms(3,2), of b]
  show ?thesis
    unfolding MediaType_parseRaw_def t Let_def
    by (auto split: prod.split bool.split option.split
        intro!: mime_suffix_same [OF assms(1)] cursor_upto_scan
        dest!: cursor_upto_match_table [OF _ c0] dest: cursor_upto_eq cursor_upto_mime_subtype)
qed

lemma cursor_upto_advance_while: "cursor_upto n c \<Longrightarrow> cursor_upto n (snd (advance_while p c))"
proof (induction p c rule: advance_while.induct)
  case (1 p c)
  show ?case
    using "1.IH" "1.prems" cursor_upto_scan(1) [OF "1.prems", of 1]
    by (subst advance_while.simps) (auto simp del: One_nat_def)
qed

lemma accept_loop_same:
  assumes "same_mem n a b" "n < 2 ^ 63" "cursor_upto n c"
  shows "accept_loop a c ms = accept_loop b c ms"
  using assms
proof (induction a c ms rule: accept_loop.induct)
  case (1 mem c ms)
  let ?c1 = "snd (advance 1 (accept_scan c))" and ?c2 = "snd (advance 1 (snd (advance 1 (accept_scan c))))"
  have in1: "cursor_upto n ?c1" "cursor_upto n ?c2" "cursor_upto n (accept_blanks ?c2)"
    using "1.prems"(3) by (simp_all add: accept_scan_def accept_blanks_def cursor_upto_scan cursor_upto_advance_while
        del: One_nat_def)
  have p: "spos c \<le> n" "spos ?c1 \<le> n"
    using "1.prems"(3) in1(1) by (auto simp: cursor_upto_def wf_cursor_def)
  have mt: "MediaType_fromRaw (drop (spos c) mem) (diff ?c1 (spos c)) =
      MediaType_fromRaw (drop (spos c) b) (diff ?c1 (spos c))"
    unfolding MediaType_fromRaw_def
    by (rule MediaType_parseRaw_same [OF same_mem_drop [OF "1.prems"(1) p(1)]])
      (use p "1.prems"(2) in \<open>auto simp: diff_def\<close>)
  show ?case
    using "1.IH" "1.prems"(1,2) in1 mt
    by (subst accept_loop.simps, subst accept_loop.simps [of b])
      (auto simp: Let_def simp del: One_nat_def split: sum.split)
qed

lemma accept_enc_quality_same:
  assumes "same_mem n a b" "e \<le> n"
  shows "accept_enc_quality a e te = accept_enc_quality b e te"
proof -
  have t: "take e a = take e b" by (rule same_mem_take [OF assms])
  define par where "par = dropWhile (\<lambda>c. c \<noteq> CHR '';'') (drop te (take e b))"
  define o1 where "o1 = e - length par + 1 + length (takeWhile c_isblank (drop (e - length par + 1) (take e b)))"
  show ?thesis
  proof (cases "par = []")
    case True
    then show ?thesis by (simp add: accept_enc_quality_def t par_def)
  next
    case False
    have le: "length (take e b) = e" using assms by (auto simp: same_mem_def)
    have "length par \<le> e" unfolding par_def using length_dropWhile_le [of _ "drop te (take e b)"] le by (metis diff_le_self le_trans length_drop)
    moreover have "0 < length par" using False by simp
    moreover have "length (takeWhile c_isblank (drop (e - length par + 1) (take e b))) \<le> e - (e - length par + 1)"
      using length_takeWhile_le [of c_isblank "drop (e - length par + 1) (take e b)"] le by simp
    ultimately have o1: "o1 \<le> n" using assms(2) unfolding o1_def by linarith
    have at: "mem_at a o1 = mem_at b o1" by (rule same_mem_at [OF assms(1) o1])
    show ?thesis
    proof (cases "mem_at b o1 = CHR ''q''")
      case q: True
      with at same_mem_cr [OF assms(1)] have "o1 \<noteq> n" by auto
      with o1 have o2: "Suc o1 \<le> n" by simp
      have at2: "mem_at a (Suc o1) = mem_at b (Suc o1)" by (rule same_mem_at [OF assms(1) o2])
      show ?thesis
      proof (cases "mem_at b (Suc o1) = CHR ''=''")
        case e: True
        with at2 same_mem_cr [OF assms(1)] have "Suc o1 \<noteq> n" by auto
        with o2 have "Suc (Suc o1) \<le> n" by simp
        then have "strToQvalue (drop (Suc (Suc o1)) a) = strToQvalue (drop (Suc (Suc o1)) b)"
          by (rule strToQvalue_same [OF same_mem_drop [OF assms(1)]])
        with False at at2 q e show ?thesis
          by (simp add: accept_enc_quality_def t Let_def par_def [symmetric] o1_def [symmetric, simplified])
      qed (use False at at2 q in \<open>simp add: accept_enc_quality_def t Let_def par_def [symmetric] o1_def [symmetric, simplified]\<close>)
    qed (use False at in \<open>simp add: accept_enc_quality_def t Let_def par_def [symmetric] o1_def [symmetric, simplified]\<close>)
  qed
qed

lemma accept_enc_loop_same:
  assumes "same_mem n a b"
  shows "accept_enc_loop a n encs = accept_enc_loop b n encs"
  using assms
proof (induction a n encs arbitrary: b rule: accept_enc_loop.induct)
  case (1 mem n encs)
  have t: "take n mem = take n b" by (rule same_mem_take [OF "1.prems" order.refl])
  let ?s = "take n b"
  let ?e = "length (takeWhile (\<lambda>c. c \<noteq> CHR '','') ?s)"
  let ?te = "length (takeWhile is_http_token (take ?e ?s))"
  let ?ns = "?e + length (takeWhile (\<lambda>c. \<not> is_http_token c) (drop ?e ?s))"
  have e: "?e \<le> n" using length_takeWhile_le [of "\<lambda>c. c \<noteq> CHR '',''" ?s] by simp
  note q = accept_enc_quality_same [OF "1.prems" e, of ?te]
  have tail: "accept_enc_loop (drop ?ns mem) (n - ?ns) x = accept_enc_loop (drop ?ns b) (n - ?ns) x"
    if "n \<noteq> 0" "accept_enc_quality b ?e ?te = Some y" "\<not> length ?s \<le> ?ns"
      "x = (if ?te = 0 then encs else insertEncoding (encodingFromString (take ?te ?s), y) encs)" for x y
  proof -
    have "?ns \<le> n" using that(3) by (simp add: min_def split: if_splits)
    then have "same_mem (n - ?ns) (drop ?ns mem) (drop ?ns b)" by (rule same_mem_drop [OF "1.prems"])
    then show ?thesis
      by (intro "1.IH" [OF that(1) t [symmetric] refl refl _ that(4) refl that(3)]) (use q that(2) in simp)
  qed
  show ?case
    by (subst accept_enc_loop.simps, subst accept_enc_loop.simps [of b], unfold t)
      (use tail q in \<open>auto simp: Let_def split: option.split\<close>)
qed

lemma Expect_parseRaw_same:
  assumes "same_mem n a b"
  shows "Expect_parseRaw a n = Expect_parseRaw b n"
proof -
  obtain v t t' where ab: "a = v @ CR # t" "b = v @ CR # t'" using assms by (auto simp: same_mem_def)
  have no: "CR \<notin> set ''100-continue''" by simp
  show ?thesis
  proof (cases "NUL \<in> set v")
    case True
    then show ?thesis by (simp add: ab Expect_parseRaw_def c_str_def takeWhile_append1)
  next
    case False
    then have "CR \<in> set (c_str (v @ CR # t))" for t by (auto simp: c_str_def takeWhile_append)
    with no have "c_str (v @ CR # t) \<noteq> ''100-continue''" for t by metis
    then show ?thesis by (simp add: ab Expect_parseRaw_def)
  qed
qed

text \<open>The result of parsing a header depends on its value only.\<close>

lemma header_parseRaw_same:
  assumes "same_mem n a b" "n < 2 ^ 63"
  shows "header_parseRaw E a n h = header_parseRaw E b n h"
proof -
  note t = same_mem_take [OF assms(1) order.refl]
  have acc: "Accept_parseRaw a n ms = Accept_parseRaw b n ms" for ms
    unfolding Accept_parseRaw_def t
    by (rule accept_loop_same [OF assms cursor_upto_RawStreamBuf [OF order.refl assms(2)]])
  show ?thesis
    by (cases h)
      (simp_all add: t acc CacheControl_parseRaw_def Connection_parseRaw_def AcceptEncoding_parseRaw_def
        accept_enc_loop_same [OF assms(1)] MediaType_parseRaw_same [OF assms order.refl]
        Expect_parseRaw_same [OF assms(1)])
qed

end
