(* ===== verification/Http_Parser.thy ===== *)
theory Http_Parser
  imports Byte_Buffers Cookie_Jar Header_Collection
begin

text \<open>
  The incremental HTTP parser of include/pistache/http.h and src/common/http.cc: the messages,
  \<open>Uri::Query\<close>, the three steps (request or response line, headers, body) with the chunked
  decoder, \<open>ParserBase\<close> and \<open>ParserImpl\<close>, and \<open>Handler::onInput\<close>.  A step returns the state
  or the exception it throws together with the message and the cursor it leaves, because a step
  that asks for more input has already changed the message.
\<close>

section \<open>Messages\<close>

type_synonym query = "(string \<times> string) list"

text \<open>
  \<open>Message\<close> with the members of \<open>Request\<close>; \<open>method_\<close> and \<open>code_\<close> have no initial value.
\<close>

record message =
  msg_version :: Version
  msg_code :: "Code option"
  msg_body :: string
  msg_cookies :: cookie_jar
  msg_headers :: Collection
  msg_method :: "Method option"
  msg_resource :: string
  msg_query :: query
  msg_address :: Address

definition Message0 :: message where
  "Message0 = \<lparr>msg_version = Http11, msg_code = None, msg_body = [], msg_cookies = CookieJar,
     msg_headers = Collection0, msg_method = None, msg_resource = [], msg_query = [],
     msg_address = Address0\<rparr>"

definition Query_add :: "string \<Rightarrow> string \<Rightarrow> query \<Rightarrow> query" where
  "Query_add name v q = um_insert (=) name v q"

definition Query_get :: "string \<Rightarrow> query \<Rightarrow> string option" where
  "Query_get name q = um_find (=) q name"

definition Query_has :: "string \<Rightarrow> query \<Rightarrow> bool" where
  "Query_has name q \<longleftrightarrow> um_find (=) q name \<noteq> None"

definition Query_as_str :: "query \<Rightarrow> string" where
  "Query_as_str q =
     (let url = concat (map (\<lambda>(k, v). ''&'' @ k @ ''='' @ v) q)
      in if url \<noteq> [] then url[0 := CHR ''?''] else url)"

definition Query_parameters :: "query \<Rightarrow> string list" where
  "Query_parameters q = map fst q"

text \<open>\<open>Request::getBestAcceptEncoding\<close>.\<close>

definition getBestAcceptEncoding :: "http_env \<Rightarrow> message \<Rightarrow> Encoding" where
  "getBestAcceptEncoding E m =
     (case tryGet_AcceptEncoding (msg_headers m) of
        None \<Rightarrow> Identity
      | Some es \<Rightarrow>
          (case List.find (\<lambda>(e, q). encodingSupported E e \<and> q \<noteq> 0) es of
             Some (e, _) \<Rightarrow> e | None \<Rightarrow> Identity))"

section \<open>Steps\<close>

datatype PState = Again | Next | Done

type_synonym step_result = "(exn + PState) \<times> message \<times> scursor"

definition raise :: "string \<Rightarrow> exn" where
  "raise msg = HttpError Code_Bad_Request msg"

text \<open>\<open>StreamCursor::Revert\<close>: the cursor is put back unless the step ends with \<open>ignore ()\<close>.\<close>

definition reverting :: "scursor \<Rightarrow> step_result \<Rightarrow> step_result" where
  "reverting c0 r = (case r of (res, m, c) \<Rightarrow> (res, m, if res = Inr Next then c else c0))"

definition httpMethods :: "(string \<times> Method) list" where
  "httpMethods = map (\<lambda>(m, s). (s, m)) HTTP_METHODS"

subsection \<open>The request line\<close>

definition request_version :: "scursor \<Rightarrow> message \<Rightarrow> step_result" where
  "request_version c m =
     (case advance 1 c of
        (False, c) \<Rightarrow> (Inr Again, m, c)
      | (True, c1) \<Rightarrow>
          (case advance_while (\<lambda>c. \<not> eol c) c1 of
             (False, c) \<Rightarrow> (Inr Again, m, c)
           | (True, c2) \<Rightarrow>
               let ver = rest c1; n = spos c2 - spos c1;
                   done' = (\<lambda>m. case advance 2 c2 of
                              (False, c) \<Rightarrow> (Inr Again, m, c) | (True, c3) \<Rightarrow> (Inr Next, m, c3))
               in if strncmp_eq ver ''HTTP/1.0'' n then done' (m\<lparr>msg_version := Http10\<rparr>)
                  else if strncmp_eq ver ''HTTP/1.1'' n then done' (m\<lparr>msg_version := Http11\<rparr>)
                  else (Inl (raise ''Encountered invalid HTTP version''), m, c2)))"

text \<open>
  The loop over the query parameters: \<open>True\<close> when it ends at the space, \<open>False\<close> when the
  input ends first.  Behind a key the current byte is one of the three that \<open>match_until\<close>
  stops at; at a space the loop condition is false in the next round.
\<close>

function query_loop :: "scursor \<Rightarrow> message \<Rightarrow> bool \<times> message \<times> scursor" where
  "query_loop c m =
     (if current c = SP then (True, m, c)
      else case match_until [CHR ''='', SP, CHR ''&''] Insensitive c of
        (False, c1) \<Rightarrow> (False, m, c1)
      | (True, c1) \<Rightarrow>
          let key = token_text c c1
          in if current c1 = SP then (True, m\<lparr>msg_query := Query_add key [] (msg_query m)\<rparr>, c1)
             else if current c1 = CHR ''&'' then
               let m' = m\<lparr>msg_query := Query_add key [] (msg_query m)\<rparr>
               in case advance 1 c1 of
                    (False, c2) \<Rightarrow> (False, m', c2) | (True, c2) \<Rightarrow> query_loop c2 m'
             else
               (case advance 1 c1 of
                  (False, c2) \<Rightarrow> (False, m, c2)
                | (True, c2) \<Rightarrow>
                    (case match_until [SP, CHR ''&''] Insensitive c2 of
                       (False, c3) \<Rightarrow> (False, m, c3)
                     | (True, c3) \<Rightarrow>
                         let m' = m\<lparr>msg_query := Query_add key (token_text c2 c3) (msg_query m)\<rparr>
                         in if current c3 = CHR ''&'' then
                              (case advance 1 c3 of
                                 (False, c4) \<Rightarrow> (False, m', c4) | (True, c4) \<Rightarrow> query_loop c4 m')
                            else query_loop c3 m')))"
  by pat_completeness auto

lemma remaining_advance1_True: "advance 1 c = (True, c') \<Longrightarrow> remaining c' < remaining c"
proof -
  assume a: "advance 1 c = (True, c')"
  then have "\<not> eof c" by (auto simp: advance_def eof_def split: if_splits)
  then show ?thesis using remaining_advance1 [of c] a by simp
qed

lemma remaining_match_until_eq: "match_until cs s c = (b, c') \<Longrightarrow> remaining c' \<le> remaining c"
  using remaining_match_until_le [of cs s c] by simp

lemma remaining_advance_eq: "advance n c = (b, c') \<Longrightarrow> remaining c' \<le> remaining c"
  using remaining_advance_le [of n c] by simp

lemma remaining_advance_while_eq: "advance_while p c = (b, c') \<Longrightarrow> remaining c' \<le> remaining c"
  using remaining_advance_while_le [of p c] by simp

lemmas remaining_dests = remaining_advance1_True remaining_match_until_eq remaining_advance_eq
  remaining_advance_while_eq

termination query_loop
  by (relation "measure (\<lambda>(c, m). remaining c)")
    (auto simp del: One_nat_def dest!: sym [of "(True, _)"] dest!: remaining_advance1_True remaining_match_until_eq)

declare query_loop.simps [simp del]

definition request_target :: "scursor \<Rightarrow> message \<Rightarrow> step_result" where
  "request_target c m =
     (if eof c then (Inr Again, m, c)
      else if current c \<noteq> SP then
        (Inl (raise ''Malformed HTTP request after Method, expected SP''), m, c)
      else case advance 1 c of
        (False, c) \<Rightarrow> (Inr Again, m, c)
      | (True, c1) \<Rightarrow>
          (case advance_while (\<lambda>c. current c \<noteq> CHR ''?'' \<and> current c \<noteq> SP) c1 of
             (False, c) \<Rightarrow> (Inr Again, m, c)
           | (True, c2) \<Rightarrow>
               let m' = m\<lparr>msg_resource := token_text c1 c2\<rparr>
               in if current c2 = CHR ''?'' then
                    (case advance 1 c2 of
                       (False, c) \<Rightarrow> (Inr Again, m', c)
                     | (True, c3) \<Rightarrow>
                         (case query_loop c3 m' of
                            (False, m'', c) \<Rightarrow> (Inr Again, m'', c)
                          | (True, m'', c4) \<Rightarrow> request_version c4 m''))
                  else request_version c2 m'))"

definition RequestLineStep_apply :: "scursor \<Rightarrow> message \<Rightarrow> step_result" where
  "RequestLineStep_apply c m =
     reverting c
       (case match_until [SP] Insensitive c of
          (False, c1) \<Rightarrow> (Inr Again, m, c1)
        | (True, c1) \<Rightarrow>
            (case um_find (=) httpMethods (token_text c c1) of
               None \<Rightarrow> (Inl (raise ''Unknown HTTP request method''), m, c1)
             | Some meth \<Rightarrow> request_target c1 (m\<lparr>msg_method := Some meth\<rparr>)))"

subsection \<open>The status line\<close>

text \<open>
  \<open>std::from_chars\<close> on an \<open>int\<close>: an optional minus sign and digits; \<open>None\<close> is an error,
  otherwise the value and the number of characters consumed.
\<close>

definition from_chars_int :: "string \<Rightarrow> (int \<times> nat) option" where
  "from_chars_int s =
     (case s of
        x # t \<Rightarrow>
          if x = CHR ''-'' then
            (case from_chars_u 10 (2 ^ 31) t of Inr (n, k) \<Rightarrow> Some (- int n, Suc k) | Inl _ \<Rightarrow> None)
          else
            (case from_chars_u 10 (2 ^ 31 - 1) s of Inr (n, k) \<Rightarrow> Some (int n, k) | Inl _ \<Rightarrow> None)
      | [] \<Rightarrow> None)"

definition response_code :: "scursor \<Rightarrow> message \<Rightarrow> step_result" where
  "response_code c m =
     (if current c \<noteq> EOF_char \<and> current c \<noteq> SP then
        (Inl (raise ''Expected SPACE after http version''), m, c)
      else case advance 1 c of
        (False, c) \<Rightarrow> (Inr Again, m, c)
      | (True, c1) \<Rightarrow>
          (case match_until [SP] Insensitive c1 of
             (False, c) \<Rightarrow> (Inr Again, m, c)
           | (True, c2) \<Rightarrow>
               (case from_chars_int (token_text c1 c2) of
                  None \<Rightarrow> (Inl (raise ''Failed to parse return code''), m, c2)
                | Some (code, k) \<Rightarrow>
                    if mem_at (rest c1) k \<noteq> SP then (Inl (raise ''Failed to parse return code''), m, c2)
                    else
                      let m' = m\<lparr>msg_code := Some code\<rparr>
                      in case advance 1 c2 of
                           (False, c) \<Rightarrow> (Inr Again, m', c)
                         | (True, c3) \<Rightarrow>
                             let c4 = snd (advance_while (\<lambda>c. \<not> eol c \<and> \<not> eof c) c3)
                             in case advance 2 c4 of
                                  (False, c) \<Rightarrow> (Inr Again, m', c)
                                | (True, c5) \<Rightarrow> (Inr Next, m', c5))))"

definition ResponseLineStep_apply :: "scursor \<Rightarrow> message \<Rightarrow> step_result" where
  "ResponseLineStep_apply c m =
     reverting c
       (case match_raw ''HTTP/1.1'' c of
          (True, c1) \<Rightarrow> response_code c1 m
        | (False, _) \<Rightarrow>
            (case match_raw ''HTTP/1.0'' c of
               (True, c1) \<Rightarrow> response_code c1 m
             | (False, _) \<Rightarrow> (Inl (raise ''Encountered invalid HTTP version''), m, c)))"

subsection \<open>Headers\<close>

text \<open>
  What is done with one header: the exception thrown, if any, and the message.  \<open>mem\<close> is the
  memory from the first byte of the value on.
\<close>

definition add_header :: "http_env \<Rightarrow> string \<Rightarrow> string \<Rightarrow> nat \<Rightarrow> message \<Rightarrow> exn option \<times> message" where
  "add_header E name mem len m =
     (let raw = (\<lambda>m. m\<lparr>msg_headers := Collection_addRaw (name, take len mem) (msg_headers m)\<rparr>)
      in if LowercaseEqualStatic name ''cookie'' then
           (case jar_addFromRaw mem len (jar_removeAllCookies (msg_cookies m)) of
              (Some e, jar) \<Rightarrow> (Some e, m\<lparr>msg_cookies := jar\<rparr>)
            | (None, jar) \<Rightarrow> (None, raw (m\<lparr>msg_cookies := jar\<rparr>)))
         else if LowercaseEqualStatic name ''set-cookie'' then
           (case Cookie_fromRaw (he_date E) mem len of
              Inl e \<Rightarrow> (Some e, m)
            | Inr ck \<Rightarrow> (None, raw (m\<lparr>msg_cookies := jar_add ck (msg_cookies m)\<rparr>)))
         else if isRegistered Registry name then
           (case makeHeader Registry name of
              Inl e \<Rightarrow> (Some e, m)
            | Inr h \<Rightarrow>
                (case header_parseRaw E mem len h of
                   Inl e \<Rightarrow> (Some e, m)
                 | Inr h' \<Rightarrow> (None, raw (m\<lparr>msg_headers := Collection_add h' (msg_headers m)\<rparr>))))
         else (None, raw m))"

text \<open>The body of the header loop; \<open>Inr Next\<close> stands for going round again.\<close>

definition header_line :: "http_env \<Rightarrow> scursor \<Rightarrow> message \<Rightarrow> step_result" where
  "header_line E c m =
     (case advance_while (\<lambda>c. current c \<noteq> CHR '':'') c of
        (False, c) \<Rightarrow> (Inr Again, m, c)
      | (True, c1) \<Rightarrow>
          (case advance 1 c1 of
             (False, c) \<Rightarrow> (Inr Again, m, c)
           | (True, c2) \<Rightarrow>
               let name = take (diff c2 (spos c) - 1) (rest c)
               in case advance_while (\<lambda>c. current c = SP) c2 of
                    (False, c) \<Rightarrow> (Inr Again, m, c)
                  | (True, c3) \<Rightarrow>
                      (case advance_while (\<lambda>c. \<not> eol c) c3 of
                         (False, c) \<Rightarrow> (Inr Again, m, c)
                       | (True, c4) \<Rightarrow>
                           (case add_header E name (rest c3) (diff c4 (spos c3)) m of
                              (Some e, m') \<Rightarrow> (Inl e, m', c4)
                            | (None, m') \<Rightarrow>
                                (case advance 2 c4 of
                                   (False, c) \<Rightarrow> (Inr Again, m', c)
                                 | (True, c5) \<Rightarrow> (Inr Next, m', c5))))))"

lemma remaining_header_line:
  assumes "header_line E c m = (Inr Next, m', c')"
  shows "remaining c' < remaining c"
proof -
  from assms obtain c1 c2 c3 c4 where
    "advance_while (\<lambda>c. current c \<noteq> CHR '':'') c = (True, c1)" "advance 1 c1 = (True, c2)"
    "advance_while (\<lambda>c. current c = SP) c2 = (True, c3)"
    "advance_while (\<lambda>c. \<not> eol c) c3 = (True, c4)" "advance 2 c4 = (True, c')"
    by (auto simp: header_line_def Let_def simp del: One_nat_def
        split: prod.splits bool.splits option.splits)
  then show ?thesis
    using remaining_advance_while_eq remaining_advance1_True remaining_advance_eq
    by (metis order.strict_trans1 order.strict_trans2)
qed

function headers_loop :: "http_env \<Rightarrow> scursor \<Rightarrow> message \<Rightarrow> step_result" where
  "headers_loop E c m =
     (if eol c then
        (case advance 2 c of (False, c') \<Rightarrow> (Inr Again, m, c') | (True, c') \<Rightarrow> (Inr Next, m, c'))
      else case header_line E c m of
        (Inr Next, m', c') \<Rightarrow> headers_loop E c' m'
      | r \<Rightarrow> r)"
  by pat_completeness auto
termination
  by (relation "measure (\<lambda>(E, c, m). remaining c)") (auto intro: remaining_header_line [OF sym])

declare headers_loop.simps [simp del]

definition HeadersStep_apply :: "http_env \<Rightarrow> scursor \<Rightarrow> message \<Rightarrow> step_result" where
  "HeadersStep_apply E c m = reverting c (headers_loop E c m)"

subsection \<open>The body\<close>

text \<open>
  \<open>BodyStep\<close> with its \<open>Chunk\<close>: \<open>bytesRead\<close>, and the members \<open>size\<close> and
  \<open>alreadyAppendedChunkBytes\<close> of the chunk, which are \<open>ssize_t\<close>; \<open>ssz\<close> is the value such
  a member holds.  (\<open>Chunk::bytesRead\<close> is never read.)
\<close>

record body_step =
  bs_bytesRead :: nat
  ch_size :: int
  ch_already :: int

datatype ChunkResult = Complete | Incomplete | Final

definition BodyStep0 :: body_step where
  "BodyStep0 = \<lparr>bs_bytesRead = 0, ch_size = -1, ch_already = 0\<rparr>"

definition Chunk_reset :: "body_step \<Rightarrow> body_step" where
  "Chunk_reset b = b\<lparr>ch_size := -1\<rparr>"

definition ssz :: "int \<Rightarrow> int" where
  "ssz i = ssz_of_sz (sz_of_ssz i)"

text \<open>
  \<open>std::string::max_size\<close> (the value of libstdc++ on 64 bits); \<open>reserve\<close> and
  \<open>append (ptr, n)\<close> throw \<open>std::length_error\<close> beyond it.
\<close>

definition string_max_size :: nat where
  "string_max_size = 2 ^ 62 - 1"

definition str_append :: "string \<Rightarrow> string \<Rightarrow> nat \<Rightarrow> string result" where
  "str_append s mem n =
     (if string_max_size < length s + n then Inl (Length_Error ''basic_string::append'')
      else Inr (s @ take n mem))"

type_synonym body_result = "(exn + PState) \<times> body_step \<times> message \<times> scursor"

definition readBody :: "nat \<Rightarrow> body_step \<Rightarrow> message \<Rightarrow> scursor \<Rightarrow> (exn + bool) \<times> body_step \<times> message \<times> scursor" where
  "readBody sz b m c =
     (let available = remaining c
      in if available < sz then
           let c1 = snd (advance available c)
           in case str_append (msg_body m) (rest c) (length (token_text c c1)) of
                Inl e \<Rightarrow> (Inl e, b, m, c1)
              | Inr body \<Rightarrow> (Inr False, b\<lparr>bs_bytesRead := bs_bytesRead b + available\<rparr>, m\<lparr>msg_body := body\<rparr>, c1)
         else
           let c1 = snd (advance sz c)
           in case str_append (msg_body m) (rest c) (length (token_text c c1)) of
                Inl e \<Rightarrow> (Inl e, b, m, c1)
              | Inr body \<Rightarrow> (Inr True, b, m\<lparr>msg_body := body\<rparr>, c1))"

definition parseContentLength :: "nat \<Rightarrow> body_step \<Rightarrow> message \<Rightarrow> scursor \<Rightarrow> body_result" where
  "parseContentLength contentLength b m c =
     (let want = (if 0 < bs_bytesRead b
                  then sz_of_ssz (int contentLength - int (bs_bytesRead b))
                  else sz_of_ssz (int contentLength))
      in case readBody want b m c of
           (Inl e, b', m', c') \<Rightarrow> (Inl e, b', m', c')
         | (Inr False, b', m', c') \<Rightarrow> (Inr Again, b', m', c')
         | (Inr True, b', m', c') \<Rightarrow> (Inr Done, b'\<lparr>bs_bytesRead := 0\<rparr>, m', c'))"

text \<open>The first half of \<open>Chunk::parse\<close>: the size and the cursor behind its line, if complete.\<close>

definition chunk_size_line :: "scursor \<Rightarrow> exn + (nat \<times> scursor) option" where
  "chunk_size_line c =
     (case advance_while (\<lambda>c. \<not> eol c) c of
        (False, _) \<Rightarrow> Inr None
      | (True, c1) \<Rightarrow>
          (case from_chars_u 16 (2 ^ 64 - 1) (token_text c c1) of
             Inl _ \<Rightarrow> Inl (Runtime_Error ''Invalid chunk size'')
           | Inr (n, k) \<Rightarrow>
               if mem_at (rest c) k \<noteq> CR then Inl (Runtime_Error ''Invalid chunk size'')
               else case advance 2 c1 of (False, _) \<Rightarrow> Inr None | (True, c2) \<Rightarrow> Inr (Some (n, c2))))"

type_synonym chunk_result = "(exn + ChunkResult) \<times> body_step \<times> message \<times> scursor"

definition chunk_data :: "body_step \<Rightarrow> message \<Rightarrow> scursor \<Rightarrow> chunk_result" where
  "chunk_data b m c =
     (let sz = ssz (ch_size b); already = ssz (ch_already b); available = remaining c
      in if sz = 0 then (Inr Final, b, m, c)
         else if string_max_size < sz_of_ssz sz then
           (Inl (Length_Error ''basic_string::_M_create''), b, m, c)
         else if int available + already < sz + 2 then
           let c1 = snd (advance available c)
           in case str_append (msg_body m) (rest c) available of
                Inl e \<Rightarrow> (Inl e, b, m, c1)
              | Inr body \<Rightarrow> (Inr Incomplete, b\<lparr>ch_already := already + int available\<rparr>, m\<lparr>msg_body := body\<rparr>, c1)
         else
           let n = sz_of_ssz (sz - already); c1 = snd (advance n c); c2 = snd (advance 2 c1)
           in case str_append (msg_body m) (rest c) n of
                Inl e \<Rightarrow> (Inl e, b, m, c2)
              | Inr body \<Rightarrow> (Inr Complete, b, m\<lparr>msg_body := body\<rparr>, c2))"

definition Chunk_parse :: "body_step \<Rightarrow> message \<Rightarrow> scursor \<Rightarrow> chunk_result" where
  "Chunk_parse b m c =
     (if ssz (ch_size b) = -1 then
        (case chunk_size_line c of
           Inl e \<Rightarrow> (Inl e, b, m, c)
         | Inr None \<Rightarrow> (Inr Incomplete, b, m, c)
         | Inr (Some (n, c2)) \<Rightarrow> chunk_data (b\<lparr>ch_size := ssz_of_sz n, ch_already := 0\<rparr>) m c2)
      else chunk_data b m c)"

lemma ssz_range: "- (2 ^ 63) \<le> ssz i" "ssz i < 2 ^ 63"
  by (auto simp: ssz_def ssz_of_sz_def Let_def)

lemma ssz_id [simp]: "- (2 ^ 63) \<le> i \<Longrightarrow> i < 2 ^ 63 \<Longrightarrow> ssz i = i"
  by (simp add: ssz_def)

text \<open>
  A completed chunk has consumed input: when the bytes already appended exceed the size, the
  count to append is negative, as a \<open>size_t\<close> beyond \<open>max_size\<close>, and \<open>append\<close> throws.
\<close>

lemma int_string_max_size: "int string_max_size = 4611686018427387903"
  by (simp add: string_max_size_def)

lemma sz_diff_big:
  fixes s a :: int
  assumes "s - a < 0" "- (2 ^ 63) \<le> s" "s < 2 ^ 63" "- (2 ^ 63) \<le> a" "a < 2 ^ 63" "0 \<le> s"
  shows "string_max_size < sz_of_ssz (s - a)"
proof -
  have "int (sz_of_ssz (s - a)) = s - a + 2 ^ 64"
    using assms by (intro sz_of_ssz_neg) auto
  then show ?thesis using assms int_string_max_size by simp
qed

lemma remaining_chunk_data:
  assumes "chunk_data b m c = (Inr Complete, b', m', c')"
  shows "remaining c' < remaining c"
proof -
  define s where "s = ssz (ch_size b)"
  define a where "a = ssz (ch_already b)"
  define n where "n = sz_of_ssz (s - a)"
  have rs: "- (2 ^ 63) \<le> s" "s < 2 ^ 63" and ra: "- (2 ^ 63) \<le> a" "a < 2 ^ 63"
    unfolding s_def a_def by (rule ssz_range)+
  from assms have small: "sz_of_ssz s \<le> string_max_size" and ge: "s + 2 \<le> int (remaining c) + a"
    and app: "\<exists>body. str_append (msg_body m) (rest c) n = Inr body"
    and c': "c' = snd (advance 2 (snd (advance n c)))"
    by (auto simp: chunk_data_def Let_def s_def a_def n_def split: if_splits sum.splits)
  from app have le: "n \<le> string_max_size" by (auto simp: str_append_def split: if_splits)
  have "0 \<le> s"
  proof (rule ccontr)
    assume "\<not> 0 \<le> s"
    then have "int (sz_of_ssz s) = s + 2 ^ 64" using rs by (intro sz_of_ssz_neg) auto
    then show False using small rs int_string_max_size by simp
  qed
  with le have d: "0 \<le> s - a" using sz_diff_big [OF _ rs ra] unfolding n_def by force
  then have n: "int n = s - a" using rs ra unfolding n_def by simp
  then have avail: "n + 2 \<le> remaining c" using ge by linarith
  have pos: "remaining (snd (advance k c)) = remaining c - k" if "k \<le> remaining c" for k c
    using that ssz_of_sz_le [of k] by (auto simp: advance_def remaining_def)
  show ?thesis unfolding c' using avail by (simp add: pos)
qed

lemma remaining_chunk_size_line:
  "chunk_size_line c = Inr (Some (n, c')) \<Longrightarrow> remaining c' \<le> remaining c"
  by (auto simp: chunk_size_line_def split: prod.splits bool.splits sum.splits if_splits
      dest!: remaining_advance_while_eq remaining_advance_eq)

lemma remaining_Chunk_parse:
  assumes "Chunk_parse b m c = (Inr Complete, b', m', c')"
  shows "remaining c' < remaining c"
  using assms
  by (auto simp: Chunk_parse_def split: if_splits sum.splits option.splits prod.splits
      dest: remaining_chunk_data dest!: remaining_chunk_size_line intro: less_le_trans)

function transfer_loop :: "body_step \<Rightarrow> message \<Rightarrow> scursor \<Rightarrow> body_result" where
  "transfer_loop b m c =
     (case Chunk_parse b m c of
        (Inl e, b', m', c') \<Rightarrow> (Inl (raise (what e)), Chunk_reset b', m', c')
      | (Inr Final, b', m', c') \<Rightarrow> (Inr Done, Chunk_reset b', m', c')
      | (Inr Incomplete, b', m', c') \<Rightarrow> (Inr Again, b', m', c')
      | (Inr Complete, b', m', c') \<Rightarrow>
          if eof c' then (Inr Again, Chunk_reset b', m', c')
          else transfer_loop (Chunk_reset b') m' c')"
  by pat_completeness auto
termination
  by (relation "measure (\<lambda>(b, m, c). remaining c)") (auto intro: remaining_Chunk_parse [OF sym])

declare transfer_loop.simps [simp del]

definition parseTransferEncoding :: "Encoding \<Rightarrow> body_step \<Rightarrow> message \<Rightarrow> scursor \<Rightarrow> body_result" where
  "parseTransferEncoding encoding b m c =
     (if encoding = Chunked then transfer_loop b m c
      else (Inl (HttpError Code_Not_Implemented ''Unsupported Transfer-Encoding''), b, m, c))"

definition BodyStep_apply :: "body_step \<Rightarrow> message \<Rightarrow> scursor \<Rightarrow> body_result" where
  "BodyStep_apply b m c =
     (case (tryGet_ContentLength (msg_headers m), tryGet_TransferEncoding (msg_headers m)) of
        (Some _, Some _) \<Rightarrow>
          (Inl (raise ''Got mutually exclusive ContentLength and TransferEncoding header''), b, m, c)
      | (Some cl, None) \<Rightarrow> parseContentLength cl b m c
      | (None, Some te) \<Rightarrow> parseTransferEncoding te b m c
      | (None, None) \<Rightarrow> (Inr Done, b, m, c))"

section \<open>The parser\<close>

text \<open>
  \<open>ParserBase\<close> and its two instances \<open>ParserImpl<Request>\<close> and \<open>ParserImpl<Response>\<close>,
  which differ in the first step.  The cursor is the position in the buffer; the three steps
  share the message.
\<close>

record parser =
  pa_request :: bool
  pa_buffer :: array_buf
  pa_currentStep :: nat
  pa_body :: body_step
  pa_message :: message

definition ParserImpl :: "bool \<Rightarrow> nat \<Rightarrow> parser" where
  "ParserImpl is_request maxDataSize =
     \<lparr>pa_request = is_request, pa_buffer = ArrayStreamBuf maxDataSize, pa_currentStep = 0,
      pa_body = BodyStep0, pa_message = Message0\<rparr>"

definition parser_feed :: "string \<Rightarrow> parser \<Rightarrow> bool \<times> parser" where
  "parser_feed data p = (case array_feed data (pa_buffer p) of (ok, b) \<Rightarrow> (ok, p\<lparr>pa_buffer := b\<rparr>))"

text \<open>\<open>reset\<close> of the base class, and of the request parser, which also renews the request.\<close>

definition ParserBase_reset :: "parser \<Rightarrow> parser" where
  "ParserBase_reset p = p\<lparr>pa_buffer := array_reset (pa_buffer p), pa_currentStep := 0\<rparr>"

definition parser_reset :: "parser \<Rightarrow> parser" where
  "parser_reset p =
     (if pa_request p then (ParserBase_reset p)\<lparr>pa_message := Message0\<rparr> else ParserBase_reset p)"

definition set_cursor :: "scursor \<Rightarrow> parser \<Rightarrow> parser" where
  "set_cursor c p = p\<lparr>pa_buffer := (pa_buffer p)\<lparr>ab_area := c\<rparr>\<rparr>"

text \<open>\<open>allSteps[currentStep]->apply (cursor)\<close>.\<close>

definition step_apply :: "http_env \<Rightarrow> parser \<Rightarrow> (exn + PState) \<times> parser" where
  "step_apply E p =
     (let c = ab_area (pa_buffer p); m = pa_message p;
          plain = (\<lambda>(r, m', c'). (r, set_cursor c' (p\<lparr>pa_message := m'\<rparr>)))
      in if pa_currentStep p = 0 then
           plain (if pa_request p then RequestLineStep_apply c m else ResponseLineStep_apply c m)
         else if pa_currentStep p = 1 then plain (HeadersStep_apply E c m)
         else case BodyStep_apply (pa_body p) m c of
                (r, b', m', c') \<Rightarrow> (r, set_cursor c' (p\<lparr>pa_message := m', pa_body := b'\<rparr>)))"

lemma BodyStep_not_Next: "fst (BodyStep_apply b m c) \<noteq> Inr Next"
proof -
  have "fst (transfer_loop b m c) \<noteq> Inr Next" for b m c
    by (induction b m c rule: transfer_loop.induct)
      (subst transfer_loop.simps, auto split: prod.splits sum.splits ChunkResult.splits)
  then show ?thesis
    by (auto simp: BodyStep_apply_def parseContentLength_def parseTransferEncoding_def Let_def
        split: option.splits prod.splits sum.splits bool.splits)
qed

lemma step_apply_Next: "step_apply E p = (Inr Next, p') \<Longrightarrow> pa_currentStep p < 2 \<and> pa_currentStep p' = pa_currentStep p"
  using BodyStep_not_Next [of "pa_body p" "pa_message p" "ab_area (pa_buffer p)"]
  by (auto simp: step_apply_def Let_def set_cursor_def split: if_splits prod.splits)

function parser_parse :: "http_env \<Rightarrow> parser \<Rightarrow> (exn + PState) \<times> parser" where
  "parser_parse E p =
     (case step_apply E p of
        (Inr Next, p') \<Rightarrow> parser_parse E (p'\<lparr>pa_currentStep := pa_currentStep p' + 1\<rparr>)
      | r \<Rightarrow> r)"
  by pat_completeness auto
termination
  by (relation "measure (\<lambda>(E, p). 3 - pa_currentStep p)") (auto dest!: step_apply_Next [OF sym])

declare parser_parse.simps [simp del]

section \<open>Handler::onInput\<close>

text \<open>
  The connection state the handler works on: the parser stored in the peer, the peer's address
  and its idle flag.  What leaves the handler is a list of actions: the call of the
  application's \<open>onRequest\<close> with the request and the version and headers of the response
  writer, or \<open>ResponseWriter::send\<close> with a code and a body.  \<open>app\<close> is the application: the
  exception \<open>onRequest\<close> throws, if any.
\<close>

record http_peer =
  hp_parser :: parser
  hp_address :: Address
  hp_idle :: bool

datatype action =
    A_onRequest message Version Collection
  | A_send Version Code string

type_synonym application = "message \<Rightarrow> Version \<Rightarrow> Collection \<Rightarrow> exn option"

definition onConnection :: "nat \<Rightarrow> Address \<Rightarrow> http_peer" where
  "onConnection maxRequestSize addr =
     \<lparr>hp_parser = ParserImpl True maxRequestSize, hp_address = addr, hp_idle = False\<rparr>"

text \<open>The two catch clauses; the \<open>send\<close> of the reply makes the peer idle.\<close>

definition onInput_catch :: "exn \<Rightarrow> http_peer \<Rightarrow> action list \<times> http_peer" where
  "onInput_catch e hp =
     (let version = msg_version (pa_message (hp_parser hp));
          reply = (case e of Http_Error code reason \<Rightarrow> A_send version code reason
                           | _ \<Rightarrow> A_send version Code_Internal_Server_Error (what e))
      in ([reply], hp\<lparr>hp_idle := True, hp_parser := parser_reset (hp_parser hp)\<rparr>))"

definition onInput_request :: "application \<Rightarrow> http_peer \<Rightarrow> action list \<times> http_peer" where
  "onInput_request app hp =
     (let p = hp_parser hp;
          request = (pa_message p)\<lparr>msg_address := hp_address hp\<rparr>;
          control = (case tryGet_Connection (msg_headers request) of Some ctl \<Rightarrow> ctl | None \<Rightarrow> Close);
          headers = Collection_add (H_Connection control) Collection0;
          hp' = hp\<lparr>hp_parser := p\<lparr>pa_message := request\<rparr>, hp_idle := False\<rparr>;
          call = A_onRequest request (msg_version request) headers
      in case app request (msg_version request) headers of
           None \<Rightarrow> ([call], hp'\<lparr>hp_parser := parser_reset (hp_parser hp')\<rparr>)
         | Some e \<Rightarrow> (case onInput_catch e hp' of (acts, hp'') \<Rightarrow> (call # acts, hp'')))"

definition onInput :: "http_env \<Rightarrow> application \<Rightarrow> string \<Rightarrow> http_peer \<Rightarrow> action list \<times> http_peer" where
  "onInput E app buffer hp =
     (case parser_feed buffer (hp_parser hp) of
        (False, p) \<Rightarrow>
          onInput_catch (HttpError Code_Request_Entity_Too_Large ''Request exceeded maximum buffer size'')
            (hp\<lparr>hp_parser := parser_reset p\<rparr>)
      | (True, p) \<Rightarrow>
          (case parser_parse E p of
             (Inl e, p') \<Rightarrow> onInput_catch e (hp\<lparr>hp_parser := p'\<rparr>)
           | (Inr Done, p') \<Rightarrow> onInput_request app (hp\<lparr>hp_parser := p'\<rparr>)
           | (Inr _, p') \<Rightarrow> ([], hp\<lparr>hp_parser := p'\<rparr>)))"

end
