(* ===== verification/Parser_Incremental.thy ===== *)
theory Parser_Incremental
  imports Http_Parser Header_Locality
begin

text \<open>
  The parser is fed with whatever the socket delivers.  A step that finds its input incomplete
  puts the cursor back, keeps what it has written to the message, and is run again from its
  start when more input has arrived.  This theory shows that the repetition is harmless: cutting
  the input into pieces does not change what is parsed.
\<close>

section \<open>Growing a buffer\<close>

definition ext :: "string \<Rightarrow> scursor \<Rightarrow> scursor" where
  "ext d c = c\<lparr>sbuf := sbuf c @ d\<rparr>"

definition wf2 :: "string \<Rightarrow> scursor \<Rightarrow> bool" where
  "wf2 d c \<longleftrightarrow> wf_cursor c \<and> wf_cursor (ext d c)"

lemma wf2D: "wf2 d c \<Longrightarrow> wf_cursor c" "wf2 d c \<Longrightarrow> wf_cursor (ext d c)"
  by (simp_all add: wf2_def)

lemma ext_spos [simp]: "spos (ext d c) = spos c"
  by (simp add: ext_def)

lemma ext_move: "ext d (c\<lparr>spos := n\<rparr>) = (ext d c)\<lparr>spos := n\<rparr>"
  by (simp add: ext_def)

lemma ext_ext: "ext b (ext a c) = ext (a @ b) c"
  by (simp add: ext_def)

lemma rest_ext: "wf_cursor c \<Longrightarrow> rest (ext d c) = rest c @ d"
  by (simp add: ext_def rest_def wf_cursor_def)

lemma wf2_move: "wf2 d c \<Longrightarrow> n \<le> length (rest c) \<Longrightarrow> wf2 d (c\<lparr>spos := spos c + n\<rparr>)"
  by (auto simp: wf2_def wf_cursor_def ext_def rest_def)

text \<open>What succeeds on the input received so far succeeds in the same way on a longer one.\<close>

lemma advance_ext:
  assumes "wf2 d c" "advance n c = (True, c')" "n < 2 ^ 63"
  shows "advance n (ext d c) = (True, ext d c') \<and> wf2 d c'"
proof -
  have n: "n \<le> remaining c" and c': "c' = c\<lparr>spos := spos c + n\<rparr>"
    using assms advance_ok [OF wf2D(1) [OF assms(1)], of n]
    by (auto simp: advance_small split: if_splits)
  have "n \<le> remaining (ext d c)"
    using n rest_ext [OF wf2D(1) [OF assms(1)], of d] by (simp add: remaining_length_rest)
  then show ?thesis
    using n advance_ok [OF wf2D(2) [OF assms(1)]] wf2_move [OF assms(1), of n]
    by (simp add: c' ext_move remaining_length_rest)
qed

lemma current_ext: "wf2 d c \<Longrightarrow> \<not> eof c \<Longrightarrow> current (ext d c) = current c"
  by (cases "rest c") (auto simp: current_def rest_ext wf2D eof_rest)

lemma match_until_ext:
  assumes "wf2 d c" "match_until cs s c = (True, c')"
  shows "match_until cs s (ext d c) = (True, ext d c') \<and> wf2 d c' \<and> \<not> eof c'"
proof -
  let ?f = "until_find cs s" and ?n = "length (takeWhile (\<lambda>x. \<not> until_find cs s x) (rest c))"
  have ex: "\<exists>x \<in> set (rest c). ?f x" and c': "c' = c\<lparr>spos := spos c + ?n\<rparr>"
    using assms match_until_eq [OF wf2D(1) [OF assms(1)], of cs s] by (auto simp: list_ex_iff)
  have "takeWhile (\<lambda>x. \<not> ?f x) (rest c @ d) = takeWhile (\<lambda>x. \<not> ?f x) (rest c)"
    using ex by (auto simp: takeWhile_append)
  moreover have "takeWhile (\<lambda>x. \<not> ?f x) (rest c) \<noteq> rest c"
    using ex by (metis takeWhile_eq_all_conv)
  then have "?n < length (rest c)"
    by (metis le_neq_implies_less length_takeWhile_le takeWhile_eq_take take_all order.refl)
  ultimately show ?thesis
    using ex match_until_eq [OF wf2D(2) [OF assms(1)], of cs s] wf2_move [OF assms(1), of ?n]
    by (auto simp: c' rest_ext [OF wf2D(1) [OF assms(1)]] ext_move list_ex_iff eof_rest rest_move)
qed

lemma token_text_ext:
  assumes "wf2 d c" "wf2 d c'" "sbuf c' = sbuf c"
  shows "token_text (ext d c) (ext d c') = token_text c c'"
proof -
  have "spos c' - spos c \<le> length (rest c)"
    using assms by (auto simp: wf2_def wf_cursor_def rest_def)
  then show ?thesis by (simp add: token_text_def rest_ext wf2D [OF assms(1)])
qed

lemma advance_while_char_ext:
  assumes "wf2 d c" "q EOF_char" "advance_while (\<lambda>c. q (current c)) c = (True, c')"
  shows "advance_while (\<lambda>c. q (current c)) (ext d c) = (True, ext d c') \<and> wf2 d c' \<and> \<not> eof c'"
proof -
  let ?n = "length (takeWhile q (rest c))"
  have ex: "\<exists>x \<in> set (rest c). \<not> q x" and c': "c' = c\<lparr>spos := spos c + ?n\<rparr>"
    using assms advance_while_char [of c q] wf2D(1) [OF assms(1)] by (auto simp: list_ex_iff)
  have "takeWhile q (rest c @ d) = takeWhile q (rest c)"
    using ex by (auto simp: takeWhile_append)
  moreover have "takeWhile q (rest c) \<noteq> rest c"
    using ex by (metis takeWhile_eq_all_conv)
  then have "?n < length (rest c)"
    by (metis le_neq_implies_less length_takeWhile_le takeWhile_eq_take take_all order.refl)
  ultimately show ?thesis
    using ex advance_while_char [of "ext d c" q] assms(2) wf2D [OF assms(1)] wf2_move [OF assms(1), of ?n]
    by (auto simp: c' rest_ext [OF wf2D(1) [OF assms(1)]] ext_move list_ex_iff eof_rest rest_move)
qed

lemma advance_while_eol_ext:
  assumes "wf2 d c" "advance_while (\<lambda>c. \<not> eol c) c = (True, c')"
  shows "advance_while (\<lambda>c. \<not> eol c) (ext d c) = (True, ext d c') \<and> wf2 d c' \<and> (\<exists>t. rest c' = CR # LF # t)"
proof -
  obtain l where l: "before_crlf (rest c) = Some l" and c': "c' = c\<lparr>spos := spos c + length l\<rparr>"
    using assms advance_while_eol [OF wf2D(1) [OF assms(1)]] by (auto split: option.splits)
  obtain t where t: "rest c = l @ crlf @ t" using before_crlf_Some [OF l] by blast
  show ?thesis
    using advance_while_eol [OF wf2D(2) [OF assms(1)]] before_crlf_append [OF l, of d] wf2_move [OF assms(1), of "length l"]
      rest_at [OF t] t
    by (auto simp: c' rest_ext [OF wf2D(1) [OF assms(1)]] ext_move)
qed

lemma eol_ext: "wf2 d c \<Longrightarrow> eol c \<Longrightarrow> eol (ext d c)"
  by (auto simp: eol_rest rest_ext wf2D)

lemmas ext_steps = advance_ext match_until_ext advance_while_char_ext advance_while_eol_ext

section \<open>The request line\<close>

definition addq :: "(string \<times> string) list \<Rightarrow> message \<Rightarrow> message" where
  "addq ps m = m\<lparr>msg_query := fold (\<lambda>(k, v). um_insert (=) k v) ps (msg_query m)\<rparr>"

lemma addq_Nil [simp]: "addq [] m = m"
  by (simp add: addq_def)

lemma addq_append: "addq (ps @ qs) m = addq qs (addq ps m)"
  by (simp add: addq_def)

lemma addq_one: "m\<lparr>msg_query := Query_add k v (msg_query m)\<rparr> = addq [(k, v)] m"
  by (simp add: addq_def Query_add_def)

lemma addq_resume: "addq (ps @ qs) (addq ps m) = addq (ps @ qs) m"
  unfolding addq_def using str_map.fold_ins_resume [of ps qs "msg_query m"] by simp

text \<open>
  What the query loop does does not depend on the message: it adds some parameters.
\<close>

definition query_run :: "scursor \<Rightarrow> bool \<Rightarrow> (string \<times> string) list \<Rightarrow> scursor \<Rightarrow> bool" where
  "query_run c b ps c' \<longleftrightarrow> (\<forall>m. query_loop c m = (b, addq ps m, c'))"

lemma query_run_SP: "current c = SP \<Longrightarrow> query_run c True [] c"
  by (simp add: query_run_def query_loop.simps)

lemma query_run_end:
  "current c \<noteq> SP \<Longrightarrow> match_until [CHR ''='', SP, CHR ''&''] Insensitive c = (False, c1) \<Longrightarrow>
   query_run c False [] c1"
  by (simp add: query_run_def query_loop.simps)

lemma query_run_key_SP:
  "current c \<noteq> SP \<Longrightarrow> match_until [CHR ''='', SP, CHR ''&''] Insensitive c = (True, c1) \<Longrightarrow>
   current c1 = SP \<Longrightarrow> query_run c True [(token_text c c1, [])] c1"
  by (simp add: query_run_def query_loop.simps [of c] addq_one Let_def)

lemma query_run_key_amp:
  assumes "current c \<noteq> SP" "match_until [CHR ''='', SP, CHR ''&''] Insensitive c = (True, c1)"
    "current c1 = CHR ''&''"
  shows "advance 1 c1 = (False, c2) \<Longrightarrow> query_run c False [(token_text c c1, [])] c2"
    "advance 1 c1 = (True, c2) \<Longrightarrow> query_run c2 b ps c' \<Longrightarrow> query_run c b ((token_text c c1, []) # ps) c'"
  using assms addq_append [of "[_]", symmetric]
  by (simp_all add: query_run_def query_loop.simps [of c] addq_one Let_def del: One_nat_def)

lemma query_run_value:
  assumes "current c \<noteq> SP" "match_until [CHR ''='', SP, CHR ''&''] Insensitive c = (True, c1)"
    "current c1 \<noteq> SP" "current c1 \<noteq> CHR ''&''"
  shows "advance 1 c1 = (False, c2) \<Longrightarrow> query_run c False [] c2"
    "advance 1 c1 = (True, c2) \<Longrightarrow> match_until [SP, CHR ''&''] Insensitive c2 = (False, c3) \<Longrightarrow>
     query_run c False [] c3"
    "advance 1 c1 = (True, c2) \<Longrightarrow> match_until [SP, CHR ''&''] Insensitive c2 = (True, c3) \<Longrightarrow>
     current c3 = CHR ''&'' \<Longrightarrow> advance 1 c3 = (False, c4) \<Longrightarrow>
     query_run c False [(token_text c c1, token_text c2 c3)] c4"
    "advance 1 c1 = (True, c2) \<Longrightarrow> match_until [SP, CHR ''&''] Insensitive c2 = (True, c3) \<Longrightarrow>
     current c3 = CHR ''&'' \<Longrightarrow> advance 1 c3 = (True, c4) \<Longrightarrow> query_run c4 b ps c' \<Longrightarrow>
     query_run c b ((token_text c c1, token_text c2 c3) # ps) c'"
    "advance 1 c1 = (True, c2) \<Longrightarrow> match_until [SP, CHR ''&''] Insensitive c2 = (True, c3) \<Longrightarrow>
     current c3 \<noteq> CHR ''&'' \<Longrightarrow> query_run c3 b ps c' \<Longrightarrow>
     query_run c b ((token_text c c1, token_text c2 c3) # ps) c'"
  using assms addq_append [of "[_]", symmetric]
  by (simp_all add: query_run_def query_loop.simps [of c] addq_one Let_def del: One_nat_def)

text \<open>The ways a run of the loop begins.\<close>

lemma query_cases:
  obtains (sp) "current c = SP"
  | (stop) c1 where "current c \<noteq> SP" "match_until [CHR ''='', SP, CHR ''&''] Insensitive c = (False, c1)"
  | (key_sp) c1 where "current c \<noteq> SP" "match_until [CHR ''='', SP, CHR ''&''] Insensitive c = (True, c1)"
      "current c1 = SP"
  | (key_amp) c1 r c2 where "current c \<noteq> SP" "match_until [CHR ''='', SP, CHR ''&''] Insensitive c = (True, c1)"
      "current c1 = CHR ''&''" "advance 1 c1 = (r, c2)"
  | (val_end) c1 c2 where "current c \<noteq> SP" "match_until [CHR ''='', SP, CHR ''&''] Insensitive c = (True, c1)"
      "current c1 \<noteq> SP" "current c1 \<noteq> CHR ''&''" "advance 1 c1 = (False, c2)"
  | (val_open) c1 c2 c3 where "current c \<noteq> SP" "match_until [CHR ''='', SP, CHR ''&''] Insensitive c = (True, c1)"
      "current c1 \<noteq> SP" "current c1 \<noteq> CHR ''&''" "advance 1 c1 = (True, c2)"
      "match_until [SP, CHR ''&''] Insensitive c2 = (False, c3)"
  | (val_amp) c1 c2 c3 r c4 where "current c \<noteq> SP" "match_until [CHR ''='', SP, CHR ''&''] Insensitive c = (True, c1)"
      "current c1 \<noteq> SP" "current c1 \<noteq> CHR ''&''" "advance 1 c1 = (True, c2)"
      "match_until [SP, CHR ''&''] Insensitive c2 = (True, c3)" "current c3 = CHR ''&''" "advance 1 c3 = (r, c4)"
  | (val_sp) c1 c2 c3 where "current c \<noteq> SP" "match_until [CHR ''='', SP, CHR ''&''] Insensitive c = (True, c1)"
      "current c1 \<noteq> SP" "current c1 \<noteq> CHR ''&''" "advance 1 c1 = (True, c2)"
      "match_until [SP, CHR ''&''] Insensitive c2 = (True, c3)" "current c3 \<noteq> CHR ''&''"
proof -
  obtain r1 c1 where k: "match_until [CHR ''='', SP, CHR ''&''] Insensitive c = (r1, c1)" by fastforce
  obtain r2 c2 where a: "advance 1 c1 = (r2, c2)" by fastforce
  obtain r3 c3 where v: "match_until [SP, CHR ''&''] Insensitive c2 = (r3, c3)" by fastforce
  obtain r4 c4 where a4: "advance 1 c3 = (r4, c4)" by fastforce
  show thesis
  proof (cases "current c = SP \<or> \<not> r1 \<or> current c1 = SP \<or> current c1 = CHR ''&''")
    case True
    with k a sp stop key_sp key_amp show thesis by (cases r1 rule: bool.exhaust) blast+
  next
    case False
    with k have k': "current c \<noteq> SP" "match_until [CHR ''='', SP, CHR ''&''] Insensitive c = (True, c1)"
      "current c1 \<noteq> SP" "current c1 \<noteq> CHR ''&''" by auto
    show thesis
    proof (cases r2 rule: bool.exhaust)
      case True
      with a v a4 val_open [OF k'] val_amp [OF k'] val_sp [OF k'] show thesis
        by (cases r3 rule: bool.exhaust) blast+
    qed (use a val_end [OF k'] in blast)
  qed
qed

lemma remaining_match_advance:
  "match_until cs s c = (r, c1) \<Longrightarrow> advance 1 c1 = (True, c2) \<Longrightarrow> remaining c2 < remaining c"
  using remaining_match_until_eq [of cs s c r c1] remaining_advance1_True [of c1 c2] by simp

lemma query_run_ex: "\<exists>b ps c'. query_run c b ps c'"
proof (induction "remaining c" arbitrary: c rule: less_induct)
  case less
  show ?case
  proof (cases c rule: query_cases)
    case (key_amp c1 r c2)
    show ?thesis
    proof (cases r rule: bool.exhaust)
      case True
      then have "remaining c2 < remaining c" using remaining_match_advance key_amp(2,4) by blast
      with less True query_run_key_amp(2) [OF key_amp(1-3)] key_amp(4) show ?thesis by blast
    qed (use query_run_key_amp(1) [OF key_amp(1-3)] key_amp(4) in blast)
  next
    case (val_amp c1 c2 c3 r c4)
    show ?thesis
    proof (cases r rule: bool.exhaust)
      case True
      then have "remaining c4 < remaining c2" "remaining c2 < remaining c"
        using remaining_match_advance val_amp(2,5,6,8) by blast+
      then have "remaining c4 < remaining c" by simp
      then obtain b ps c' where "query_run c4 b ps c'" using less by blast
      then show ?thesis using True query_run_value(4) [OF val_amp(1-4)] val_amp(5-8) by blast
    qed (use query_run_value(3) [OF val_amp(1-4)] val_amp(5-8) in blast)
  next
    case (val_sp c1 c2 c3)
    then have "remaining c3 \<le> remaining c2" "remaining c2 < remaining c"
      using remaining_match_until_eq remaining_match_advance by blast+
    then have "remaining c3 < remaining c" by simp
    then obtain b ps c' where "query_run c3 b ps c'" using less by blast
    then show ?thesis using query_run_value(5) [OF val_sp(1-4)] val_sp(5-7) by blast
  qed (use query_run_SP query_run_end query_run_key_SP query_run_value(1,2) in blast)+
qed

lemma sbuf_match_until: "match_until cs s c = (r, c') \<Longrightarrow> wf2 d c \<Longrightarrow> sbuf c' = sbuf c"
  using muntil.keeps_buf [of c cs s] by (simp add: wf2_def)

lemma sbuf_advance: "advance n c = (r, c') \<Longrightarrow> wf2 d c \<Longrightarrow> sbuf c' = sbuf c"
  using adv.keeps_buf [of c n] by (simp add: wf2_def)

lemma not_eof_match_until: "match_until cs s c = (True, c') \<Longrightarrow> \<not> eof c"
  by (auto simp: match_until_def)

lemma advance1_not_eof: "advance 1 c = (r, c') \<Longrightarrow> \<not> eof c \<Longrightarrow> advance 1 c = (True, c')"
  by (auto simp: advance_small eof_def split: if_splits)

text \<open>A key that ends inside the input received so far, and what follows it.\<close>

lemma query_key_ext:
  assumes "wf2 d c" "current c \<noteq> SP" "match_until [CHR ''='', SP, CHR ''&''] Insensitive c = (True, c1)"
  shows "current (ext d c) \<noteq> SP" "match_until [CHR ''='', SP, CHR ''&''] Insensitive (ext d c) = (True, ext d c1)"
    "current (ext d c1) = current c1" "token_text (ext d c) (ext d c1) = token_text c c1" "wf2 d c1"
    "sbuf c1 = sbuf c" "\<not> eof c1"
proof -
  note m = match_until_ext [OF assms(1,3)]
  show "sbuf c1 = sbuf c" by (rule sbuf_match_until [OF assms(3,1)])
  with m show "current (ext d c) \<noteq> SP" "match_until [CHR ''='', SP, CHR ''&''] Insensitive (ext d c) = (True, ext d c1)"
    "current (ext d c1) = current c1" "token_text (ext d c) (ext d c1) = token_text c c1" "wf2 d c1" "\<not> eof c1"
    using assms not_eof_match_until [OF assms(3)] by (simp_all add: current_ext token_text_ext)
qed

lemma query_val_ext:
  assumes "wf2 d c1" "\<not> eof c1" "advance 1 c1 = (True, c2)" "match_until [SP, CHR ''&''] Insensitive c2 = (True, c3)"
  shows "advance 1 (ext d c1) = (True, ext d c2)"
    "match_until [SP, CHR ''&''] Insensitive (ext d c2) = (True, ext d c3)"
    "current (ext d c3) = current c3" "token_text (ext d c2) (ext d c3) = token_text c2 c3" "wf2 d c3"
    "sbuf c3 = sbuf c1" "\<not> eof c3"
proof -
  have a: "advance 1 (ext d c1) = (True, ext d c2) \<and> wf2 d c2" using assms(1,3) by (rule advance_ext) simp
  then have m: "match_until [SP, CHR ''&''] Insensitive (ext d c2) = (True, ext d c3) \<and> wf2 d c3 \<and> \<not> eof c3"
    using match_until_ext assms(4) by blast
  have b: "sbuf c3 = sbuf c2" using sbuf_match_until assms(4) a by blast
  then show "advance 1 (ext d c1) = (True, ext d c2)" "sbuf c3 = sbuf c1"
    "match_until [SP, CHR ''&''] Insensitive (ext d c2) = (True, ext d c3)"
    "current (ext d c3) = current c3" "token_text (ext d c2) (ext d c3) = token_text c2 c3" "wf2 d c3" "\<not> eof c3"
    using a m sbuf_advance [OF assms(3,1)] by (simp_all add: current_ext token_text_ext)
qed

definition query_both :: "string \<Rightarrow> scursor \<Rightarrow> bool" where
  "query_both d c \<longleftrightarrow> (\<exists>b ps c' b2 qs c2. query_run c b ps c' \<and> query_run (ext d c) b2 (ps @ qs) c2 \<and>
     (b \<longrightarrow> b2 \<and> qs = [] \<and> c2 = ext d c' \<and> wf2 d c' \<and> sbuf c' = sbuf c \<and> \<not> eof c'))"

lemma query_both_open: "query_run c False [] c1 \<Longrightarrow> query_both d c"
  using query_run_ex [of "ext d c"] unfolding query_both_def by (metis append_Nil)

lemma query_both_cons:
  assumes "query_both d c1" "sbuf c1 = sbuf c"
    "\<And>b ps c'. query_run c1 b ps c' \<Longrightarrow> query_run c b (p # ps) c'"
    "\<And>b ps c'. query_run (ext d c1) b ps c' \<Longrightarrow> query_run (ext d c) b (p # ps) c'"
  shows "query_both d c"
  using assms unfolding query_both_def by (metis append_Cons)

lemma query_run_ext: "wf2 d c \<Longrightarrow> query_both d c"
proof (induction "remaining c" arbitrary: c rule: less_induct)
  case less
  show ?case
  proof (cases c rule: query_cases)
    case sp
    then have "\<not> eof c" by (auto simp: current_def eof_rest)
    with sp less.prems have "current (ext d c) = SP" by (simp add: current_ext)
    with sp less.prems \<open>\<not> eof c\<close> show ?thesis
      using query_run_SP [of c] query_run_SP [of "ext d c"] unfolding query_both_def by (metis append_Nil)
  next
    case (stop c1)
    then show ?thesis using query_run_end query_both_open by blast
  next
    case (key_sp c1)
    note k = query_key_ext [OF less.prems key_sp(1,2)]
    show ?thesis
      using query_run_key_SP [OF key_sp] query_run_key_SP [of "ext d c" "ext d c1"] k key_sp(3)
      unfolding query_both_def by (metis append_Nil2)
  next
    case (key_amp c1 r c2)
    note k = query_key_ext [OF less.prems key_amp(1,2)]
    have a: "advance 1 c1 = (True, c2)" by (rule advance1_not_eof [OF key_amp(4) k(7)])
    note a' = advance_ext [OF k(5) a]
    have "query_both d c2"
      using less remaining_match_advance [OF key_amp(2) a] a' by simp
    then show ?thesis
      by (rule query_both_cons [where p = "(token_text c c1, [])"])
        (use sbuf_advance [OF a k(5)] query_run_key_amp(2) [OF key_amp(1-3) a]
          query_run_key_amp(2) [OF k(1,2), of "ext d c2"] k a' key_amp(3) in auto)
  next
    case (val_end c1 c2)
    then show ?thesis using query_run_value(1) query_both_open by blast
  next
    case (val_open c1 c2 c3)
    then show ?thesis using query_run_value(2) query_both_open by blast
  next
    case (val_amp c1 c2 c3 r c4)
    note k = query_key_ext [OF less.prems val_amp(1,2)]
    note v = query_val_ext [OF k(5,7) val_amp(5,6)]
    have a: "advance 1 c3 = (True, c4)" by (rule advance1_not_eof [OF val_amp(8) v(7)])
    note a' = advance_ext [OF v(5) a]
    have "remaining c4 < remaining c"
      using remaining_match_advance [OF val_amp(2,5)] remaining_match_advance [OF val_amp(6) a] by simp
    with less a' have "query_both d c4" by simp
    then show ?thesis
      by (rule query_both_cons [where p = "(token_text c c1, token_text c2 c3)"])
        (use sbuf_advance [OF a v(5)] query_run_value(4) [OF val_amp(1-7) a]
          query_run_value(4) [OF k(1,2), of "ext d c2" "ext d c3" "ext d c4"] k v a' val_amp(3,4,7) in auto)
  next
    case (val_sp c1 c2 c3)
    note k = query_key_ext [OF less.prems val_sp(1,2)]
    note v = query_val_ext [OF k(5,7) val_sp(5,6)]
    have "remaining c3 < remaining c"
      using remaining_match_advance [OF val_sp(2,5)] remaining_match_until_eq [OF val_sp(6)] by simp
    with less v have "query_both d c3" by simp
    then show ?thesis
      by (rule query_both_cons [where p = "(token_text c c1, token_text c2 c3)"])
        (use query_run_value(5) [OF val_sp] query_run_value(5) [OF k(1,2), of "ext d c2" "ext d c3"] k v val_sp(3,4,7) in auto)
  qed
qed

text \<open>
  A scanning function either settles, and then in the same way on every longer input, or it
  waits; a function that waits may have changed the message, by \<open>f\<close>, but runs on the changed
  message as on the original one.
\<close>

definition settles :: "(scursor \<Rightarrow> message \<Rightarrow> step_result) \<Rightarrow> string \<Rightarrow> scursor \<Rightarrow> bool" where
  "settles F d c \<longleftrightarrow> (\<exists>r f c'. r \<noteq> Inr Again \<and> wf2 d c' \<and> sbuf c' = sbuf c \<and>
     (\<forall>m. F c m = (r, f m, c') \<and> F (ext d c) m = (r, f m, ext d c')))"

definition waits :: "(scursor \<Rightarrow> message \<Rightarrow> step_result) \<Rightarrow> string \<Rightarrow> scursor \<Rightarrow> bool" where
  "waits F d c \<longleftrightarrow> (\<exists>f c'. \<forall>m. F c m = (Inr Again, f m, c') \<and> msg_method (f m) = msg_method m \<and>
     F (ext d c) (f m) = F (ext d c) m)"

lemma settlesI:
  "r \<noteq> Inr Again \<Longrightarrow> wf2 d c' \<Longrightarrow> sbuf c' = sbuf c \<Longrightarrow> (\<And>m. F c m = (r, f m, c')) \<Longrightarrow>
   (\<And>m. F (ext d c) m = (r, f m, ext d c')) \<Longrightarrow> settles F d c"
  unfolding settles_def by blast

lemma waitsI:
  "(\<And>m. F c m = (Inr Again, f m, c')) \<Longrightarrow> (\<And>m. msg_method (f m) = msg_method m) \<Longrightarrow>
   (\<And>m. F (ext d c) (f m) = F (ext d c) m) \<Longrightarrow> waits F d c"
  unfolding waits_def by blast

text \<open>Doing something to the message first, and then going on behind what has been scanned.\<close>

lemma settles_then:
  assumes "settles G d c1" "sbuf c1 = sbuf c" "\<And>m. F c m = G c1 (g m)" "\<And>m. F (ext d c) m = G (ext d c1) (g m)"
  shows "settles F d c"
proof -
  obtain r f c' where r: "r \<noteq> Inr Again" "wf2 d c'" "sbuf c' = sbuf c1"
    "\<And>m. G c1 m = (r, f m, c') \<and> G (ext d c1) m = (r, f m, ext d c')"
    using assms(1) unfolding settles_def by blast
  show ?thesis by (rule settlesI [where f = "\<lambda>m. f (g m)"]) (use r assms in auto)
qed

lemma waits_then:
  assumes "waits G d c1" "\<And>m. F c m = G c1 (g m)" "\<And>m. F (ext d c) m = G (ext d c1) (g m)"
    "\<And>m. msg_method (g m) = msg_method m"
    "\<And>f m. G (ext d c1) (f (g m)) = G (ext d c1) (g m) \<Longrightarrow> F (ext d c) (f (g m)) = F (ext d c) m"
  shows "waits F d c"
proof -
  obtain f c' where f: "\<And>m. G c1 m = (Inr Again, f m, c') \<and> msg_method (f m) = msg_method m \<and>
      G (ext d c1) (f m) = G (ext d c1) m"
    using assms(1) unfolding waits_def by blast
  show ?thesis by (rule waitsI [where f = "\<lambda>m. f (g m)"]) (use f assms in auto)
qed

lemma advance2_eol: "rest c = CR # LF # t \<Longrightarrow> wf_cursor c \<Longrightarrow> advance 2 c = (True, c\<lparr>spos := spos c + 2\<rparr>)"
  by (rule advance_ok) (simp_all add: remaining_length_rest)

lemma strncmp_eq_append: "n \<le> length s \<Longrightarrow> strncmp_eq (s @ t) u n = strncmp_eq s u n"
proof (induction n arbitrary: s u)
  case (Suc n)
  then show ?case by (cases s) (auto simp: Let_def)
qed simp

text \<open>The version is read from one complete line; the message is not touched before.\<close>

lemma request_version_cases:
  assumes "wf2 d c" "\<not> eof c"
  shows "settles request_version d c \<or> (\<exists>c'. \<forall>m. request_version c m = (Inr Again, m, c'))"
proof -
  obtain c1 where a: "advance 1 c = (True, c1)" using assms advance1_not_eof by (metis surj_pair)
  note a' = advance_ext [OF assms(1) a]
  obtain r c2 where l: "advance_while (\<lambda>c. \<not> eol c) c1 = (r, c2)" by fastforce
  show ?thesis
  proof (cases r rule: bool.exhaust)
    case False
    then show ?thesis using a l by (auto simp: request_version_def)
  next
    case True
    note l' = advance_while_eol_ext [OF _ l [unfolded True]]
    obtain t where t: "rest c2 = CR # LF # t" "wf2 d c2" "advance_while (\<lambda>c. \<not> eol c) (ext d c1) = (True, ext d c2)"
      using l' a' by auto
    define c3 where "c3 = c2\<lparr>spos := spos c2 + 2\<rparr>"
    have c3: "advance 2 c2 = (True, c3)" "advance 2 (ext d c2) = (True, ext d c3)" "wf2 d c3"
      using advance2_eol [OF t(1) wf2D(1) [OF t(2)]] advance_ext [OF t(2), of 2 c3] by (simp_all add: c3_def)
    have sb: "sbuf c1 = sbuf c" "sbuf c2 = sbuf c"
      using sbuf_advance [OF a assms(1)] advance_while_eol [of c1] l True a' wf2D(1)
      by (auto split: option.splits)
    have cmp: "strncmp_eq (rest (ext d c1)) v (spos c2 - spos c1) = strncmp_eq (rest c1) v (spos c2 - spos c1)" for v
      using a' t(2) sb by (subst rest_ext) (auto simp: wf2D rest_def wf2_def wf_cursor_def intro!: strncmp_eq_append)
    note defs = request_version_def a a' l True t(3) c3 cmp
    show ?thesis
    proof (cases "strncmp_eq (rest c1) ''HTTP/1.0'' (spos c2 - spos c1)")
      case v10: True
      show ?thesis
        by (rule disjI1, rule settlesI [where f = "\<lambda>m. m\<lparr>msg_version := Http10\<rparr>" and r = "Inr Next" and c' = c3])
          (use v10 c3 sb in \<open>simp_all add: defs Let_def del: One_nat_def\<close>, simp add: c3_def)
    next
      case no10: False
      show ?thesis
      proof (cases "strncmp_eq (rest c1) ''HTTP/1.1'' (spos c2 - spos c1)")
        case v11: True
        show ?thesis
          by (rule disjI1, rule settlesI [where f = "\<lambda>m. m\<lparr>msg_version := Http11\<rparr>" and r = "Inr Next" and c' = c3])
            (use no10 v11 c3 sb in \<open>simp_all add: defs Let_def del: One_nat_def\<close>, simp add: c3_def)
      next
        case no11: False
        show ?thesis
          by (rule disjI1, rule settlesI [where f = "\<lambda>m. m" and c' = c2
                and r = "Inl (raise ''Encountered invalid HTTP version'')"])
            (use no10 no11 t sb in \<open>simp_all add: defs Let_def del: One_nat_def\<close>)
      qed
    qed
  qed
qed

lemma addq_resource [simp]:
  "(addq ps m)\<lparr>msg_resource := x\<rparr> = addq ps (m\<lparr>msg_resource := x\<rparr>)"
  "msg_resource (addq ps m) = msg_resource m" "msg_method (addq ps m) = msg_method m"
  by (simp_all add: addq_def)

lemma addq_twice: "addq ps (addq ps m) = addq ps m"
  using addq_resume [of ps "[]" m] by simp

text \<open>The query, the version, and what they do to the message.\<close>

lemma request_query_cases:
  fixes res :: string
  defines "F \<equiv> \<lambda>c m. case query_loop c (m\<lparr>msg_resource := res\<rparr>) of
     (False, m'', c') \<Rightarrow> (Inr Again, m'', c') | (True, m'', c') \<Rightarrow> request_version c' m''"
  assumes "wf2 d c"
  shows "settles F d c \<or> waits F d c"
proof -
  obtain b ps c' b2 qs c2 where q: "query_run c b ps c'" "query_run (ext d c) b2 (ps @ qs) c2"
    "b \<longrightarrow> b2 \<and> qs = [] \<and> c2 = ext d c' \<and> wf2 d c' \<and> sbuf c' = sbuf c \<and> \<not> eof c'"
    using query_run_ext [OF assms(2)] unfolding query_both_def by blast
  let ?g = "\<lambda>m. addq ps (m\<lparr>msg_resource := res\<rparr>)"
  show ?thesis
  proof (cases b)
    case False
    have "waits F d c"
      by (rule waitsI [where f = ?g and c' = c'])
        (use q False in \<open>auto simp: F_def query_run_def addq_resume split: bool.split\<close>)
    then show ?thesis ..
  next
    case True
    then have qq: "F c m = request_version c' (?g m)" "F (ext d c) m = request_version (ext d c') (?g m)" for m
      using q by (simp_all add: F_def query_run_def)
    have "settles F d c \<or> (\<exists>c''. \<forall>m. request_version c' m = (Inr Again, m, c''))"
      using request_version_cases [of d c'] q True settles_then [of request_version d c' c F ?g, OF _ _ qq] by blast
    moreover have "waits F d c" if ex: "\<exists>c''. \<forall>m. request_version c' m = (Inr Again, m, c'')"
    proof -
      obtain c'' where w: "\<And>m. request_version c' m = (Inr Again, m, c'')" using ex by blast
      show ?thesis by (rule waitsI [where f = ?g and c' = c'']) (use w qq in \<open>auto simp: addq_twice\<close>)
    qed
    ultimately show ?thesis by blast
  qed
qed

lemma request_target_cases:
  assumes "wf2 d c" "\<not> eof c"
  shows "settles request_target d c \<or> waits request_target d c"
proof (cases "current c = SP")
  case False
  have "\<not> eof (ext d c)" using assms by (auto simp: eof_rest rest_ext wf2D)
  with False assms have "settles request_target d c"
    by (intro settlesI [where f = "\<lambda>m. m" and c' = c
          and r = "Inl (raise ''Malformed HTTP request after Method, expected SP'')"])
      (simp_all add: request_target_def current_ext)
  then show ?thesis ..
next
  case sp: True
  let ?p = "\<lambda>x. x \<noteq> CHR ''?'' \<and> x \<noteq> SP"
  have ne: "\<not> eof (ext d c)" "current (ext d c) = SP"
    using assms sp by (auto simp: eof_rest rest_ext wf2D current_ext)
  obtain c1 where a: "advance 1 c = (True, c1)" using assms advance1_not_eof by (metis surj_pair)
  note a' = advance_ext [OF assms(1) a]
  obtain r c2 where l: "advance_while (\<lambda>c. ?p (current c)) c1 = (r, c2)" by fastforce
  note defs = request_target_def assms(2) sp ne a
  show ?thesis
  proof (cases r rule: bool.exhaust)
    case False
    have "waits request_target d c"
      by (rule waitsI [where f = "\<lambda>m. m" and c' = c2]) (use l False in \<open>simp_all add: defs del: One_nat_def\<close>)
    then show ?thesis ..
  next
    case True
    have l': "advance_while (\<lambda>c. ?p (current c)) (ext d c1) = (True, ext d c2)" "wf2 d c2" "\<not> eof c2"
      using advance_while_char_ext [of d c1 ?p c2] a' l True by simp_all
    have sb: "sbuf c1 = sbuf c" "sbuf c2 = sbuf c"
      using sbuf_advance [OF a assms(1)] advance_while_char [of c1 ?p] l a' wf2D(1) by auto
    define res where "res = token_text c1 c2"
    have res: "token_text (ext d c1) (ext d c2) = res"
      unfolding res_def by (rule token_text_ext) (use a' l' sb in auto)
    note defs = defs l [unfolded True] a' [THEN conjunct1] l'(1) res res_def [symmetric] current_ext [OF l'(2,3)]
    show ?thesis
    proof (cases "current c2 = CHR ''?''")
      case False
      have F: "request_target c m = request_version c2 (m\<lparr>msg_resource := res\<rparr>)"
        "request_target (ext d c) m = request_version (ext d c2) (m\<lparr>msg_resource := res\<rparr>)" for m
        using False by (simp_all add: defs Let_def del: One_nat_def)
      show ?thesis
        using request_version_cases [OF l'(2,3)]
      proof
        assume "settles request_version d c2"
        then show ?thesis
          using settles_then [where G = request_version and F = request_target and g = "\<lambda>m. m\<lparr>msg_resource := res\<rparr>",
              OF _ sb(2) F] by blast
      next
        assume "\<exists>c'. \<forall>m. request_version c2 m = (Inr Again, m, c')"
        then obtain c' where "\<And>m. request_version c2 m = (Inr Again, m, c')" by blast
        then have "waits request_target d c"
          by (intro waitsI [where f = "\<lambda>m. m\<lparr>msg_resource := res\<rparr>" and c' = c']) (simp_all add: F)
        then show ?thesis ..
      qed
    next
      case q: True
      obtain c3 where a3: "advance 1 c2 = (True, c3)" using l'(3) advance1_not_eof by (metis surj_pair)
      note a3' = advance_ext [OF l'(2) a3]
      have F: "request_target c m = (case query_loop c3 (m\<lparr>msg_resource := res\<rparr>) of
           (False, m'', c') \<Rightarrow> (Inr Again, m'', c') | (True, m'', c') \<Rightarrow> request_version c' m'')"
        "request_target (ext d c) m = (case query_loop (ext d c3) (m\<lparr>msg_resource := res\<rparr>) of
           (False, m'', c') \<Rightarrow> (Inr Again, m'', c') | (True, m'', c') \<Rightarrow> request_version c' m'')" for m
        using q a3 a3' by (simp_all add: defs Let_def del: One_nat_def)
      have s3: "sbuf c3 = sbuf c" using sbuf_advance [OF a3 l'(2)] sb by simp
      define F where "F = (\<lambda>c m. case query_loop c (m\<lparr>msg_resource := res\<rparr>) of
         (False, m'', c') \<Rightarrow> (Inr Again, m'', c') | (True, m'', c') \<Rightarrow> request_version c' m'')"
      have F: "request_target c m = F c3 m" "request_target (ext d c) m = F (ext d c3) m" for m
        unfolding F_def by (rule F)+
      have "settles F d c3 \<or> waits F d c3" unfolding F_def by (rule request_query_cases) (use a3' in simp)
      then show ?thesis
        using settles_then [where G = F and F = request_target and g = "\<lambda>m. m", OF _ s3 F]
          waits_then [where G = F and F = request_target and g = "\<lambda>m. m", OF _ F] by (auto simp: F)
    qed
  qed
qed

text \<open>
  Repeating the request line step on the longer input is running it there once, and a result
  other than \<open>Again\<close> stands.
\<close>

lemma reverting_eq:
  "reverting c (r, m, c') = (r, m, if r = Inr Next then c' else c)"
  by (simp add: reverting_def)

lemma RequestLineStep_ext:
  assumes wf: "wf2 d c" and step: "RequestLineStep_apply c m = (r, m', c')"
  shows "r = Inr Again \<Longrightarrow> c' = c \<and> RequestLineStep_apply (ext d c) m' = RequestLineStep_apply (ext d c) m"
    and "r \<noteq> Inr Again \<Longrightarrow> RequestLineStep_apply (ext d c) m = (r, m', ext d c') \<and> wf2 d c' \<and> sbuf c' = sbuf c"
proof -
  obtain b c1 where k: "match_until [SP] Insensitive c = (b, c1)" by fastforce
  have both: "(r = Inr Again \<longrightarrow> c' = c \<and> RequestLineStep_apply (ext d c) m' = RequestLineStep_apply (ext d c) m)
    \<and> (r \<noteq> Inr Again \<longrightarrow> RequestLineStep_apply (ext d c) m = (r, m', ext d c') \<and> wf2 d c' \<and> sbuf c' = sbuf c)"
  proof (cases b rule: bool.exhaust)
    case False
    with k step show ?thesis by (auto simp: RequestLineStep_apply_def reverting_eq)
  next
    case True
    note k' = match_until_ext [OF wf k [unfolded True]]
    have sb: "sbuf c1 = sbuf c" using sbuf_match_until [OF k wf] .
    have tok: "token_text (ext d c) (ext d c1) = token_text c c1" by (rule token_text_ext) (use wf k' sb in auto)
    show ?thesis
    proof (cases "um_find (=) httpMethods (token_text c c1)")
      case None
      with k k' True tok step wf show ?thesis
        by (auto simp: RequestLineStep_apply_def reverting_eq)
    next
      case (Some meth)
      have eq: "RequestLineStep_apply c m = reverting c (request_target c1 (m\<lparr>msg_method := Some meth\<rparr>))"
        "RequestLineStep_apply (ext d c) m = reverting (ext d c) (request_target (ext d c1) (m\<lparr>msg_method := Some meth\<rparr>))" for m
        using k k' True tok Some by (simp_all add: RequestLineStep_apply_def)
      have "settles request_target d c1 \<or> waits request_target d c1"
        using request_target_cases k' by blast
      then show ?thesis
      proof
        assume "settles request_target d c1"
        with step eq sb wf show ?thesis unfolding settles_def by (auto simp: reverting_eq)
      next
        assume "waits request_target d c1"
        then obtain f c2 where f: "\<And>m. request_target c1 m = (Inr Again, f m, c2) \<and> msg_method (f m) = msg_method m \<and>
            request_target (ext d c1) (f m) = request_target (ext d c1) m"
          unfolding waits_def by blast
        let ?m = "m\<lparr>msg_method := Some meth\<rparr>"
        have "msg_method (f ?m) = Some meth" using f by simp
        then have "(f ?m)\<lparr>msg_method := Some meth\<rparr> = f ?m" by simp
        with step eq f show ?thesis by (auto simp: reverting_eq)
      qed
    qed
  qed
  then show "r = Inr Again \<Longrightarrow> c' = c \<and> RequestLineStep_apply (ext d c) m' = RequestLineStep_apply (ext d c) m"
    and "r \<noteq> Inr Again \<Longrightarrow> RequestLineStep_apply (ext d c) m = (r, m', ext d c') \<and> wf2 d c' \<and> sbuf c' = sbuf c"
    by blast+
qed

section \<open>Headers\<close>

text \<open>One line: what is found on the input received so far is found on a longer one.\<close>

lemma add_header_same:
  assumes "same_mem n a b" "n < 2 ^ 63"
  shows "add_header E name a n m = add_header E name b n m"
  using same_mem_take [OF assms(1) order.refl] header_parseRaw_same [OF assms]
  by (simp add: add_header_def jar_addFromRaw_def Cookie_fromRaw_def split: sum.split)

lemma spaces_ext:
  assumes "wf2 d c" "advance_while (\<lambda>c. current c = SP) c = (True, c')" "\<not> eof c'"
  shows "advance_while (\<lambda>c. current c = SP) (ext d c) = (True, ext d c') \<and> wf2 d c' \<and> sbuf c' = sbuf c"
proof -
  have ff: "EOF_char \<noteq> SP" by simp
  let ?n = "length (takeWhile (\<lambda>x. x = SP) (rest c))"
  have c': "c' = c\<lparr>spos := spos c + ?n\<rparr>"
    using assms(2) advance_while_char_stop [of c "\<lambda>x. x = SP"] wf2D(1) [OF assms(1)] ff by simp
  have "drop ?n (rest c) \<noteq> []" using assms(3) by (simp add: c' eof_rest rest_move)
  then have "takeWhile (\<lambda>x. x = SP) (rest c) \<noteq> rest c" by (metis drop_all order.refl)
  then have "takeWhile (\<lambda>x. x = SP) (rest c @ d) = takeWhile (\<lambda>x. x = SP) (rest c)"
    by (auto simp: takeWhile_append)
  then show ?thesis
    using advance_while_char_stop [of "ext d c" "\<lambda>x. x = SP"] wf2D [OF assms(1)] ff wf2_move [OF assms(1), of ?n]
    by (simp add: c' rest_ext ext_move length_takeWhile_le)
qed

lemma header_line_cases:
  assumes "wf2 d c"
  obtains (wait) c' where "\<And>m. header_line E c m = (Inr Again, m, c')"
  | (line) name mem mem' n c4 c5 where "wf2 d c4" "wf2 d c5" "sbuf c4 = sbuf c" "sbuf c5 = sbuf c"
      "same_mem n mem mem'" "n < 2 ^ 63"
      "\<And>m. header_line E c m = (case add_header E name mem n m of
          (Some e, m') \<Rightarrow> (Inl e, m', c4) | (None, m') \<Rightarrow> (Inr Next, m', c5))"
      "\<And>m. header_line E (ext d c) m = (case add_header E name mem' n m of
          (Some e, m') \<Rightarrow> (Inl e, m', ext d c4) | (None, m') \<Rightarrow> (Inr Next, m', ext d c5))"
proof -
  let ?p = "\<lambda>x. x \<noteq> CHR '':''"
  obtain r1 c1 where l1: "advance_while (\<lambda>c. ?p (current c)) c = (r1, c1)" by fastforce
  show thesis
  proof (cases r1 rule: bool.exhaust)
    case False
    show thesis by (rule wait [of c1]) (use l1 False in \<open>simp add: header_line_def\<close>)
  next
    case r1: True
    have e1: "advance_while (\<lambda>c. ?p (current c)) (ext d c) = (True, ext d c1)" "wf2 d c1" "\<not> eof c1"
      using advance_while_char_ext [of d c ?p c1] assms l1 r1 by simp_all
    have s1: "sbuf c1 = sbuf c" using advance_while_char [of c ?p] l1 wf2D(1) [OF assms] by auto
    obtain c2 where a2: "advance 1 c1 = (True, c2)" using e1(3) advance1_not_eof by (metis surj_pair)
    note e2 = advance_ext [OF e1(2) a2, simplified]
    have s2: "sbuf c2 = sbuf c" using sbuf_advance [OF a2 e1(2)] s1 by simp
    define c3 where "c3 = snd (advance_while (\<lambda>c. current c = SP) c2)"
    have l3: "advance_while (\<lambda>c. current c = SP) c2 = (True, c3)"
      using advance_while_char_stop [of c2 "\<lambda>x. x = SP"] e2 by (simp add: c3_def wf2_def)
    obtain r4 c4 where l4: "advance_while (\<lambda>c. \<not> eol c) c3 = (r4, c4)" by fastforce
    show thesis
    proof (cases r4 rule: bool.exhaust)
      case False
      show thesis by (rule wait [of c4]) (use l1 r1 a2 l3 l4 False in \<open>simp add: header_line_def Let_def\<close>)
    next
      case r4: True
      have wf3: "wf_cursor c3" "sbuf c3 = sbuf c2"
        using advance_while_char_stop [of c2 "\<lambda>x. x = SP"] e2 wf2D(1) l3
          wf_move [of c2 "length (takeWhile (\<lambda>x. x = SP) (rest c2))"]
        by (auto simp: remaining_length_rest length_takeWhile_le)
      obtain l t where l: "rest c3 = l @ CR # LF # t" "c4 = c3\<lparr>spos := spos c3 + length l\<rparr>"
        using l4 r4 advance_while_eol [OF wf3(1)] before_crlf_Some by (fastforce split: option.splits)
      have e3: "advance_while (\<lambda>c. current c = SP) (ext d c2) = (True, ext d c3)" "wf2 d c3"
        using spaces_ext [OF _ l3, of d] e2 l(1) by (auto simp: eof_rest)
      note e4 = advance_while_eol_ext [OF e3(2) l4 [unfolded r4]]
      have r4': "rest c4 = CR # LF # t" using rest_at [OF l(1)] l(2) by simp
      define c5 where "c5 = c4\<lparr>spos := spos c4 + 2\<rparr>"
      have a5: "advance 2 c4 = (True, c5)" using advance2_eol [OF r4'] e4 by (simp add: c5_def wf2_def)
      have e5: "advance 2 (ext d c4) = (True, ext d c5)" "wf2 d c5"
        using advance_ext [of d c4 2 c5] e4 a5 by simp_all
      have name: "take (diff c2 (spos c) - 1) (rest (ext d c)) = take (diff c2 (spos c) - 1) (rest c)"
        using e2 s2 assms by (subst rest_ext) (auto simp: wf2_def wf_cursor_def diff_def rest_def)
      have len: "diff c4 (spos c3) = length l" by (simp add: l(2) diff_def)
      have same: "same_mem (length l) (rest c3) (rest (ext d c3))"
        unfolding same_mem_def using l(1) rest_ext [OF wf3(1)] by auto
      have "length (rest c3) < 2 ^ 63" using wf3(1) by (auto simp: wf_cursor_def rest_def)
      then have small: "length l < 2 ^ 63" by (simp add: l(1))
      show thesis
      proof (rule line [of c4 c5 "length l" "rest c3" "rest (ext d c3)" "take (diff c2 (spos c) - 1) (rest c)"])
        show "header_line E c m = (case add_header E (take (diff c2 (spos c) - 1) (rest c)) (rest c3) (length l) m of
            (Some e, m') \<Rightarrow> (Inl e, m', c4) | (None, m') \<Rightarrow> (Inr Next, m', c5))" for m
          using l1 r1 a2 l3 l4 r4 a5 len by (simp add: header_line_def Let_def split: prod.split option.split)
        show "header_line E (ext d c) m = (case add_header E (take (diff c2 (spos c) - 1) (rest c)) (rest (ext d c3)) (length l) m of
            (Some e, m') \<Rightarrow> (Inl e, m', ext d c4) | (None, m') \<Rightarrow> (Inr Next, m', ext d c5))" for m
          using e1 e2 e3 e4 e5 len name by (simp add: header_line_def Let_def diff_def split: prod.split option.split)
      qed (use e4 e5 s2 wf3 same small l(2) c5_def in auto)
    qed
  qed
qed

text \<open>
  Containers in which adding what is there changes nothing: a sequence of additions can be
  repeated.
\<close>

locale absorbing =
  fixes has :: "'k \<Rightarrow> 's \<Rightarrow> bool" and add :: "'k \<Rightarrow> 's \<Rightarrow> 's"
  assumes has_add: "has k (add k s)"
    and has_mono: "has k s \<Longrightarrow> has k (add k' s)"
    and absorb: "has k s \<Longrightarrow> add k s = s"
begin

lemma has_fold: "has k s \<Longrightarrow> has k (fold add ks s)"
  by (induction ks arbitrary: s) (auto intro: has_mono)

lemma has_fold_mem: "k \<in> set ks \<Longrightarrow> has k (fold add ks s)"
proof (induction ks arbitrary: s)
  case (Cons a ks)
  then show ?case by (cases "k = a") (auto intro: has_fold has_add)
qed simp

lemma fold_absorb: "\<forall>k \<in> set ks. has k s \<Longrightarrow> fold add ks s = s"
  by (induction ks) (auto simp: absorb)

lemma fold_twice: "fold add ks (fold add ks s) = fold add ks s"
  by (rule fold_absorb) (auto intro: has_fold_mem)

end

definition jar_holds :: "cookie \<Rightarrow> cookie_jar \<Rightarrow> bool" where
  "jar_holds ck jar \<longleftrightarrow> (\<exists>vs. um_find (=) jar (ck_name ck) = Some vs \<and> um_find (=) vs (ck_value ck) \<noteq> None)"

lemma um_find_assign: "um_find (=) (um_assign (=) k v m) k' = (if k = k' then Some v else um_find (=) m k')"
  by (induction m) auto

lemma um_assign_same: "um_find (=) m k = Some v \<Longrightarrow> um_assign (=) k v m = m"
  by (induction m) (auto split: if_splits)

interpretation jar_abs: absorbing jar_holds jar_add
proof
  fix k k' :: cookie and s :: cookie_jar
  show "jar_holds k (jar_add k s)"
    by (auto simp: jar_holds_def jar_add_def um_find_assign str_map.look_ins split: option.splits)
  show "jar_holds k s \<Longrightarrow> jar_holds k (jar_add k' s)"
    by (auto simp: jar_holds_def jar_add_def um_find_assign str_map.look_ins split: option.splits)
  show "jar_holds k s \<Longrightarrow> jar_add k s = s"
    by (auto simp: jar_holds_def jar_add_def um_assign_same um_insert_def split: option.splits)
qed

text \<open>What a header line adds to the collection: a parsed header, if registered, and the raw one.\<close>

definition coll_add :: "Header option \<times> Raw \<Rightarrow> Collection \<Rightarrow> Collection" where
  "coll_add hr c = Collection_addRaw (snd hr) (case fst hr of Some h \<Rightarrow> Collection_add h c | None \<Rightarrow> c)"

definition coll_holds :: "Header option \<times> Raw \<Rightarrow> Collection \<Rightarrow> bool" where
  "coll_holds hr c \<longleftrightarrow> um_find LowercaseEqual (co_rawHeaders c) (fst (snd hr)) \<noteq> None
     \<and> (\<forall>h. fst hr = Some h \<longrightarrow> um_find LowercaseEqual (co_headers c) (header_name h) \<noteq> None)"

interpretation coll_abs: absorbing coll_holds coll_add
proof
  fix k k' :: "Header option \<times> Raw" and s :: Collection
  note defs = coll_holds_def coll_add_def Collection_add_def Collection_addRaw_def
  show "coll_holds k (coll_add k s)"
    by (auto simp: defs hdr_map.look_ins hdr_map.key_refl split: option.splits)
  show "coll_holds k s \<Longrightarrow> coll_holds k (coll_add k' s)"
    by (auto simp: defs hdr_map.look_ins split: option.splits)
  show "coll_holds k s \<Longrightarrow> coll_add k s = s"
    by (auto simp: defs hdr_map.ins_present split: option.splits)
qed

text \<open>The cookies: a \<open>Cookie\<close> header replaces the jar, a \<open>Set-Cookie\<close> header adds to it.\<close>

datatype jar_op = Jar_Set cookie_jar | Jar_Add cookie | Jar_Keep

fun jar_do :: "jar_op \<Rightarrow> cookie_jar \<Rightarrow> cookie_jar" where
  "jar_do (Jar_Set j) jar = j"
| "jar_do (Jar_Add ck) jar = jar_add ck jar"
| "jar_do Jar_Keep jar = jar"

lemma jar_do_const: "Jar_Set j \<in> set ops \<Longrightarrow> fold jar_do ops a = fold jar_do ops b"
proof (induction ops arbitrary: a b)
  case (Cons op ops)
  show ?case
  proof (cases "op = Jar_Set j")
    case False
    with Cons show ?thesis by (metis fold_simps(2) set_ConsD)
  qed simp
qed simp

lemma jar_do_adds:
  "\<forall>j. Jar_Set j \<notin> set ops \<Longrightarrow> fold jar_do ops a = fold jar_add [ck. Jar_Add ck \<leftarrow> ops] a"
proof (induction ops arbitrary: a)
  case (Cons op ops)
  then show ?case by (cases op) auto
qed simp

lemma jar_do_twice: "fold jar_do ops (fold jar_do ops a) = fold jar_do ops a"
proof (cases "\<exists>j. Jar_Set j \<in> set ops")
  case True
  then show ?thesis using jar_do_const by blast
next
  case False
  then show ?thesis by (simp add: jar_do_adds jar_abs.fold_twice)
qed

type_synonym line_op = "jar_op \<times> Header option \<times> Raw"

definition line_do :: "line_op \<Rightarrow> message \<Rightarrow> message" where
  "line_do op m = m\<lparr>msg_cookies := jar_do (fst op) (msg_cookies m), msg_headers := coll_add (snd op) (msg_headers m)\<rparr>"

lemma fold_line_do:
  "fold line_do ops m = m\<lparr>msg_cookies := fold jar_do (map fst ops) (msg_cookies m),
     msg_headers := fold coll_add (map snd ops) (msg_headers m)\<rparr>"
  by (induction ops arbitrary: m) (simp_all add: line_do_def)

lemma line_do_twice: "fold line_do ops (fold line_do ops m) = fold line_do ops m"
  by (simp add: fold_line_do jar_do_twice coll_abs.fold_twice)

lemma add_header_op:
  assumes "add_header E name mem n m = (None, m')"
  obtains op where "\<And>m0. add_header E name mem n m0 = (None, line_do op m0)"
proof -
  let ?raw = "(name, take n mem)"
  note defs = add_header_def line_do_def coll_add_def Let_def
  consider (ck) "LowercaseEqualStatic name ''cookie''" | (sck) "\<not> LowercaseEqualStatic name ''cookie''" "LowercaseEqualStatic name ''set-cookie''"
    | (reg) "\<not> LowercaseEqualStatic name ''cookie''" "\<not> LowercaseEqualStatic name ''set-cookie''" "isRegistered Registry name"
    | (raw) "\<not> LowercaseEqualStatic name ''cookie''" "\<not> LowercaseEqualStatic name ''set-cookie''" "\<not> isRegistered Registry name"
    by blast
  then show thesis
  proof cases
    case ck
    then obtain j where j: "jar_addFromRaw mem n [] = (None, j)"
      using assms by (auto simp: add_header_def jar_removeAllCookies_def Let_def split: prod.splits option.splits)
    show thesis
      by (rule that [of "(Jar_Set j, None, ?raw)"]) (use ck j in \<open>simp add: defs jar_removeAllCookies_def\<close>)
  next
    case sck
    then obtain k where k: "Cookie_fromRaw (he_date E) mem n = Inr k"
      using assms by (auto simp: add_header_def Let_def split: sum.splits)
    show thesis by (rule that [of "(Jar_Add k, None, ?raw)"]) (use sck k in \<open>simp add: defs\<close>)
  next
    case reg
    then obtain h h' where h: "makeHeader Registry name = Inr h" "header_parseRaw E mem n h = Inr h'"
      using assms by (auto simp: add_header_def Let_def split: sum.splits)
    show thesis by (rule that [of "(Jar_Keep, Some h', ?raw)"]) (use reg h in \<open>simp add: defs\<close>)
  next
    case raw
    show thesis by (rule that [of "(Jar_Keep, None, ?raw)"]) (use raw in \<open>simp add: defs\<close>)
  qed
qed

text \<open>
  The loop: where it waits, the lines before have been done and the longer input is scanned to
  the same place; otherwise its result stands.
\<close>

lemma headers_loop_ext:
  assumes "wf2 d c" "headers_loop E c m = (r, m', c')"
  shows "if r = Inr Again
     then \<exists>ops c1. m' = fold line_do ops m \<and>
       (\<forall>m0. headers_loop E (ext d c) m0 = headers_loop E (ext d c1) (fold line_do ops m0))
     else headers_loop E (ext d c) m = (r, m', ext d c') \<and> wf2 d c' \<and> sbuf c' = sbuf c"
  using assms
proof (induction "remaining c" arbitrary: c m rule: less_induct)
  case less
  show ?case
  proof (cases "eol c")
    case True
    then obtain t where t: "rest c = CR # LF # t" by (auto simp: eol_rest)
    define c2 where "c2 = c\<lparr>spos := spos c + 2\<rparr>"
    have a: "advance 2 c = (True, c2)" using advance2_eol [OF t] less.prems(1) by (simp add: c2_def wf2_def)
    have a': "advance 2 (ext d c) = (True, ext d c2)" "wf2 d c2" using advance_ext [OF less.prems(1) a] by simp_all
    have "eol (ext d c)" using True less.prems(1) by (intro eol_ext)
    with True a a' less.prems(2) show ?thesis by (auto simp: headers_loop.simps c2_def)
  next
    case no_eol: False
    show ?thesis
    proof (cases rule: header_line_cases [OF less.prems(1), where E = E, case_names wait line])
      case (wait c1)
      then have "r = Inr Again \<and> m' = m" using no_eol less.prems(2) by (simp add: headers_loop.simps [of E c])
      moreover have "\<forall>m0. headers_loop E (ext d c) m0 = headers_loop E (ext d c) (fold line_do [] m0)" by simp
      ultimately show ?thesis by (metis fold_simps(1))
    next
      case (line name mem mem' n c4 c5)
      have no_eol': "\<not> eol (ext d c)"
      proof
        assume "eol (ext d c)"
        then obtain t where t: "rest c @ d = CR # LF # t" using less.prems(1) by (auto simp: eol_rest rest_ext wf2D)
        have "rest c \<noteq> [] \<and> rest c \<noteq> [CR]"
        proof -
          obtain v where "header_line E c v \<noteq> (Inr Again, v, snd (snd (header_line E c v)))"
            using line(7) by (force split: prod.splits option.splits)
          then show ?thesis using less.prems(1) no_eol
            by (auto simp: header_line_def advance_while_char [where q = "\<lambda>x. x \<noteq> CHR '':''"] wf2D)
        qed
        with t have "eol c" by (cases "rest c"; cases "tl (rest c)") (auto simp: eol_rest)
        with no_eol show False by simp
      qed
      note same = add_header_same [OF line(5,6)]
      obtain x m1 where ah: "add_header E name mem n m = (x, m1)" by fastforce
      show ?thesis
      proof (cases x)
        case (Some e)
        then show ?thesis
          using ah no_eol no_eol' line same less.prems(2) by (auto simp: headers_loop.simps [of E c] headers_loop.simps [of E "ext d c"])
      next
        case None
        obtain op where op: "\<And>m0. add_header E name mem n m0 = (None, line_do op m0)"
          using add_header_op ah None by metis
        have hl: "headers_loop E c m0 = headers_loop E c5 (line_do op m0)"
          "headers_loop E (ext d c) m0 = headers_loop E (ext d c5) (line_do op m0)" for m0
          using op no_eol no_eol' line(7,8) same by (simp_all add: headers_loop.simps [of E c] headers_loop.simps [of E "ext d c"])
        have lt: "remaining c5 < remaining c"
          using remaining_header_line [of E c m] line(7) op by simp
        have "headers_loop E c5 (line_do op m) = (r, m', c')" using less.prems(2) hl by simp
        note IH = less.hyps [OF lt line(2) this]
        show ?thesis
        proof (cases "r = Inr Again")
          case True
          then obtain ops c1 where "m' = fold line_do ops (line_do op m)"
            "\<forall>m0. headers_loop E (ext d c5) m0 = headers_loop E (ext d c1) (fold line_do ops m0)"
            using IH by auto
          then have "m' = fold line_do (op # ops) m"
            "\<forall>m0. headers_loop E (ext d c) m0 = headers_loop E (ext d c1) (fold line_do (op # ops) m0)"
            using hl(2) by simp_all
          then show ?thesis unfolding if_P [OF True] by blast
        next
          case False
          with IH hl line(4) show ?thesis by simp
        qed
      qed
    qed
  qed
qed

lemma HeadersStep_ext:
  assumes wf: "wf2 d c" and step: "HeadersStep_apply E c m = (r, m', c')"
  shows "r = Inr Again \<Longrightarrow> c' = c \<and> HeadersStep_apply E (ext d c) m' = HeadersStep_apply E (ext d c) m"
    and "r \<noteq> Inr Again \<Longrightarrow> HeadersStep_apply E (ext d c) m = (r, m', ext d c') \<and> wf2 d c' \<and> sbuf c' = sbuf c"
proof -
  obtain c2 where l: "headers_loop E c m = (r, m', c2)" and c': "c' = (if r = Inr Next then c2 else c)"
    using step by (auto simp: HeadersStep_apply_def reverting_def split: prod.splits)
  note L = headers_loop_ext [OF wf l]
  show "c' = c \<and> HeadersStep_apply E (ext d c) m' = HeadersStep_apply E (ext d c) m" if "r = Inr Again"
    using L that c' line_do_twice by (auto simp: HeadersStep_apply_def)
  show "HeadersStep_apply E (ext d c) m = (r, m', ext d c') \<and> wf2 d c' \<and> sbuf c' = sbuf c" if "r \<noteq> Inr Again"
    using L that c' wf by (auto simp: HeadersStep_apply_def reverting_eq)
qed

end
