(* ===== verification/Parser_Split.thy ===== *)
theory Parser_Split
  imports Parser_Incremental
begin

text \<open>
  The body step and the whole parser under input that arrives in pieces.  The contract
  \<open>incremental\<close> states what a resumable computation owes its caller; the request parser is
  shown to satisfy it, as long as the body is not chunked, and inherits that any way of cutting
  the input gives the result of the whole.
\<close>

section \<open>A body with a known length\<close>

text \<open>The body is shorter than what has been consumed, so that appending never throws.\<close>

definition body_fits :: "string \<Rightarrow> message \<Rightarrow> scursor \<Rightarrow> bool" where
  "body_fits d m c \<longleftrightarrow> wf2 d c \<and> length (sbuf (ext d c)) \<le> string_max_size \<and> length (msg_body m) \<le> spos c"

lemma readBody_eq:
  assumes "wf_cursor c" "length (sbuf c) \<le> string_max_size" "length (msg_body m) \<le> spos c"
  shows "readBody sz b m c =
    (if remaining c < sz
     then (Inr False, b\<lparr>bs_bytesRead := bs_bytesRead b + remaining c\<rparr>, m\<lparr>msg_body := msg_body m @ rest c\<rparr>,
           c\<lparr>spos := length (sbuf c)\<rparr>)
     else (Inr True, b, m\<lparr>msg_body := msg_body m @ take sz (rest c)\<rparr>, c\<lparr>spos := spos c + sz\<rparr>))"
proof -
  have le: "spos c \<le> length (sbuf c)" using assms(1) by (simp add: wf_cursor_def)
  have app: "str_append (msg_body m) (rest c) n = Inr (msg_body m @ take n (rest c))" if "n \<le> remaining c" for n
    using that assms(2,3) le by (simp add: str_append_def remaining_def)
  have adv: "advance n c = (True, c\<lparr>spos := spos c + n\<rparr>)" if "n \<le> remaining c" for n
    using advance_ok [OF assms(1) that] .
  have tok: "length (token_text c (c\<lparr>spos := spos c + n\<rparr>)) = n" if "n \<le> remaining c" for n
    using that by (simp add: remaining_length_rest)
  have fin: "spos c + remaining c = length (sbuf c)" using le by (simp add: remaining_def)
  show ?thesis
  proof (cases "remaining c < sz")
    case True
    have "readBody sz b m c = (Inr False, b\<lparr>bs_bytesRead := bs_bytesRead b + remaining c\<rparr>,
        m\<lparr>msg_body := msg_body m @ take (remaining c) (rest c)\<rparr>, c\<lparr>spos := spos c + remaining c\<rparr>)"
      using True adv [of "remaining c"] app [of "remaining c"] tok [of "remaining c"] by (simp add: readBody_def Let_def)
    then show ?thesis using True fin by (simp add: remaining_length_rest)
  next
    case False
    then have "sz \<le> remaining c" by simp
    then have "readBody sz b m c = (Inr True, b, m\<lparr>msg_body := msg_body m @ take sz (rest c)\<rparr>, c\<lparr>spos := spos c + sz\<rparr>)"
      using False adv [of sz] app [of sz] tok [of sz] by (simp add: readBody_def Let_def)
    then show ?thesis using False by simp
  qed
qed

definition bytes_wanted :: "nat \<Rightarrow> body_step \<Rightarrow> nat" where
  "bytes_wanted cl b = sz_of_ssz (int cl) - bs_bytesRead b"

definition bytes_ok :: "body_step \<Rightarrow> message \<Rightarrow> bool" where
  "bytes_ok b m \<longleftrightarrow> (\<forall>n. tryGet_ContentLength (msg_headers m) = Some n \<longrightarrow>
     bs_bytesRead b = 0 \<or> bs_bytesRead b < sz_of_ssz (int n))"

lemma sz_of_ssz_diff: "br \<le> sz_of_ssz (int n) \<Longrightarrow> sz_of_ssz (int n - int br) = sz_of_ssz (int n) - br"
proof -
  assume "br \<le> sz_of_ssz (int n)"
  then have br: "int br \<le> int n mod 2 ^ 64" by (simp add: sz_of_ssz_def)
  have "(int n - int br) mod 2 ^ 64 = (int n mod 2 ^ 64 - int br) mod 2 ^ 64" by (simp add: mod_diff_left_eq)
  also have "\<dots> = int n mod 2 ^ 64 - int br"
  proof (rule mod_pos_pos_trivial)
    have "int n mod 2 ^ 64 < 2 ^ 64" by simp
    then show "int n mod 2 ^ 64 - int br < 2 ^ 64" by linarith
  qed (use br in simp)
  finally show ?thesis by (simp add: sz_of_ssz_def nat_diff_distrib)
qed

lemma parseContentLength_eq:
  assumes "wf_cursor c" "length (sbuf c) \<le> string_max_size" "length (msg_body m) \<le> spos c"
    and "bs_bytesRead b = 0 \<or> bs_bytesRead b < sz_of_ssz (int n)"
  shows "parseContentLength n b m c =
    (if remaining c < bytes_wanted n b
     then (Inr Again, b\<lparr>bs_bytesRead := bs_bytesRead b + remaining c\<rparr>, m\<lparr>msg_body := msg_body m @ rest c\<rparr>,
           c\<lparr>spos := length (sbuf c)\<rparr>)
     else (Inr Done, b\<lparr>bs_bytesRead := 0\<rparr>, m\<lparr>msg_body := msg_body m @ take (bytes_wanted n b) (rest c)\<rparr>,
           c\<lparr>spos := spos c + bytes_wanted n b\<rparr>))"
proof -
  have "(if 0 < bs_bytesRead b then sz_of_ssz (int n - int (bs_bytesRead b)) else sz_of_ssz (int n)) = bytes_wanted n b"
    using assms(4) sz_of_ssz_diff [of "bs_bytesRead b" n] by (auto simp: bytes_wanted_def)
  then show ?thesis by (simp add: parseContentLength_def Let_def readBody_eq [OF assms(1-3)])
qed

text \<open>A body that has not arrived completely: reading the rest later is reading it at once.\<close>

lemma BodyStep_ext:
  assumes fits: "body_fits d m c" and ok: "bytes_ok b m"
    and te: "tryGet_TransferEncoding (msg_headers m) \<noteq> Some Chunked"
    and step: "BodyStep_apply b m c = (r, b', m', c')"
  shows "r = Inr Again \<Longrightarrow> BodyStep_apply b' m' (ext d c') = BodyStep_apply b m (ext d c)"
    and "r \<noteq> Inr Again \<Longrightarrow> BodyStep_apply b m (ext d c) = (r, b', m', ext d c')"
    and "body_fits d m' c'" "bytes_ok b' m'" "msg_headers m' = msg_headers m"
proof -
  note wf = wf2D(1) [of d c] wf2D(2) [of d c]
  have w: "wf_cursor c" "wf_cursor (ext d c)" "length (sbuf c) \<le> string_max_size" "length (sbuf (ext d c)) \<le> string_max_size"
    "length (msg_body m) \<le> spos c"
    using fits by (auto simp: body_fits_def wf2_def ext_def)
  have all: "(r = Inr Again \<longrightarrow> BodyStep_apply b' m' (ext d c') = BodyStep_apply b m (ext d c))
    \<and> (r \<noteq> Inr Again \<longrightarrow> BodyStep_apply b m (ext d c) = (r, b', m', ext d c'))
    \<and> body_fits d m' c' \<and> bytes_ok b' m' \<and> msg_headers m' = msg_headers m"
  proof (cases "tryGet_ContentLength (msg_headers m)")
    case None
    with te fits ok step show ?thesis
      by (auto simp: BodyStep_apply_def parseTransferEncoding_def split: option.splits)
  next
    case cl: (Some n)
    show ?thesis
    proof (cases "tryGet_TransferEncoding (msg_headers m)")
      case (Some t)
      with cl fits ok step show ?thesis by (auto simp: BodyStep_apply_def)
    next
      case none: None
      have okn: "bs_bytesRead b = 0 \<or> bs_bytesRead b < sz_of_ssz (int n)" using ok cl by (simp add: bytes_ok_def)
      note P = parseContentLength_eq [OF w(1,3,5) okn]
      have P': "parseContentLength n b m (ext d c) =
        (if remaining (ext d c) < bytes_wanted n b
         then (Inr Again, b\<lparr>bs_bytesRead := bs_bytesRead b + remaining (ext d c)\<rparr>, m\<lparr>msg_body := msg_body m @ rest (ext d c)\<rparr>,
           (ext d c)\<lparr>spos := length (sbuf (ext d c))\<rparr>)
         else (Inr Done, b\<lparr>bs_bytesRead := 0\<rparr>, m\<lparr>msg_body := msg_body m @ take (bytes_wanted n b) (rest (ext d c))\<rparr>,
           (ext d c)\<lparr>spos := spos c + bytes_wanted n b\<rparr>))"
        using parseContentLength_eq [of "ext d c" m b n] w okn by simp
      have B: "BodyStep_apply b m x = parseContentLength n b m x" for x
        using cl none by (simp add: BodyStep_apply_def)
      have re: "rest (ext d c) = rest c @ d" by (rule rest_ext [OF w(1)])
      have ln: "length (rest c) = remaining c" "remaining (ext d c) = remaining c + length d"
        using re by (simp_all add: remaining_length_rest)
      show ?thesis
      proof (cases "remaining c < bytes_wanted n b")
        case False
        then have "r = Inr Done" "b' = b\<lparr>bs_bytesRead := 0\<rparr>" "c' = c\<lparr>spos := spos c + bytes_wanted n b\<rparr>"
          "m' = m\<lparr>msg_body := msg_body m @ take (bytes_wanted n b) (rest c)\<rparr>"
          using step P B by auto
        with False fits ok w ln show ?thesis
          by (auto simp: B P' re ext_move body_fits_def bytes_ok_def intro!: wf2_move)
      next
        case True
        then have s: "r = Inr Again" "b' = b\<lparr>bs_bytesRead := bs_bytesRead b + remaining c\<rparr>"
          "m' = m\<lparr>msg_body := msg_body m @ rest c\<rparr>" "c' = c\<lparr>spos := length (sbuf c)\<rparr>"
          using step P B by auto
        have fin: "spos c + remaining c = length (sbuf c)" using w(1) by (simp add: wf_cursor_def remaining_def)
        have wf': "wf2 d c'" using wf2_move [of d c "remaining c"] fits fin by (simp add: body_fits_def s remaining_length_rest)
        have ok': "bs_bytesRead b' = 0 \<or> bs_bytesRead b' < sz_of_ssz (int n)"
          using True okn by (auto simp: s bytes_wanted_def)
        have fits': "body_fits d m' c'"
          using fits wf' fin ln w by (auto simp: body_fits_def s ext_move)
        have wd: "bytes_wanted n b = remaining c + bytes_wanted n b'" using True by (simp add: s bytes_wanted_def)
        have rc': "rest (ext d c') = d" using wf' by (subst rest_ext) (auto simp: wf2D s rest_def)
        have "BodyStep_apply b' m' (ext d c') = parseContentLength n b' m' (ext d c')"
          using cl none by (simp add: BodyStep_apply_def s)
        also have "\<dots> = parseContentLength n b m (ext d c)"
        proof -
          have rl: "remaining (ext d c') = length d" using rc' by (simp add: remaining_length_rest)
          have q: "parseContentLength n b' m' (ext d c') =
             (if length d < bytes_wanted n b'
              then (Inr Again, b'\<lparr>bs_bytesRead := bs_bytesRead b' + length d\<rparr>, m'\<lparr>msg_body := msg_body m' @ d\<rparr>,
                (ext d c')\<lparr>spos := length (sbuf (ext d c'))\<rparr>)
              else (Inr Done, b'\<lparr>bs_bytesRead := 0\<rparr>, m'\<lparr>msg_body := msg_body m' @ take (bytes_wanted n b') d\<rparr>,
                (ext d c')\<lparr>spos := spos c' + bytes_wanted n b'\<rparr>))"
            using parseContentLength_eq [of "ext d c'" m' b' n] fits' ok' by (simp add: body_fits_def wf2D rl rc')
          have e: "(ext d c')\<lparr>spos := k\<rparr> = (ext d c)\<lparr>spos := k\<rparr>" for k by (simp add: s ext_def)
          have sp: "spos c' + bytes_wanted n b' = spos c + bytes_wanted n b" using wd fin by (simp add: s)
          have sb: "sbuf (ext d c') = sbuf (ext d c)" by (simp add: s ext_def)
          show ?thesis
            unfolding q P' ln(2) wd e sp sb re using ln(1) by (simp add: s ac_simps)
        qed
        finally have "BodyStep_apply b' m' (ext d c') = BodyStep_apply b m (ext d c)" by (simp add: B)
        with s ok' cl fits' show ?thesis by (simp add: bytes_ok_def)
      qed
    qed
  qed
  then show "r = Inr Again \<Longrightarrow> BodyStep_apply b' m' (ext d c') = BodyStep_apply b m (ext d c)"
    and "r \<noteq> Inr Again \<Longrightarrow> BodyStep_apply b m (ext d c) = (r, b', m', ext d c')"
    and "body_fits d m' c'" "bytes_ok b' m'" "msg_headers m' = msg_headers m"
    by blast+
qed

section \<open>What the steps leave alone\<close>

lemma query_loop_body: "query_loop c m = (b, m', c') \<Longrightarrow> msg_body m' = msg_body m"
  using query_run_ex [of c] by (auto simp: query_run_def addq_def)

lemma request_version_body: "request_version c m = (r, m', c') \<Longrightarrow> msg_body m' = msg_body m"
  by (auto simp: request_version_def Let_def split: prod.splits bool.splits if_splits)

lemma request_target_body: "request_target c m = (r, m', c') \<Longrightarrow> msg_body m' = msg_body m"
  by (auto simp: request_target_def Let_def simp del: One_nat_def split: prod.splits bool.splits if_splits
      dest!: query_loop_body request_version_body)

lemma RequestLineStep_body: "RequestLineStep_apply c m = (r, m', c') \<Longrightarrow> msg_body m' = msg_body m"
  by (auto simp: RequestLineStep_apply_def reverting_def split: prod.splits bool.splits option.splits
      dest!: request_target_body)

lemma add_header_body: "add_header E name mem n m = (e, m') \<Longrightarrow> msg_body m' = msg_body m"
  by (auto simp: add_header_def Let_def split: if_splits prod.splits option.splits sum.splits)

lemma header_line_body: "header_line E c m = (r, m', c') \<Longrightarrow> msg_body m' = msg_body m"
  by (auto simp: header_line_def Let_def simp del: One_nat_def split: prod.splits bool.splits option.splits
      dest!: add_header_body)

lemma headers_loop_body: "headers_loop E c m = (r, m', c') \<Longrightarrow> msg_body m' = msg_body m"
proof (induction E c m arbitrary: r m' c' rule: headers_loop.induct)
  case (1 E c m)
  then show ?case
    by (subst (asm) headers_loop.simps [of E c m])
      (auto split: if_splits prod.splits bool.splits sum.splits PState.splits dest!: header_line_body)
qed

lemma HeadersStep_body: "HeadersStep_apply E c m = (r, m', c') \<Longrightarrow> msg_body m' = msg_body m"
  by (auto simp: HeadersStep_apply_def reverting_def split: prod.splits dest!: headers_loop_body)

lemma chunk_data_headers: "chunk_data b m c = (r, b', m', c') \<Longrightarrow> msg_headers m' = msg_headers m"
  by (auto simp: chunk_data_def Let_def split: if_splits sum.splits)

lemma Chunk_parse_headers: "Chunk_parse b m c = (r, b', m', c') \<Longrightarrow> msg_headers m' = msg_headers m"
  by (auto simp: Chunk_parse_def split: if_splits sum.splits option.splits prod.splits dest!: chunk_data_headers)

text \<open>What every chunk keeps, the loop keeps.\<close>

lemma transfer_loop_keeps:
  assumes chunk: "\<And>b m c x b' m' c'. Chunk_parse b m c = (x, b', m', c') \<Longrightarrow> P b m c \<Longrightarrow> P b' m' c'"
    and reset: "\<And>b m c. P b m c \<Longrightarrow> P (Chunk_reset b) m c"
  shows "transfer_loop b m c = (r, b', m', c') \<Longrightarrow> P b m c \<Longrightarrow> P b' m' c'"
proof (induction b m c arbitrary: r b' m' c' rule: transfer_loop.induct)
  case (1 b m c)
  obtain x b1 m1 c1 where p: "Chunk_parse b m c = (x, b1, m1, c1)" by (metis surj_pair)
  note k = chunk [OF p "1.prems"(2)]
  show ?case
  proof (cases "x = Inr Complete \<and> \<not> eof c1")
    case True
    then have "transfer_loop (Chunk_reset b1) m1 c1 = (r, b', m', c')"
      using "1.prems"(1) p by (simp add: transfer_loop.simps [of b m c])
    then show ?thesis using "1.IH" p True reset [OF k] by auto
  next
    case False
    then have "m' = m1 \<and> c' = c1 \<and> (b' = b1 \<or> b' = Chunk_reset b1)" using "1.prems"(1) p
      by (subst (asm) transfer_loop.simps) (auto split: sum.splits ChunkResult.splits if_splits)
    with k reset show ?thesis by auto
  qed
qed

lemma transfer_loop_headers:
  assumes "transfer_loop b m c = (r, b', m', c')"
  shows "msg_headers m' = msg_headers m"
  by (rule transfer_loop_keeps [where P = "\<lambda>_ x _. msg_headers x = msg_headers m", OF _ _ assms])
    (auto dest: Chunk_parse_headers)

lemma BodyStep_headers: "BodyStep_apply b m c = (r, b', m', c') \<Longrightarrow> msg_headers m' = msg_headers m"
  by (auto simp: BodyStep_apply_def parseContentLength_def parseTransferEncoding_def readBody_def Let_def
      split: option.splits prod.splits sum.splits bool.splits if_splits dest!: transfer_loop_headers)

section \<open>Resumable computations\<close>

text \<open>
  \<open>grow d\<close> appends \<open>d\<close> to the input.  \<open>good d s\<close> says that \<open>s\<close> is well-formed and has
  room for \<open>d\<close>; \<open>tame\<close> is the part of the inputs the contract covers.
\<close>

locale incremental =
  fixes grow :: "string \<Rightarrow> 's \<Rightarrow> 's" and run :: "'s \<Rightarrow> (exn + PState) \<times> 's"
    and good :: "string \<Rightarrow> 's \<Rightarrow> bool" and tame :: "'s \<Rightarrow> bool"
  assumes grow_grow: "grow b (grow a s) = grow (a @ b) s"
    and good_grow: "good (a @ b) s \<Longrightarrow> good b (grow a s)"
    and settled: "good d s \<Longrightarrow> run s = (r, s') \<Longrightarrow> tame s' \<Longrightarrow> r \<noteq> Inr Again \<Longrightarrow> run (grow d s) = (r, grow d s')"
    and resumed: "good d s \<Longrightarrow> run s = (Inr Again, s') \<Longrightarrow> tame s' \<Longrightarrow> run (grow d s') = run (grow d s) \<and> good d s'"
    and tame_back: "good d s \<Longrightarrow> run s = (r, s') \<Longrightarrow> tame (snd (run (grow d s))) \<Longrightarrow> tame s'"

text \<open>Feeding pieces: after a result other than \<open>Again\<close> the rest of the input stays unread.\<close>

fun run_pieces :: "(string \<Rightarrow> 's \<Rightarrow> 's) \<Rightarrow> ('s \<Rightarrow> (exn + PState) \<times> 's) \<Rightarrow> string list \<Rightarrow> 's \<Rightarrow> (exn + PState) \<times> 's" where
  "run_pieces grow run [] s = (Inr Again, s)"
| "run_pieces grow run (d # ds) s =
     (case run (grow d s) of
        (r, s') \<Rightarrow> if r = Inr Again then (if ds = [] then (r, s') else run_pieces grow run ds s')
                   else (r, if ds = [] then s' else grow (concat ds) s'))"

context incremental
begin

lemma pieces:
  "ds \<noteq> [] \<Longrightarrow> good (concat ds) s \<Longrightarrow> tame (snd (run (grow (concat ds) s))) \<Longrightarrow>
   run_pieces grow run ds s = run (grow (concat ds) s)"
proof (induction ds arbitrary: s)
  case (Cons d ds)
  obtain r s1 where r: "run (grow d s) = (r, s1)" by fastforce
  have whole: "grow (concat ds) (grow d s) = grow (concat (d # ds)) s" by (simp add: grow_grow)
  have g: "good (concat ds) (grow d s)" using Cons.prems(2) by (simp add: good_grow)
  have t: "tame s1" using tame_back [OF g r] Cons.prems(3) whole by simp
  show ?case
  proof (cases "ds = []")
    case True
    with r show ?thesis by simp
  next
    case ne: False
    show ?thesis
    proof (cases "r = Inr Again")
      case True
      with resumed [OF g _ t] r whole
      have "run (grow (concat ds) s1) = run (grow (concat (d # ds)) s)" "good (concat ds) s1" by simp_all
      with Cons.IH [OF ne, of s1] Cons.prems(3) r True ne show ?thesis by simp
    next
      case False
      with settled [OF g r t] whole r ne show ?thesis by simp
    qed
  qed
qed simp

end

section \<open>The request parser\<close>

abbreviation area :: "parser \<Rightarrow> scursor" where
  "area p \<equiv> ab_area (pa_buffer p)"

definition grow_parser :: "string \<Rightarrow> parser \<Rightarrow> parser" where
  "grow_parser d p = set_cursor (ext d (area p)) p"

text \<open>The state of a request parser between two calls, with room for \<open>d\<close>.\<close>

definition parser_ok :: "string \<Rightarrow> parser \<Rightarrow> bool" where
  "parser_ok d p \<longleftrightarrow> pa_request p \<and> pa_currentStep p \<le> 2 \<and> body_fits d (pa_message p) (area p)
     \<and> (pa_currentStep p < 2 \<longrightarrow> msg_body (pa_message p) = [] \<and> bs_bytesRead (pa_body p) = 0)
     \<and> bytes_ok (pa_body p) (pa_message p)"

definition not_chunked :: "parser \<Rightarrow> bool" where
  "not_chunked p \<longleftrightarrow> (pa_currentStep p = 2 \<longrightarrow> tryGet_TransferEncoding (msg_headers (pa_message p)) \<noteq> Some Chunked)"

lemma set_cursor_simps [simp]:
  "pa_request (set_cursor c p) = pa_request p" "pa_currentStep (set_cursor c p) = pa_currentStep p"
  "pa_body (set_cursor c p) = pa_body p" "pa_message (set_cursor c p) = pa_message p" "area (set_cursor c p) = c"
  "set_cursor a (set_cursor b p) = set_cursor a p"
  "set_cursor c (p\<lparr>pa_message := m\<rparr>) = (set_cursor c p)\<lparr>pa_message := m\<rparr>"
  "set_cursor c (p\<lparr>pa_body := bs\<rparr>) = (set_cursor c p)\<lparr>pa_body := bs\<rparr>"
  "set_cursor c (p\<lparr>pa_currentStep := k\<rparr>) = (set_cursor c p)\<lparr>pa_currentStep := k\<rparr>"
  by (simp_all add: set_cursor_def)

lemma bytes_ok_0: "bs_bytesRead b = 0 \<Longrightarrow> bytes_ok b m"
  by (simp add: bytes_ok_def)

text \<open>The first two steps share their laws.\<close>

definition head_step :: "http_env \<Rightarrow> nat \<Rightarrow> scursor \<Rightarrow> message \<Rightarrow> step_result" where
  "head_step E k = (if k = 0 then RequestLineStep_apply else HeadersStep_apply E)"

lemma head_step_ext:
  assumes "wf2 d c" "head_step E k c m = (r, m', c')"
  shows "r = Inr Again \<Longrightarrow> c' = c \<and> head_step E k (ext d c) m' = head_step E k (ext d c) m"
    and "r \<noteq> Inr Again \<Longrightarrow> head_step E k (ext d c) m = (r, m', ext d c') \<and> wf2 d c' \<and> sbuf c' = sbuf c"
    and "msg_body m' = msg_body m"
  using RequestLineStep_ext [OF assms(1)] HeadersStep_ext [OF assms(1)] RequestLineStep_body HeadersStep_body assms(2)
  by (auto simp: head_step_def split: if_splits)

lemma step_apply_head:
  "pa_request p \<Longrightarrow> pa_currentStep p < 2 \<Longrightarrow> step_apply E p =
     (case head_step E (pa_currentStep p) (area p) (pa_message p) of
        (r, m', c') \<Rightarrow> (r, (set_cursor c' p)\<lparr>pa_message := m'\<rparr>))"
  by (auto simp: step_apply_def head_step_def Let_def less_2_cases_iff split: prod.split)

lemma step_apply_body:
  "pa_currentStep p = 2 \<Longrightarrow> step_apply E p =
     (case BodyStep_apply (pa_body p) (pa_message p) (area p) of
        (r, b', m', c') \<Rightarrow> (r, (set_cursor c' p)\<lparr>pa_message := m', pa_body := b'\<rparr>))"
  by (simp add: step_apply_def Let_def split: prod.split)

lemma step_apply_ext:
  assumes ok: "parser_ok d p" and step: "step_apply E p = (r, p')" and tame: "not_chunked p"
  shows "r = Inr Again \<Longrightarrow> step_apply E (grow_parser d p') = step_apply E (grow_parser d p)"
    and "r \<noteq> Inr Again \<Longrightarrow> step_apply E (grow_parser d p) = (r, grow_parser d p')"
    and "parser_ok d p'" "pa_currentStep p' = pa_currentStep p"
proof -
  have req: "pa_request p" and fits: "body_fits d (pa_message p) (area p)"
    and bok: "bytes_ok (pa_body p) (pa_message p)" using ok by (auto simp: parser_ok_def)
  have wf: "wf2 d (area p)" using fits by (simp add: body_fits_def)
  have "(r = Inr Again \<longrightarrow> step_apply E (grow_parser d p') = step_apply E (grow_parser d p))
    \<and> (r \<noteq> Inr Again \<longrightarrow> step_apply E (grow_parser d p) = (r, grow_parser d p'))
    \<and> parser_ok d p' \<and> pa_currentStep p' = pa_currentStep p"
  proof (cases "pa_currentStep p < 2")
    case True
    have z: "msg_body (pa_message p) = []" "bs_bytesRead (pa_body p) = 0" using ok True by (auto simp: parser_ok_def)
    obtain m' c' where h: "head_step E (pa_currentStep p) (area p) (pa_message p) = (r, m', c')"
      and p': "p' = (set_cursor c' p)\<lparr>pa_message := m'\<rparr>"
      using step step_apply_head [OF req True] by (auto split: prod.splits)
    note L = head_step_ext [OF wf h]
    have c': "wf2 d c' \<and> sbuf c' = sbuf (area p)" using L wf by (cases "r = Inr Again") auto
    then have "length (sbuf (ext d c')) = length (sbuf (ext d (area p)))" by (simp add: ext_def)
    then have good: "parser_ok d p'"
      using ok True z c' L(3) by (auto simp: parser_ok_def p' body_fits_def bytes_ok_0)
    have S: "step_apply E (grow_parser d q) =
        (case head_step E (pa_currentStep p) (ext d (area q)) (pa_message q) of
           (r, m', c') \<Rightarrow> (r, (set_cursor c' q)\<lparr>pa_message := m'\<rparr>))"
      if "pa_request q" "pa_currentStep q = pa_currentStep p" for q
      using that True step_apply_head [of "grow_parser d q"] by (simp add: grow_parser_def split: prod.split)
    have "step_apply E (grow_parser d p') = step_apply E (grow_parser d p)" if "r = Inr Again"
      using S [of p] S [of p'] L(1) [OF that] req by (simp add: p' split: prod.split)
    moreover have "step_apply E (grow_parser d p) = (r, grow_parser d p')" if "r \<noteq> Inr Again"
      using S [of p] L(2) [OF that] req by (simp add: p' grow_parser_def)
    ultimately show ?thesis using good by (simp add: p')
  next
    case False
    then have two: "pa_currentStep p = 2" using ok by (simp add: parser_ok_def)
    with tame have te: "tryGet_TransferEncoding (msg_headers (pa_message p)) \<noteq> Some Chunked" by (simp add: not_chunked_def)
    obtain b' m' c' where h: "BodyStep_apply (pa_body p) (pa_message p) (area p) = (r, b', m', c')"
      and p': "p' = (set_cursor c' p)\<lparr>pa_message := m', pa_body := b'\<rparr>"
      using step step_apply_body [OF two] by (auto split: prod.splits)
    note L = BodyStep_ext [OF fits bok te h]
    have good: "parser_ok d p'" using ok two L(3,4) by (auto simp: parser_ok_def p')
    have S: "step_apply E (grow_parser d q) =
        (case BodyStep_apply (pa_body q) (pa_message q) (ext d (area q)) of
           (r, b', m', c') \<Rightarrow> (r, (set_cursor c' q)\<lparr>pa_message := m', pa_body := b'\<rparr>))"
      if "pa_currentStep q = 2" for q
      using that step_apply_body [of "grow_parser d q"] by (simp add: grow_parser_def split: prod.split)
    have "step_apply E (grow_parser d p') = step_apply E (grow_parser d p)" if "r = Inr Again"
      using S [of p] S [of p'] L(1) [OF that] two by (simp add: p' split: prod.split)
    moreover have "step_apply E (grow_parser d p) = (r, grow_parser d p')" if "r \<noteq> Inr Again"
      using S [of p] L(2) [OF that] two by (simp add: p' grow_parser_def)
    ultimately show ?thesis using good by (simp add: p')
  qed
  then show "r = Inr Again \<Longrightarrow> step_apply E (grow_parser d p') = step_apply E (grow_parser d p)"
    and "r \<noteq> Inr Again \<Longrightarrow> step_apply E (grow_parser d p) = (r, grow_parser d p')"
    and "parser_ok d p'" "pa_currentStep p' = pa_currentStep p" by blast+
qed

abbreviation next_step :: "parser \<Rightarrow> parser" where
  "next_step p \<equiv> p\<lparr>pa_currentStep := pa_currentStep p + 1\<rparr>"

lemma parser_parse_cases:
  assumes "parser_parse E p = (r, p')"
  obtains (last) "step_apply E p = (r, p')" "r \<noteq> Inr Next"
  | (more) p1 where "step_apply E p = (Inr Next, p1)" "parser_parse E (next_step p1) = (r, p')"
  using assms by (subst (asm) parser_parse.simps) (auto split: prod.splits sum.splits PState.splits)

lemma parser_parse_last: "step_apply E p = (r, p') \<Longrightarrow> r \<noteq> Inr Next \<Longrightarrow> parser_parse E p = (r, p')"
  by (subst parser_parse.simps) (auto split: sum.splits PState.splits)

lemma parser_parse_more: "step_apply E p = (Inr Next, p1) \<Longrightarrow> parser_parse E p = parser_parse E (next_step p1)"
  by (subst parser_parse.simps) simp

lemma parser_parse_cong: "step_apply E p = step_apply E q \<Longrightarrow> parser_parse E p = parser_parse E q"
  by (simp add: parser_parse.simps)

lemma step_apply_chunked:
  assumes "step_apply E p = (r, p')" "not_chunked p'" "pa_currentStep p \<le> 2"
  shows "not_chunked p"
proof (cases "pa_currentStep p = 2")
  case True
  obtain b' m' c' where h: "BodyStep_apply (pa_body p) (pa_message p) (area p) = (r, b', m', c')"
    and p': "p' = (set_cursor c' p)\<lparr>pa_message := m', pa_body := b'\<rparr>"
    using assms(1) step_apply_body [OF True] by (auto split: prod.splits)
  with assms(2) True BodyStep_headers [OF h] show ?thesis by (simp add: not_chunked_def)
qed (simp add: not_chunked_def)

lemma parser_ok_next:
  assumes "parser_ok d p" "step_apply E p = (Inr Next, p1)"
  shows "parser_ok d (next_step p1)" "not_chunked p" "grow_parser d (next_step p1) = next_step (grow_parser d p1)"
proof -
  have lt: "pa_currentStep p < 2" "pa_currentStep p1 < 2" using step_apply_Next [OF assms(2)] by auto
  then show tame: "not_chunked p" by (simp add: not_chunked_def)
  have "parser_ok d p1" by (rule step_apply_ext(3) [OF assms tame])
  with lt show "parser_ok d (next_step p1)" by (auto simp: parser_ok_def)
  show "grow_parser d (next_step p1) = next_step (grow_parser d p1)" by (simp add: grow_parser_def)
qed

lemma parser_parse_ext:
  assumes "parser_ok d p" "parser_parse E p = (r, p')" "not_chunked p'"
  shows "if r = Inr Again then parser_parse E (grow_parser d p') = parser_parse E (grow_parser d p) \<and> parser_ok d p'
     else parser_parse E (grow_parser d p) = (r, grow_parser d p')"
  using assms
proof (induction E p arbitrary: r p' rule: parser_parse.induct)
  case (1 E p)
  from "1.prems"(2) show ?case
  proof (cases rule: parser_parse_cases)
    case last
    have "pa_currentStep p \<le> 2" using "1.prems"(1) by (simp add: parser_ok_def)
    note L = step_apply_ext [OF "1.prems"(1) last(1) step_apply_chunked [OF last(1) "1.prems"(3) this]]
    with last(2) show ?thesis by (auto intro: parser_parse_cong parser_parse_last)
  next
    case (more p1)
    note N = parser_ok_next [OF "1.prems"(1) more(1)]
    have S: "step_apply E (grow_parser d p) = (Inr Next, grow_parser d p1)"
      using step_apply_ext(2) [OF "1.prems"(1) more(1) N(2)] by simp
    show ?thesis
      using "1.IH" [OF more(1) [symmetric] refl refl N(1) more(2) "1.prems"(3)]
      unfolding N(3) parser_parse_more [OF S] .
  qed
qed

text \<open>A chunked body is recognised in the same place.\<close>

lemma parser_parse_tame_back:
  assumes "parser_ok d p" "parser_parse E p = (r, p')" "not_chunked (snd (parser_parse E (grow_parser d p)))"
  shows "not_chunked p'"
  using assms
proof (induction E p arbitrary: r p' rule: parser_parse.induct)
  case (1 E p)
  from "1.prems"(2) show ?case
  proof (cases rule: parser_parse_cases)
    case last
    show ?thesis
    proof (cases "pa_currentStep p = 2")
      case True
      obtain b1 m1 c1 where h1: "BodyStep_apply (pa_body p) (pa_message p) (area p) = (r, b1, m1, c1)"
        and p1: "p' = (set_cursor c1 p)\<lparr>pa_message := m1, pa_body := b1\<rparr>"
        using last(1) step_apply_body [OF True] by (auto split: prod.splits)
      obtain r2 b2 m2 c2 where h2: "BodyStep_apply (pa_body p) (pa_message p) (ext d (area p)) = (r2, b2, m2, c2)"
        by (metis surj_pair)
      have s2: "step_apply E (grow_parser d p) = (r2, (set_cursor c2 p)\<lparr>pa_message := m2, pa_body := b2\<rparr>)"
        using step_apply_body [of "grow_parser d p"] True h2 by (simp add: grow_parser_def)
      have "r2 \<noteq> Inr Next" using BodyStep_not_Next [of "pa_body p" "pa_message p" "ext d (area p)"] h2 by simp
      then have "not_chunked ((set_cursor c2 p)\<lparr>pa_message := m2, pa_body := b2\<rparr>)"
        using "1.prems"(3) parser_parse_last [OF s2] by simp
      then show ?thesis using BodyStep_headers [OF h1] BodyStep_headers [OF h2] True by (simp add: not_chunked_def p1)
    next
      case False
      then have "not_chunked p" "pa_currentStep p \<noteq> 2" by (simp_all add: not_chunked_def)
      with step_apply_ext(4) [OF "1.prems"(1) last(1)] show ?thesis by (simp add: not_chunked_def)
    qed
  next
    case (more p1)
    note N = parser_ok_next [OF "1.prems"(1) more(1)]
    have S: "step_apply E (grow_parser d p) = (Inr Next, grow_parser d p1)"
      using step_apply_ext(2) [OF "1.prems"(1) more(1) N(2)] by simp
    show ?thesis
      using "1.IH" [OF more(1) [symmetric] refl refl N(1) more(2)] "1.prems"(3)
      unfolding N(3) parser_parse_more [OF S] .
  qed
qed

lemma parser_ok_grow: "parser_ok (a @ b) p \<Longrightarrow> parser_ok b (grow_parser a p)"
  by (auto simp: parser_ok_def grow_parser_def body_fits_def wf2_def wf_cursor_def ext_def)

interpretation req_parser: incremental grow_parser "parser_parse E" parser_ok not_chunked for E
proof
  fix a b d :: string and s s' :: parser and r
  show "grow_parser b (grow_parser a s) = grow_parser (a @ b) s" by (simp add: grow_parser_def ext_ext)
  show "parser_ok (a @ b) s \<Longrightarrow> parser_ok b (grow_parser a s)" by (rule parser_ok_grow)
  show "parser_ok d s \<Longrightarrow> parser_parse E s = (r, s') \<Longrightarrow> not_chunked s' \<Longrightarrow> r \<noteq> Inr Again \<Longrightarrow>
      parser_parse E (grow_parser d s) = (r, grow_parser d s')"
    using parser_parse_ext [of d s E r s'] by simp
  show "parser_ok d s \<Longrightarrow> parser_parse E s = (Inr Again, s') \<Longrightarrow> not_chunked s' \<Longrightarrow>
      parser_parse E (grow_parser d s') = parser_parse E (grow_parser d s) \<and> parser_ok d s'"
    using parser_parse_ext [of d s E "Inr Again" s'] by simp
  show "parser_ok d s \<Longrightarrow> parser_parse E s = (r, s') \<Longrightarrow>
      not_chunked (snd (parser_parse E (grow_parser d s))) \<Longrightarrow> not_chunked s'"
    by (rule parser_parse_tame_back)
qed

section \<open>The buffer is kept\<close>

text \<open>No step writes to the buffer or leaves it, whatever the input; feeding respects its bound.\<close>

definition keeps :: "scursor \<Rightarrow> scursor \<Rightarrow> bool" where
  "keeps c c' \<longleftrightarrow> wf_cursor c' \<and> sbuf c' = sbuf c"

lemma keeps_refl: "wf_cursor c \<Longrightarrow> keeps c c"
  by (simp add: keeps_def)

lemma keeps_wf: "keeps c c' \<Longrightarrow> wf_cursor c'"
  by (simp add: keeps_def)

lemma keeps_trans: "keeps a b \<Longrightarrow> keeps b c \<Longrightarrow> keeps a c"
  by (simp add: keeps_def)

lemma keeps_advance: "wf_cursor c \<Longrightarrow> keeps c (snd (advance n c))"
  by (simp add: keeps_def adv.wf_scan adv.keeps_buf)

lemma keeps_advance2: "wf_cursor c \<Longrightarrow> keeps c (snd (advance k (snd (advance n c))))"
  using keeps_advance [of c n] keeps_advance [of "snd (advance n c)" k] by (auto simp: keeps_def)

lemma keeps_advance_while: "wf_cursor c \<Longrightarrow> keeps c (snd (advance_while p c))"
proof (induction p c rule: advance_while.induct)
  case (1 p c)
  show ?case
    using "1.IH" "1.prems" keeps_advance [OF "1.prems", of 1]
    by (subst advance_while.simps) (auto simp: keeps_def simp del: One_nat_def)
qed

lemma keeps_head_step: "wf_cursor c \<Longrightarrow> head_step E k c m = (r, m', c') \<Longrightarrow> keeps c c'"
  using head_step_ext(1,2) [of "[]" c E k m r m' c'] by (cases "r = Inr Again") (auto simp: keeps_def wf2_def ext_def)

lemma keeps_chunk_size_line:
  assumes "wf_cursor c" "chunk_size_line c = Inr (Some (n, c'))"
  shows "keeps c c'"
proof -
  obtain c1 where "advance_while (\<lambda>c. \<not> eol c) c = (True, c1)" "advance 2 c1 = (True, c')"
    using assms(2) by (auto simp: chunk_size_line_def split: prod.splits bool.splits sum.splits if_splits)
  then show ?thesis
    using keeps_advance_while [OF assms(1), of "\<lambda>c. \<not> eol c"] keeps_advance [of c1 2]
    by (auto simp: keeps_def)
qed

lemma keeps_chunk_data: "wf_cursor c \<Longrightarrow> chunk_data b m c = (r, b', m', c') \<Longrightarrow> keeps c c'"
  by (auto simp: chunk_data_def Let_def keeps_refl keeps_advance keeps_advance2 split: if_splits sum.splits)

lemma keeps_Chunk_parse:
  assumes wf: "wf_cursor c" and p: "Chunk_parse b m c = (r, b', m', c')"
  shows "keeps c c'"
proof (cases "\<exists>n c2. ssz (ch_size b) = -1 \<and> chunk_size_line c = Inr (Some (n, c2))")
  case True
  then obtain n c2 where n: "ssz (ch_size b) = -1" "chunk_size_line c = Inr (Some (n, c2))" by blast
  have k: "keeps c c2" by (rule keeps_chunk_size_line [OF wf n(2)])
  moreover have "keeps c2 c'"
    by (rule keeps_chunk_data) (use p n k in \<open>auto simp: Chunk_parse_def keeps_def\<close>)
  ultimately show ?thesis by (rule keeps_trans)
next
  case False
  then show ?thesis
    using p keeps_refl [OF wf] keeps_chunk_data [OF wf]
    by (auto simp: Chunk_parse_def split: if_splits sum.splits option.splits)
qed

lemma keeps_transfer_loop:
  assumes "wf_cursor c" "transfer_loop b m c = (r, b', m', c')"
  shows "keeps c c'"
  by (rule transfer_loop_keeps [where P = "\<lambda>_ _ x. keeps c x", OF _ _ assms(2)])
    (auto intro: keeps_trans [OF _ keeps_Chunk_parse] simp: keeps_refl [OF assms(1)] keeps_wf)

lemma keeps_readBody: "wf_cursor c \<Longrightarrow> readBody sz b m c = (r, b', m', c') \<Longrightarrow> keeps c c'"
  by (auto simp: readBody_def Let_def keeps_advance split: if_splits sum.splits)

lemma keeps_BodyStep:
  assumes "wf_cursor c" "BodyStep_apply b m c = (r, b', m', c')"
  shows "keeps c c'"
  using assms(2) keeps_readBody [OF assms(1)] keeps_transfer_loop [OF assms(1)] keeps_refl [OF assms(1)]
  by (auto simp: BodyStep_apply_def parseContentLength_def parseTransferEncoding_def Let_def
      split: option.splits prod.splits sum.splits bool.splits if_splits)

lemma keeps_ResponseLine:
  assumes "wf_cursor c" "ResponseLineStep_apply c m = (r, m', c')"
  shows "keeps c c'"
proof -
  have rc: "keeps c1 c'" if w: "wf_cursor c1" and n: "response_code c1 m = (Inr Next, m', c')" for c1
  proof -
    obtain c2 c3 c4 c5 where "advance 1 c1 = (True, c2)" "match_until [SP] Insensitive c2 = (True, c3)"
      "advance 1 c3 = (True, c4)" "c5 = snd (advance_while (\<lambda>c. \<not> eol c \<and> \<not> eof c) c4)" "advance 2 c5 = (True, c')"
      using n by (auto simp: response_code_def Let_def simp del: One_nat_def
          split: if_splits prod.splits bool.splits option.splits)
    then show ?thesis
      using w keeps_advance [of c1 1] muntil.wf_scan [of c2 "[SP]" Insensitive]
        muntil.keeps_buf [of c2 "[SP]" Insensitive] keeps_advance [of c3 1]
        keeps_advance_while [of c4 "\<lambda>c. \<not> eol c \<and> \<not> eof c"] keeps_advance [of c5 2]
      by (auto simp: keeps_def)
  qed
  have mr: "match_raw s c = (b, c1) \<Longrightarrow> keeps c c1" for s b c1
    using mraw.wf_scan [OF assms(1), of s] mraw.keeps_buf [OF assms(1), of s] by (simp add: keeps_def)
  have go: "keeps c c'" if m: "match_raw s c = (b, c1)" and n: "response_code c1 m = (Inr Next, m', c')" for s b c1
    using mr [OF m] rc [OF _ n] keeps_trans by (auto simp: keeps_def)
  show ?thesis
    using assms go
    by (auto simp: ResponseLineStep_apply_def reverting_def keeps_refl split: prod.splits bool.splits if_splits)
qed

definition same_buffer :: "parser \<Rightarrow> parser \<Rightarrow> bool" where
  "same_buffer p p' \<longleftrightarrow> keeps (area p) (area p') \<and> ab_max (pa_buffer p') = ab_max (pa_buffer p)
     \<and> pa_request p' = pa_request p"

lemma same_buffer_trans: "same_buffer p q \<Longrightarrow> same_buffer q r \<Longrightarrow> same_buffer p r"
  by (auto simp: same_buffer_def intro: keeps_trans)

lemma same_buffer_step:
  assumes wf: "wf_cursor (area p)" and step: "step_apply E p = (r, p')"
  shows "same_buffer p p'"
proof -
  have "keeps (area p) (area p')"
    using step keeps_head_step [OF wf, of E "pa_currentStep p"] keeps_ResponseLine [OF wf] keeps_BodyStep [OF wf]
    by (auto simp: step_apply_def head_step_def Let_def split: prod.splits if_splits)
  then show ?thesis
    using step by (auto simp: same_buffer_def step_apply_def Let_def set_cursor_def split: prod.splits if_splits)
qed

lemma same_buffer_parse:
  "wf_cursor (area p) \<Longrightarrow> parser_parse E p = (r, p') \<Longrightarrow>
   same_buffer p p' \<and> (pa_currentStep p \<le> 2 \<longrightarrow> pa_currentStep p' \<le> 2)"
proof (induction E p arbitrary: r p' rule: parser_parse.induct)
  case (1 E p)
  from "1.prems"(2) show ?case
  proof (cases rule: parser_parse_cases)
    case last
    then show ?thesis
      using same_buffer_step [OF "1.prems"(1) last(1)]
      by (auto simp: step_apply_def Let_def split: prod.splits if_splits)
  next
    case (more p1)
    have k: "same_buffer p p1" by (rule same_buffer_step [OF "1.prems"(1) more(1)])
    then have "same_buffer p (next_step p1)" by (simp add: same_buffer_def)
    moreover have "same_buffer (next_step p1) p' \<and> (pa_currentStep (next_step p1) \<le> 2 \<longrightarrow> pa_currentStep p' \<le> 2)"
      by (rule "1.IH" [OF more(1) [symmetric] refl refl]) (use k more(2) in \<open>auto simp: same_buffer_def keeps_def\<close>)
    moreover have "pa_currentStep (next_step p1) \<le> 2" using step_apply_Next [OF more(1)] by simp
    ultimately show ?thesis using same_buffer_trans by blast
  qed
qed

section \<open>Any split\<close>

lemma parser_ok_fresh:
  "length d \<le> n \<Longrightarrow> n \<le> string_max_size \<Longrightarrow> parser_ok d (ParserImpl True n)"
  using int_string_max_size
  by (auto simp: parser_ok_def ParserImpl_def ArrayStreamBuf_def body_fits_def wf2_def wf_cursor_def ext_def
      bytes_ok_def BodyStep0_def Message0_def)

lemma grow_is_feed:
  "length (sbuf (area p)) + length d \<le> ab_max (pa_buffer p) \<Longrightarrow> parser_feed d p = (True, grow_parser d p)"
  by (simp add: parser_feed_def array_feed_def grow_parser_def set_cursor_def ext_def)

lemma run_pieces_feed:
  assumes "wf_cursor (area p)" "length (sbuf (area p)) + length (concat ds) \<le> ab_max (pa_buffer p)"
    "ab_max (pa_buffer p) < 2 ^ 63"
  shows "run_pieces (\<lambda>d p. snd (parser_feed d p)) (parser_parse E) ds p =
     run_pieces grow_parser (parser_parse E) ds p"
  using assms
proof (induction ds arbitrary: p)
  case (Cons d ds)
  have f: "snd (parser_feed d p) = grow_parser d p" using Cons.prems(2) by (subst grow_is_feed) auto
  obtain r p1 where r: "parser_parse E (grow_parser d p) = (r, p1)" by fastforce
  have "wf_cursor (area (grow_parser d p))"
    using Cons.prems by (auto simp: grow_parser_def ext_def wf_cursor_def)
  from same_buffer_parse [OF this r]
  have p1: "wf_cursor (area p1)" "sbuf (area p1) = sbuf (area p) @ d" "ab_max (pa_buffer p1) = ab_max (pa_buffer p)"
    by (simp_all add: same_buffer_def keeps_def grow_parser_def ext_def set_cursor_def)
  then have "snd (parser_feed (concat ds) p1) = grow_parser (concat ds) p1"
    using Cons.prems(2) by (subst grow_is_feed) auto
  moreover have "run_pieces (\<lambda>d p. snd (parser_feed d p)) (parser_parse E) ds p1 =
      run_pieces grow_parser (parser_parse E) ds p1"
    by (rule Cons.IH) (use p1 Cons.prems in auto)
  ultimately show ?case using f r by simp
qed simp

text \<open>
  C1: bytes that fit the maximum request size, and whose headers announce no chunked body: a request
  parser that is fed them in any pieces (one call of \<open>feed\<close> and \<open>parse\<close> per piece, up to the first
  result other than \<open>Again\<close>) ends with the same result or exception, the same message and the same parser
  state as one that is fed all of them at once.
\<close>

theorem parse_any_split:
  assumes "ds \<noteq> []" "length (concat ds) \<le> maxSize" "maxSize \<le> string_max_size"
    and "not_chunked (snd (parser_parse E (snd (parser_feed (concat ds) (ParserImpl True maxSize)))))"
  shows "run_pieces (\<lambda>d p. snd (parser_feed d p)) (parser_parse E) ds (ParserImpl True maxSize) =
     parser_parse E (snd (parser_feed (concat ds) (ParserImpl True maxSize)))"
proof -
  let ?p = "ParserImpl True maxSize"
  have a: "area ?p = \<lparr>sbuf = [], spos = 0\<rparr>" "ab_max (pa_buffer ?p) = maxSize"
    by (simp_all add: ParserImpl_def ArrayStreamBuf_def)
  have f: "snd (parser_feed (concat ds) ?p) = grow_parser (concat ds) ?p"
    using grow_is_feed [of ?p "concat ds"] assms(2) a by simp
  have "maxSize < 2 ^ 63" using assms(3) by (simp add: string_max_size_def)
  then have "run_pieces (\<lambda>d p. snd (parser_feed d p)) (parser_parse E) ds ?p = run_pieces grow_parser (parser_parse E) ds ?p"
    by (intro run_pieces_feed) (use a assms(2) in \<open>auto simp: wf_cursor_def\<close>)
  also have "\<dots> = parser_parse E (grow_parser (concat ds) ?p)"
    by (rule req_parser.pieces) (use assms parser_ok_fresh [OF assms(2,3)] f in auto)
  finally show ?thesis by (simp add: f)
qed

definition sample_request :: string where
  "sample_request = ''GET /a?x=1 HTTP/1.1'' @ crlf @ crlf"

lemma sample_request_parsed:
  "let (r, p) = parser_parse sample_env (snd (parser_feed sample_request (ParserImpl True 4096)))
   in r = Inr Done \<and> not_chunked p \<and> msg_query (pa_message p) = [(''x'', ''1'')]"
  by code_simp

theorem parse_any_split_witness:
  "let ds = [take 5 sample_request, drop 5 (take 18 sample_request), drop 18 sample_request]
   in fst (run_pieces (\<lambda>d p. snd (parser_feed d p)) (parser_parse sample_env) ds (ParserImpl True 4096)) = Inr Done"
proof -
  let ?ds = "[take 5 sample_request, drop 5 (take 18 sample_request), drop 18 sample_request]"
  have c: "concat ?ds = sample_request" by code_simp
  have "length sample_request \<le> 4096" by code_simp
  moreover have "4096 \<le> string_max_size" by (simp add: string_max_size_def)
  ultimately have "run_pieces (\<lambda>d p. snd (parser_feed d p)) (parser_parse sample_env) ?ds (ParserImpl True 4096) =
      parser_parse sample_env (snd (parser_feed sample_request (ParserImpl True 4096)))"
    using parse_any_split [of ?ds 4096 sample_env] sample_request_parsed unfolding c
    by (simp add: case_prod_unfold Let_def)
  with sample_request_parsed show ?thesis by (simp add: case_prod_unfold Let_def)
qed

end
