(* ===== verification/Handler_Input.thy ===== *)
theory Handler_Input
  imports Parser_Split
begin

text \<open>
  \<open>Handler::onInput\<close> over the life of a connection: the invariant of every reachable
  connection, what is answered and delivered, and the body of a delivered request.
\<close>

section \<open>Reachable connections\<close>

inductive peer_reach :: "http_env \<Rightarrow> application \<Rightarrow> nat \<Rightarrow> Address \<Rightarrow> http_peer \<Rightarrow> bool"
  for E :: http_env and app :: application and maxSize :: nat and addr :: Address where
  connect: "peer_reach E app maxSize addr (onConnection maxSize addr)"
| input: "peer_reach E app maxSize addr hp \<Longrightarrow> peer_reach E app maxSize addr (snd (onInput E app data hp))"

text \<open>
  The parser's buffer is within its bound and the cursor within the buffer, the step index within
  the three steps, and every header is stored under the name of its class, which the
  \<open>static_pointer_cast\<close> of a lookup relies on.
\<close>

definition parser_inv :: "nat \<Rightarrow> parser \<Rightarrow> bool" where
  "parser_inv n p \<longleftrightarrow> pa_request p \<and> array_inv (pa_buffer p) \<and> ab_max (pa_buffer p) = n
     \<and> pa_currentStep p \<le> 2 \<and> collection_inv (msg_headers (pa_message p))"

lemma collection_inv_Message0: "collection_inv (msg_headers Message0)"
  by (simp add: Message0_def collection_inv_ops)

lemma parser_inv_init: "parser_inv n (ParserImpl True n)"
  using array_inv_init [of n]
  by (simp add: parser_inv_def ParserImpl_def ArrayStreamBuf_def collection_inv_Message0)

lemma parser_inv_feed: "parser_inv n p \<Longrightarrow> parser_inv n (snd (parser_feed data p))"
  using array_inv_feed [of "pa_buffer p" data]
  by (auto simp: parser_inv_def parser_feed_def array_feed_def split: prod.splits)

lemma parser_inv_reset: "parser_inv n p \<Longrightarrow> parser_inv n (parser_reset p)"
  by (simp add: parser_inv_def parser_reset_def ParserBase_reset_def array_inv_reset collection_inv_Message0)
    (simp add: array_reset_def)

lemma query_loop_headers: "query_loop c m = (b, m', c') \<Longrightarrow> msg_headers m' = msg_headers m"
  using query_run_ex [of c] by (auto simp: query_run_def addq_def)

lemma RequestLineStep_headers: "RequestLineStep_apply c m = (r, m', c') \<Longrightarrow> msg_headers m' = msg_headers m"
proof -
  have v: "request_version c m = (r, m', c') \<Longrightarrow> msg_headers m' = msg_headers m" for c m r m' c'
    by (auto simp: request_version_def Let_def split: prod.splits bool.splits if_splits)
  have t: "request_target c m = (r, m', c') \<Longrightarrow> msg_headers m' = msg_headers m" for c m r m' c'
    by (auto simp: request_target_def Let_def simp del: One_nat_def split: prod.splits bool.splits if_splits
        dest!: query_loop_headers v)
  show "RequestLineStep_apply c m = (r, m', c') \<Longrightarrow> msg_headers m' = msg_headers m"
    by (auto simp: RequestLineStep_apply_def reverting_def split: prod.splits bool.splits option.splits dest!: t)
qed

lemma add_header_inv:
  "add_header E name mem n m = (e, m') \<Longrightarrow> collection_inv (msg_headers m) \<Longrightarrow> collection_inv (msg_headers m')"
  by (auto simp: add_header_def Let_def collection_inv_ops split: if_splits prod.splits option.splits sum.splits)

lemma header_line_inv:
  "header_line E c m = (r, m', c') \<Longrightarrow> collection_inv (msg_headers m) \<Longrightarrow> collection_inv (msg_headers m')"
  by (auto simp: header_line_def Let_def simp del: One_nat_def split: prod.splits bool.splits option.splits
      dest: add_header_inv)

lemma headers_loop_inv:
  "headers_loop E c m = (r, m', c') \<Longrightarrow> collection_inv (msg_headers m) \<Longrightarrow> collection_inv (msg_headers m')"
proof (induction E c m arbitrary: r m' c' rule: headers_loop.induct)
  case (1 E c m)
  then show ?case
    by (subst (asm) headers_loop.simps [of E c m])
      (auto split: if_splits prod.splits bool.splits sum.splits PState.splits dest: header_line_inv)
qed

lemma step_apply_headers_inv:
  assumes "step_apply E p = (r, p')" "pa_request p" "collection_inv (msg_headers (pa_message p))"
  shows "collection_inv (msg_headers (pa_message p'))"
  using assms
  by (auto simp: step_apply_def HeadersStep_apply_def reverting_def Let_def split: prod.splits if_splits
      dest: RequestLineStep_headers headers_loop_inv BodyStep_headers)

lemma parser_parse_headers_inv:
  "parser_parse E p = (r, p') \<Longrightarrow> pa_request p \<Longrightarrow> collection_inv (msg_headers (pa_message p)) \<Longrightarrow>
   collection_inv (msg_headers (pa_message p'))"
proof (induction E p arbitrary: r p' rule: parser_parse.induct)
  case (1 E p)
  from "1.prems"(1) show ?case
  proof (cases rule: parser_parse_cases)
    case last
    with "1.prems" show ?thesis by (blast intro: step_apply_headers_inv)
  next
    case (more p1)
    have "collection_inv (msg_headers (pa_message p1))" by (rule step_apply_headers_inv [OF more(1) "1.prems"(2,3)])
    moreover have "pa_request p1"
      using more(1) "1.prems"(2) by (auto simp: step_apply_def Let_def split: prod.splits if_splits)
    ultimately show ?thesis using "1.IH" [OF more(1) [symmetric] refl refl more(2)] by simp
  qed
qed

lemma parser_inv_parse:
  assumes "parser_inv n p" "n < 2 ^ 63" "parser_parse E p = (r, p')"
  shows "parser_inv n p'"
proof -
  have "wf_cursor (area p)" using assms(1,2) wf_array_area by (simp add: parser_inv_def)
  note k = same_buffer_parse [OF this assms(3)]
  with assms parser_parse_headers_inv [OF assms(3)] show ?thesis
    by (auto simp: parser_inv_def same_buffer_def keeps_def array_inv_def wf_cursor_def)
qed

lemma parser_inv_onInput:
  assumes "parser_inv n (hp_parser hp)" "n < 2 ^ 63"
  shows "parser_inv n (hp_parser (snd (onInput E app data hp)))"
proof -
  obtain ok p where f: "parser_feed data (hp_parser hp) = (ok, p)" by fastforce
  have p: "parser_inv n p" using parser_inv_feed [OF assms(1), of data] f by simp
  obtain r p' where r: "parser_parse E p = (r, p')" by fastforce
  have p': "parser_inv n p'" by (rule parser_inv_parse [OF p assms(2) r])
  then have "parser_inv n (p'\<lparr>pa_message := (pa_message p')\<lparr>msg_address := a\<rparr>\<rparr>)" for a by (simp add: parser_inv_def)
  with f p r p' show ?thesis
    by (auto simp: onInput_def onInput_catch_def onInput_request_def Let_def parser_inv_reset
        split: bool.split sum.split PState.split option.split)
qed

lemma reach_inv:
  assumes "peer_reach E app maxSize addr hp" "maxSize < 2 ^ 63"
  shows "parser_inv maxSize (hp_parser hp)"
  using assms
proof (induction rule: peer_reach.induct)
  case connect
  show ?case by (simp add: onConnection_def parser_inv_init)
next
  case (input hp data)
  then show ?case by (simp add: parser_inv_onInput)
qed

text \<open>
  C3: on every connection, whatever has been received and whatever the application does, the
  parser's buffer holds at most \<open>maxRequestSize\<close> bytes, its cursor is inside the buffer, the
  current step is one of the three, and every stored header has the class it is stored under.
\<close>

theorem connection_invariant:
  assumes "peer_reach E app maxSize addr hp" "maxSize < 2 ^ 63"
  shows "parser_inv maxSize (hp_parser hp)"
  by (rule reach_inv [OF assms])

theorem connection_invariant_witness:
  "parser_inv 4096 (hp_parser (snd (onInput sample_env (\<lambda>_ _ _. None) sample_request (onConnection 4096 Address0))))"
  by (rule connection_invariant [OF peer_reach.input [OF peer_reach.connect]]) simp

section \<open>Replies\<close>

lemma step_apply_request: "step_apply E p = (r, p') \<Longrightarrow> pa_request p' = pa_request p"
  by (auto simp: step_apply_def Let_def split: prod.splits if_splits)

lemma parser_parse_request: "parser_parse E p = (r, p') \<Longrightarrow> pa_request p' = pa_request p"
proof (induction E p arbitrary: r p' rule: parser_parse.induct)
  case (1 E p)
  from "1.prems" show ?case
  proof (cases rule: parser_parse_cases)
    case last
    then show ?thesis by (simp add: step_apply_request)
  next
    case (more p1)
    have "pa_request p' = pa_request (next_step p1)" by (rule "1.IH" [OF more(1) [symmetric] refl refl more(2)])
    then show ?thesis using step_apply_request [OF more(1)] by simp
  qed
qed

definition fresh_parser :: "parser \<Rightarrow> bool" where
  "fresh_parser p \<longleftrightarrow> area p = \<lparr>sbuf = [], spos = 0\<rparr> \<and> pa_currentStep p = 0 \<and> pa_message p = Message0"

lemma fresh_reset: "pa_request p \<Longrightarrow> fresh_parser (parser_reset p)"
  by (simp add: fresh_parser_def parser_reset_def ParserBase_reset_def array_reset_def)

text \<open>What one call can do: nothing, an error reply, a delivery, or a delivery whose application threw.\<close>

inductive outcome :: "application \<Rightarrow> action list \<Rightarrow> bool" for app :: application where
  silent: "outcome app []"
| refused: "outcome app [A_send v code reason]"
| delivered: "app m v h = None \<Longrightarrow> outcome app [A_onRequest m v h]"
| failed: "app m v h = Some e \<Longrightarrow> outcome app [A_onRequest m v h, A_send (msg_version m) code reason]"

lemma outcome_catch: "outcome app (fst (onInput_catch e hp))"
  by (cases e) (simp_all add: onInput_catch_def Let_def outcome.refused)

lemma outcome_request: "outcome app (fst (onInput_request app hp))"
proof -
  have c: "\<exists>code reason. fst (onInput_catch e hp) = [A_send (msg_version (pa_message (hp_parser hp))) code reason]" for e hp
    by (cases e) (simp_all add: onInput_catch_def Let_def)
  let ?m = "(pa_message (hp_parser hp))\<lparr>msg_address := hp_address hp\<rparr>"
  let ?h = "Collection_add (H_Connection (case tryGet_Connection (msg_headers ?m) of Some ctl \<Rightarrow> ctl | None \<Rightarrow> Close)) Collection0"
  show ?thesis
  proof (cases "app ?m (msg_version ?m) ?h")
    case None
    then show ?thesis by (simp add: onInput_request_def Let_def outcome.delivered)
  next
    case (Some e)
    let ?hp = "hp\<lparr>hp_parser := (hp_parser hp)\<lparr>pa_message := ?m\<rparr>, hp_idle := False\<rparr>"
    obtain code reason where "fst (onInput_catch e ?hp) = [A_send (msg_version ?m) code reason]"
      using c [of e ?hp] by auto
    with Some outcome.failed [where app = app, OF Some] show ?thesis
      by (auto simp: onInput_request_def Let_def split: prod.split)
  qed
qed

lemma catch_resets: "pa_request (hp_parser hp) \<Longrightarrow> fresh_parser (hp_parser (snd (onInput_catch e hp)))"
  by (simp add: onInput_catch_def Let_def fresh_reset)

lemma request_resets: "pa_request (hp_parser hp) \<Longrightarrow> fresh_parser (hp_parser (snd (onInput_request app hp)))"
  by (simp add: onInput_request_def Let_def case_prod_unfold catch_resets fresh_reset split: option.split)

text \<open>
  C4: whatever arrives, one call of \<open>onInput\<close> does nothing, sends one error, or delivers one
  request, followed by an error only when the application throws; input that does not fit is
  answered with 413; and whenever something was sent or delivered the parser starts over with an
  empty buffer, at the first step, with a new request.
\<close>

theorem onInput_outcome:
  assumes "pa_request (hp_parser hp)"
  shows "outcome app (fst (onInput E app data hp))
    \<and> (ab_max (pa_buffer (hp_parser hp)) < length (sbuf (area (hp_parser hp))) + length data \<longrightarrow>
         fst (onInput E app data hp) =
           [A_send Http11 Code_Request_Entity_Too_Large ''Request exceeded maximum buffer size''])
    \<and> (fst (onInput E app data hp) \<noteq> [] \<longrightarrow> fresh_parser (hp_parser (snd (onInput E app data hp))))"
proof (cases "ab_max (pa_buffer (hp_parser hp)) < length (sbuf (area (hp_parser hp))) + length data")
  case True
  then have f: "parser_feed data (hp_parser hp) = (False, hp_parser hp)" by (simp add: parser_feed_def array_feed_def)
  have r: "pa_request (parser_reset (hp_parser hp))" "pa_message (parser_reset (hp_parser hp)) = Message0"
    using assms by (simp_all add: parser_reset_def ParserBase_reset_def)
  show ?thesis
    using catch_resets [of "hp\<lparr>hp_parser := parser_reset (hp_parser hp)\<rparr>"] r
    by (simp add: onInput_def f outcome_catch) (simp add: onInput_catch_def Message0_def Let_def HttpError_def)
next
  case False
  let ?p = "grow_parser data (hp_parser hp)"
  have f: "parser_feed data (hp_parser hp) = (True, ?p)" using False by (intro grow_is_feed) simp
  obtain r p' where r: "parser_parse E ?p = (r, p')" by fastforce
  have req: "pa_request p'" using parser_parse_request [OF r] assms by (simp add: grow_parser_def)
  with False f r show ?thesis
    by (auto simp: onInput_def outcome_catch outcome_request catch_resets request_resets outcome.silent
        split: sum.split PState.split)
qed

theorem onInput_outcome_witness:
  "fst (onInput sample_env (\<lambda>_ _ _. None) (replicate 9 (CHR ''x'')) (onConnection 8 Address0)) =
     [A_send Http11 Code_Request_Entity_Too_Large ''Request exceeded maximum buffer size'']
   \<and> fresh_parser (hp_parser (snd (onInput sample_env (\<lambda>_ _ _. None) (replicate 9 (CHR ''x'')) (onConnection 8 Address0))))"
  using onInput_outcome [of "onConnection 8 Address0" "\<lambda>_ _ _. None" sample_env "replicate 9 (CHR ''x'')"]
  by (simp add: onConnection_def ParserImpl_def ArrayStreamBuf_def)

section \<open>The body of a delivered request\<close>

text \<open>
  \<open>bytesRead\<close> counts the bytes of the body that have been read, for a request with a
  \<open>Content-Length\<close>; otherwise it is 0.
\<close>

definition body_sync :: "parser \<Rightarrow> bool" where
  "body_sync p \<longleftrightarrow>
     (pa_currentStep p < 2 \<longrightarrow> msg_body (pa_message p) = [] \<and> bs_bytesRead (pa_body p) = 0)
   \<and> (pa_currentStep p = 2 \<longrightarrow>
        (case (tryGet_ContentLength (msg_headers (pa_message p)), tryGet_TransferEncoding (msg_headers (pa_message p))) of
           (Some n, None) \<Rightarrow> bs_bytesRead (pa_body p) = length (msg_body (pa_message p))
             \<and> length (msg_body (pa_message p)) \<le> spos (area p)
             \<and> (bs_bytesRead (pa_body p) = 0 \<or> bs_bytesRead (pa_body p) < sz_of_ssz (int n))
         | _ \<Rightarrow> bs_bytesRead (pa_body p) = 0))"

text \<open>What a run may leave: a synchronised state, or no byte counted; a complete body has its length.\<close>

definition body_left :: "exn + PState \<Rightarrow> parser \<Rightarrow> bool" where
  "body_left r p \<longleftrightarrow> (if r = Inr Again then body_sync p else bs_bytesRead (pa_body p) = 0)
     \<and> (r = Inr Done \<longrightarrow> (\<forall>n. tryGet_ContentLength (msg_headers (pa_message p)) = Some n \<longrightarrow>
          length (msg_body (pa_message p)) = sz_of_ssz (int n)
          \<and> tryGet_TransferEncoding (msg_headers (pa_message p)) = None))"

lemma chunk_data_bytes: "chunk_data b m c = (r, b', m', c') \<Longrightarrow> bs_bytesRead b' = bs_bytesRead b"
  by (auto simp: chunk_data_def Let_def split: if_splits sum.splits)

lemma Chunk_parse_bytes: "Chunk_parse b m c = (r, b', m', c') \<Longrightarrow> bs_bytesRead b' = bs_bytesRead b"
  by (auto simp: Chunk_parse_def split: if_splits sum.splits option.splits prod.splits dest!: chunk_data_bytes)

lemma Chunk_reset_bytes [simp]: "bs_bytesRead (Chunk_reset b) = bs_bytesRead b"
  by (simp add: Chunk_reset_def)

lemma transfer_loop_bytes:
  assumes "transfer_loop b m c = (r, b', m', c')"
  shows "bs_bytesRead b' = bs_bytesRead b"
  by (rule transfer_loop_keeps [where P = "\<lambda>x _ _. bs_bytesRead x = bs_bytesRead b", OF _ _ assms])
    (auto dest: Chunk_parse_bytes)

lemma body_left_step:
  assumes sync: "body_sync p" and two: "pa_currentStep p = 2" and wf: "wf_cursor (area p)"
    and small: "length (sbuf (area p)) \<le> string_max_size" and step: "step_apply E p = (r, p')"
  shows "body_left r p'"
proof -
  let ?cl = "tryGet_ContentLength (msg_headers (pa_message p))"
  let ?te = "tryGet_TransferEncoding (msg_headers (pa_message p))"
  obtain b' m' c' where h: "BodyStep_apply (pa_body p) (pa_message p) (area p) = (r, b', m', c')"
    and p': "p' = (set_cursor c' p)\<lparr>pa_message := m', pa_body := b'\<rparr>"
    using step step_apply_body [OF two] by (auto split: prod.splits)
  have hd: "msg_headers m' = msg_headers (pa_message p)" by (rule BodyStep_headers [OF h])
  show ?thesis
  proof (cases "\<exists>n. ?cl = Some n \<and> ?te = None")
    case True
    then obtain n where n: "?cl = Some n" "?te = None" by blast
    have s: "bs_bytesRead (pa_body p) = length (msg_body (pa_message p))"
      "length (msg_body (pa_message p)) \<le> spos (area p)"
      "bs_bytesRead (pa_body p) = 0 \<or> bs_bytesRead (pa_body p) < sz_of_ssz (int n)"
      using sync two n by (auto simp: body_sync_def)
    have fin: "spos (area p) + remaining (area p) = length (sbuf (area p))"
      using wf by (simp add: wf_cursor_def remaining_def)
    have "BodyStep_apply (pa_body p) (pa_message p) (area p) = parseContentLength n (pa_body p) (pa_message p) (area p)"
      using n by (simp add: BodyStep_apply_def)
    with h parseContentLength_eq [OF wf small s(2,3)] s fin n hd two show ?thesis
      by (auto simp: body_left_def body_sync_def p' bytes_wanted_def remaining_length_rest split: if_splits)
  next
    case False
    then have z: "bs_bytesRead (pa_body p) = 0" using sync two by (auto simp: body_sync_def split: option.splits)
    with h have "bs_bytesRead b' = 0"
      using False by (auto simp: BodyStep_apply_def parseTransferEncoding_def split: option.splits if_splits
          dest!: transfer_loop_bytes)
    moreover have "?cl = None" if "r = Inr Done" using h that False by (auto simp: BodyStep_apply_def split: option.splits)
    moreover have "?te \<noteq> None \<or> ?cl = None" using False by auto
    ultimately show ?thesis using hd two by (auto simp: body_left_def body_sync_def p' split: option.split)
  qed
qed

lemma head_step_not_Done: "fst (head_step E k c m) \<noteq> Inr Done"
proof -
  have v: "request_version c m \<noteq> (Inr Done, m', c')" for c m m' c'
    by (auto simp: request_version_def Let_def split: prod.splits bool.splits)
  have t: "request_target c m \<noteq> (Inr Done, m', c')" for c m m' c'
    using v by (auto simp: request_target_def Let_def simp del: One_nat_def split: prod.splits bool.splits)
  have "header_line E c m \<noteq> (Inr Done, m', c')" for c m m' c'
    by (auto simp: header_line_def Let_def simp del: One_nat_def split: prod.splits bool.splits option.splits)
  then have "headers_loop E c m \<noteq> (Inr Done, m', c')" for c m m' c'
  proof (induction "remaining c" arbitrary: c m rule: less_induct)
    case less
    show ?case
      using less remaining_header_line [of E c m]
      by (subst headers_loop.simps) (auto split: prod.splits bool.splits sum.splits PState.splits)
  qed
  then show ?thesis
    using t by (auto simp: head_step_def RequestLineStep_apply_def HeadersStep_apply_def reverting_def
        split: prod.splits bool.splits option.splits)
qed

lemma body_sync_head:
  assumes sync: "body_sync p" and lt: "pa_currentStep p < 2" and req: "pa_request p" and wf: "wf_cursor (area p)"
    and step: "step_apply E p = (r, p')"
  shows "body_left r p'" "r = Inr Next \<Longrightarrow> body_sync (next_step p')"
proof -
  obtain m' c' where h: "head_step E (pa_currentStep p) (area p) (pa_message p) = (r, m', c')"
    and p': "p' = (set_cursor c' p)\<lparr>pa_message := m'\<rparr>"
    using step step_apply_head [OF req lt] by (auto split: prod.splits)
  have z: "msg_body m' = []" "bs_bytesRead (pa_body p) = 0"
    using head_step_ext(3) [of "[]", OF _ h] wf sync lt by (auto simp: body_sync_def wf2_def ext_def)
  have "r \<noteq> Inr Done" using head_step_not_Done [of E "pa_currentStep p" "area p" "pa_message p"] h by simp
  with z lt show "body_left r p'" by (auto simp: body_left_def body_sync_def p')
  show "body_sync (next_step p')" using z lt by (auto simp: body_sync_def p' split: option.split)
qed

lemma body_left_parse:
  assumes "parser_parse E p = (r, p')" "body_sync p" "pa_request p" "pa_currentStep p \<le> 2"
    "wf_cursor (area p)" "length (sbuf (area p)) \<le> string_max_size"
  shows "body_left r p'"
  using assms
proof (induction E p arbitrary: r p' rule: parser_parse.induct)
  case (1 E p)
  from "1.prems"(1) show ?case
  proof (cases rule: parser_parse_cases)
    case last
    show ?thesis
    proof (cases "pa_currentStep p < 2")
      case True
      then show ?thesis using body_sync_head(1) last(1) "1.prems" by blast
    next
      case False
      then have "pa_currentStep p = 2" using "1.prems"(4) by simp
      then show ?thesis using body_left_step last(1) "1.prems" by blast
    qed
  next
    case (more p1)
    have lt: "pa_currentStep p < 2" "pa_currentStep p1 < 2" using step_apply_Next [OF more(1)] by auto
    have "same_buffer p p1" by (rule same_buffer_step [OF "1.prems"(5) more(1)])
    moreover have "body_sync (next_step p1)" using body_sync_head(2) more(1) lt "1.prems" by blast
    ultimately show ?thesis
      by (intro "1.IH" [OF more(1) [symmetric] refl refl more(2)])
        (use "1.prems" lt in \<open>auto simp: same_buffer_def keeps_def\<close>)
  qed
qed

text \<open>The connections whose input has always fitted the buffer.\<close>

inductive peer_fit :: "http_env \<Rightarrow> application \<Rightarrow> nat \<Rightarrow> Address \<Rightarrow> http_peer \<Rightarrow> bool"
  for E :: http_env and app :: application and maxSize :: nat and addr :: Address where
  connect: "peer_fit E app maxSize addr (onConnection maxSize addr)"
| input: "peer_fit E app maxSize addr hp \<Longrightarrow> fst (parser_feed data (hp_parser hp)) \<Longrightarrow>
    peer_fit E app maxSize addr (snd (onInput E app data hp))"

lemma peer_fit_reach: "peer_fit E app n addr hp \<Longrightarrow> peer_reach E app n addr hp"
  by (induction rule: peer_fit.induct) (auto intro: peer_reach.intros)

lemma body_sync_reset: "pa_request p \<Longrightarrow> bs_bytesRead (pa_body p) = 0 \<Longrightarrow> body_sync (parser_reset p)"
  by (simp add: body_sync_def parser_reset_def ParserBase_reset_def Message0_def)

lemma body_sync_feed: "body_sync p \<Longrightarrow> body_sync (snd (parser_feed d p))"
  by (auto simp: body_sync_def parser_feed_def array_feed_def split: prod.splits option.splits)

lemma parse_after_feed:
  assumes inv: "parser_inv n (hp_parser hp)" and n: "n \<le> string_max_size" and sync: "body_sync (hp_parser hp)"
    and p: "parser_feed data (hp_parser hp) = (True, p)" and r: "parser_parse E p = (r, p')"
  shows "body_left r p'" "pa_request p'"
proof -
  have i: "parser_inv n p" using parser_inv_feed [OF inv, of data] p by simp
  have lt: "n < 2 ^ 63" using n by (simp add: string_max_size_def)
  have wf: "wf_cursor (area p)" using i lt wf_array_area by (simp add: parser_inv_def)
  have "length (sbuf (area p)) \<le> string_max_size" using i n by (simp add: parser_inv_def array_inv_def)
  then show "body_left r p'"
    using body_left_parse [OF r] body_sync_feed [OF sync, of data] p i wf by (simp add: parser_inv_def)
  show "pa_request p'" using parser_parse_request [OF r] i by (simp add: parser_inv_def)
qed

lemma parser_parse_not_Next: "parser_parse E p = (r, p') \<Longrightarrow> r \<noteq> Inr Next"
proof (induction E p arbitrary: r p' rule: parser_parse.induct)
  case (1 E p)
  from "1.prems" show ?case
  proof (cases rule: parser_parse_cases)
    case (more p1)
    show ?thesis by (rule "1.IH" [OF more(1) [symmetric] refl refl more(2)])
  qed
qed

lemma body_sync_onInput:
  assumes "parser_inv n (hp_parser hp)" "n \<le> string_max_size" "body_sync (hp_parser hp)"
    and "fst (parser_feed data (hp_parser hp))"
  shows "body_sync (hp_parser (snd (onInput E app data hp)))"
proof -
  obtain p where p: "parser_feed data (hp_parser hp) = (True, p)" using assms(4) by (cases "parser_feed data (hp_parser hp)") auto
  obtain r p' where r: "parser_parse E p = (r, p')" by fastforce
  note L = parse_after_feed [OF assms(1-3) p r]
  show ?thesis
  proof (cases "r = Inr Again")
    case True
    with L p r show ?thesis by (simp add: onInput_def body_left_def)
  next
    case False
    then have "bs_bytesRead (pa_body p') = 0" using L(1) by (simp add: body_left_def)
    moreover have "r \<noteq> Inr Next" by (rule parser_parse_not_Next [OF r])
    ultimately show ?thesis
      using L(2) p r False
      by (auto simp: onInput_def onInput_catch_def onInput_request_def Let_def case_prod_unfold body_sync_reset
          split: sum.split PState.split option.split)
  qed
qed

lemma peer_fit_sync:
  assumes "peer_fit E app n addr hp" "n \<le> string_max_size"
  shows "body_sync (hp_parser hp)"
  using assms
proof (induction rule: peer_fit.induct)
  case connect
  show ?case by (simp add: body_sync_def onConnection_def ParserImpl_def BodyStep0_def Message0_def)
next
  case (input hp data)
  have "n < 2 ^ 63" using input.prems by (simp add: string_max_size_def)
  then have "parser_inv n (hp_parser hp)" using reach_inv peer_fit_reach input.hyps(1) by blast
  then show ?case using input by (blast intro: body_sync_onInput)
qed

text \<open>
  C2: on a connection whose input has always fitted the buffer, a request that reaches the
  application and has a \<open>Content-Length\<close> header has a body of exactly that length and no
  \<open>Transfer-Encoding\<close> header.
\<close>

theorem delivered_body_length:
  assumes "peer_fit E app maxSize addr hp" "maxSize \<le> string_max_size"
    and "A_onRequest m v h \<in> set (fst (onInput E app data hp))"
    and "tryGet_ContentLength (msg_headers m) = Some n"
  shows "length (msg_body m) = sz_of_ssz (int n) \<and> tryGet_TransferEncoding (msg_headers m) = None"
proof -
  have lt: "maxSize < 2 ^ 63" using assms(2) by (simp add: string_max_size_def)
  have inv: "parser_inv maxSize (hp_parser hp)" by (rule reach_inv [OF peer_fit_reach [OF assms(1)] lt])
  have no_send: "\<not> (A_onRequest m v h \<in> set (fst (onInput_catch e x)))" for e x
    by (cases e) (simp_all add: onInput_catch_def Let_def)
  obtain ok p where p: "parser_feed data (hp_parser hp) = (ok, p)" by fastforce
  obtain r p' where r: "parser_parse E p = (r, p')" by fastforce
  have "ok \<and> r = Inr Done \<and> m = (pa_message p')\<lparr>msg_address := hp_address hp\<rparr>"
    using assms(3) p r no_send
    by (auto simp: onInput_def onInput_request_def Let_def case_prod_unfold
        split: bool.splits sum.splits PState.splits option.splits)
  then have "body_left (Inr Done) p'" "m = (pa_message p')\<lparr>msg_address := hp_address hp\<rparr>"
    using parse_after_feed(1) [OF inv assms(2) peer_fit_sync [OF assms(1,2)]] p r by auto
  with assms(4) show ?thesis by (simp add: body_left_def)
qed

definition sample_post :: string where
  "sample_post = ''PUT / HTTP/1.1'' @ crlf @ ''Content-Length:1'' @ crlf @ crlf @ ''x''"

lemma sample_post_delivered:
  "case fst (onInput sample_env (\<lambda>_ _ _. None) sample_post (onConnection 64 Address0)) of
     [A_onRequest m v h] \<Rightarrow> tryGet_ContentLength (msg_headers m) = Some 1 | _ \<Rightarrow> False"
  by code_simp

theorem delivered_body_length_witness:
  "\<exists>m v h. A_onRequest m v h \<in> set (fst (onInput sample_env (\<lambda>_ _ _. None) sample_post (onConnection 64 Address0)))
     \<and> tryGet_ContentLength (msg_headers m) = Some 1 \<and> length (msg_body m) = 1"
proof -
  obtain m v h where a: "fst (onInput sample_env (\<lambda>_ _ _. None) sample_post (onConnection 64 Address0)) = [A_onRequest m v h]"
    and cl: "tryGet_ContentLength (msg_headers m) = Some 1"
    using sample_post_delivered by (auto split: list.splits action.splits)
  have "length (msg_body m) = sz_of_ssz (int 1) \<and> tryGet_TransferEncoding (msg_headers m) = None"
    by (rule delivered_body_length [where E = sample_env and app = "\<lambda>_ _ _. None" and maxSize = 64 and addr = Address0
          and v = v and h = h and data = sample_post, OF peer_fit.connect _ _ cl])
      (simp_all add: a string_max_size_def)
  with a cl show ?thesis by auto
qed

text \<open>
  \<open>reset\<close> does not reset the body step: after a body that was cut off by the size limit, the
  byte count of the refused request is subtracted from the length of the next one.
\<close>

lemma reset_keeps_bytesRead: "pa_body (parser_reset p) = pa_body p"
  by (simp add: parser_reset_def ParserBase_reset_def)

lemma bytesRead_after_413:
  assumes "ab_max (pa_buffer (hp_parser hp)) < length (sbuf (area (hp_parser hp))) + length data"
  shows "pa_body (hp_parser (snd (onInput E app data hp))) = pa_body (hp_parser hp)"
  using assms
  by (simp add: onInput_def parser_feed_def array_feed_def onInput_catch_def Let_def reset_keeps_bytesRead)

text \<open>With three bytes counted, a body announced with nine bytes is complete after six.\<close>

lemma stale_bytesRead_short_body:
  assumes "tryGet_ContentLength (msg_headers m) = Some 9" "tryGet_TransferEncoding (msg_headers m) = None"
    "bs_bytesRead b = 3" "msg_body m = []" "c = \<lparr>sbuf = ''123456'', spos = 0\<rparr>"
  shows "BodyStep_apply b m c = (Inr Done, b\<lparr>bs_bytesRead := 0\<rparr>, m\<lparr>msg_body := ''123456''\<rparr>, c\<lparr>spos := 6\<rparr>)"
proof -
  have z: "sz_of_ssz 9 = 9" by simp
  have "parseContentLength 9 b m c = (Inr Done, b\<lparr>bs_bytesRead := 0\<rparr>, m\<lparr>msg_body := ''123456''\<rparr>, c\<lparr>spos := 6\<rparr>)"
    using parseContentLength_eq [of c m b 9] assms z
    by (simp add: wf_cursor_def bytes_wanted_def remaining_def rest_def string_max_size_def)
  with assms show ?thesis by (simp add: BodyStep_apply_def)
qed

end
