(* ===== verification/Parser_Roundtrip.thy ===== *)
theory Parser_Roundtrip
  imports Http_Parser
begin

text \<open>
  What a client prints, the parser reads: the request line with its query, and a chunked body.
  The texts are the ones of \<open>src/client/client.cc\<close> (\<open>writeRequest\<close>) and of the chunked
  encoding.
\<close>

section \<open>The request line\<close>

text \<open>Keys and values that need no escaping.\<close>

definition query_token :: "string \<times> string \<Rightarrow> bool" where
  "query_token kv \<longleftrightarrow> set (fst kv) \<inter> {CHR ''='', SP, CHR ''&''} = {} \<and> set (snd kv) \<inter> {SP, CHR ''&''} = {}"

fun query_text :: "query \<Rightarrow> string" where
  "query_text [] = []"
| "query_text [(k, v)] = k @ ''='' @ v"
| "query_text ((k, v) # q) = k @ ''='' @ v @ ''&'' @ query_text q"

lemma Query_as_str_text: "Query_as_str q = (if q = [] then [] else CHR ''?'' # query_text q)"
proof -
  have "concat (map (\<lambda>(k, v). ''&'' @ k @ ''='' @ v) q) = (if q = [] then [] else CHR ''&'' # query_text q)"
    by (induction q rule: query_text.induct) auto
  then show ?thesis by (simp add: Query_as_str_def)
qed

lemma c_tolower_amp [simp]: "c_tolower (CHR ''&'') = CHR ''&''"
  by code_simp

lemma until_find_key: "until_find [CHR ''='', SP, CHR ''&''] Insensitive x \<longleftrightarrow> x \<in> {CHR ''='', SP, CHR ''&''}"
  by (auto simp: until_find_def)

lemma until_find_val: "until_find [SP, CHR ''&''] Insensitive x \<longleftrightarrow> x \<in> {SP, CHR ''&''}"
  by (auto simp: until_find_def)

lemma match_until_token:
  assumes "wf_cursor c" "rest c = a @ x # t" "\<forall>y \<in> set a. \<not> until_find cs Insensitive y" "until_find cs Insensitive x"
  shows "match_until cs Insensitive c = (True, c\<lparr>spos := spos c + length a\<rparr>)"
proof -
  have "takeWhile (\<lambda>y. \<not> until_find cs Insensitive y) (rest c) = a"
    unfolding assms(2) by (rule takeWhile_stop) (use assms(3,4) in \<open>auto simp: list_all_iff\<close>)
  then show ?thesis using match_until_eq [OF assms(1), of cs Insensitive] assms(2,4) by (simp add: list_ex_iff)
qed

text \<open>One parameter of the query, followed by \<open>x\<close>.\<close>

lemma query_loop_pair:
  assumes wf: "wf_cursor c" and r: "rest c = k @ CHR ''='' # v @ x # t" and kv: "query_token (k, v)"
    and x: "x = SP \<or> x = CHR ''&''"
  shows "query_loop c m = query_loop (c\<lparr>spos := spos c + (length k + 1 + length v + (if x = SP then 0 else 1))\<rparr>)
     (m\<lparr>msg_query := Query_add k v (msg_query m)\<rparr>)"
proof -
  define c1 where "c1 = c\<lparr>spos := spos c + length k\<rparr>"
  define c2 where "c2 = c1\<lparr>spos := Suc (spos c1)\<rparr>"
  define c3 where "c3 = c2\<lparr>spos := spos c2 + length v\<rparr>"
  define c4 where "c4 = c3\<lparr>spos := Suc (spos c3)\<rparr>"
  have wf1: "wf_cursor c1" and r1: "rest c1 = CHR ''='' # v @ x # t"
    unfolding c1_def using wf_at [OF wf r] rest_at [OF r] by simp_all
  have wf2: "wf_cursor c2" and r2: "rest c2 = v @ x # t"
    unfolding c2_def using wf_Suc [OF wf1 r1] rest_Suc [OF r1] by simp_all
  have wf3: "wf_cursor c3" and r3: "rest c3 = x # t"
    unfolding c3_def using wf_at [OF wf2 r2] rest_at [OF r2] by simp_all
  have m1: "match_until [CHR ''='', SP, CHR ''&''] Insensitive c = (True, c1)"
    unfolding c1_def by (rule match_until_token [OF wf r]) (use kv in \<open>auto simp: until_find_key query_token_def\<close>)
  have m2: "match_until [SP, CHR ''&''] Insensitive c2 = (True, c3)"
    unfolding c3_def by (rule match_until_token [OF wf2 r2]) (use kv x in \<open>auto simp: until_find_val query_token_def\<close>)
  have a1: "advance 1 c1 = (True, c2)" "advance 1 c3 = (True, c4)"
    unfolding c2_def c4_def by (rule advance1_Cons [OF wf1 r1], rule advance1_Cons [OF wf3 r3])
  have t1: "token_text c c1 = k" "token_text c2 c3 = v"
    unfolding c1_def c3_def by (simp_all add: r r2)
  have n: "current c \<noteq> SP" "current c1 = CHR ''=''" "current c3 = x"
    using r r1 r3 kv by (cases k; auto simp: current_def query_token_def)+
  have p: "c3 = c\<lparr>spos := spos c + (length k + 1 + length v)\<rparr>" "c4 = c\<lparr>spos := spos c + (length k + 1 + length v + 1)\<rparr>"
    by (simp_all add: c1_def c2_def c3_def c4_def)
  show ?thesis
    using x by (subst query_loop.simps) (auto simp: m1 m2 a1 t1 n Let_def p [symmetric] simp del: One_nat_def)
qed

text \<open>The query loop on a printed query, in front of the space that ends the target.\<close>

lemma query_loop_text:
  assumes "wf_cursor c" "rest c = query_text q @ SP # t" "\<forall>kv \<in> set q. query_token kv" "q \<noteq> []"
  shows "query_loop c m = (True, m\<lparr>msg_query := fold (\<lambda>(k, v). Query_add k v) q (msg_query m)\<rparr>,
     c\<lparr>spos := spos c + length (query_text q)\<rparr>)"
  using assms
proof (induction q arbitrary: c m rule: query_text.induct)
  case (2 k v)
  have r: "rest c = k @ CHR ''='' # v @ SP # t" using "2.prems"(2) by simp
  have "rest c = (k @ ''='' @ v) @ SP # t" using r by simp
  from rest_at [OF this] have "current (c\<lparr>spos := spos c + (length k + 1 + length v)\<rparr>) = SP" by (simp add: current_def)
  then show ?case
    using query_loop_pair [OF "2.prems"(1) r, of m] "2.prems"(3)
    by (simp add: query_loop.simps [of "c\<lparr>spos := spos c + (length k + 1 + length v)\<rparr>"] del: One_nat_def)
next
  case (3 k v kv q)
  have r: "rest c = k @ CHR ''='' # v @ CHR ''&'' # query_text (kv # q) @ SP # t" using "3.prems"(2) by simp
  then have r': "rest c = (k @ ''='' @ v @ ''&'') @ query_text (kv # q) @ SP # t" by simp
  let ?c = "c\<lparr>spos := spos c + (length k + 1 + length v + 1)\<rparr>"
  have "wf_cursor ?c" "rest ?c = query_text (kv # q) @ SP # t"
    using wf_at [OF "3.prems"(1) r'] rest_at [OF r'] by simp_all
  then have "query_loop ?c (m\<lparr>msg_query := Query_add k v (msg_query m)\<rparr>) =
      (True, m\<lparr>msg_query := fold (\<lambda>(k, v). Query_add k v) (kv # q) (Query_add k v (msg_query m))\<rparr>,
       ?c\<lparr>spos := spos ?c + length (query_text (kv # q))\<rparr>)"
    using "3.IH" [of ?c "m\<lparr>msg_query := Query_add k v (msg_query m)\<rparr>"] "3.prems"(3) by simp
  then show ?case
    using query_loop_pair [OF "3.prems"(1) r, of m] "3.prems"(3) by (simp add: ac_simps)
qed simp

lemma um_find_httpMethods: "um_find (=) httpMethods (methodString m) = Some m"
proof -
  have "um_find (=) (map (\<lambda>m. (methodString m, m)) ms) (methodString m) = Some m" if "m \<in> set ms" for ms
    using that by (induction ms) (auto dest: methodString_inj)
  moreover have "httpMethods = map (\<lambda>m. (methodString m, m)) (map fst HTTP_METHODS)"
    unfolding httpMethods_def by (subst methodString_table) simp
  ultimately show ?thesis using methodString_all by metis
qed

text \<open>The version and the line end.\<close>

lemma request_version_text:
  assumes wf: "wf_cursor c" and r: "rest c = SP # versionString v @ crlf @ t"
  shows "request_version c m = (Inr Next, m\<lparr>msg_version := v\<rparr>, c\<lparr>spos := spos c + 11\<rparr>)"
proof -
  define c1 where "c1 = c\<lparr>spos := Suc (spos c)\<rparr>"
  define c2 where "c2 = c1\<lparr>spos := spos c1 + 8\<rparr>"
  have l: "length (versionString v) = 8" "CR \<notin> set (versionString v)" by (cases v; simp)+
  have wf1: "wf_cursor c1" and r1: "rest c1 = versionString v @ CR # LF # t"
    unfolding c1_def using wf_Suc [OF wf r] rest_Suc [OF r] by simp_all
  have a1: "advance 1 c = (True, c1)" unfolding c1_def by (rule advance1_Cons [OF wf r])
  have w: "advance_while (\<lambda>c. \<not> eol c) c1 = (True, c2)"
    using advance_while_eol [OF wf1] before_crlf_line [OF l(2), of t] r1 l(1) by (simp add: c2_def)
  have wf2: "wf_cursor c2" and r2: "rest c2 = CR # LF # t"
    unfolding c2_def using wf_at [OF wf1 r1] rest_at [OF r1] l(1) by simp_all
  have a2: "advance 2 c2 = (True, c2\<lparr>spos := spos c2 + 2\<rparr>)"
    by (rule advance_ok [OF wf2]) (simp add: remaining_length_rest r2)
  have n: "spos c2 - spos c1 = 8" by (simp add: c2_def)
  have "strncmp_eq (rest c1) ''HTTP/1.0'' 8 = (v = Http10)" "strncmp_eq (rest c1) ''HTTP/1.1'' 8 = (v = Http11)"
    unfolding r1 by (cases v; simp add: Let_def eval_nat_numeral)+
  moreover have "c2\<lparr>spos := spos c2 + 2\<rparr> = c\<lparr>spos := spos c + 11\<rparr>" by (simp add: c2_def c1_def)
  ultimately show ?thesis
    using a1 w a2 n by (cases v) (simp_all add: request_version_def Let_def del: One_nat_def)
qed

definition target_char :: "char \<Rightarrow> bool" where
  "target_char x \<longleftrightarrow> x \<noteq> CHR ''?'' \<and> x \<noteq> SP"

text \<open>The target: the resource and the query in front of the version.\<close>

lemma request_target_text:
  assumes wf: "wf_cursor c" and r: "rest c = SP # res @ Query_as_str q @ SP # versionString v @ crlf @ t"
    and res: "\<forall>x \<in> set res. target_char x" and q: "\<forall>kv \<in> set q. query_token kv"
  shows "request_target c m = (Inr Next, m\<lparr>msg_resource := res,
      msg_query := fold (\<lambda>(k, v). Query_add k v) q (msg_query m), msg_version := v\<rparr>,
      c\<lparr>spos := spos c + (12 + length res + length (Query_as_str q))\<rparr>)"
proof -
  define c1 where "c1 = c\<lparr>spos := Suc (spos c)\<rparr>"
  define c2 where "c2 = c1\<lparr>spos := spos c1 + length res\<rparr>"
  have wf1: "wf_cursor c1" and r1: "rest c1 = res @ Query_as_str q @ SP # versionString v @ crlf @ t"
    unfolding c1_def using wf_Suc [OF wf r] rest_Suc [OF r] by simp_all
  have wf2: "wf_cursor c2" and r2: "rest c2 = Query_as_str q @ SP # versionString v @ crlf @ t"
    unfolding c2_def using wf_at [OF wf1 r1] rest_at [OF r1] by simp_all
  have a1: "advance 1 c = (True, c1)" unfolding c1_def by (rule advance1_Cons [OF wf r])
  have hd: "\<exists>y ys. Query_as_str q @ SP # versionString v @ crlf @ t = y # ys \<and> \<not> target_char y"
    by (auto simp: Query_as_str_text target_char_def)
  then have tw: "takeWhile target_char (rest c1) = res"
    unfolding r1 by (intro takeWhile_stop) (use res in \<open>auto simp: list_all_iff\<close>)
  have ex: "list_ex (\<lambda>x. \<not> target_char x) (rest c1)" unfolding r1 by (simp add: list_ex_iff target_char_def)
  have w: "advance_while (\<lambda>c. current c \<noteq> CHR ''?'' \<and> current c \<noteq> SP) c1 = (True, c2)"
    using advance_while_char [OF wf1, of target_char] tw ex by (simp add: c2_def target_char_def)
  have tok: "token_text c1 c2 = res" unfolding c2_def by (simp add: r1)
  have e: "\<not> eof c" "current c = SP" using r by (simp_all add: eof_rest current_def)
  show ?thesis
  proof (cases "q = []")
    case True
    then have r2': "rest c2 = SP # versionString v @ crlf @ t" using r2 by (simp add: Query_as_str_text)
    have "current c2 = SP" using r2' by (simp add: current_def)
    then show ?thesis
      using True e a1 w tok request_version_text [OF wf2 r2', of "m\<lparr>msg_resource := res\<rparr>"]
      by (simp add: request_target_def Let_def Query_as_str_text c1_def c2_def del: One_nat_def)
  next
    case False
    define c3 where "c3 = c2\<lparr>spos := Suc (spos c2)\<rparr>"
    define c4 where "c4 = c3\<lparr>spos := spos c3 + length (query_text q)\<rparr>"
    have r2': "rest c2 = CHR ''?'' # query_text q @ SP # versionString v @ crlf @ t"
      using r2 False by (simp add: Query_as_str_text)
    have wf3: "wf_cursor c3" and r3: "rest c3 = query_text q @ SP # versionString v @ crlf @ t"
      unfolding c3_def using wf_Suc [OF wf2 r2'] rest_Suc [OF r2'] by simp_all
    have wf4: "wf_cursor c4" and r4: "rest c4 = SP # versionString v @ crlf @ t"
      unfolding c4_def using wf_at [OF wf3 r3] rest_at [OF r3] by simp_all
    have a2: "advance 1 c2 = (True, c3)" unfolding c3_def by (rule advance1_Cons [OF wf2 r2'])
    have "current c2 = CHR ''?''" using r2' by (simp add: current_def)
    then show ?thesis
      using False e a1 w tok a2 query_loop_text [OF wf3 r3 q False, of "m\<lparr>msg_resource := res\<rparr>"]
        request_version_text [OF wf4 r4]
      by (simp add: request_target_def Let_def c4_def [symmetric] del: One_nat_def)
        (simp add: Query_as_str_text c1_def c2_def c3_def c4_def)
  qed
qed

definition request_line :: "Method \<Rightarrow> string \<Rightarrow> query \<Rightarrow> Version \<Rightarrow> string" where
  "request_line meth res q v = methodString meth @ '' '' @ res @ Query_as_str q @ '' '' @ versionString v @ crlf"

lemma RequestLineStep_text:
  assumes "wf_cursor c" "rest c = request_line meth res q v @ t"
    and "\<forall>x \<in> set res. target_char x" "\<forall>kv \<in> set q. query_token kv"
  shows "RequestLineStep_apply c m = (Inr Next, m\<lparr>msg_method := Some meth, msg_resource := res,
      msg_query := fold (\<lambda>(k, v). Query_add k v) q (msg_query m), msg_version := v\<rparr>,
      c\<lparr>spos := spos c + length (request_line meth res q v)\<rparr>)"
proof -
  define c1 where "c1 = c\<lparr>spos := spos c + length (methodString meth)\<rparr>"
  have r: "rest c = methodString meth @ SP # res @ Query_as_str q @ SP # versionString v @ crlf @ t"
    using assms(2) by (simp add: request_line_def)
  have m: "match_until [SP] Insensitive c = (True, c1)"
    using match_until_stop [OF assms(1) _ r methodString_token(1)] by (simp add: c1_def)
  have wf1: "wf_cursor c1" and r1: "rest c1 = SP # res @ Query_as_str q @ SP # versionString v @ crlf @ t"
    unfolding c1_def using wf_at [OF assms(1) r] rest_at [OF r] by simp_all
  have tok: "token_text c c1 = methodString meth" unfolding c1_def by (simp add: r)
  have len: "length (request_line meth res q v) = length (methodString meth) + (12 + length res + length (Query_as_str q))"
    by (cases v) (simp_all add: request_line_def)
  show ?thesis
    using m tok request_target_text [OF wf1 r1 assms(3,4), of "m\<lparr>msg_method := Some meth\<rparr>"]
    by (simp add: RequestLineStep_apply_def um_find_httpMethods reverting_def len) (simp add: c1_def ac_simps)
qed

text \<open>
  C5: a printed request line (method, resource, query as \<open>Query::as_str\<close> prints it, version) is
  read back: the step succeeds, stores the method, the resource, the parameters in order and the
  version, and leaves the cursor behind the line.
\<close>

theorem request_line_round_trip:
  assumes "wf_cursor c" "rest c = request_line meth res q v @ t"
    and "\<forall>x \<in> set res. target_char x" "\<forall>kv \<in> set q. query_token kv"
  shows "RequestLineStep_apply c m = (Inr Next, m\<lparr>msg_method := Some meth, msg_resource := res,
      msg_query := fold (\<lambda>(k, v). Query_add k v) q (msg_query m), msg_version := v\<rparr>,
      c\<lparr>spos := spos c + length (request_line meth res q v)\<rparr>)"
  using assms by (rule RequestLineStep_text)

theorem request_line_round_trip_witness:
  "RequestLineStep_apply (RawStreamBuf (request_line Get ''/users'' [(''id'', ''7''), (''all'', '''')] Http11)) Message0 =
     (Inr Next, Message0\<lparr>msg_method := Some Get, msg_resource := ''/users'',
       msg_query := [(''all'', ''''), (''id'', ''7'')], msg_version := Http11\<rparr>,
      \<lparr>sbuf = request_line Get ''/users'' [(''id'', ''7''), (''all'', '''')] Http11, spos = 31\<rparr>)"
proof -
  let ?q = "[(''id'', ''7''), (''all'', '''')]"
  have "length (request_line Get ''/users'' ?q Http11) = 31"
    by (simp add: request_line_def Query_as_str_text)
  moreover have "fold (\<lambda>(k, v). Query_add k v) ?q (msg_query Message0) = [(''all'', ''''), (''id'', ''7'')]"
    by (simp add: Query_add_def Message0_def um_insert_def)
  ultimately show ?thesis
    using request_line_round_trip [of "RawStreamBuf (request_line Get ''/users'' ?q Http11)" Get "''/users''" ?q Http11 "[]" Message0]
    by (simp add: target_char_def query_token_def) (simp add: RawStreamBuf_def)
qed

section \<open>A chunked body\<close>

definition chunk_text :: "string \<Rightarrow> string" where
  "chunk_text d = hex_str (length d) @ crlf @ d @ crlf"

definition chunked_text :: "string list \<Rightarrow> string" where
  "chunked_text ds = concat (map chunk_text ds) @ ''0'' @ crlf"

lemma hex_str_no_CR: "CR \<notin> set (hex_str n)"
proof
  assume "CR \<in> set (hex_str n)"
  then have "is_digit 16 CR" using num_str_digits [of 16 n] by (auto simp: list_all_iff)
  moreover have "\<not> is_digit 16 CR" by code_simp
  ultimately show False by contradiction
qed

text \<open>The size line.\<close>

lemma chunk_size_line_text:
  assumes wf: "wf_cursor c" and r: "rest c = hex_str n @ crlf @ t" and n: "n < 2 ^ 64"
  shows "chunk_size_line c = Inr (Some (n, c\<lparr>spos := spos c + (length (hex_str n) + 2)\<rparr>))"
proof -
  define c1 where "c1 = c\<lparr>spos := spos c + length (hex_str n)\<rparr>"
  have r': "rest c = hex_str n @ CR # LF # t" using r by simp
  have w: "advance_while (\<lambda>c. \<not> eol c) c = (True, c1)"
    using advance_while_eol [OF wf] before_crlf_line [OF hex_str_no_CR, of n t] r' by (simp add: c1_def)
  have wf1: "wf_cursor c1" and r1: "rest c1 = CR # LF # t"
    unfolding c1_def using wf_at [OF wf r'] rest_at [OF r'] by simp_all
  have tok: "token_text c c1 = hex_str n" unfolding c1_def by (simp add: r')
  have v: "from_chars_u 16 (2 ^ 64 - 1) (hex_str n) = Inr (n, length (hex_str n))"
    using from_chars_num_str [of 16 n "2 ^ 64 - 1" "[]"] n by simp
  have a: "advance 2 c1 = (True, c1\<lparr>spos := spos c1 + 2\<rparr>)"
    by (rule advance_ok [OF wf1]) (simp add: remaining_length_rest r1)
  have "mem_at (rest c) (length (hex_str n)) = CR" by (simp add: r' mem_at_def)
  with w tok v a show ?thesis by (simp add: chunk_size_line_def) (simp add: c1_def)
qed

text \<open>One whole chunk, and the last one.\<close>

lemma Chunk_parse_text:
  assumes wf: "wf_cursor c" and r: "rest c = chunk_text d @ t" and d: "d \<noteq> []" and b: "ssz (ch_size b) = -1"
    and fits: "length (msg_body m) + length d \<le> string_max_size"
  shows "Chunk_parse b m c = (Inr Complete, b\<lparr>ch_size := int (length d), ch_already := 0\<rparr>,
     m\<lparr>msg_body := msg_body m @ d\<rparr>, c\<lparr>spos := spos c + length (chunk_text d)\<rparr>)"
proof -
  have small: "length d < 2 ^ 62" using fits by (simp add: string_max_size_def)
  define c2 where "c2 = c\<lparr>spos := spos c + (length (hex_str (length d)) + 2)\<rparr>"
  have r': "rest c = hex_str (length d) @ crlf @ d @ crlf @ t" using r by (simp add: chunk_text_def)
  then have r'': "rest c = (hex_str (length d) @ crlf) @ d @ crlf @ t" by simp
  have s: "chunk_size_line c = Inr (Some (length d, c2))"
    unfolding c2_def by (rule chunk_size_line_text [OF wf r']) (use small in simp)
  have wf2: "wf_cursor c2" and r2: "rest c2 = d @ crlf @ t"
    unfolding c2_def using wf_at [OF wf r''] rest_at [OF r''] by simp_all
  define c3 where "c3 = c2\<lparr>spos := spos c2 + length d\<rparr>"
  have wf3: "wf_cursor c3" and r3: "rest c3 = crlf @ t"
    unfolding c3_def using wf_at [OF wf2 r2] rest_at [OF r2] by simp_all
  have a1: "advance (length d) c2 = (True, c3)"
    unfolding c3_def by (rule advance_ok [OF wf2]) (simp add: remaining_length_rest r2)
  have a2: "advance 2 c3 = (True, c3\<lparr>spos := spos c3 + 2\<rparr>)"
    by (rule advance_ok [OF wf3]) (simp add: remaining_length_rest r3)
  let ?b = "b\<lparr>ch_size := ssz_of_sz (length d), ch_already := 0\<rparr>"
  have z: "ssz_of_sz (length d) = int (length d)" "ssz (int (length d)) = int (length d)" "ssz 0 = 0"
    "sz_of_ssz (int (length d)) = length d"
    using small by simp_all
  have app: "str_append (msg_body m) (rest c2) (length d) = Inr (msg_body m @ d)"
    using fits by (simp add: str_append_def r2)
  have "chunk_data ?b m c2 = (Inr Complete, ?b, m\<lparr>msg_body := msg_body m @ d\<rparr>, c3\<lparr>spos := spos c3 + 2\<rparr>)"
    using d fits a1 a2 app by (simp add: chunk_data_def Let_def z remaining_length_rest r2)
  moreover have "c3\<lparr>spos := spos c3 + 2\<rparr> = c\<lparr>spos := spos c + length (chunk_text d)\<rparr>"
    by (simp add: c3_def c2_def chunk_text_def)
  ultimately show ?thesis using b s z by (simp add: Chunk_parse_def)
qed

lemma Chunk_parse_zero:
  assumes "wf_cursor c" "rest c = ''0'' @ crlf @ t" "ssz (ch_size b) = -1"
  shows "Chunk_parse b m c = (Inr Final, b\<lparr>ch_size := 0, ch_already := 0\<rparr>, m, c\<lparr>spos := spos c + 3\<rparr>)"
proof -
  have h: "hex_str 0 = ''0''" by code_simp
  have "chunk_size_line c = Inr (Some (0, c\<lparr>spos := spos c + 3\<rparr>))"
    using chunk_size_line_text [OF assms(1), of 0 t] assms(2) h by simp
  then show ?thesis using assms(3) by (simp add: Chunk_parse_def chunk_data_def)
qed

lemma length_chunk_texts: "length (concat ds) \<le> length (concat (map chunk_text ds))"
  by (induction ds) (auto simp: chunk_text_def)

lemma transfer_chunks:
  assumes "wf_cursor c" "rest c = chunked_text ds @ t" "\<forall>d \<in> set ds. d \<noteq> []" "ch_size b = -1"
    and "length (msg_body m) + length (concat ds) \<le> string_max_size"
  shows "\<exists>b'. parseTransferEncoding Chunked b m c = (Inr Done, b', m\<lparr>msg_body := msg_body m @ concat ds\<rparr>,
      c\<lparr>spos := spos c + length (chunked_text ds)\<rparr>) \<and> ch_size b' = -1"
  using assms
proof (induction ds arbitrary: b m c)
  case Nil
  then have "Chunk_parse b m c = (Inr Final, b\<lparr>ch_size := 0, ch_already := 0\<rparr>, m, c\<lparr>spos := spos c + 3\<rparr>)"
    by (intro Chunk_parse_zero [of _ t]) (simp_all add: chunked_text_def)
  then show ?case by (simp add: parseTransferEncoding_def transfer_loop.simps [of b m c] Chunk_reset_def chunked_text_def)
next
  case (Cons d ds)
  have r: "rest c = chunk_text d @ chunked_text ds @ t" using Cons.prems(2) by (simp add: chunked_text_def)
  let ?c = "c\<lparr>spos := spos c + length (chunk_text d)\<rparr>" and ?m = "m\<lparr>msg_body := msg_body m @ d\<rparr>"
  let ?b = "Chunk_reset (b\<lparr>ch_size := int (length d), ch_already := 0\<rparr>)"
  have p: "Chunk_parse b m c = (Inr Complete, b\<lparr>ch_size := int (length d), ch_already := 0\<rparr>, ?m, ?c)"
    by (rule Chunk_parse_text [OF Cons.prems(1) r]) (use Cons.prems in auto)
  have wf: "wf_cursor ?c" and r': "rest ?c = chunked_text ds @ t"
    using wf_at [OF Cons.prems(1) r] rest_at [OF r] by simp_all
  have ne: "\<not> eof ?c" using r' by (simp add: eof_rest chunked_text_def)
  have "transfer_loop b m c = transfer_loop ?b ?m ?c"
    by (subst transfer_loop.simps) (simp add: p ne)
  moreover have "\<exists>b'. parseTransferEncoding Chunked ?b ?m ?c =
      (Inr Done, b', ?m\<lparr>msg_body := msg_body ?m @ concat ds\<rparr>, ?c\<lparr>spos := spos ?c + length (chunked_text ds)\<rparr>) \<and> ch_size b' = -1"
    by (rule Cons.IH [OF wf r']) (use Cons.prems in \<open>auto simp: Chunk_reset_def\<close>)
  ultimately show ?case by (simp add: parseTransferEncoding_def chunked_text_def ac_simps)
qed

text \<open>
  C6: a body printed in the chunked encoding, in chunks of any sizes, is decoded: the body step
  ends with \<open>Done\<close>, the concatenation of the chunks has been appended to the body, and the
  cursor is behind the line of the last chunk.
\<close>

theorem chunked_round_trip:
  assumes "wf_cursor c" "rest c = chunked_text ds @ t" "\<forall>d \<in> set ds. d \<noteq> []" "ch_size b = -1"
    and "length (msg_body m) + length (concat ds) \<le> string_max_size"
  shows "\<exists>b'. parseTransferEncoding Chunked b m c = (Inr Done, b', m\<lparr>msg_body := msg_body m @ concat ds\<rparr>,
      c\<lparr>spos := spos c + length (chunked_text ds)\<rparr>) \<and> ch_size b' = -1"
  by (rule transfer_chunks [OF assms])

theorem chunked_round_trip_witness:
  "\<exists>b'. parseTransferEncoding Chunked BodyStep0 Message0 (RawStreamBuf (chunked_text [''hello'', '' world''])) =
     (Inr Done, b', Message0\<lparr>msg_body := ''hello world''\<rparr>,
      (RawStreamBuf (chunked_text [''hello'', '' world'']))\<lparr>spos := length (chunked_text [''hello'', '' world''])\<rparr>)
     \<and> ch_size b' = -1"
proof -
  have "length (chunked_text [''hello'', '' world'']) < 2 ^ 63" by code_simp
  then show ?thesis
    using chunked_round_trip [of "RawStreamBuf (chunked_text [''hello'', '' world''])" "[''hello'', '' world'']" "[]" BodyStep0 Message0]
    by (simp add: BodyStep0_def Message0_def string_max_size_def) (simp add: RawStreamBuf_def)
qed

section \<open>Where the decoder goes wrong\<close>

text \<open>
  A chunk whose closing CR and LF arrive in different packets: the CR is appended to the body and
  the rest of the chunk is refused.
\<close>

lemma chunk_crlf_split:
  "let (r1, b1, m1, c1) = transfer_loop BodyStep0 Message0 (RawStreamBuf (''3'' @ crlf @ ''abc'' @ [CR]))
   in r1 = Inr Again \<and> msg_body m1 = ''abc'' @ [CR]
      \<and> fst (transfer_loop b1 m1 (c1\<lparr>sbuf := sbuf c1 @ [LF] @ ''0'' @ crlf\<rparr>)) = Inl (raise ''basic_string::append'')"
  by code_simp

text \<open>Any prefix of \<open>HTTP/1.0\<close>, the empty one included, is taken for that version.\<close>

lemma version_prefix_accepted:
  "fst (request_version (RawStreamBuf (SP # take n ''HTTP/1.0'' @ crlf)) Message0) = Inr Next" if "n < 9"
proof -
  have "n \<in> set [0..<9]" using that by simp
  moreover have "list_all (\<lambda>n. fst (request_version (RawStreamBuf (SP # take n ''HTTP/1.0'' @ crlf)) Message0) = Inr Next) [0..<9]"
    by code_simp
  ultimately show ?thesis by (simp only: list_all_iff)
qed

text \<open>A status line of which fewer than eight bytes have arrived is refused instead of awaited.\<close>

lemma response_line_short:
  assumes "wf_cursor c" "length (rest c) < 8"
  shows "ResponseLineStep_apply c m = (Inl (raise ''Encountered invalid HTTP version''), m, c)"
proof -
  have "\<not> prefix ''HTTP/1.1'' (rest c)" "\<not> prefix ''HTTP/1.0'' (rest c)"
    using assms(2) by (auto dest: prefix_length_le)
  then show ?thesis by (simp add: ResponseLineStep_apply_def match_raw_eq [OF assms(1)] reverting_def)
qed

end
