(* ===== verification/Head_Roundtrip.thy ===== *)
theory Head_Roundtrip
  imports Parser_Roundtrip Parser_Incremental
begin

text \<open>
  What the header step makes of printed header lines, shared by the response of a server and the
  request of a client: every line is recognised and its effect on the message is the one
  \<open>add_header\<close> has on the line alone; the lines of header objects and of cookies give these
  objects back.
\<close>

section \<open>Lines\<close>

type_synonym line = "string \<times> string"

definition line_text :: "line \<Rightarrow> string" where
  "line_text l = fst l @ '': '' @ snd l @ crlf"

definition good_line :: "line \<Rightarrow> bool" where
  "good_line l \<longleftrightarrow> fst l \<noteq> [] \<and> hd (fst l) \<noteq> CR \<and> CHR '':'' \<notin> set (fst l)
     \<and> CR \<notin> set (snd l) \<and> (snd l = [] \<or> hd (snd l) \<noteq> SP)"

lemma header_line_good:
  assumes wf: "wf_cursor c" and r: "rest c = line_text (name, v) @ t" and g: "good_line (name, v)"
  shows "header_line E c m =
     (case add_header E name (v @ crlf) (length v) m of
        (Some e, m') \<Rightarrow> (Inl e, m', c\<lparr>spos := spos c + (length name + 2 + length v)\<rparr>)
      | (None, m') \<Rightarrow> (Inr Next, m', c\<lparr>spos := spos c + length (line_text (name, v))\<rparr>))"
proof -
  have g': "CHR '':'' \<notin> set name" "CR \<notin> set v" "v = [] \<or> hd v \<noteq> SP" using g by (auto simp: good_line_def)
  define c1 where "c1 = c\<lparr>spos := spos c + length name\<rparr>"
  define c2 where "c2 = c1\<lparr>spos := Suc (spos c1)\<rparr>"
  define c3 where "c3 = c2\<lparr>spos := spos c2 + 1\<rparr>"
  define c4 where "c4 = c3\<lparr>spos := spos c3 + length v\<rparr>"
  have r0: "rest c = name @ CHR '':'' # SP # v @ CR # LF # t" using r by (simp add: line_text_def)
  have wf1: "wf_cursor c1" and r1: "rest c1 = CHR '':'' # SP # v @ CR # LF # t"
    unfolding c1_def using wf_at [OF wf r0] rest_at [OF r0] by simp_all
  have wf2: "wf_cursor c2" and r2: "rest c2 = SP # v @ CR # LF # t"
    unfolding c2_def using wf_Suc [OF wf1 r1] rest_Suc [OF r1] by simp_all
  have wf3: "wf_cursor c3" and r3: "rest c3 = v @ CR # LF # t"
    unfolding c3_def using wf_Suc [OF wf2 r2] rest_Suc [OF r2] by simp_all
  have wf4: "wf_cursor c4" and r4: "rest c4 = CR # LF # t"
    unfolding c4_def using wf_at [OF wf3 r3] rest_at [OF r3] by simp_all
  have l1: "advance_while (\<lambda>c. current c \<noteq> CHR '':'') c = (True, c1)"
    using advance_while_char [OF wf, of "\<lambda>x. x \<noteq> CHR '':''"] takeWhile_neq_split [OF g'(1)] by (simp add: r0 c1_def)
  have l2: "advance 1 c1 = (True, c2)" unfolding c2_def by (rule advance1_Cons [OF wf1 r1])
  have "takeWhile (\<lambda>x. x = SP) (v @ CR # LF # t) = []" using g'(3) by (cases v) auto
  then have l3: "advance_while (\<lambda>c. current c = SP) c2 = (True, c3)"
    using advance_while_char_stop [OF wf2, of "\<lambda>x. x = SP"] by (simp add: r2 c3_def)
  have l4: "advance_while (\<lambda>c. \<not> eol c) c3 = (True, c4)"
    using advance_while_eol [OF wf3] before_crlf_line [OF g'(2)] by (simp add: r3 c4_def)
  have l5: "advance 2 c4 = (True, c4\<lparr>spos := spos c4 + 2\<rparr>)" by (rule advance2_eol [OF r4 wf4])
  have name: "take (diff c2 (spos c) - 1) (rest c) = name" by (simp add: diff_def c2_def c1_def r0)
  have len: "diff c4 (spos c3) = length v" by (simp add: diff_def c4_def)
  have "length (rest c3) < 2 ^ 63" using wf3 by (auto simp: wf_cursor_def rest_def)
  moreover have "same_mem (length v) (rest c3) (v @ crlf)"
    unfolding same_mem_def r3 by (rule exI [of _ v]) simp
  ultimately have add: "add_header E name (rest c3) (length v) m = add_header E name (v @ crlf) (length v) m"
    by (intro add_header_same) (simp_all add: r3)
  have "header_line E c m = (case add_header E name (v @ crlf) (length v) m of
      (Some e, m') \<Rightarrow> (Inl e, m', c4) | (None, m') \<Rightarrow> (Inr Next, m', c4\<lparr>spos := spos c4 + 2\<rparr>))"
    using l1 l2 l3 l4 l5 by (simp add: header_line_def Let_def name len add del: One_nat_def split: prod.split option.split)
  moreover have "c4 = c\<lparr>spos := spos c + (length name + 2 + length v)\<rparr>"
    "c4\<lparr>spos := spos c4 + 2\<rparr> = c\<lparr>spos := spos c + length (line_text (name, v))\<rparr>"
    by (simp_all add: c4_def c3_def c2_def c1_def line_text_def ac_simps)
  ultimately show ?thesis by (simp only:)
qed

text \<open>The effect of a list of lines; \<open>None\<close> when one of them throws.\<close>

fun add_lines :: "http_env \<Rightarrow> line list \<Rightarrow> message \<Rightarrow> message option" where
  "add_lines E [] m = Some m"
| "add_lines E ((name, v) # ls) m =
     (case add_header E name (v @ crlf) (length v) m of (None, m') \<Rightarrow> add_lines E ls m' | (Some _, _) \<Rightarrow> None)"

lemma add_lines_append: "add_lines E (a @ b) m = Option.bind (add_lines E a m) (add_lines E b)"
  by (induction E a m rule: add_lines.induct) (auto split: prod.split option.split)

lemma headers_loop_lines:
  assumes "wf_cursor c" "rest c = concat (map line_text ls) @ crlf @ t" "\<forall>l \<in> set ls. good_line l" "add_lines E ls m = Some m'"
  shows "headers_loop E c m = (Inr Next, m', c\<lparr>spos := spos c + (length (concat (map line_text ls)) + 2)\<rparr>)"
  using assms
proof (induction ls arbitrary: c m)
  case Nil
  then have r: "rest c = CR # LF # t" by simp
  then have "eol c" by (simp add: eol_rest)
  with advance2_eol [OF r Nil.prems(1)] Nil.prems(4) show ?case by (subst headers_loop.simps) simp
next
  case (Cons l ls)
  obtain name v where l: "l = (name, v)" by (cases l)
  have r: "rest c = line_text (name, v) @ concat (map line_text ls) @ crlf @ t" using Cons.prems(2) l by simp
  have g: "good_line (name, v)" using Cons.prems(3) l by simp
  obtain m1 where a: "add_header E name (v @ crlf) (length v) m = (None, m1)" and ls: "add_lines E ls m1 = Some m'"
    using Cons.prems(4) l by (auto split: prod.splits option.splits)
  let ?c = "c\<lparr>spos := spos c + length (line_text (name, v))\<rparr>"
  have h: "header_line E c m = (Inr Next, m1, ?c)" using header_line_good [OF Cons.prems(1) r g] a by simp
  obtain x xs where "name = x # xs" "x \<noteq> CR" using g by (cases name) (auto simp: good_line_def)
  then have "\<not> eol c" using r by (simp add: eol_rest line_text_def)
  moreover have "headers_loop E ?c m1 = (Inr Next, m', ?c\<lparr>spos := spos ?c + (length (concat (map line_text ls)) + 2)\<rparr>)"
    using Cons.prems(3) ls by (intro Cons.IH wf_at [OF Cons.prems(1) r] rest_at [OF r]) simp_all
  ultimately show ?case using h l by (subst headers_loop.simps) (simp add: ac_simps)
qed

lemma HeadersStep_lines:
  assumes "wf_cursor c" "rest c = concat (map line_text ls) @ crlf @ t" "\<forall>l \<in> set ls. good_line l" "add_lines E ls m = Some m'"
  shows "HeadersStep_apply E c m = (Inr Next, m', c\<lparr>spos := spos c + (length (concat (map line_text ls)) + 2)\<rparr>)"
  using headers_loop_lines [OF assms] by (simp add: HeadersStep_apply_def reverting_def)

section \<open>The line of a header object\<close>

definition object_line :: "http_env \<Rightarrow> Header \<Rightarrow> line" where
  "object_line E h = (header_name h, header_write E h)"

text \<open>
  What a header object is read as from its line: in a message the value is followed by a line
  end, which some parsers see.
\<close>

definition reads_as :: "http_env \<Rightarrow> Header \<Rightarrow> Header \<Rightarrow> bool" where
  "reads_as E h h' \<longleftrightarrow>
     header_parseRaw E (header_write E h @ crlf) (length (header_write E h)) (header_init h) = Inr h'"

definition in_registry :: "Header \<Rightarrow> bool" where
  "in_registry h \<longleftrightarrow> makeHeader Registry (header_name h) = Inr (header_init h)"

text \<open>All header classes but \<open>ETag\<close>, which is not registered.\<close>

lemma in_registry_iff: "in_registry h \<longleftrightarrow> (\<forall>e. h \<noteq> H_ETag e)"
  by (cases h)
    (simp_all add: in_registry_def makeHeader_def Registry_eq registered_headers_def LowercaseEqual_iff to_lower_def)

text \<open>Headers without a look behind their value are recovered, \<open>Expect\<close> is the exception.\<close>

lemma reads_as_recoverable:
  assumes "recoverable E h" "length (header_write E h) < 2 ^ 63" "\<forall>x. h \<noteq> H_Expect x" "\<forall>m. h \<noteq> H_ContentType m"
  shows "reads_as E h h"
proof (cases h)
  case (H_Server ts)
  with assms show ?thesis by (cases ts) (simp_all add: reads_as_def Server_write_def)
next
  case (H_CacheControl ds)
  then show ?thesis
    using assms CacheControl_round_trip [of ds] by (simp add: reads_as_def CacheControl_parseRaw_def)
next
  case (H_Connection c)
  then show ?thesis using Connection_round_trip [of c] by (simp add: reads_as_def Connection_parseRaw_def)
qed (use assms in \<open>simp_all add: reads_as_def encoding_round_trip
      ContentLength_round_trip ETag_round_trip Host_round_trip FullDate_round_trip del: FullDate_write.simps\<close>)

lemma Expect_unread: "reads_as E (H_Expect x) (H_Expect Expect_Ext)"
  by (cases x) (simp_all add: reads_as_def Expect_parseRaw_def c_str_def)

definition add_object :: "http_env \<Rightarrow> Header \<times> Header \<Rightarrow> message \<Rightarrow> message" where
  "add_object E hh m =
     m\<lparr>msg_headers := Collection_addRaw (object_line E (fst hh)) (Collection_add (snd hh) (msg_headers m))\<rparr>"

lemma header_name_plain:
  "\<not> LowercaseEqualStatic (header_name h) ''cookie''" "\<not> LowercaseEqualStatic (header_name h) ''set-cookie''"
  by (cases h; simp add: LowercaseEqualStatic_iff to_lower_def)+

lemma add_header_object:
  assumes "in_registry h" "reads_as E h h'"
  shows "add_header E (header_name h) (header_write E h @ crlf) (length (header_write E h)) m = (None, add_object E (h, h') m)"
proof -
  have "isRegistered Registry (header_name h)"
    using assms(1) by (auto simp: in_registry_def makeHeader_def isRegistered_def split: option.splits)
  with assms show ?thesis
    by (simp add: add_header_def header_name_plain in_registry_def reads_as_def Let_def add_object_def object_line_def)
qed

lemma add_lines_objects:
  "list_all2 (\<lambda>h h'. in_registry h \<and> reads_as E h h') hs hs' \<Longrightarrow>
   add_lines E (map (object_line E) hs) m = Some (fold (add_object E) (zip hs hs') m)"
  by (induction hs hs' arbitrary: m rule: list_all2_induct) (auto simp: object_line_def add_header_object)

text \<open>What the message holds then.\<close>

lemma add_object_sel [simp]:
  "msg_body (add_object E hh m) = msg_body m" "msg_code (add_object E hh m) = msg_code m"
  "msg_cookies (add_object E hh m) = msg_cookies m" "msg_version (add_object E hh m) = msg_version m"
  "msg_method (add_object E hh m) = msg_method m" "msg_resource (add_object E hh m) = msg_resource m"
  "msg_query (add_object E hh m) = msg_query m"
  by (simp_all add: add_object_def)

lemma fold_add_object_sel [simp]:
  "msg_body (fold (add_object E) hh m) = msg_body m" "msg_code (fold (add_object E) hh m) = msg_code m"
  "msg_cookies (fold (add_object E) hh m) = msg_cookies m" "msg_version (fold (add_object E) hh m) = msg_version m"
  "msg_method (fold (add_object E) hh m) = msg_method m" "msg_resource (fold (add_object E) hh m) = msg_resource m"
  "msg_query (fold (add_object E) hh m) = msg_query m"
  by (induction hh arbitrary: m) simp_all

lemma tryGet_addRaw [simp]: "Collection_tryGet name (Collection_addRaw r c) = Collection_tryGet name c"
  by (simp add: Collection_tryGet_def Collection_getImpl_def Collection_addRaw_def)

lemma tryGet_fold_add_object:
  "Collection_tryGet name (msg_headers (fold (add_object E) hh m)) =
     (case Collection_tryGet name (msg_headers m) of
        Some h \<Rightarrow> Some h
      | None \<Rightarrow> List.find (\<lambda>h. LowercaseEqual (header_name h) name) (map snd hh))"
proof (induction hh arbitrary: m)
  case (Cons x hh)
  have "Collection_tryGet name (msg_headers (add_object E x m)) =
      (if LowercaseEqual (header_name (snd x)) name \<and> Collection_tryGet name (msg_headers m) = None then Some (snd x)
       else Collection_tryGet name (msg_headers m))"
    by (simp add: add_object_def) (simp add: Collection_tryGet_def Collection_getImpl_add)
  with Cons.IH [of "add_object E x m"] show ?case by (auto split: option.split)
qed (simp split: option.split)

section \<open>The line of a cookie\<close>

definition cookie_line :: "http_env \<Rightarrow> cookie \<Rightarrow> line" where
  "cookie_line E ck = (''Set-Cookie'', Cookie_write (he_date E) ck)"

definition add_cookie :: "http_env \<Rightarrow> cookie \<Rightarrow> message \<Rightarrow> message" where
  "add_cookie E ck m = m\<lparr>msg_cookies := jar_add ck (msg_cookies m),
     msg_headers := Collection_addRaw (cookie_line E ck) (msg_headers m)\<rparr>"

lemma add_lines_cookies:
  "\<forall>ck \<in> set cks. Cookie_fromString (he_date E) (Cookie_write (he_date E) ck) = Inr ck \<Longrightarrow>
   add_lines E (map (cookie_line E) cks) m = Some (fold (add_cookie E) cks m)"
proof (induction cks arbitrary: m)
  case (Cons ck cks)
  let ?v = "Cookie_write (he_date E) ck"
  have "LowercaseEqualStatic ''Set-Cookie'' ''set-cookie''" "\<not> LowercaseEqualStatic ''Set-Cookie'' ''cookie''"
    by (simp_all add: LowercaseEqualStatic_iff to_lower_def)
  moreover have "Cookie_fromRaw (he_date E) (?v @ crlf) (length ?v) = Inr ck"
    using Cons.prems by (simp add: Cookie_fromString_def Cookie_fromRaw_def)
  ultimately have "add_header E ''Set-Cookie'' (?v @ crlf) (length ?v) m = (None, add_cookie E ck m)"
    by (simp add: add_header_def Let_def add_cookie_def cookie_line_def)
  with Cons show ?case by (simp add: cookie_line_def)
qed simp

lemma fold_add_cookie_sel [simp]:
  "msg_body (fold (add_cookie E) cks m) = msg_body m" "msg_code (fold (add_cookie E) cks m) = msg_code m"
  "msg_cookies (fold (add_cookie E) cks m) = fold jar_add cks (msg_cookies m)"
  "Collection_tryGet name (msg_headers (fold (add_cookie E) cks m)) = Collection_tryGet name (msg_headers m)"
  by (induction cks arbitrary: m) (simp_all add: add_cookie_def)

lemma good_object_line:
  "CR \<notin> set (header_write E h) \<Longrightarrow> header_write E h = [] \<or> hd (header_write E h) \<noteq> SP \<Longrightarrow> good_line (object_line E h)"
  by (cases h) (simp_all add: good_line_def object_line_def)

lemma good_cookie_line:
  "CR \<notin> set (Cookie_write (he_date E) ck) \<Longrightarrow> hd (Cookie_write (he_date E) ck) \<noteq> SP \<Longrightarrow> good_line (cookie_line E ck)"
  by (simp add: good_line_def cookie_line_def)

section \<open>A whole message\<close>

text \<open>The parser on a message whose three parts are complete.\<close>

lemma parser_parse_three:
  assumes "pa_currentStep p = 0"
    and "(if pa_request p then RequestLineStep_apply (ab_area (pa_buffer p)) (pa_message p)
          else ResponseLineStep_apply (ab_area (pa_buffer p)) (pa_message p)) = (Inr Next, m1, c1)"
    and "HeadersStep_apply E c1 m1 = (Inr Next, m2, c2)" "BodyStep_apply (pa_body p) m2 c2 = (r, b', m3, c3)"
  shows "\<exists>p'. parser_parse E p = (r, p') \<and> pa_message p' = m3 \<and> pa_body p' = b' \<and> ab_area (pa_buffer p') = c3"
proof -
  define p1 where "p1 = (set_cursor c1 (p\<lparr>pa_message := m1\<rparr>))\<lparr>pa_currentStep := 1\<rparr>"
  define p2 where "p2 = (set_cursor c2 (p1\<lparr>pa_message := m2\<rparr>))\<lparr>pa_currentStep := 2\<rparr>"
  define p3 where "p3 = set_cursor c3 (p2\<lparr>pa_message := m3, pa_body := b'\<rparr>)"
  have "step_apply E p = (Inr Next, set_cursor c1 (p\<lparr>pa_message := m1\<rparr>))"
    unfolding step_apply_def Let_def using assms(1,2) by simp
  then have "parser_parse E p = parser_parse E p1"
    using assms(1) by (subst parser_parse.simps) (simp add: p1_def set_cursor_def)
  moreover have "step_apply E p1 = (Inr Next, set_cursor c2 (p1\<lparr>pa_message := m2\<rparr>))"
    using assms(3) by (simp add: step_apply_def p1_def set_cursor_def)
  then have "parser_parse E p1 = parser_parse E p2"
    by (subst parser_parse.simps) (simp add: p2_def p1_def set_cursor_def numeral_2_eq_2)
  moreover have s3: "step_apply E p2 = (r, p3)"
    using assms(4) by (simp add: step_apply_def p3_def p2_def p1_def set_cursor_def)
  have "r \<noteq> Inr Next" using BodyStep_not_Next [of "pa_body p" m2 c2] assms(4) by simp
  then have "parser_parse E p2 = (r, p3)"
    using s3 by (subst parser_parse.simps) (simp split: sum.split PState.split)
  ultimately show ?thesis by (simp add: p3_def set_cursor_def)
qed

lemma BodyStep_length:
  assumes wf: "wf_cursor c" and r: "rest c = d @ t" and b: "bs_bytesRead b = 0"
    and h: "tryGet_ContentLength (msg_headers m) = Some (length d)" "tryGet_TransferEncoding (msg_headers m) = None"
    and fits: "length (msg_body m) + length d \<le> string_max_size"
  shows "BodyStep_apply b m c = (Inr Done, b, m\<lparr>msg_body := msg_body m @ d\<rparr>, c\<lparr>spos := spos c + length d\<rparr>)"
proof -
  have small: "length d < 2 ^ 62" using fits by (simp add: string_max_size_def)
  have a: "advance (length d) c = (True, c\<lparr>spos := spos c + length d\<rparr>)"
    by (rule advance_ok [OF wf]) (simp add: remaining_length_rest r)
  have "str_append (msg_body m) (rest c) (length d) = Inr (msg_body m @ d)"
    using fits by (simp add: str_append_def r)
  then have "readBody (length d) b m c = (Inr True, b, m\<lparr>msg_body := msg_body m @ d\<rparr>, c\<lparr>spos := spos c + length d\<rparr>)"
    using a by (simp add: readBody_def Let_def remaining_length_rest r)
  moreover have "sz_of_ssz (int (length d)) = length d" using small by simp
  ultimately show ?thesis using h b by (simp add: BodyStep_apply_def parseContentLength_def)
qed

lemma BodyStep_none:
  "tryGet_ContentLength (msg_headers m) = None \<Longrightarrow> tryGet_TransferEncoding (msg_headers m) = None \<Longrightarrow>
   BodyStep_apply b m c = (Inr Done, b, m, c)"
  by (simp add: BodyStep_apply_def)

text \<open>Header objects and cookies that come back from their lines.\<close>

definition readable_objects :: "http_env \<Rightarrow> Header list \<Rightarrow> Header list \<Rightarrow> bool" where
  "readable_objects E hs hs' \<longleftrightarrow>
     list_all2 (\<lambda>h h'. in_registry h \<and> reads_as E h h') hs hs' \<and> (\<forall>h \<in> set hs. good_line (object_line E h))"

definition readable_cookies :: "http_env \<Rightarrow> cookie list \<Rightarrow> bool" where
  "readable_cookies E cks \<longleftrightarrow>
     (\<forall>ck \<in> set cks. Cookie_fromString (he_date E) (Cookie_write (he_date E) ck) = Inr ck \<and> good_line (cookie_line E ck))"

text \<open>None of the headers frames a body.\<close>

definition no_framing :: "Header list \<Rightarrow> bool" where
  "no_framing hs \<longleftrightarrow> (\<forall>h \<in> set hs. \<not> LowercaseEqual (header_name h) ''Content-Length''
     \<and> \<not> LowercaseEqual (header_name h) ''Transfer-Encoding'')"

lemma no_framing_find:
  "no_framing hs \<Longrightarrow> List.find (\<lambda>h. LowercaseEqual (header_name h) ''Content-Length'') hs = None"
  "no_framing hs \<Longrightarrow> List.find (\<lambda>h. LowercaseEqual (header_name h) ''Transfer-Encoding'') hs = None"
  by (auto simp: no_framing_def find_None_iff)

lemma find_append: "List.find P (xs @ ys) = (case List.find P xs of Some x \<Rightarrow> Some x | None \<Rightarrow> List.find P ys)"
  by (induction xs) auto

lemma readable_framing:
  "readable_objects E [H_TransferEncoding Chunked] [H_TransferEncoding Chunked]"
  "n < 2 ^ 62 \<Longrightarrow> readable_objects E [H_ContentLength n] [H_ContentLength n]"
proof -
  have "in_registry (H_TransferEncoding Chunked)" "in_registry (H_ContentLength n)" by (simp_all add: in_registry_iff)
  moreover have "reads_as E (H_TransferEncoding Chunked) (H_TransferEncoding Chunked)"
    by (rule reads_as_recoverable) simp_all
  moreover have "reads_as E (H_ContentLength n) (H_ContentLength n)" if "n < 2 ^ 62"
    using that ContentLength_round_trip [of n 0] by (simp add: reads_as_def)
  moreover have d: "x \<noteq> CR \<and> x \<noteq> SP" if "x \<in> set (dec_str n)" for x
  proof -
    have "is_digit 10 x" using that num_str_digits [of 10 n] by (auto simp: list_all_iff)
    moreover have "\<not> is_digit 10 CR" "\<not> is_digit 10 SP" by code_simp+
    ultimately show ?thesis by metis
  qed
  have "good_line (object_line E (H_ContentLength n))"
  proof (rule good_object_line)
    show "CR \<notin> set (header_write E (H_ContentLength n))" using d by auto
    have "hd (dec_str n) \<in> set (dec_str n)" by simp
    with d show "header_write E (H_ContentLength n) = [] \<or> hd (header_write E (H_ContentLength n)) \<noteq> SP" by auto
  qed
  moreover have "good_line (object_line E (H_TransferEncoding Chunked))" by (rule good_object_line) simp_all
  ultimately show "readable_objects E [H_TransferEncoding Chunked] [H_TransferEncoding Chunked]"
    "n < 2 ^ 62 \<Longrightarrow> readable_objects E [H_ContentLength n] [H_ContentLength n]"
    by (simp_all add: readable_objects_def)
qed

section \<open>Headers and cookies that a message carries\<close>

text \<open>
  The headers that come back from a message: those of \<open>recoverable\<close> whose text fits on a line, but not
  \<open>Expect\<close>, which a message does not let through, \<open>ETag\<close>, which no parser is registered for, nor a media type
  with a quality; and the two that frame a body, which the message has for itself.
\<close>

definition carried :: "http_env \<Rightarrow> Header \<Rightarrow> bool" where
  "carried E h \<longleftrightarrow> recoverable E h \<and> good_line (object_line E h) \<and> length (header_write E h) < 2 ^ 63
     \<and> (case h of H_Expect _ \<Rightarrow> False | H_ETag _ \<Rightarrow> False | H_ContentLength _ \<Rightarrow> False | H_TransferEncoding _ \<Rightarrow> False
        | H_ContentType m \<Rightarrow> mt_q m = None | _ \<Rightarrow> True)"

lemma carried_read:
  assumes "carried E h"
  shows "\<exists>h'. reads_as E h h' \<and> same_header h h'"
proof (cases "\<exists>m. h = H_ContentType m")
  case True
  then obtain m where m: "h = H_ContentType m" by blast
  with assms have "known_media m" "mt_q m = None" by (simp_all add: carried_def)
  with known_media_read [of m crlf] show ?thesis by (auto simp: m reads_as_def)
next
  case False
  with assms have "reads_as E h h" by (intro reads_as_recoverable) (auto simp: carried_def)
  then show ?thesis using same_header_refl by blast
qed

lemma same_header_name: "same_header h h' \<Longrightarrow> header_name h' = header_name h"
  by (cases h) auto

lemma carried_name:
  "carried E h \<Longrightarrow> in_registry h \<and> \<not> LowercaseEqual (header_name h) ''Content-Length''
     \<and> \<not> LowercaseEqual (header_name h) ''Transfer-Encoding''"
  by (cases h) (simp_all add: carried_def in_registry_iff LowercaseEqual_iff to_lower_def)

lemma carried_objects:
  assumes "\<forall>h \<in> set hs. carried E h"
  shows "\<exists>hs'. list_all2 same_header hs hs' \<and> readable_objects E hs hs' \<and> no_framing hs'"
  using assms
proof (induction hs)
  case Nil
  then show ?case by (auto simp: readable_objects_def no_framing_def)
next
  case (Cons h hs)
  then obtain hs' where hs': "list_all2 same_header hs hs'" "readable_objects E hs hs'" "no_framing hs'" by auto
  from Cons.prems have h: "carried E h" by simp
  then obtain h' where h': "reads_as E h h'" "same_header h h'" using carried_read by blast
  have "list_all2 same_header (h # hs) (h' # hs')" "readable_objects E (h # hs) (h' # hs')" "no_framing (h' # hs')"
    using hs' h' carried_name [OF h] h same_header_name [OF h'(2)]
    by (simp_all add: readable_objects_def no_framing_def carried_def)
  then show ?case by blast
qed

text \<open>Cookies without extension attributes, on one line.\<close>

definition carried_cookie :: "http_env \<Rightarrow> cookie \<Rightarrow> bool" where
  "carried_cookie E ck \<longleftrightarrow> plain_cookie (he_date E) ck \<and> good_line (cookie_line E ck)"

lemma carried_cookies: "\<forall>ck \<in> set cks. carried_cookie E ck \<Longrightarrow> readable_cookies E cks"
  by (auto simp: carried_cookie_def readable_cookies_def plain_cookie_read)

text \<open>The parser on a first line that it reads, lines that are read, and a body.\<close>

lemma message_parsed:
  assumes tx: "data = l @ concat (map line_text ls) @ crlf @ t"
    and line: "\<And>c. wf_cursor c \<Longrightarrow> rest c = l @ concat (map line_text ls) @ crlf @ t \<Longrightarrow>
      (if req then RequestLineStep_apply c Message0 else ResponseLineStep_apply c Message0)
        = (Inr Next, m1, c\<lparr>spos := spos c + length l\<rparr>)"
    and ls: "\<forall>l \<in> set ls. good_line l" "add_lines E ls m1 = Some m2"
    and n: "length data \<le> N" "N < 2 ^ 63"
    and body: "\<And>c. wf_cursor c \<Longrightarrow> rest c = t \<Longrightarrow> \<exists>b' c'. BodyStep_apply BodyStep0 m2 c = (r, b', m3, c')"
  shows "\<exists>p p'. parser_feed data (ParserImpl req N) = (True, p) \<and> parser_parse E p = (r, p') \<and> pa_message p' = m3"
proof -
  define p where "p = (ParserImpl req N)\<lparr>pa_buffer := \<lparr>ab_area = \<lparr>sbuf = data, spos = 0\<rparr>, ab_max = N\<rparr>\<rparr>"
  have f: "parser_feed data (ParserImpl req N) = (True, p)"
    using n by (simp add: parser_feed_def ParserImpl_def array_feed_def ArrayStreamBuf_def p_def)
  define c where "c = ab_area (pa_buffer p)"
  define c1 where "c1 = c\<lparr>spos := spos c + length l\<rparr>"
  define c2 where "c2 = c1\<lparr>spos := spos c1 + (length (concat (map line_text ls)) + 2)\<rparr>"
  have wf: "wf_cursor c" and r: "rest c = l @ concat (map line_text ls) @ crlf @ t"
    using n tx by (simp_all add: c_def p_def wf_cursor_def rest_def)
  have wf1: "wf_cursor c1" and r1: "rest c1 = concat (map line_text ls) @ crlf @ t"
    unfolding c1_def using wf_at [OF wf r] rest_at [OF r] by simp_all
  have s2: "HeadersStep_apply E c1 m1 = (Inr Next, m2, c2)"
    unfolding c2_def by (rule HeadersStep_lines [OF wf1 r1 ls])
  have r1': "rest c1 = (concat (map line_text ls) @ crlf) @ t" using r1 by simp
  have "wf_cursor c2" "rest c2 = t"
    unfolding c2_def using wf_at [OF wf1 r1'] rest_at [OF r1'] by simp_all
  then obtain b' c' where s3: "BodyStep_apply BodyStep0 m2 c2 = (r, b', m3, c')" using body by blast
  have "pa_currentStep p = 0" "pa_request p = req" "pa_message p = Message0" "pa_body p = BodyStep0"
    by (simp_all add: p_def ParserImpl_def)
  then show ?thesis using parser_parse_three [of p m1 c1 E m2 c2 r b' m3 c'] line [OF wf r] s2 s3 f
    by (auto simp: c_def c1_def)
qed

lemma Message0_sel [simp]:
  "msg_body Message0 = []" "msg_cookies Message0 = CookieJar" "Collection_tryGet name (msg_headers Message0) = None"
  by (simp_all add: Message0_def Collection_tryGet_def Collection_getImpl_def Collection0_def)

end
