(* ===== verification/Response_Writer.thy ===== *)
theory Response_Writer
  imports Byte_Buffers Http_Parser
begin

text \<open>
  The writing side of src/common/http.cc: \<open>writeStatusLine\<close>, \<open>writeHeaders\<close>,
  \<open>writeCookies\<close>, \<open>ResponseWriter\<close>, \<open>serveFile\<close>, \<open>ResponseStream\<close> and
  \<open>Timeout\<close>.  The bytes go through an \<open>std::ostream\<close> on a bounded \<open>DynamicStreamBuf\<close>.  The
  compression libraries and the file system are parameters.  The main result: a response leaves
  the writer completely or not at all.
\<close>

section \<open>std::ostream on a DynamicStreamBuf\<close>

text \<open>A failed write sets \<open>badbit\<close>, and from then on the stream writes nothing.\<close>

record ostream =
  os_good :: bool
  os_buf :: dyn_buf

definition ostream_on :: "dyn_buf \<Rightarrow> ostream" where
  "ostream_on b = \<lparr>os_good = True, os_buf = b\<rparr>"

definition os_write :: "string \<Rightarrow> ostream \<Rightarrow> ostream" where
  "os_write s os =
     (if os_good os then (case dyn_sputn s (os_buf os) of (ok, b) \<Rightarrow> \<lparr>os_good = ok, os_buf = b\<rparr>) else os)"

text \<open>
  A sequence of \<open>PST_OUT\<close> statements, each given by the text it prints: the function returns
  \<open>false\<close> behind the first one that leaves the stream bad.
\<close>

fun PST_OUT :: "string list \<Rightarrow> ostream \<Rightarrow> bool \<times> dyn_buf" where
  "PST_OUT [] os = (True, os_buf os)"
| "PST_OUT (s # ss) os =
     (let os' = os_write s os in if os_good os' then PST_OUT ss os' else (False, os_buf os'))"

definition writeStatusLine :: "Version \<Rightarrow> Code \<Rightarrow> dyn_buf \<Rightarrow> bool \<times> dyn_buf" where
  "writeStatusLine version code buf =
     PST_OUT [versionString version @ '' '', int_str code, '' '', codeString code, crlf] (ostream_on buf)"

definition writeHeaders :: "http_env \<Rightarrow> Collection \<Rightarrow> dyn_buf \<Rightarrow> bool \<times> dyn_buf" where
  "writeHeaders E headers buf =
     PST_OUT (concat (map (\<lambda>h. [header_name h @ '': '', header_write E h, crlf]) (Collection_list headers)))
       (ostream_on buf)"

definition writeCookies :: "http_env \<Rightarrow> cookie_jar \<Rightarrow> dyn_buf \<Rightarrow> bool \<times> dyn_buf" where
  "writeCookies E cookies buf =
     PST_OUT (concat (map (\<lambda>ck. [''Set-Cookie: '', Cookie_write (he_date E) ck, crlf]) (jar_cookies cookies)))
       (ostream_on buf)"

definition writeHeader :: "http_env \<Rightarrow> Header \<Rightarrow> ostream \<Rightarrow> ostream" where
  "writeHeader E h os = os_write crlf (os_write (header_write E h) (os_write (header_name h @ '': '') os))"

section \<open>Timeouts\<close>

record timeout =
  to_transport :: bool
  to_armed :: bool
  to_timerFd :: "nat option"

definition Timeout :: "bool \<Rightarrow> timeout" where
  "Timeout transport = \<lparr>to_transport = transport, to_armed = False, to_timerFd = None\<rparr>"

text \<open>What reaches the peer and the transport.\<close>

datatype wire_event =
    Set_Idle bool
  | Disarm_Timer "nat option"
  | Async_Write nat raw_buffer
  | Async_Write_File nat string

definition Timeout_disarm :: "timeout \<Rightarrow> wire_event list" where
  "Timeout_disarm t = (if to_transport t \<and> to_armed t then [Disarm_Timer (to_timerFd t)] else [])"

text \<open>\<open>arm\<close> creates a timer and hands it to the transport; \<open>fd\<close> is the new descriptor.\<close>

definition Timeout_arm :: "nat \<Rightarrow> timeout \<Rightarrow> timeout" where
  "Timeout_arm fd t = t\<lparr>to_timerFd := Some fd, to_armed := True\<rparr>"

section \<open>ResponseWriter\<close>

text \<open>
  \<open>rw_peer\<close> is the weak pointer to the peer: its descriptor, or \<open>None\<close> when it has expired.
\<close>

record response_writer =
  rw_response :: message
  rw_peer :: "nat option"
  rw_buf :: dyn_buf
  rw_timeout :: timeout
  rw_sent_bytes :: nat
  rw_contentEncoding :: Encoding
  rw_brotliLevel :: int
  rw_zstdLevel :: int
  rw_deflateLevel :: int

text \<open>
  The compression libraries: Brotli's size bound and encoder, Zstandard with its error code,
  zlib's \<open>compress2\<close> with its status.
\<close>

record compress_lib =
  cl_brotli_max :: "nat \<Rightarrow> nat"
  cl_brotli :: "int \<Rightarrow> string \<Rightarrow> string option"
  cl_zstd :: "int \<Rightarrow> string \<Rightarrow> nat + string"
  cl_deflate :: "int \<Rightarrow> string \<Rightarrow> int + string"

definition DefaultStreamSize :: nat where
  "DefaultStreamSize = 512"

text \<open>The constructor; \<open>None\<close> is the failed assertion of the buffer.\<close>

definition ResponseWriter :: "Version \<Rightarrow> bool \<Rightarrow> nat \<Rightarrow> nat option \<Rightarrow> response_writer option" where
  "ResponseWriter version transport maxResponseSize peer =
     map_option (\<lambda>b. \<lparr>rw_response = Message0\<lparr>msg_version := version\<rparr>, rw_peer = peer, rw_buf = b,
         rw_timeout = Timeout transport, rw_sent_bytes = 0, rw_contentEncoding = Identity,
         rw_brotliLevel = 11, rw_zstdLevel = 0, rw_deflateLevel = -1\<rparr>)
       (DynamicStreamBuf DefaultStreamSize maxResponseSize)"

text \<open>The copy constructor, behind \<open>clone\<close>: a fresh buffer, and the default members.\<close>

definition ResponseWriter_clone :: "response_writer \<Rightarrow> response_writer option" where
  "ResponseWriter_clone other =
     map_option (\<lambda>b. \<lparr>rw_response = rw_response other, rw_peer = rw_peer other, rw_buf = b,
         rw_timeout = rw_timeout other, rw_sent_bytes = 0, rw_contentEncoding = Identity,
         rw_brotliLevel = 11, rw_zstdLevel = 0, rw_deflateLevel = -1\<rparr>)
       (DynamicStreamBuf DefaultStreamSize (ds_max (rw_buf other)))"

text \<open>\<open>setMime\<close>, and the same lines in \<open>sendImpl\<close> and \<open>serveFile\<close>.\<close>

definition set_content_type :: "MediaType \<Rightarrow> Collection \<Rightarrow> Collection" where
  "set_content_type mime hs =
     (case Collection_tryGet ''Content-Type'' hs of
        Some _ \<Rightarrow> hs\<lparr>co_headers := um_assign LowercaseEqual ''Content-Type'' (H_ContentType mime) (co_headers hs)\<rparr>
      | None \<Rightarrow> Collection_add (H_ContentType mime) hs)"

abbreviation on_headers :: "(Collection \<Rightarrow> Collection) \<Rightarrow> response_writer \<Rightarrow> response_writer" where
  "on_headers f w \<equiv> w\<lparr>rw_response := (rw_response w)\<lparr>msg_headers := f (msg_headers (rw_response w))\<rparr>\<rparr>"

definition setMime :: "MediaType \<Rightarrow> response_writer \<Rightarrow> response_writer" where
  "setMime mime w = on_headers (set_content_type mime) w"

definition setCompression :: "http_env \<Rightarrow> Encoding \<Rightarrow> response_writer \<Rightarrow> response_writer result" where
  "setCompression E enc w =
     (case enc of
        Br \<Rightarrow> if he_brotli E then Inr (w\<lparr>rw_contentEncoding := Br\<rparr>)
              else Inl (Runtime_Error ''Unsupported content encoding compression requested.'')
      | Zstd \<Rightarrow> if he_zstd E then Inr (w\<lparr>rw_contentEncoding := Zstd\<rparr>)
                else Inl (Runtime_Error ''Unsupported content encoding compression requested.'')
      | Deflate \<Rightarrow> if he_deflate E then Inr (w\<lparr>rw_contentEncoding := Deflate\<rparr>)
                   else Inl (Runtime_Error ''Unsupported content encoding compression requested.'')
      | Identity \<Rightarrow> Inr (w\<lparr>rw_contentEncoding := Identity\<rparr>)
      | _ \<Rightarrow> Inl (Runtime_Error ''Unsupported content encoding compression requested.''))"

text \<open>
  How a send ends: an exception leaves the call, the promise is rejected, or the buffer was handed
  to the transport, whose promise is returned.
\<close>

datatype send_result = Thrown exn | Rejected exn | Written nat raw_buffer

type_synonym send = "send_result \<times> wire_event list \<times> response_writer"

definition exceeded :: exn where
  "exceeded = Runtime_Error ''Response exceeded buffer size''"

text \<open>The code of the response; every caller sets it before it is written.\<close>

definition message_code :: "message \<Rightarrow> Code" where
  "message_code m = (case msg_code m of Some c \<Rightarrow> c | None \<Rightarrow> 0)"

text \<open>
  \<open>putOnWire\<close>: the \<open>PST_OUT\<close> around the first three calls tests the local stream, which those
  calls do not use, and drops their results.
\<close>

definition putOnWire :: "http_env \<Rightarrow> string \<Rightarrow> nat \<Rightarrow> response_writer \<Rightarrow> send" where
  "putOnWire E data len w =
     (let resp = rw_response w;
          b1 = snd (writeStatusLine (msg_version resp) (message_code resp) (rw_buf w));
          b2 = snd (writeHeaders E (msg_headers resp) b1);
          b3 = snd (writeCookies E (msg_cookies resp) b2);
          os1 = writeHeader E (H_ContentLength len) (ostream_on b3)
      in if \<not> os_good os1 then (Rejected exceeded, [], w\<lparr>rw_buf := os_buf os1\<rparr>)
         else
           let os2 = os_write crlf os1
           in if \<not> os_good os2 then (Rejected exceeded, [], w\<lparr>rw_buf := os_buf os2\<rparr>)
              else
                let os3 = (if 0 < len then os_write (take len data) os2 else os2)
                in if \<not> os_good os3 then (Rejected exceeded, [], w\<lparr>rw_buf := os_buf os3\<rparr>)
                   else
                     let buffer = dyn_buffer (os_buf os3);
                         w' = w\<lparr>rw_buf := os_buf os3, rw_sent_bytes := rw_sent_bytes w + rb_length buffer\<rparr>;
                         dis = Timeout_disarm (rw_timeout w)
                     in case rw_peer w of
                          None \<Rightarrow> (Rejected (Runtime_Error ''Write failed: Broken pipe''), dis, w')
                        | Some fd \<Rightarrow> (Written fd buffer, dis @ [Async_Write fd buffer], w'))"

text \<open>The compression part of \<open>sendImpl\<close>: the bytes to send and the encoding to announce.\<close>

definition compress_body :: "http_env \<Rightarrow> compress_lib \<Rightarrow> string \<Rightarrow> response_writer \<Rightarrow> (string \<times> Encoding option) result" where
  "compress_body E Z data w =
     (let unknown = Inl (Runtime_Error ''User requested unknown content encoding.'')
      in case rw_contentEncoding w of
           Br \<Rightarrow>
             if \<not> he_brotli E then unknown
             else if cl_brotli_max Z (length data) = 0 then Inl (Runtime_Error ''BrotliEncoderMaxCompressedSize() failed'')
             else (case cl_brotli Z (rw_brotliLevel w) data of
                     None \<Rightarrow> Inl (Runtime_Error ''BrotliEncoderCompress() failed'')
                   | Some d \<Rightarrow> Inr (d, Some Br))
         | Zstd \<Rightarrow>
             if \<not> he_zstd E then unknown
             else (case cl_zstd Z (rw_zstdLevel w) data of
                     Inl n \<Rightarrow> Inl (Runtime_Error (''failed to compress data to ZSTD on ZSTD_compress(), returning: '' @ dec_str n))
                   | Inr d \<Rightarrow> Inr (d, Some Zstd))
         | Deflate \<Rightarrow>
             if \<not> he_deflate E then unknown
             else (case cl_deflate Z (rw_deflateLevel w) data of
                     Inl n \<Rightarrow> Inl (Runtime_Error (''compress2() failed, returning: '' @ int_str n))
                   | Inr d \<Rightarrow> Inr (d, Some Deflate))
         | Identity \<Rightarrow> Inr (data, None)
         | _ \<Rightarrow> unknown)"

definition set_code :: "Code \<Rightarrow> response_writer \<Rightarrow> response_writer" where
  "set_code code w = w\<lparr>rw_response := (rw_response w)\<lparr>msg_code := Some code\<rparr>\<rparr>"

definition sendImpl :: "http_env \<Rightarrow> compress_lib \<Rightarrow> Code \<Rightarrow> string \<Rightarrow> MediaType \<Rightarrow> response_writer \<Rightarrow> send" where
  "sendImpl E Z code data mime w =
     (let idle = (case rw_peer w of Some _ \<Rightarrow> [Set_Idle True] | None \<Rightarrow> []);
          w1 = set_code code w;
          w2 = (if MediaType_isValid mime then setMime mime w1 else w1)
      in case compress_body E Z data w2 of
           Inl e \<Rightarrow> (Thrown e, idle, w2)
         | Inr (d, enc) \<Rightarrow>
             let w3 = (case enc of None \<Rightarrow> w2 | Some e \<Rightarrow> on_headers (Collection_add (H_ContentEncoding e)) w2)
             in case putOnWire E d (length d) w3 of (r, ev, w') \<Rightarrow> (r, idle @ ev, w'))"

definition send :: "http_env \<Rightarrow> compress_lib \<Rightarrow> Code \<Rightarrow> string \<Rightarrow> MediaType \<Rightarrow> response_writer \<Rightarrow> send" where
  "send E Z code body mime w = sendImpl E Z code body mime w"

definition sendMethodNotAllowed :: "http_env \<Rightarrow> Method list \<Rightarrow> response_writer \<Rightarrow> send" where
  "sendMethodNotAllowed E supportedMethods w =
     (let w1 = on_headers (Collection_add (H_Allow supportedMethods)) (set_code Code_Method_Not_Allowed w);
          body = codeString Code_Method_Not_Allowed
      in putOnWire E body (length body) w1)"

text \<open>\<open>Timeout::onTimeout\<close> with the default \<open>Handler::onTimeout\<close>: nothing when the peer is gone.\<close>

definition onTimeout :: "http_env \<Rightarrow> compress_lib \<Rightarrow> Version \<Rightarrow> nat \<Rightarrow> nat option \<Rightarrow> send option" where
  "onTimeout E Z version maxResponseSize peer =
     (case peer of
        None \<Rightarrow> None
      | Some _ \<Rightarrow> map_option (send E Z Code_Request_Timeout [] MediaType0) (ResponseWriter version True maxResponseSize peer))"

section \<open>serveFile\<close>

text \<open>
  What the file system answers: the error of \<open>open\<close> (whether it is \<open>ENOENT\<close>, and its text),
  a failed \<open>fstat\<close>, or the size.
\<close>

datatype file_status = Open_Error bool string | Stat_Error | File_Size nat

definition serveFile :: "http_env \<Rightarrow> (string \<Rightarrow> file_status) \<Rightarrow> string \<Rightarrow> MediaType \<Rightarrow> response_writer \<Rightarrow> send" where
  "serveFile E fs fileName contentType w =
     (case fs fileName of
        Open_Error enoent str_error \<Rightarrow>
          (Thrown (HttpError (if enoent then Code_Not_Found else Code_Internal_Server_Error) str_error), [], w)
      | Stat_Error \<Rightarrow> (Thrown (HttpError Code_Internal_Server_Error []), [], w)
      | File_Size len \<Rightarrow>
          let b1 = snd (writeStatusLine (msg_version (rw_response w)) Code_Ok (rw_buf w));
              mime = (if MediaType_isValid contentType then contentType else MediaType_fromFile fileName);
              w1 = (if MediaType_isValid mime then setMime mime w else w);
              b2 = snd (writeHeaders E (msg_headers (rw_response w1)) b1);
              os1 = writeHeader E (H_ContentLength len) (ostream_on b2)
          in if \<not> os_good os1 then (Rejected exceeded, [], w1\<lparr>rw_buf := os_buf os1\<rparr>)
             else
               let os2 = os_write crlf os1; w2 = w1\<lparr>rw_buf := os_buf os2\<rparr>
               in if \<not> os_good os2 then (Rejected exceeded, [], w2)
                  else
                    let buffer = dyn_buffer (os_buf os2)
                    in case rw_peer w of
                         None \<Rightarrow> (Thrown (Runtime_Error ''Write failed: Broken pipe''), [], w2)
                       | Some fd \<Rightarrow> (Written fd buffer, [Async_Write fd buffer, Async_Write_File fd fileName], w2))"

section \<open>The text of a response\<close>

definition header_line_text :: "http_env \<Rightarrow> Header \<Rightarrow> string" where
  "header_line_text E h = header_name h @ '': '' @ header_write E h @ crlf"

definition cookie_line_text :: "http_env \<Rightarrow> cookie \<Rightarrow> string" where
  "cookie_line_text E ck = ''Set-Cookie: '' @ Cookie_write (he_date E) ck @ crlf"

definition status_line_text :: "Version \<Rightarrow> Code \<Rightarrow> string" where
  "status_line_text version code = versionString version @ '' '' @ int_str code @ '' '' @ codeString code @ crlf"

definition head_text :: "http_env \<Rightarrow> message \<Rightarrow> string" where
  "head_text E m = status_line_text (msg_version m) (message_code m)
     @ concat (map (header_line_text E) (Collection_list (msg_headers m)))
     @ concat (map (cookie_line_text E) (jar_cookies (msg_cookies m)))"

definition response_text :: "http_env \<Rightarrow> message \<Rightarrow> string \<Rightarrow> string" where
  "response_text E m body = head_text E m @ header_line_text E (H_ContentLength (length body)) @ crlf @ body"

subsection \<open>Streams as bounded sinks\<close>

text \<open>A stream that has failed sits on a full buffer, so that dropping a failure loses nothing.\<close>

definition os_inv :: "ostream \<Rightarrow> bool" where
  "os_inv os \<longleftrightarrow> dyn_inv (os_buf os) \<and> (\<not> os_good os \<longrightarrow> length (dyn_content (os_buf os)) = ds_max (os_buf os))"

abbreviation room :: "dyn_buf \<Rightarrow> nat" where
  "room b \<equiv> ds_max b - length (dyn_content b)"

lemma os_inv_on [simp]: "dyn_inv b \<Longrightarrow> os_inv (ostream_on b)"
  by (simp add: os_inv_def ostream_on_def)

lemma ostream_on_sel [simp]: "os_good (ostream_on b)" "os_buf (ostream_on b) = b"
  by (simp_all add: ostream_on_def)

lemma os_write_spec:
  assumes "os_inv os"
  shows "os_inv (os_write s os)" "ds_max (os_buf (os_write s os)) = ds_max (os_buf os)"
    "dyn_content (os_buf (os_write s os)) = dyn_content (os_buf os) @ take (room (os_buf os)) s"
    "os_good (os_write s os) \<longleftrightarrow> os_good os \<and> length (dyn_content (os_buf os)) + length s \<le> ds_max (os_buf os)"
proof -
  have d: "dyn_inv (os_buf os)" using assms by (simp add: os_inv_def)
  have bad: "room (os_buf os) = 0" if "\<not> os_good os" using that assms by (simp add: os_inv_def)
  have w: "os_write s os = (if os_good os then \<lparr>os_good = fst (dyn_sputn s (os_buf os)), os_buf = snd (dyn_sputn s (os_buf os))\<rparr> else os)"
    by (simp add: os_write_def case_prod_unfold)
  show "ds_max (os_buf (os_write s os)) = ds_max (os_buf os)"
    by (simp add: w dyn_sink.limit_put [OF d])
  show "dyn_content (os_buf (os_write s os)) = dyn_content (os_buf os) @ take (room (os_buf os)) s"
    by (simp add: w dyn_sink.content_put [OF d] bad)
  show "os_good (os_write s os) \<longleftrightarrow> os_good os \<and> length (dyn_content (os_buf os)) + length s \<le> ds_max (os_buf os)"
    by (simp add: w dyn_sink.put_ok [OF d])
  show "os_inv (os_write s os)"
    using assms dyn_sink.inv_put [OF d] dyn_sink.put_failure_fills [OF d] dyn_sink.limit_put [OF d]
    by (simp add: w os_inv_def)
qed

text \<open>Two writes are as good as one write of both texts.\<close>

lemma os_write_append:
  assumes "os_inv os"
  shows "dyn_content (os_buf (os_write t (os_write s os))) = dyn_content (os_buf (os_write (s @ t) os))"
    "os_good (os_write t (os_write s os)) \<longleftrightarrow> os_good (os_write (s @ t) os)"
proof -
  note w = os_write_spec [OF assms]
  note w2 = os_write_spec [OF w(1) [of s], of t]
  define C r where "C = dyn_content (os_buf os)" and "r = room (os_buf os)"
  have C: "r = ds_max (os_buf os) - length C" by (simp add: C_def r_def)
  show "dyn_content (os_buf (os_write t (os_write s os))) = dyn_content (os_buf (os_write (s @ t) os))"
    unfolding w2(3) w(2,3) C_def [symmetric] C [symmetric] by (cases "length s \<le> r") (simp_all add: C)
  show "os_good (os_write t (os_write s os)) \<longleftrightarrow> os_good (os_write (s @ t) os)"
    unfolding w2(4) w(2) w(3) [of s] w(4) by auto
qed

lemma PST_OUT_spec:
  assumes "os_inv os" "os_good os" "PST_OUT ss os = (ok, b)"
  shows "dyn_inv b \<and> ds_max b = ds_max (os_buf os)
    \<and> dyn_content b = dyn_content (os_buf os) @ take (room (os_buf os)) (concat ss)
    \<and> (ok \<longleftrightarrow> length (dyn_content (os_buf os)) + length (concat ss) \<le> ds_max (os_buf os))"
  using assms
proof (induction ss arbitrary: os)
  case Nil
  then show ?case using dyn_sink.content_limit [of b] by (auto simp: os_inv_def)
next
  case (Cons s ss)
  note w = os_write_spec [OF Cons.prems(1), of s]
  show ?case
  proof (cases "os_good (os_write s os)")
    case True
    then have "PST_OUT ss (os_write s os) = (ok, b)" using Cons.prems(3) by simp
    note ih = Cons.IH [OF w(1) True this]
    from True w(4) have fits: "length (dyn_content (os_buf os)) + length s \<le> ds_max (os_buf os)" by simp
    show ?thesis using ih w(2,3) fits by (auto simp: take_append)
  next
    case False
    then have b: "ok = False" "b = os_buf (os_write s os)" using Cons.prems(3) by simp_all
    from False w(4) Cons.prems(2) have "ds_max (os_buf os) < length (dyn_content (os_buf os)) + length s" by simp
    then show ?thesis using b w(1-3) by (auto simp: os_inv_def)
  qed
qed

lemma PST_OUT_on:
  assumes "dyn_inv b0"
  shows "dyn_inv (snd (PST_OUT ss (ostream_on b0)))" "ds_max (snd (PST_OUT ss (ostream_on b0))) = ds_max b0"
    "dyn_content (snd (PST_OUT ss (ostream_on b0))) = dyn_content b0 @ take (room b0) (concat ss)"
    "fst (PST_OUT ss (ostream_on b0)) \<longleftrightarrow> length (dyn_content b0) + length (concat ss) \<le> ds_max b0"
  using PST_OUT_spec [of "ostream_on b0" ss] assms by (auto simp: prod_eq_iff)

lemma concat_concat_map3: "concat (concat (map (\<lambda>x. [f x, g x, h x]) xs)) = concat (map (\<lambda>x. f x @ g x @ h x) xs)"
  by (induction xs) auto

text \<open>The three writers append their text as far as it fits.\<close>

lemma writeStatusLine_spec:
  assumes "dyn_inv b"
  shows "dyn_inv (snd (writeStatusLine v c b))" "ds_max (snd (writeStatusLine v c b)) = ds_max b"
    "dyn_content (snd (writeStatusLine v c b)) = dyn_content b @ take (room b) (status_line_text v c)"
    "fst (writeStatusLine v c b) \<longleftrightarrow> length (dyn_content b) + length (status_line_text v c) \<le> ds_max b"
  unfolding writeStatusLine_def by (simp_all only: PST_OUT_on [OF assms] status_line_text_def concat.simps append_Nil2 append_assoc)

lemma writeHeaders_spec:
  assumes "dyn_inv b"
  shows "dyn_inv (snd (writeHeaders E hs b))" "ds_max (snd (writeHeaders E hs b)) = ds_max b"
    "dyn_content (snd (writeHeaders E hs b)) =
       dyn_content b @ take (room b) (concat (map (header_line_text E) (Collection_list hs)))"
    "fst (writeHeaders E hs b) \<longleftrightarrow>
       length (dyn_content b) + length (concat (map (header_line_text E) (Collection_list hs))) \<le> ds_max b"
  unfolding writeHeaders_def
  by (simp_all only: PST_OUT_on [OF assms] concat_concat_map3 header_line_text_def [abs_def] append_assoc)

lemma writeCookies_spec:
  assumes "dyn_inv b"
  shows "dyn_inv (snd (writeCookies E cs b))" "ds_max (snd (writeCookies E cs b)) = ds_max b"
    "dyn_content (snd (writeCookies E cs b)) =
       dyn_content b @ take (room b) (concat (map (cookie_line_text E) (jar_cookies cs)))"
    "fst (writeCookies E cs b) \<longleftrightarrow>
       length (dyn_content b) + length (concat (map (cookie_line_text E) (jar_cookies cs))) \<le> ds_max b"
  unfolding writeCookies_def
  by (simp_all only: PST_OUT_on [OF assms] concat_concat_map3 cookie_line_text_def [abs_def] append_assoc)

lemma writeHeader_spec:
  assumes "os_inv os"
  shows "os_inv (writeHeader E h os)" "ds_max (os_buf (writeHeader E h os)) = ds_max (os_buf os)"
    "dyn_content (os_buf (writeHeader E h os)) = dyn_content (os_buf os) @ take (room (os_buf os)) (header_line_text E h)"
    "os_good (writeHeader E h os) \<longleftrightarrow>
       os_good os \<and> length (dyn_content (os_buf os)) + length (header_line_text E h) \<le> ds_max (os_buf os)"
proof -
  let ?os1 = "os_write (header_name h @ '': '') os"
  note i1 = os_write_spec(1) [OF assms, of "header_name h @ '': ''"]
  note i2 = os_write_spec(1) [OF i1, of "header_write E h"]
  have two: "dyn_content (os_buf (writeHeader E h os)) = dyn_content (os_buf (os_write (header_write E h @ crlf) ?os1))"
    "os_good (writeHeader E h os) \<longleftrightarrow> os_good (os_write (header_write E h @ crlf) ?os1)"
    unfolding writeHeader_def by (rule os_write_append [OF i1])+
  have t: "header_line_text E h = (header_name h @ '': '') @ header_write E h @ crlf"
    by (simp add: header_line_text_def)
  show "dyn_content (os_buf (writeHeader E h os)) = dyn_content (os_buf os) @ take (room (os_buf os)) (header_line_text E h)"
    unfolding two t os_write_append [OF assms] by (rule os_write_spec(3) [OF assms])
  show "os_good (writeHeader E h os) \<longleftrightarrow>
      os_good os \<and> length (dyn_content (os_buf os)) + length (header_line_text E h) \<le> ds_max (os_buf os)"
    unfolding two t os_write_append [OF assms] by (rule os_write_spec(4) [OF assms])
qed (simp_all add: writeHeader_def os_write_spec assms)

lemmas writer_specs = writeStatusLine_spec writeHeaders_spec writeCookies_spec writeHeader_spec os_write_spec

lemma dyn_buffer_text: "dyn_inv b \<Longrightarrow> dyn_buffer b = RawBuffer (dyn_content b) (length (dyn_content b))"
  by (simp add: dyn_buffer_def RawBuffer_ptr_def RawBuffer_def dyn_content_def dyn_inv_def)

subsection \<open>putOnWire\<close>

definition write_head :: "http_env \<Rightarrow> message \<Rightarrow> dyn_buf \<Rightarrow> dyn_buf" where
  "write_head E m b =
     snd (writeCookies E (msg_cookies m) (snd (writeHeaders E (msg_headers m)
       (snd (writeStatusLine (msg_version m) (message_code m) b)))))"

lemma take_take_rest: "take r s @ take (r - length (take r s)) t = take r (s @ t)"
  by (cases "length s \<le> r") simp_all

lemma write_head_spec:
  assumes "dyn_inv b"
  shows "dyn_inv (write_head E m b)" "ds_max (write_head E m b) = ds_max b"
    "dyn_content (write_head E m b) = dyn_content b @ take (room b) (head_text E m)"
proof -
  note s1 = writeStatusLine_spec [OF assms, of "msg_version m" "message_code m"]
  note s2 = writeHeaders_spec [OF s1(1), of E "msg_headers m"]
  note s3 = writeCookies_spec [OF s2(1), of E "msg_cookies m"]
  show "dyn_inv (write_head E m b)" "ds_max (write_head E m b) = ds_max b"
    by (simp_all add: write_head_def s1 s2 s3)
  show "dyn_content (write_head E m b) = dyn_content b @ take (room b) (head_text E m)"
    unfolding write_head_def s3(3) s2(2,3) s1(2,3) head_text_def
    by (simp only: length_append append_assoc diff_diff_left [symmetric] take_take_rest)
qed

text \<open>
  The response is handed over whole or not at all, and in the second case the promise is rejected:
  the dropped results of the first calls do no harm, because a write that failed has filled the
  buffer and the next one fails too.
\<close>

lemma putOnWire_whole:
  assumes "dyn_inv (rw_buf w)" "dyn_content (rw_buf w) = []"
    and resp_def: "resp = response_text E (rw_response w) body"
  shows "fst (putOnWire E body (length body) w) =
      (if ds_max (rw_buf w) < length resp then Rejected exceeded
       else case rw_peer w of
              None \<Rightarrow> Rejected (Runtime_Error ''Write failed: Broken pipe'')
            | Some fd \<Rightarrow> Written fd (RawBuffer resp (length resp)))
    \<and> fst (snd (putOnWire E body (length body) w)) =
      (if ds_max (rw_buf w) < length resp then []
       else Timeout_disarm (rw_timeout w)
         @ (case rw_peer w of None \<Rightarrow> [] | Some fd \<Rightarrow> [Async_Write fd (RawBuffer resp (length resp))]))"
proof -
  define m where "m = rw_response w"
  define cl where "cl = header_line_text E (H_ContentLength (length body))"
  define b3 where "b3 = write_head E m (rw_buf w)"
  define os1 where "os1 = writeHeader E (H_ContentLength (length body)) (ostream_on b3)"
  define os2 where "os2 = os_write crlf os1"
  define os3 where "os3 = (if 0 < length body then os_write body os2 else os2)"
  have os3': "os3 = os_write body os2 \<or> body = []" by (simp add: os3_def)
  note h = write_head_spec [OF assms(1), of E m, folded b3_def]
  have i0: "os_inv (ostream_on b3)" using h(1) by simp
  note i1 = writeHeader_spec [OF i0, of E "H_ContentLength (length body)", folded os1_def cl_def]
  note i2 = os_write_spec [OF i1(1), of crlf, folded os2_def]
  note i3 = os_write_spec [OF i2(1), of body]
  obtain k where k: "length cl = Suc k" by (simp add: cl_def header_line_text_def)
  have whole: "resp = head_text E m @ cl @ crlf @ body" by (simp add: resp_def response_text_def m_def cl_def)
  have len: "length resp = length (head_text E m) + (length cl + (2 + length body))" by (simp add: whole)
  have g1: "os_good os1 \<longleftrightarrow> length (head_text E m) + length cl \<le> ds_max (rw_buf w)"
    using i1(4) h(2,3) assms(2) by (auto simp: k)
  have c1: "dyn_content (os_buf os1) = take (ds_max (rw_buf w)) (head_text E m @ cl)"
    using i1(3) h(2,3) assms(2) take_take_rest by simp
  have g2: "os_good os2 \<longleftrightarrow> length (head_text E m) + (length cl + 2) \<le> ds_max (rw_buf w)"
    using i2(4) g1 c1 i1(2) h(2) by auto
  have c2: "dyn_content (os_buf os2) = take (ds_max (rw_buf w)) (head_text E m @ cl @ crlf)"
    using i2(3) c1 i1(2) h(2) take_take_rest [of "ds_max (rw_buf w)" "head_text E m @ cl" crlf] by simp
  have m2: "ds_max (os_buf os2) = ds_max (rw_buf w)" using i2(2) i1(2) h(2) by simp
  have g3: "os_good os3 \<longleftrightarrow> length resp \<le> ds_max (rw_buf w)"
    using os3' i3(4) g2 c2 m2 by (auto simp: os3_def len)
  have c3: "dyn_content (os_buf os3) = resp" if "length resp \<le> ds_max (rw_buf w)"
    using that i3(3) c2 m2 by (auto simp: os3_def whole)
  have "dyn_inv (os_buf os3)" using i2(1) i3(1) by (simp add: os3_def os_inv_def)
  with c3 have buf: "dyn_buffer (os_buf os3) = RawBuffer resp (length resp)" if "length resp \<le> ds_max (rw_buf w)"
    using that dyn_buffer_text [of "os_buf os3"] by simp
  show ?thesis
    unfolding putOnWire_def Let_def m_def [symmetric] write_head_def [symmetric] b3_def [symmetric] os1_def [symmetric]
      os2_def [symmetric] take_all [OF order.refl] os3_def [symmetric]
    using g1 g2 g3 buf len by (auto simp: not_le split: option.split)
qed

subsection \<open>send\<close>

text \<open>The message that \<open>send\<close> writes.\<close>

definition sent_message :: "Code \<Rightarrow> MediaType \<Rightarrow> Encoding option \<Rightarrow> message \<Rightarrow> message" where
  "sent_message code mime enc m =
     (let hs = (if MediaType_isValid mime then set_content_type mime (msg_headers m) else msg_headers m)
      in m\<lparr>msg_code := Some code,
           msg_headers := (case enc of None \<Rightarrow> hs | Some e \<Rightarrow> Collection_add (H_ContentEncoding e) hs)\<rparr>)"

lemma compress_body_prepared:
  "compress_body E Z data (set_code code w) = compress_body E Z data w"
  "compress_body E Z data (setMime mime w) = compress_body E Z data w"
  by (simp_all add: compress_body_def Let_def set_code_def setMime_def cong: Encoding.case_cong)

lemma sendImpl_putOnWire:
  assumes "compress_body E Z data w = Inr (d, enc)"
  obtains w' where "fst (sendImpl E Z code data mime w) = fst (putOnWire E d (length d) w')"
    "fst (snd (sendImpl E Z code data mime w)) =
       (case rw_peer w of Some _ \<Rightarrow> [Set_Idle True] | None \<Rightarrow> []) @ fst (snd (putOnWire E d (length d) w'))"
    "rw_response w' = sent_message code mime enc (rw_response w)" "rw_buf w' = rw_buf w" "rw_peer w' = rw_peer w"
    "rw_timeout w' = rw_timeout w"
proof -
  define w2 where "w2 = (if MediaType_isValid mime then setMime mime (set_code code w) else set_code code w)"
  define w3 where "w3 = (case enc of None \<Rightarrow> w2 | Some e \<Rightarrow> on_headers (Collection_add (H_ContentEncoding e)) w2)"
  have "compress_body E Z data w2 = Inr (d, enc)" using assms by (simp add: w2_def compress_body_prepared)
  then have "fst (sendImpl E Z code data mime w) = fst (putOnWire E d (length d) w3)"
    "fst (snd (sendImpl E Z code data mime w)) =
       (case rw_peer w of Some _ \<Rightarrow> [Set_Idle True] | None \<Rightarrow> []) @ fst (snd (putOnWire E d (length d) w3))"
    unfolding sendImpl_def Let_def w2_def [symmetric] by (simp_all add: case_prod_unfold w3_def)
  moreover have "rw_response w3 = sent_message code mime enc (rw_response w)" "rw_buf w3 = rw_buf w" "rw_peer w3 = rw_peer w"
    "rw_timeout w3 = rw_timeout w"
    by (simp_all add: w3_def w2_def sent_message_def set_code_def setMime_def Let_def split: option.split)
  ultimately show thesis by (rule that)
qed

lemma sendImpl_throws:
  "compress_body E Z data w = Inl e \<Longrightarrow> fst (sendImpl E Z code data mime w) = Thrown e
    \<and> fst (snd (sendImpl E Z code data mime w)) = (case rw_peer w of Some _ \<Rightarrow> [Set_Idle True] | None \<Rightarrow> [])"
  by (simp add: sendImpl_def Let_def compress_body_prepared)

text \<open>What a send answers and does when nothing fails on the way to the buffer.\<close>

lemma send_outcome:
  assumes "dyn_inv (rw_buf w)" "dyn_content (rw_buf w) = []" "compress_body E Z body w = Inr (d, enc)"
    and resp_def: "resp = response_text E (sent_message code mime enc (rw_response w)) d"
  shows "fst (send E Z code body mime w) =
      (if ds_max (rw_buf w) < length resp then Rejected exceeded
       else case rw_peer w of
              None \<Rightarrow> Rejected (Runtime_Error ''Write failed: Broken pipe'')
            | Some fd \<Rightarrow> Written fd (RawBuffer resp (length resp)))"
    and "fst (snd (send E Z code body mime w)) = (case rw_peer w of Some _ \<Rightarrow> [Set_Idle True] | None \<Rightarrow> []) @
      (if ds_max (rw_buf w) < length resp then []
       else Timeout_disarm (rw_timeout w)
         @ (case rw_peer w of None \<Rightarrow> [] | Some fd \<Rightarrow> [Async_Write fd (RawBuffer resp (length resp))]))"
proof -
  from assms(3) obtain w' where w': "fst (sendImpl E Z code body mime w) = fst (putOnWire E d (length d) w')"
    "fst (snd (sendImpl E Z code body mime w)) =
       (case rw_peer w of Some _ \<Rightarrow> [Set_Idle True] | None \<Rightarrow> []) @ fst (snd (putOnWire E d (length d) w'))"
    "rw_response w' = sent_message code mime enc (rw_response w)" "rw_buf w' = rw_buf w" "rw_peer w' = rw_peer w"
    "rw_timeout w' = rw_timeout w" by (rule sendImpl_putOnWire)
  have "dyn_inv (rw_buf w')" "dyn_content (rw_buf w') = []" "resp = response_text E (rw_response w') d"
    using w'(3,4) assms(1,2) by (simp_all add: resp_def)
  note whole = putOnWire_whole [OF this, unfolded w'(4-6)]
  show "fst (send E Z code body mime w) =
      (if ds_max (rw_buf w) < length resp then Rejected exceeded
       else case rw_peer w of
              None \<Rightarrow> Rejected (Runtime_Error ''Write failed: Broken pipe'')
            | Some fd \<Rightarrow> Written fd (RawBuffer resp (length resp)))"
    "fst (snd (send E Z code body mime w)) = (case rw_peer w of Some _ \<Rightarrow> [Set_Idle True] | None \<Rightarrow> []) @
      (if ds_max (rw_buf w) < length resp then []
       else Timeout_disarm (rw_timeout w)
         @ (case rw_peer w of None \<Rightarrow> [] | Some fd \<Rightarrow> [Async_Write fd (RawBuffer resp (length resp))]))"
    unfolding send_def w'(1,2) using whole by simp_all
qed

text \<open>
  C7: a response is sent whole or not at all.  A live peer first becomes idle.  When the compression
  of the body fails, its exception leaves the call and nothing is written.  When status line, headers,
  cookies, length and body exceed the response limit, the promise is rejected and nothing is written,
  although \<open>putOnWire\<close> drops the results of the calls that write the head.  Otherwise the timeout is
  disarmed, and a live peer gets exactly that text in one write; for a peer that is gone the promise
  is rejected and nothing is written.
\<close>

theorem send_all_or_nothing:
  assumes "dyn_inv (rw_buf w)" "dyn_content (rw_buf w) = []" "send E Z code body mime w = (r, ev, w')"
    and "idle = (case rw_peer w of Some _ \<Rightarrow> [Set_Idle True] | None \<Rightarrow> [])"
  shows "case compress_body E Z body w of
      Inl e \<Rightarrow> r = Thrown e \<and> ev = idle
    | Inr (d, enc) \<Rightarrow>
        let resp = response_text E (sent_message code mime enc (rw_response w)) d; buf = RawBuffer resp (length resp)
        in if ds_max (rw_buf w) < length resp then r = Rejected exceeded \<and> ev = idle
           else case rw_peer w of
                  None \<Rightarrow> r = Rejected (Runtime_Error ''Write failed: Broken pipe'') \<and> ev = Timeout_disarm (rw_timeout w)
                | Some fd \<Rightarrow> r = Written fd buf \<and> ev = idle @ Timeout_disarm (rw_timeout w) @ [Async_Write fd buf]"
proof (cases "compress_body E Z body w")
  case (Inl e)
  then show ?thesis using sendImpl_throws [OF Inl, of code mime] assms(3,4) by (simp add: send_def)
next
  case (Inr x)
  obtain d enc where x: "x = (d, enc)" by fastforce
  from send_outcome [OF assms(1,2) Inr [unfolded x] refl, of code mime] assms(3,4)
  show ?thesis by (simp add: Inr x Let_def split: option.split)
qed

definition no_compression :: compress_lib where
  "no_compression = \<lparr>cl_brotli_max = (\<lambda>_. 0), cl_brotli = (\<lambda>_ _. None), cl_zstd = (\<lambda>_ _. Inl 0), cl_deflate = (\<lambda>_ _. Inl 0)\<rparr>"

definition sample_writer :: response_writer where
  "sample_writer = the (ResponseWriter Http11 True 4096 (Some 7))"

lemma sample_writer_fresh:
  "dyn_inv (rw_buf sample_writer) \<and> dyn_content (rw_buf sample_writer) = [] \<and> ds_max (rw_buf sample_writer) = 4096
   \<and> rw_contentEncoding sample_writer = Identity \<and> rw_peer sample_writer = Some 7
   \<and> rw_response sample_writer = Message0"
  using dyn_inv_init [of DefaultStreamSize 4096]
  by (auto simp: sample_writer_def ResponseWriter_def DynamicStreamBuf_def DefaultStreamSize_def Message0_def)

theorem send_all_or_nothing_witness:
  "let t = ''HTTP/1.1 200 OK'' @ crlf @ ''Content-Length: 5'' @ crlf @ crlf @ ''hello''; b = RawBuffer t (length t)
   in case send sample_env no_compression 200 ''hello'' MediaType0 sample_writer of (r, ev, w') \<Rightarrow>
        r = Written 7 b \<and> ev = Set_Idle True # Timeout_disarm (rw_timeout sample_writer) @ [Async_Write 7 b]"
proof -
  note f = sample_writer_fresh
  obtain r ev w' where s: "send sample_env no_compression 200 ''hello'' MediaType0 sample_writer = (r, ev, w')"
    by (metis prod_cases3)
  have c: "compress_body sample_env no_compression ''hello'' sample_writer = Inr (''hello'', None)"
    using f by (simp add: compress_body_def)
  have t: "response_text sample_env (sent_message 200 MediaType0 None Message0) ''hello'' =
      ''HTTP/1.1 200 OK'' @ crlf @ ''Content-Length: 5'' @ crlf @ crlf @ ''hello''" by code_simp
  from send_all_or_nothing [OF conjunct1 [OF f] _ s refl] f c t show ?thesis by (simp add: s Let_def)
qed

end
