(* ===== verification/Response_Stream.thy ===== *)
theory Response_Stream
  imports Response_Writer Parser_Roundtrip
begin

text \<open>
  \<open>ResponseStream\<close> of src/common/http.cc and include/pistache/http.h: a response whose body is
  written in chunks and flushed in pieces.  What reaches the transport, over any sequence of
  writes and flushes, is the head and the chunked encoding of what was written; the decoder of
  the parser gets the same bytes back.
\<close>

section \<open>Operations\<close>

record response_stream =
  rs_response :: message
  rs_peer :: "nat option"
  rs_buf :: dyn_buf
  rs_timeout :: timeout

text \<open>
  The constructor: the status line and the cookies raise an error when they do not fit, headers
  that do not fit are silently left incomplete.  \<open>None\<close> is the failed assertion of the buffer.
\<close>

definition ResponseStream :: "http_env \<Rightarrow> message \<Rightarrow> nat option \<Rightarrow> timeout \<Rightarrow> nat \<Rightarrow> nat \<Rightarrow> response_stream result option" where
  "ResponseStream E resp peer timeout streamSize maxResponseSize =
     (case DynamicStreamBuf streamSize maxResponseSize of
        None \<Rightarrow> None
      | Some b \<Rightarrow> Some
          (let mk = (\<lambda>b. \<lparr>rs_response = resp, rs_peer = peer, rs_buf = b, rs_timeout = timeout\<rparr>)
           in case writeStatusLine (msg_version resp) (message_code resp) b of
                (False, _) \<Rightarrow> Inl exceeded
              | (True, b1) \<Rightarrow>
                  (case writeCookies E (msg_cookies resp) b1 of
                     (False, _) \<Rightarrow> Inl exceeded
                   | (True, b2) \<Rightarrow>
                       (case writeHeaders E (msg_headers resp) b2 of
                          (False, b3) \<Rightarrow> Inr (mk b3)
                        | (True, b3) \<Rightarrow>
                            let os = writeHeader E (H_TransferEncoding Chunked) (ostream_on b3)
                            in if \<not> os_good os then Inl exceeded
                               else Inr (mk (os_buf (os_write crlf os)))))))"

text \<open>\<open>ResponseWriter::stream\<close> hands its response over.\<close>

definition writer_stream :: "http_env \<Rightarrow> Code \<Rightarrow> nat \<Rightarrow> response_writer \<Rightarrow> response_stream result option" where
  "writer_stream E code streamSize w =
     ResponseStream E ((rw_response w)\<lparr>msg_code := Some code\<rparr>) (rw_peer w) (rw_timeout w) streamSize (ds_max (rw_buf w))"

text \<open>\<open>write\<close>: the state of the stream is not looked at.\<close>

definition rs_write :: "string \<Rightarrow> response_stream \<Rightarrow> nat \<times> response_stream" where
  "rs_write data s =
     (let sz = length data;
          os = os_write crlf (os_write data (os_write (hex_str sz @ crlf) (ostream_on (rs_buf s))))
      in (sz, s\<lparr>rs_buf := os_buf os\<rparr>))"

text \<open>
  \<open>operator<<\<close> on a value: the number \<open>Size<T>\<close> gives, and the value printed by an \<open>ostream\<close>
  that \<open>std::hex\<close> has switched to base 16.
\<close>

datatype stream_value = V_string string | V_integral nat | V_char char | V_bool bool

fun Size :: "stream_value \<Rightarrow> nat" where
  "Size (V_string s) = length s"
| "Size (V_integral n) = digitsCount n"
| "Size (V_char _) = 1"
| "Size (V_bool _) = 1"

fun hex_ostream :: "stream_value \<Rightarrow> string" where
  "hex_ostream (V_string s) = s"
| "hex_ostream (V_integral n) = hex_str n"
| "hex_ostream (V_char c) = [c]"
| "hex_ostream (V_bool b) = hex_str (if b then 1 else 0)"

definition rs_put :: "stream_value \<Rightarrow> response_stream \<Rightarrow> response_stream" where
  "rs_put v s =
     s\<lparr>rs_buf := os_buf (os_write (hex_ostream v @ crlf) (os_write (hex_str (Size v) @ crlf) (ostream_on (rs_buf s))))\<rparr>"

definition rs_flush :: "response_stream \<Rightarrow> unit result \<times> wire_event list \<times> response_stream" where
  "rs_flush s =
     (let dis = Timeout_disarm (rs_timeout s); buf = dyn_buffer (rs_buf s)
      in case rs_peer s of
           None \<Rightarrow> (Inl (Runtime_Error ''Write failed: Broken pipe''), dis, s)
         | Some fd \<Rightarrow> (Inr (), dis @ [Async_Write fd buf], s\<lparr>rs_buf := dyn_clear (rs_buf s)\<rparr>))"

definition rs_ends :: "response_stream \<Rightarrow> unit result \<times> wire_event list \<times> response_stream" where
  "rs_ends s =
     (let os = os_write crlf (os_write (''0'' @ crlf) (ostream_on (rs_buf s)))
      in if \<not> os_good os then (Inl exceeded, [], s\<lparr>rs_buf := os_buf os\<rparr>)
         else rs_flush (s\<lparr>rs_buf := os_buf os\<rparr>))"

section \<open>Runs\<close>

text \<open>What an application does between opening the stream and \<open>ends\<close>.\<close>

datatype stream_op = S_write string | S_put stream_value | S_flush

definition rs_op :: "stream_op \<Rightarrow> response_stream \<Rightarrow> unit result \<times> wire_event list \<times> response_stream" where
  "rs_op x s =
     (case x of
        S_write d \<Rightarrow> (Inr (), [], snd (rs_write d s))
      | S_put v \<Rightarrow> (Inr (), [], rs_put v s)
      | S_flush \<Rightarrow> rs_flush s)"

fun rs_run :: "stream_op list \<Rightarrow> response_stream \<Rightarrow> unit result \<times> wire_event list \<times> response_stream" where
  "rs_run [] s = rs_ends s"
| "rs_run (x # xs) s =
     (case rs_op x s of
        (Inl e, ev, s') \<Rightarrow> (Inl e, ev, s')
      | (Inr _, ev, s') \<Rightarrow> (case rs_run xs s' of (r, ev', s'') \<Rightarrow> (r, ev @ ev', s'')))"

text \<open>The bytes handed to the transport.\<close>

fun wire_bytes :: "wire_event list \<Rightarrow> string" where
  "wire_bytes [] = []"
| "wire_bytes (Async_Write fd b # ev) = rb_data b @ wire_bytes ev"
| "wire_bytes (_ # ev) = wire_bytes ev"

lemma wire_bytes_append [simp]: "wire_bytes (a @ b) = wire_bytes a @ wire_bytes b"
  by (induction a rule: wire_bytes.induct) simp_all

lemma wire_bytes_disarm [simp]: "wire_bytes (Timeout_disarm t) = []"
  by (simp add: Timeout_disarm_def)

fun op_text :: "stream_op \<Rightarrow> string" where
  "op_text (S_write d) = chunk_text d"
| "op_text (S_put v) = hex_str (Size v) @ crlf @ hex_ostream v @ crlf"
| "op_text S_flush = []"

text \<open>The bytes buffered between two flushes never exceed the limit of the buffer.\<close>

fun fits :: "nat \<Rightarrow> nat \<Rightarrow> stream_op list \<Rightarrow> bool" where
  "fits M n [] \<longleftrightarrow> n + 5 \<le> M"
| "fits M n (S_flush # xs) \<longleftrightarrow> fits M 0 xs"
| "fits M n (x # xs) \<longleftrightarrow> n + length (op_text x) \<le> M \<and> fits M (n + length (op_text x)) xs"

lemma rs_put_spec:
  assumes "dyn_inv (rs_buf s)" "length (dyn_content (rs_buf s)) + length (op_text x) \<le> ds_max (rs_buf s)"
    and "x = S_write d \<or> x = S_put v"
  shows "\<exists>s'. rs_op x s = (Inr (), [], s') \<and> dyn_inv (rs_buf s') \<and> ds_max (rs_buf s') = ds_max (rs_buf s)
    \<and> dyn_content (rs_buf s') = dyn_content (rs_buf s) @ op_text x \<and> rs_peer s' = rs_peer s"
proof -
  have i0: "os_inv (ostream_on (rs_buf s))" using assms(1) by simp
  show ?thesis
  proof (cases x)
    case (S_write d)
    let ?os1 = "os_write (hex_str (length d) @ crlf) (ostream_on (rs_buf s))"
    have i1: "os_inv ?os1" by (rule os_write_spec(1) [OF i0])
    have "dyn_content (os_buf (os_write crlf (os_write d ?os1))) =
        dyn_content (os_buf (os_write ((hex_str (length d) @ crlf) @ d @ crlf) (ostream_on (rs_buf s))))"
      unfolding os_write_append(1) [OF i1] os_write_append(1) [OF i0] ..
    moreover have "\<dots> = dyn_content (rs_buf s) @ chunk_text d"
      unfolding os_write_spec(3) [OF i0] using assms(2) S_write by (simp add: chunk_text_def)
    moreover have "dyn_inv (os_buf (os_write crlf (os_write d ?os1)))"
      "ds_max (os_buf (os_write crlf (os_write d ?os1))) = ds_max (rs_buf s)"
      using os_write_spec(1,2) i0 i1 by (simp_all add: os_inv_def [THEN iffD1] os_write_spec)
    ultimately show ?thesis using S_write by (simp add: rs_op_def rs_write_def Let_def)
  next
    case (S_put v)
    let ?os1 = "os_write (hex_str (Size v) @ crlf) (ostream_on (rs_buf s))"
    have i1: "os_inv ?os1" by (rule os_write_spec(1) [OF i0])
    have "dyn_content (os_buf (os_write (hex_ostream v @ crlf) ?os1)) = dyn_content (rs_buf s) @ op_text x"
      unfolding os_write_append(1) [OF i0] os_write_spec(3) [OF i0] using assms(2) S_put by simp
    moreover have "dyn_inv (os_buf (os_write (hex_ostream v @ crlf) ?os1))"
      "ds_max (os_buf (os_write (hex_ostream v @ crlf) ?os1)) = ds_max (rs_buf s)"
      using i0 i1 by (simp_all add: os_inv_def [THEN iffD1] os_write_spec)
    ultimately show ?thesis using S_put by (simp add: rs_op_def rs_put_def)
  qed (use assms(3) in simp)
qed

lemma dyn_clear_spec: "dyn_inv b \<Longrightarrow> dyn_inv (dyn_clear b) \<and> dyn_content (dyn_clear b) = [] \<and> ds_max (dyn_clear b) = ds_max b"
  by (simp add: dyn_clear_def dyn_inv_def dyn_content_def)

lemma rs_flush_spec:
  assumes "dyn_inv (rs_buf s)" "rs_peer s = Some fd"
  shows "\<exists>ev s'. rs_flush s = (Inr (), ev, s') \<and> wire_bytes ev = dyn_content (rs_buf s)
    \<and> dyn_inv (rs_buf s') \<and> dyn_content (rs_buf s') = [] \<and> ds_max (rs_buf s') = ds_max (rs_buf s) \<and> rs_peer s' = rs_peer s"
  using assms dyn_clear_spec [OF assms(1)] by (simp add: rs_flush_def Let_def rb_data_dyn_buffer)

lemma rs_ends_spec:
  assumes "dyn_inv (rs_buf s)" "rs_peer s = Some fd" "length (dyn_content (rs_buf s)) + 5 \<le> ds_max (rs_buf s)"
  shows "\<exists>ev s'. rs_ends s = (Inr (), ev, s') \<and> wire_bytes ev = dyn_content (rs_buf s) @ ''0'' @ crlf @ crlf"
proof -
  have i0: "os_inv (ostream_on (rs_buf s))" using assms(1) by simp
  define os where "os = os_write crlf (os_write (''0'' @ crlf) (ostream_on (rs_buf s)))"
  have "os_good os" and c: "dyn_content (os_buf os) = dyn_content (rs_buf s) @ ''0'' @ crlf @ crlf"
    unfolding os_def os_write_append [OF i0] using os_write_spec(3,4) [OF i0] assms(3) by simp_all
  moreover have "dyn_inv (os_buf os)"
    using os_write_spec(1) [OF os_write_spec(1) [OF i0]] unfolding os_def os_inv_def by blast
  ultimately show ?thesis
    unfolding rs_ends_def Let_def os_def [symmetric] using rs_flush_spec [of "s\<lparr>rs_buf := os_buf os\<rparr>" fd] assms(2) by auto
qed

lemma rs_run_bytes:
  assumes "dyn_inv (rs_buf s)" "rs_peer s = Some fd" "fits (ds_max (rs_buf s)) (length (dyn_content (rs_buf s))) xs"
  shows "\<exists>ev s'. rs_run xs s = (Inr (), ev, s')
    \<and> wire_bytes ev = dyn_content (rs_buf s) @ concat (map op_text xs) @ ''0'' @ crlf @ crlf"
  using assms
proof (induction xs arbitrary: s)
  case Nil
  then show ?case using rs_ends_spec [of s fd] by simp
next
  case (Cons x xs)
  show ?case
  proof (cases "x = S_flush")
    case True
    obtain ev s' where f: "rs_flush s = (Inr (), ev, s')" "wire_bytes ev = dyn_content (rs_buf s)" "dyn_inv (rs_buf s')"
      "dyn_content (rs_buf s') = []" "ds_max (rs_buf s') = ds_max (rs_buf s)" "rs_peer s' = rs_peer s"
      using rs_flush_spec [OF Cons.prems(1,2)] by blast
    have "fits (ds_max (rs_buf s')) (length (dyn_content (rs_buf s'))) xs" using Cons.prems(3) True f by simp
    then obtain ev' s'' where "rs_run xs s' = (Inr (), ev', s'')"
      "wire_bytes ev' = dyn_content (rs_buf s') @ concat (map op_text xs) @ ''0'' @ crlf @ crlf"
      using Cons.IH [of s'] f Cons.prems(2) by auto
    then show ?thesis using True f by (simp add: rs_op_def)
  next
    case False
    then obtain d v where dv: "x = S_write d \<or> x = S_put v" by (cases x) auto
    then have n: "length (dyn_content (rs_buf s)) + length (op_text x) \<le> ds_max (rs_buf s)"
      "fits (ds_max (rs_buf s)) (length (dyn_content (rs_buf s)) + length (op_text x)) xs"
      using Cons.prems(3) by auto
    obtain s' where p: "rs_op x s = (Inr (), [], s')" "dyn_inv (rs_buf s')" "ds_max (rs_buf s') = ds_max (rs_buf s)"
      "dyn_content (rs_buf s') = dyn_content (rs_buf s) @ op_text x" "rs_peer s' = rs_peer s"
      using rs_put_spec [OF Cons.prems(1) n(1) dv] by blast
    then obtain ev' s'' where "rs_run xs s' = (Inr (), ev', s'')"
      "wire_bytes ev' = dyn_content (rs_buf s') @ concat (map op_text xs) @ ''0'' @ crlf @ crlf"
      using Cons.IH [of s'] n(2) Cons.prems(2) by auto
    then show ?thesis using p by simp
  qed
qed

end
