(* ===== verification/Response_Roundtrip.thy ===== *)
theory Response_Roundtrip
  imports Head_Roundtrip Response_Stream
begin

text \<open>
  Server to client: the response parser, which the client uses, recovers from the bytes that a
  \<open>ResponseWriter\<close> or a \<open>ResponseStream\<close> hands to the transport the status code, the
  headers, the cookies and the body.
\<close>

section \<open>The status line\<close>

lemma advance_while_line:
  assumes "wf_cursor c" "rest c = l @ CR # LF # t" "CR \<notin> set l"
  shows "advance_while (\<lambda>c. \<not> eol c \<and> \<not> eof c) c = (True, c\<lparr>spos := spos c + length l\<rparr>)"
  using assms
proof (induction l arbitrary: c)
  case Nil
  then have "eol c" by (simp add: eol_rest)
  then show ?case by (simp add: advance_while_step(2))
next
  case (Cons x l)
  let ?c = "c\<lparr>spos := Suc (spos c)\<rparr>"
  have r: "rest c = x # l @ CR # LF # t" using Cons.prems(2) by simp
  have "\<not> eol c \<and> \<not> eof c" using r Cons.prems(3) by (auto simp: eol_rest eof_rest)
  moreover have "advance 1 c = (True, ?c)" by (rule advance1_Cons [OF Cons.prems(1) r])
  moreover have "advance_while (\<lambda>c. \<not> eol c \<and> \<not> eof c) ?c = (True, ?c\<lparr>spos := spos ?c + length l\<rparr>)"
    using wf_Suc [OF Cons.prems(1) r] rest_Suc [OF r] Cons.prems(3) by (intro Cons.IH) simp_all
  ultimately show ?case using advance_while_step(1) [of "\<lambda>c. \<not> eol c \<and> \<not> eof c" c] by (simp del: One_nat_def)
qed

lemma codeString_no_CR: "CR \<notin> set (codeString code)"
proof -
  have "list_all (\<lambda>(c, s). CR \<notin> set s) STATUS_CODES" by code_simp
  then have "map_of STATUS_CODES code = Some s \<Longrightarrow> CR \<notin> set s" for s
    by (auto simp: list_all_iff dest!: map_of_SomeD)
  then show ?thesis by (simp add: codeString_def split: option.split)
qed

lemma dec_str_no_SP: "SP \<notin> set (dec_str n)"
proof
  assume "SP \<in> set (dec_str n)"
  then have "is_digit 10 SP" using num_str_digits [of 10 n] by (auto simp: list_all_iff)
  moreover have "\<not> is_digit 10 SP" by code_simp
  ultimately show False by contradiction
qed

lemma from_chars_int_dec_str:
  assumes "n < 2 ^ 31"
  shows "from_chars_int (dec_str n) = Some (int n, length (dec_str n))"
proof -
  have d: "from_chars_u 10 (2 ^ 31 - 1) (dec_str n) = Inr (n, length (dec_str n))"
    using from_chars_num_str [of 10 n "2 ^ 31 - 1" "[]"] assms by simp
  obtain x t where x: "dec_str n = x # t" using num_str_nonempty [of 10 n] by (cases "dec_str n") auto
  have "is_digit 10 x" using num_str_digits [of 10 n] x by simp
  moreover have "\<not> is_digit 10 (CHR ''-'')" by code_simp
  ultimately have "x \<noteq> CHR ''-''" by metis
  with d show ?thesis by (simp add: from_chars_int_def x)
qed

lemma response_code_text:
  assumes wf: "wf_cursor c" and r: "rest c = SP # dec_str n @ SP # s @ CR # LF # t"
    and n: "n < 2 ^ 31" and s: "CR \<notin> set s"
  shows "response_code c m = (Inr Next, m\<lparr>msg_code := Some (int n)\<rparr>, c\<lparr>spos := spos c + (length (dec_str n) + length s + 4)\<rparr>)"
proof -
  define c1 where "c1 = c\<lparr>spos := Suc (spos c)\<rparr>"
  define c2 where "c2 = c1\<lparr>spos := spos c1 + length (dec_str n)\<rparr>"
  define c3 where "c3 = c2\<lparr>spos := Suc (spos c2)\<rparr>"
  define c4 where "c4 = c3\<lparr>spos := spos c3 + length s\<rparr>"
  have wf1: "wf_cursor c1" and r1: "rest c1 = dec_str n @ SP # s @ CR # LF # t"
    unfolding c1_def using wf_Suc [OF wf r] rest_Suc [OF r] by simp_all
  have wf2: "wf_cursor c2" and r2: "rest c2 = SP # s @ CR # LF # t"
    unfolding c2_def using wf_at [OF wf1 r1] rest_at [OF r1] by simp_all
  have wf3: "wf_cursor c3" and r3: "rest c3 = s @ CR # LF # t"
    unfolding c3_def using wf_Suc [OF wf2 r2] rest_Suc [OF r2] by simp_all
  have wf4: "wf_cursor c4" and r4: "rest c4 = CR # LF # t"
    unfolding c4_def using wf_at [OF wf3 r3] rest_at [OF r3] by simp_all
  have "current c = SP" using r by (simp add: current_def)
  moreover have "advance 1 c = (True, c1)" unfolding c1_def by (rule advance1_Cons [OF wf r])
  moreover have "match_until [SP] Insensitive c1 = (True, c2)"
    using match_until_stop [OF wf1 _ r1 dec_str_no_SP] by (simp add: c2_def)
  moreover have "token_text c1 c2 = dec_str n" unfolding c2_def by (simp add: r1)
  moreover have "mem_at (rest c1) (length (dec_str n)) = SP" by (simp add: r1 mem_at_def)
  moreover have "advance 1 c2 = (True, c3)" unfolding c3_def by (rule advance1_Cons [OF wf2 r2])
  moreover have "advance_while (\<lambda>c. \<not> eol c \<and> \<not> eof c) c3 = (True, c4)"
    unfolding c4_def by (rule advance_while_line [OF wf3 r3 s])
  moreover have "advance 2 c4 = (True, c4\<lparr>spos := spos c4 + 2\<rparr>)" by (rule advance2_eol [OF r4 wf4])
  moreover have "c4\<lparr>spos := spos c4 + 2\<rparr> = c\<lparr>spos := spos c + (length (dec_str n) + length s + 4)\<rparr>"
    by (simp add: c4_def c3_def c2_def c1_def)
  ultimately show ?thesis
    by (simp add: response_code_def from_chars_int_dec_str [OF n] Let_def del: One_nat_def)
qed

lemma ResponseLineStep_text:
  assumes wf: "wf_cursor c" and r: "rest c = status_line_text v code @ t" and code: "0 \<le> code" "code < 2 ^ 31"
  shows "ResponseLineStep_apply c m =
     (Inr Next, m\<lparr>msg_code := Some code\<rparr>, c\<lparr>spos := spos c + length (status_line_text v code)\<rparr>)"
proof -
  define c1 where "c1 = c\<lparr>spos := spos c + 8\<rparr>"
  have len: "length (versionString v) = 8" by (cases v) simp_all
  have i: "int_str code = dec_str (nat code)" using code(1) by (simp add: int_str_def)
  have r': "rest c = versionString v @ SP # dec_str (nat code) @ SP # codeString code @ CR # LF # t"
    using r by (simp add: status_line_text_def i)
  have wf1: "wf_cursor c1" and r1: "rest c1 = SP # dec_str (nat code) @ SP # codeString code @ CR # LF # t"
    unfolding c1_def using wf_at [OF wf r'] rest_at [OF r'] len by simp_all
  have "response_code c1 m = (Inr Next, m\<lparr>msg_code := Some code\<rparr>, c\<lparr>spos := spos c + length (status_line_text v code)\<rparr>)"
    using response_code_text [OF wf1 r1 _ codeString_no_CR] code len by (simp add: c1_def status_line_text_def i)
  moreover have "match_raw ''HTTP/1.1'' c = (v = Http11, if v = Http11 then c1 else c)"
    "v = Http10 \<Longrightarrow> match_raw ''HTTP/1.0'' c = (True, c1)"
    using r' by (cases v; simp add: match_raw_eq [OF wf] c1_def)+
  ultimately show ?thesis by (cases v) (simp_all add: ResponseLineStep_apply_def reverting_def)
qed

section \<open>Whole responses\<close>

lemma header_line_text_line: "header_line_text E h = line_text (object_line E h)"
  by (simp add: header_line_text_def line_text_def object_line_def)

lemma cookie_line_text_line: "cookie_line_text E ck = line_text (cookie_line E ck)"
  by (simp add: cookie_line_text_def line_text_def cookie_line_def)

text \<open>The parser on a status line, lines that are read, and a body.\<close>

lemma response_parsed:
  assumes tx: "data = status_line_text v code @ concat (map line_text ls) @ crlf @ t"
    and code: "0 \<le> code" "code < 2 ^ 31"
    and ls: "\<forall>l \<in> set ls. good_line l" "add_lines E ls (Message0\<lparr>msg_code := Some code\<rparr>) = Some m2"
    and n: "length data \<le> N" "N < 2 ^ 63"
    and body: "\<And>c. wf_cursor c \<Longrightarrow> rest c = t \<Longrightarrow> \<exists>b' c'. BodyStep_apply BodyStep0 m2 c = (r, b', m3, c')"
  shows "\<exists>p p'. parser_feed data (ParserImpl False N) = (True, p) \<and> parser_parse E p = (r, p') \<and> pa_message p' = m3"
  by (rule message_parsed [OF tx _ ls n body]) (simp_all add: ResponseLineStep_text [OF _ _ code])

lemma add_lines_head:
  assumes "readable_objects E hs hs'" "readable_cookies E cks" "readable_objects E ks ks'"
  shows "add_lines E (map (object_line E) hs @ map (cookie_line E) cks @ map (object_line E) ks) m =
     Some (fold (add_object E) (zip ks ks') (fold (add_cookie E) cks (fold (add_object E) (zip hs hs') m)))"
  using assms add_lines_objects [of E hs hs'] add_lines_objects [of E ks ks'] add_lines_cookies [of cks E]
  by (simp add: add_lines_append readable_objects_def readable_cookies_def)

lemma good_head:
  assumes "readable_objects E hs hs'" "readable_cookies E cks" "readable_objects E ks ks'"
  shows "\<forall>l \<in> set (map (object_line E) hs @ map (cookie_line E) cks @ map (object_line E) ks). good_line l"
  using assms by (auto simp: readable_objects_def readable_cookies_def)

lemma response_read_back:
  assumes "dyn_inv (rw_buf w)" "dyn_content (rw_buf w) = []" "compress_body E Z body w = Inr (d, enc)"
    and "fst (send E Z code body mime w) = Written fd buf" "m = sent_message code mime enc (rw_response w)"
    and "readable_objects E (Collection_list (msg_headers m)) hs'" "no_framing hs'"
    and "readable_cookies E (jar_cookies (msg_cookies m))"
    and "0 \<le> code" "code < 2 ^ 31" "length (rb_data buf) \<le> N" "N \<le> string_max_size"
  shows "\<exists>p p'. parser_feed (rb_data buf) (ParserImpl False N) = (True, p) \<and> parser_parse E p = (Inr Done, p')
    \<and> msg_code (pa_message p') = Some code \<and> msg_body (pa_message p') = d
    \<and> msg_cookies (pa_message p') = fold jar_add (jar_cookies (msg_cookies m)) CookieJar
    \<and> (\<forall>name. Collection_tryGet name (msg_headers (pa_message p')) =
         List.find (\<lambda>h. LowercaseEqual (header_name h) name) (hs' @ [H_ContentLength (length d)]))"
proof -
  have data: "rb_data buf = response_text E m d"
    using send_outcome(1) [OF assms(1-3) refl, of code mime] assms(4)
    by (auto simp: assms(5) [symmetric] RawBuffer_def split: if_splits option.splits)
  let ?hs = "Collection_list (msg_headers m)" and ?cks = "jar_cookies (msg_cookies m)" and ?cl = "[H_ContentLength (length d)]"
  have mc: "message_code m = code" by (simp add: assms(5) sent_message_def message_code_def Let_def)
  have tx: "rb_data buf = status_line_text (msg_version m) code
      @ concat (map line_text (map (object_line E) ?hs @ map (cookie_line E) ?cks @ map (object_line E) ?cl)) @ crlf @ d"
    by (simp add: data response_text_def head_text_def mc header_line_text_line [abs_def] cookie_line_text_line [abs_def] comp_def)
  have "length d \<le> length (rb_data buf)" by (simp add: tx)
  then have d: "length d \<le> string_max_size" using assms(11,12) by simp
  then have "readable_objects E ?cl ?cl" by (intro readable_framing) (simp add: string_max_size_def)
  note rd = assms(6,8) this
  define m2 where "m2 = fold (add_object E) (zip ?cl ?cl) (fold (add_cookie E) ?cks
      (fold (add_object E) (zip ?hs hs') (Message0\<lparr>msg_code := Some code\<rparr>)))"
  have zip: "map snd (zip ?hs hs') = hs'"
    using assms(6) by (auto simp: readable_objects_def dest!: list_all2_lengthD)
  have get: "Collection_tryGet name (msg_headers m2) = List.find (\<lambda>h. LowercaseEqual (header_name h) name) (hs' @ ?cl)" for name
    unfolding m2_def tryGet_fold_add_object fold_add_cookie_sel zip
    by (simp add: find_append split: option.split)
  have cl: "tryGet_ContentLength (msg_headers m2) = Some (length d)" "tryGet_TransferEncoding (msg_headers m2) = None"
    unfolding tryGet_ContentLength_def tryGet_TransferEncoding_def get using no_framing_find [OF assms(7)]
    by (simp_all add: find_append LowercaseEqual_iff to_lower_def)
  have sel: "msg_body m2 = []" "msg_code m2 = Some code" "msg_cookies m2 = fold jar_add ?cks CookieJar"
    by (simp_all add: m2_def)
  have b: "\<exists>b' c'. BodyStep_apply BodyStep0 m2 c = (Inr Done, b', m2\<lparr>msg_body := d\<rparr>, c')" if "wf_cursor c" "rest c = d" for c
    using BodyStep_length [of c d "[]" BodyStep0 m2] that cl sel(1) d by (simp add: BodyStep0_def)
  have N: "N < 2 ^ 63" using assms(12) by (simp add: string_max_size_def)
  have "\<exists>p p'. parser_feed (rb_data buf) (ParserImpl False N) = (True, p) \<and> parser_parse E p = (Inr Done, p')
      \<and> pa_message p' = m2\<lparr>msg_body := d\<rparr>"
    by (rule response_parsed [OF tx assms(9,10) good_head [OF rd] _ assms(11) N b])
      (simp_all only: add_lines_head [OF rd] m2_def)
  then obtain p p' where "parser_feed (rb_data buf) (ParserImpl False N) = (True, p)" "parser_parse E p = (Inr Done, p')"
    "pa_message p' = m2\<lparr>msg_body := d\<rparr>" by blast
  then show ?thesis using sel get by auto
qed

text \<open>
  C8: what a server sends with \<open>ResponseWriter::send\<close> is what a client reads: the client's parser,
  given the bytes handed to the transport, ends with \<open>Done\<close> and has the status code, the body as it was
  compressed (the body itself when no compression is asked for), the cookies, and under any name, in any letter
  case, the header that was sent or the length of the body.  The headers and cookies are the ones that
  a message can carry (\<open>carried\<close>, \<open>carried_cookie\<close>): \<open>Accept\<close>, \<open>Accept-Encoding\<close>, \<open>Allow\<close>, \<open>Expect\<close>,
  \<open>ETag\<close> and cookies with extension attributes do not come back.
\<close>

theorem response_round_trip:
  assumes "dyn_inv (rw_buf w)" "dyn_content (rw_buf w) = []" "compress_body E Z body w = Inr (d, enc)"
    and "fst (send E Z code body mime w) = Written fd buf" "m = sent_message code mime enc (rw_response w)"
    and "\<forall>h \<in> set (Collection_list (msg_headers m)). carried E h"
    and "\<forall>ck \<in> set (jar_cookies (msg_cookies m)). carried_cookie E ck"
    and "0 \<le> code" "code < 2 ^ 31" "length (rb_data buf) \<le> N" "N \<le> string_max_size"
  shows "\<exists>p p' hs'. parser_feed (rb_data buf) (ParserImpl False N) = (True, p) \<and> parser_parse E p = (Inr Done, p')
    \<and> msg_code (pa_message p') = Some code
    \<and> msg_body (pa_message p') = d \<and> (rw_contentEncoding w = Identity \<longrightarrow> d = body)
    \<and> msg_cookies (pa_message p') = fold jar_add (jar_cookies (msg_cookies m)) CookieJar
    \<and> list_all2 same_header (Collection_list (msg_headers m)) hs'
    \<and> (\<forall>name. Collection_tryGet name (msg_headers (pa_message p')) =
         List.find (\<lambda>h. LowercaseEqual (header_name h) name) (hs' @ [H_ContentLength (length d)]))"
proof -
  obtain hs' where hs': "list_all2 same_header (Collection_list (msg_headers m)) hs'"
    "readable_objects E (Collection_list (msg_headers m)) hs'" "no_framing hs'"
    using carried_objects [OF assms(6)] by blast
  have "rw_contentEncoding w = Identity \<longrightarrow> d = body" using assms(3) by (auto simp: compress_body_def)
  with response_read_back [OF assms(1-5) hs'(2,3) carried_cookies [OF assms(7)] assms(8-11)] hs'(1)
  show ?thesis by blast
qed

lemma carried_connection: "carried E (H_Connection c)"
  by (cases c) (simp_all add: carried_def good_line_def object_line_def)

lemma carried_json: "carried E (H_ContentType (MediaType3 T_Application S_Json X_None))"
proof -
  have "MediaType_toString (MediaType3 T_Application S_Json X_None) = ''application/json''" by code_simp
  then show ?thesis
    by (simp add: carried_def known_media_def MediaType3_def MediaType0_def printed_sub_def good_line_def object_line_def)
qed

text \<open>A response with two headers, one of them set by the call.\<close>

theorem response_round_trip_witness:
  "\<exists>p p' hs'. parser_feed (''HTTP/1.1 200 OK'' @ crlf @ ''Content-Type: application/json'' @ crlf @ ''Connection: Close'' @ crlf
         @ ''Content-Length: 5'' @ crlf @ crlf @ ''hello'') (ParserImpl False 4096) = (True, p)
     \<and> parser_parse sample_env p = (Inr Done, p') \<and> msg_code (pa_message p') = Some 200 \<and> msg_body (pa_message p') = ''hello''
     \<and> list_all2 same_header [H_ContentType (MediaType3 T_Application S_Json X_None), H_Connection Close] hs'"
proof -
  let ?json = "MediaType3 T_Application S_Json X_None"
  define w where "w = on_headers (Collection_add (H_Connection Close)) sample_writer"
  define m where "m = sent_message 200 ?json None (rw_response w)"
  define t where "t = response_text sample_env m ''hello''"
  note f = sample_writer_fresh
  have w: "dyn_inv (rw_buf w)" "dyn_content (rw_buf w) = []" "ds_max (rw_buf w) = 4096" "rw_peer w = Some 7"
    "rw_response w = Message0\<lparr>msg_headers := Collection_add (H_Connection Close) Collection0\<rparr>"
    using f by (simp_all add: w_def Message0_def)
  have c: "compress_body sample_env no_compression ''hello'' w = Inr (''hello'', None)"
    using f by (simp add: compress_body_def w_def)
  have t: "t = ''HTTP/1.1 200 OK'' @ crlf @ ''Content-Type: application/json'' @ crlf @ ''Connection: Close'' @ crlf
         @ ''Content-Length: 5'' @ crlf @ crlf @ ''hello''"
    unfolding t_def m_def w(5) by code_simp
  have s: "fst (send sample_env no_compression 200 ''hello'' ?json w) = Written 7 (RawBuffer t (length t))"
    using send_outcome(1) [OF w(1,2) c refl, of 200 ?json]
    by (simp add: m_def [symmetric] t_def [symmetric] w(3,4) t del: send_result.inject)
  have m: "Collection_list (msg_headers m) = [H_ContentType ?json, H_Connection Close]" "jar_cookies (msg_cookies m) = []"
    unfolding m_def w(5) by code_simp+
  have rb: "rb_data (RawBuffer t (length t)) = t" by (simp add: RawBuffer_def)
  have "\<forall>h \<in> set (Collection_list (msg_headers m)). carried sample_env h"
    "\<forall>ck \<in> set (jar_cookies (msg_cookies m)). carried_cookie sample_env ck" "length (rb_data (RawBuffer t (length t))) \<le> 4096"
    unfolding rb by (simp_all add: m carried_connection carried_json t)
  from response_round_trip [OF w(1,2) c s m_def this(1,2) _ _ this(3)] show ?thesis
    unfolding rb m(1) by (auto simp: string_max_size_def t)
qed

section \<open>Streamed responses\<close>

text \<open>The operations that send a chunk: text, single characters and truth values, none of it empty.\<close>

fun payload :: "stream_op \<Rightarrow> string" where
  "payload (S_write d) = d"
| "payload (S_put v) = hex_ostream v"
| "payload S_flush = []"

fun sends_chunk :: "stream_op \<Rightarrow> bool" where
  "sends_chunk (S_write d) \<longleftrightarrow> d \<noteq> []"
| "sends_chunk (S_put (V_string s)) \<longleftrightarrow> s \<noteq> []"
| "sends_chunk (S_put (V_integral n)) \<longleftrightarrow> False"
| "sends_chunk (S_put _) \<longleftrightarrow> True"
| "sends_chunk S_flush \<longleftrightarrow> True"

lemma op_text_chunk: "sends_chunk x \<Longrightarrow> op_text x = (if payload x = [] then [] else chunk_text (payload x))"
proof -
  have h: "hex_str 1 = ''1''" "hex_str 0 = ''0''" by code_simp+
  assume "sends_chunk x"
  then show ?thesis
  proof (cases x)
    case (S_put v)
    with \<open>sends_chunk x\<close> h show ?thesis by (cases v) (simp_all add: chunk_text_def)
  qed simp_all
qed

lemma op_texts:
  "\<forall>x \<in> set xs. sends_chunk x \<Longrightarrow>
   concat (map op_text xs) @ ''0'' @ crlf = chunked_text (filter (\<lambda>d. d \<noteq> []) (map payload xs))"
  by (induction xs) (auto simp: chunked_text_def op_text_chunk)

lemma concat_filter_nonempty: "concat (filter (\<lambda>d. d \<noteq> []) ds) = concat ds"
  by (induction ds) auto

definition stream_head :: "http_env \<Rightarrow> message \<Rightarrow> string" where
  "stream_head E m = status_line_text (msg_version m) (message_code m)
     @ concat (map (cookie_line_text E) (jar_cookies (msg_cookies m)))
     @ concat (map (header_line_text E) (Collection_list (msg_headers m)))
     @ header_line_text E (H_TransferEncoding Chunked) @ crlf"

lemma ResponseStream_head:
  assumes "streamSize \<le> maxSize" "length (stream_head E m) \<le> maxSize"
  shows "\<exists>s. ResponseStream E m peer t streamSize maxSize = Some (Inr s) \<and> dyn_inv (rs_buf s)
    \<and> dyn_content (rs_buf s) = stream_head E m \<and> rs_peer s = peer \<and> ds_max (rs_buf s) = maxSize"
proof -
  obtain b where b: "DynamicStreamBuf streamSize maxSize = Some b" using assms(1) by (simp add: DynamicStreamBuf_def)
  with dyn_inv_init have i: "dyn_inv b" "dyn_content b = []" "ds_max b = maxSize" by blast+
  define b1 where "b1 = snd (writeStatusLine (msg_version m) (message_code m) b)"
  define b2 where "b2 = snd (writeCookies E (msg_cookies m) b1)"
  define b3 where "b3 = snd (writeHeaders E (msg_headers m) b2)"
  define os where "os = writeHeader E (H_TransferEncoding Chunked) (ostream_on b3)"
  note s1 = writeStatusLine_spec [OF i(1), of "msg_version m" "message_code m", folded b1_def]
  note s2 = writeCookies_spec [OF s1(1), of E "msg_cookies m", folded b2_def]
  note s3 = writeHeaders_spec [OF s2(1), of E "msg_headers m", folded b3_def]
  note s4 = writeHeader_spec [OF os_inv_on [OF s3(1)], of E "H_TransferEncoding Chunked", folded os_def, simplified]
  note s5 = os_write_spec [OF s4(1), of crlf]
  note fit = assms(2) [unfolded stream_head_def length_append]
  have c1: "dyn_content b1 = status_line_text (msg_version m) (message_code m)" using s1(3) i fit by simp
  have c2: "dyn_content b2 = dyn_content b1 @ concat (map (cookie_line_text E) (jar_cookies (msg_cookies m)))"
    using s2(3) s1(2) i c1 fit by simp
  have c3: "dyn_content b3 = dyn_content b2 @ concat (map (header_line_text E) (Collection_list (msg_headers m)))"
    using s3(3) s2(2) s1(2) i c2 c1 fit by simp
  have mx: "ds_max b3 = maxSize" using s3(2) s2(2) s1(2) i by simp
  have c4: "dyn_content (os_buf os) = dyn_content b3 @ header_line_text E (H_TransferEncoding Chunked)"
    using s4(3) mx c3 c2 c1 fit by simp
  have c5: "dyn_content (os_buf (os_write crlf os)) = stream_head E m"
    using s5(3) s4(2) mx c4 c3 c2 c1 fit by (simp add: stream_head_def)
  have ok: "writeStatusLine (msg_version m) (message_code m) b = (True, b1)" "writeCookies E (msg_cookies m) b1 = (True, b2)"
    "writeHeaders E (msg_headers m) b2 = (True, b3)" "os_good os"
    using s1(4) s2(4) s3(4) s4(4) s1(2) s2(2) s3(2) i c1 c2 c3 mx fit
    by (simp_all add: b1_def b2_def b3_def prod_eq_iff)
  have "ResponseStream E m peer t streamSize maxSize =
      Some (Inr \<lparr>rs_response = m, rs_peer = peer, rs_buf = os_buf (os_write crlf os), rs_timeout = t\<rparr>)"
    using ok b by (simp add: ResponseStream_def Let_def os_def [symmetric])
  then show ?thesis using c5 s5(1,2) s4(2) mx by (simp add: os_inv_def)
qed

lemma stream_read_back:
  assumes "writer_stream E code streamSize w = Some (Inr s)" "rw_peer w = Some fd"
    and "m = (rw_response w)\<lparr>msg_code := Some code\<rparr>" "length (stream_head E m) \<le> ds_max (rw_buf w)"
    and "\<forall>x \<in> set xs. sends_chunk x" "fits (ds_max (rw_buf w)) (length (stream_head E m)) xs"
    and "readable_objects E (Collection_list (msg_headers m)) hs'" "no_framing hs'"
    and "readable_cookies E (jar_cookies (msg_cookies m))" "0 \<le> code" "code < 2 ^ 31"
    and "rs_run xs s = (r, ev, s')" "length (wire_bytes ev) \<le> N" "N \<le> string_max_size"
  shows "r = Inr () \<and> (\<exists>p p'. parser_feed (wire_bytes ev) (ParserImpl False N) = (True, p) \<and> parser_parse E p = (Inr Done, p')
    \<and> msg_code (pa_message p') = Some code \<and> msg_body (pa_message p') = concat (map payload xs)
    \<and> msg_cookies (pa_message p') = fold jar_add (jar_cookies (msg_cookies m)) CookieJar
    \<and> (\<forall>name. Collection_tryGet name (msg_headers (pa_message p')) =
         List.find (\<lambda>h. LowercaseEqual (header_name h) name) (hs' @ [H_TransferEncoding Chunked])))"
proof -
  have "streamSize \<le> ds_max (rw_buf w)"
    using assms(1) by (simp add: writer_stream_def ResponseStream_def DynamicStreamBuf_def split: if_splits)
  from ResponseStream_head [OF this assms(4), of "rw_peer w" "rw_timeout w"]
  have s: "dyn_inv (rs_buf s)" "dyn_content (rs_buf s) = stream_head E m" "rs_peer s = Some fd" "ds_max (rs_buf s) = ds_max (rw_buf w)"
    using assms(1) [unfolded writer_stream_def, folded assms(3)] assms(2) by auto
  then have run: "r = Inr ()" "wire_bytes ev = stream_head E m @ concat (map op_text xs) @ ''0'' @ crlf @ crlf"
    using rs_run_bytes [of s fd xs] assms(6,12) by auto
  let ?hs = "Collection_list (msg_headers m)" and ?cks = "jar_cookies (msg_cookies m)" and ?te = "[H_TransferEncoding Chunked]"
  let ?ds = "filter (\<lambda>d. d \<noteq> []) (map payload xs)" and ?d = "concat (map payload xs)"
  let ?ls = "map (object_line E) [] @ map (cookie_line E) ?cks @ map (object_line E) (?hs @ ?te)"
  have mc: "message_code m = code" by (simp add: assms(3) message_code_def)
  have tx: "wire_bytes ev = status_line_text (msg_version m) code @ concat (map line_text ?ls) @ crlf @ chunked_text ?ds @ crlf"
    unfolding run(2) op_texts [OF assms(5), symmetric] stream_head_def mc
    by (simp add: header_line_text_line [abs_def] cookie_line_text_line [abs_def] comp_def)
  have "length ?d \<le> length (chunked_text ?ds)"
    using length_chunk_texts [of ?ds] by (simp add: chunked_text_def concat_filter_nonempty)
  then have d: "length ?d \<le> string_max_size" using assms(13,14) by (simp add: tx)
  have "readable_objects E (?hs @ ?te) (hs' @ ?te)"
    using assms(7) readable_framing(1) [of E] by (auto simp: readable_objects_def list_all2_appendI)
  moreover have "readable_objects E [] []" by (simp add: readable_objects_def)
  ultimately have rd: "readable_objects E [] []" "readable_cookies E ?cks" "readable_objects E (?hs @ ?te) (hs' @ ?te)"
    using assms(9) by simp_all
  define m2 where "m2 = fold (add_object E) (zip (?hs @ ?te) (hs' @ ?te)) (fold (add_cookie E) ?cks
      (fold (add_object E) (zip [] []) (Message0\<lparr>msg_code := Some code\<rparr>)))"
  have zip: "map snd (zip (?hs @ ?te) (hs' @ ?te)) = hs' @ ?te"
    using assms(7) by (auto simp: readable_objects_def dest!: list_all2_lengthD)
  have get: "Collection_tryGet name (msg_headers m2) = List.find (\<lambda>h. LowercaseEqual (header_name h) name) (hs' @ ?te)" for name
    unfolding m2_def tryGet_fold_add_object fold_add_cookie_sel zip by simp
  have te: "tryGet_ContentLength (msg_headers m2) = None" "tryGet_TransferEncoding (msg_headers m2) = Some Chunked"
    unfolding tryGet_ContentLength_def tryGet_TransferEncoding_def get using no_framing_find [OF assms(8)]
    by (simp_all add: find_append LowercaseEqual_iff to_lower_def)
  have sel: "msg_body m2 = []" "msg_code m2 = Some code" "msg_cookies m2 = fold jar_add ?cks CookieJar"
    by (simp_all add: m2_def)
  have b: "\<exists>b' c'. BodyStep_apply BodyStep0 m2 c = (Inr Done, b', m2\<lparr>msg_body := ?d\<rparr>, c')"
    if "wf_cursor c" "rest c = chunked_text ?ds @ crlf" for c
    using transfer_chunks [OF that, of BodyStep0 m2] te sel(1) d
    by (auto simp: BodyStep0_def BodyStep_apply_def concat_filter_nonempty)
  have N: "N < 2 ^ 63" using assms(14) by (simp add: string_max_size_def)
  have "\<exists>p p'. parser_feed (wire_bytes ev) (ParserImpl False N) = (True, p) \<and> parser_parse E p = (Inr Done, p')
      \<and> pa_message p' = m2\<lparr>msg_body := ?d\<rparr>"
    by (rule response_parsed [OF tx assms(10,11) good_head [OF rd] _ assms(13) N b])
      (simp_all only: add_lines_head [OF rd] m2_def)
  then show ?thesis using run(1) sel get by auto
qed

text \<open>
  C10: what an application writes to a \<open>ResponseStream\<close> is what a client reads, for any sequence of
  writes and flushes of texts, characters and truth values, none of them empty, that respects the size of the buffer:
  the bytes handed to the transport by all the flushes, parsed by the client, give the status code, the
  cookies, the concatenation of what was written, and the headers (of the kinds a message can carry, as
  for \<open>send\<close>).  Integers and empty writes are left out: they break the framing (see below).
\<close>

theorem stream_round_trip:
  assumes "writer_stream E code streamSize w = Some (Inr s)" "rw_peer w = Some fd"
    and "m = (rw_response w)\<lparr>msg_code := Some code\<rparr>" "length (stream_head E m) \<le> ds_max (rw_buf w)"
    and "\<forall>x \<in> set xs. sends_chunk x" "fits (ds_max (rw_buf w)) (length (stream_head E m)) xs"
    and "\<forall>h \<in> set (Collection_list (msg_headers m)). carried E h"
    and "\<forall>ck \<in> set (jar_cookies (msg_cookies m)). carried_cookie E ck" "0 \<le> code" "code < 2 ^ 31"
    and "rs_run xs s = (r, ev, s')" "length (wire_bytes ev) \<le> N" "N \<le> string_max_size"
  shows "r = Inr () \<and> (\<exists>p p' hs'. parser_feed (wire_bytes ev) (ParserImpl False N) = (True, p) \<and> parser_parse E p = (Inr Done, p')
    \<and> msg_code (pa_message p') = Some code \<and> msg_body (pa_message p') = concat (map payload xs)
    \<and> msg_cookies (pa_message p') = fold jar_add (jar_cookies (msg_cookies m)) CookieJar
    \<and> list_all2 same_header (Collection_list (msg_headers m)) hs'
    \<and> (\<forall>name. Collection_tryGet name (msg_headers (pa_message p')) =
         List.find (\<lambda>h. LowercaseEqual (header_name h) name) (hs' @ [H_TransferEncoding Chunked])))"
proof -
  obtain hs' where hs': "list_all2 same_header (Collection_list (msg_headers m)) hs'"
    "readable_objects E (Collection_list (msg_headers m)) hs'" "no_framing hs'"
    using carried_objects [OF assms(7)] by blast
  with stream_read_back [OF assms(1-6) hs'(2,3) carried_cookies [OF assms(8)] assms(9-13)]
  show ?thesis by blast
qed

definition sample_ops :: "stream_op list" where
  "sample_ops = [S_write ''hello'', S_flush, S_put (V_string '' world''), S_put (V_char (CHR ''!''))]"

theorem stream_round_trip_witness:
  "\<exists>s ev s' p p'. writer_stream sample_env 200 512 sample_writer = Some (Inr s) \<and> rs_run sample_ops s = (Inr (), ev, s')
     \<and> parser_feed (wire_bytes ev) (ParserImpl False 4096) = (True, p) \<and> parser_parse sample_env p = (Inr Done, p')
     \<and> msg_code (pa_message p') = Some 200 \<and> msg_body (pa_message p') = ''hello world!''"
proof -
  define m where "m = (rw_response sample_writer)\<lparr>msg_code := Some 200\<rparr>"
  note f = sample_writer_fresh
  have m: "m = Message0\<lparr>msg_code := Some 200\<rparr>" using f by (simp add: m_def)
  have h: "stream_head sample_env m = ''HTTP/1.1 200 OK'' @ crlf @ ''Transfer-Encoding: chunked'' @ crlf @ crlf"
    unfolding m by code_simp
  have j: "Collection_list (msg_headers m) = []" "jar_cookies (msg_cookies m) = []" unfolding m by code_simp+
  have fit: "fits 4096 (length (stream_head sample_env m)) sample_ops" unfolding h by code_simp
  have len: "length (stream_head sample_env m) \<le> 4096" by (simp add: h)
  then obtain s where s: "writer_stream sample_env 200 512 sample_writer = Some (Inr s)" "dyn_inv (rs_buf s)"
    "dyn_content (rs_buf s) = stream_head sample_env m" "rs_peer s = Some 7" "ds_max (rs_buf s) = 4096"
    using ResponseStream_head [of 512 4096 sample_env m "Some 7" "rw_timeout sample_writer"] f m_def
    by (auto simp: writer_stream_def)
  then obtain ev s' where r: "rs_run sample_ops s = (Inr (), ev, s')"
    "wire_bytes ev = stream_head sample_env m @ concat (map op_text sample_ops) @ ''0'' @ crlf @ crlf"
    using rs_run_bytes [of s 7 sample_ops] fit by auto
  have "length (wire_bytes ev) \<le> 4096" unfolding r(2) h by code_simp
  moreover have "\<forall>x \<in> set sample_ops. sends_chunk x" "concat (map payload sample_ops) = ''hello world!''"
    by (simp_all add: sample_ops_def)
  ultimately show ?thesis
    using stream_round_trip [OF s(1) _ m_def _ _ _ _ _ _ _ r(1), of 7 4096] f fit len j r(1) s(1)
    by (auto simp: string_max_size_def)
qed

section \<open>Where the stream goes wrong\<close>

text \<open>An empty write is the last chunk: everything written behind it is lost to the client.\<close>

lemma empty_write_ends_body: "op_text (S_write []) = ''0'' @ crlf @ crlf"
  by code_simp

text \<open>
  A number is announced by its count of decimal digits, up to the first zero, and printed in
  hexadecimal: 255 is sent as a chunk of size 3 that holds two digits, 10 as the last chunk.
\<close>

lemma integral_chunk_wrong:
  "op_text (S_put (V_integral 255)) = ''3'' @ crlf @ ''ff'' @ crlf"
  "op_text (S_put (V_integral 10)) = ''0'' @ crlf @ ''a'' @ crlf"
  by code_simp+

text \<open>A write that does not fit is reported as complete, and a later flush sends what was stored of it.\<close>

lemma overfull_write_unnoticed:
  "case DynamicStreamBuf 1 8 of
     Some b \<Rightarrow>
       let (n, s) = rs_write ''hello'' \<lparr>rs_response = Message0, rs_peer = Some 7, rs_buf = b, rs_timeout = Timeout True\<rparr>
       in n = 5 \<and> (case rs_flush s of (r, ev, _) \<Rightarrow> r = Inr () \<and> wire_bytes ev = ''5'' @ crlf @ ''hello'')
   | None \<Rightarrow> False"
  by code_simp

end
