(* ===== verification/Rest_Router.thy ===== *)
theory Rest_Router
  imports Response_Writer
begin

text \<open>
  src/server/router.cc and include/pistache/router.h: the segment tree in which a router keeps its
  routes, and the router itself.  A handler is an element of the type \<open>'h\<close>; what handlers and
  middlewares do when they are called is a parameter of \<open>Router_route\<close>.
\<close>

section \<open>Segments\<close>

datatype SegmentType = ST_Fixed | ST_Param | ST_Optional | ST_Splat

definition getSegmentType :: "string \<Rightarrow> SegmentType result" where
  "getSegmentType fragment =
     (case fragment of
        [] \<Rightarrow> Inr ST_Fixed
      | c # _ \<Rightarrow>
          let optpos = str_find fragment (CHR ''?'') 0
          in if c = CHR '':'' then
               (case optpos of
                  Some i \<Rightarrow>
                    if i \<noteq> length fragment - 1 then Inl (Runtime_Error ''? should be at the end of the string'')
                    else Inr ST_Optional
                | None \<Rightarrow> Inr ST_Param)
             else if c = CHR ''*'' then
               (if 1 < length fragment then Inl (Runtime_Error ''Invalid splat parameter'') else Inr ST_Splat)
             else if optpos \<noteq> None then Inl (Runtime_Error ''Only optional parameters are currently supported'')
             else Inr ST_Fixed)"

fun sanitize_loop :: "string \<Rightarrow> string \<Rightarrow> string" where
  "sanitize_loop dup [] = dup"
| "sanitize_loop dup (c # path) =
     sanitize_loop (if c \<noteq> CHR ''/'' \<or> dup = [] \<or> last dup \<noteq> CHR ''/'' then dup @ [c] else dup) path"

text \<open>
  \<open>sanitizeResource\<close>, on a path that is not empty (every caller checks); \<open>substr\<close> takes a
  count of \<open>size_t\<close>, so that \<open>length () - 2\<close> of a single slash is the rest of the string.
\<close>

definition sanitizeResource :: "string \<Rightarrow> string result" where
  "sanitizeResource path =
     (let dup = sanitize_loop [] path
      in if dup \<noteq> [] \<and> last dup = CHR ''/'' then substr dup 1 (sz_of_ssz (int (length dup) - 2))
         else substr dup 1 (length dup))"

text \<open>The first segment of a path and the path below it.\<close>

definition current_segment :: "string \<Rightarrow> string" where
  "current_segment path = (case str_find path (CHR ''/'') 0 of Some i \<Rightarrow> take i path | None \<Rightarrow> path)"

definition lower_path :: "string \<Rightarrow> string" where
  "lower_path path = (case str_find path (CHR ''/'') 0 of Some i \<Rightarrow> drop (Suc i) path | None \<Rightarrow> [])"

lemma length_lower_path: "path \<noteq> [] \<Longrightarrow> length (lower_path path) < length path"
  by (auto simp: lower_path_def split: option.split)

section \<open>The segment tree\<close>

datatype 'h SegmentTreeNode =
  Node (st_fixed: "(string \<times> 'h SegmentTreeNode) list") (st_param: "(string \<times> 'h SegmentTreeNode) list")
    (st_optional: "(string \<times> 'h SegmentTreeNode) list") (st_splat: "'h SegmentTreeNode option") (st_route: "'h option")

definition SegmentTreeNode0 :: "'h SegmentTreeNode" where
  "SegmentTreeNode0 = Node [] [] [] None None"

text \<open>The child of a collection, made first when it does not exist.\<close>

definition child :: "string \<Rightarrow> (string \<times> 'h SegmentTreeNode) list \<Rightarrow> 'h SegmentTreeNode" where
  "child seg m = (case um_find (=) m seg of Some n \<Rightarrow> n | None \<Rightarrow> SegmentTreeNode0)"

definition set_child :: "string \<Rightarrow> 'h SegmentTreeNode \<Rightarrow> (string \<times> 'h SegmentTreeNode) list \<Rightarrow> (string \<times> 'h SegmentTreeNode) list" where
  "set_child seg n m = um_assign (=) seg n (um_insert (=) seg SegmentTreeNode0 m)"

text \<open>
  \<open>addRoute\<close>: the exception thrown, if any, and the tree, in which the nodes made on the way
  stay even when the call throws.
\<close>

function addRoute :: "string \<Rightarrow> 'h \<Rightarrow> 'h SegmentTreeNode \<Rightarrow> exn option \<times> 'h SegmentTreeNode" where
  "addRoute path handler (Node fx pa op sp rt) =
     (if path \<noteq> [] then
        let seg = current_segment path; lower = lower_path path
        in case getSegmentType seg of
             Inl e \<Rightarrow> (Some e, Node fx pa op sp rt)
           | Inr ST_Fixed \<Rightarrow>
               (case addRoute lower handler (child seg fx) of (e, n) \<Rightarrow> (e, Node (set_child seg n fx) pa op sp rt))
           | Inr ST_Param \<Rightarrow>
               (case addRoute lower handler (child seg pa) of (e, n) \<Rightarrow> (e, Node fx (set_child seg n pa) op sp rt))
           | Inr ST_Optional \<Rightarrow>
               (case addRoute lower handler (child (butlast seg) op) of
                  (e, n) \<Rightarrow> (e, Node fx pa (set_child (butlast seg) n op) sp rt))
           | Inr ST_Splat \<Rightarrow>
               (case addRoute lower handler (case sp of Some n \<Rightarrow> n | None \<Rightarrow> SegmentTreeNode0) of
                  (e, n) \<Rightarrow> (e, Node fx pa op (Some n) rt))
      else
        (case rt of
           Some _ \<Rightarrow> (Some (Runtime_Error ''Requested route already exist.''), Node fx pa op sp rt)
         | None \<Rightarrow> (None, Node fx pa op sp (Some handler))))"
  by pat_completeness auto
termination
  by (relation "measure (\<lambda>(path, _, _). length path)") (auto intro: length_lower_path)

declare addRoute.simps [simp del]

definition node_empty :: "'h SegmentTreeNode \<Rightarrow> bool" where
  "node_empty t \<longleftrightarrow> st_fixed t = [] \<and> st_param t = [] \<and> st_optional t = [] \<and> st_splat t = None \<and> st_route t = None"

definition no_such_route :: exn where
  "no_such_route = Runtime_Error ''Requested route does not exist.''"

text \<open>
  The part of \<open>removeRoute\<close> below the lookup in a collection: the child is erased when the
  recursive call reports that it can go.
\<close>

definition remove_child :: "string \<Rightarrow> (exn + bool) \<times> 'h SegmentTreeNode \<Rightarrow> (string \<times> 'h SegmentTreeNode) list \<Rightarrow>
    exn option \<times> (string \<times> 'h SegmentTreeNode) list" where
  "remove_child seg r m =
     (case r of
        (Inl e, n) \<Rightarrow> (Some e, um_assign (=) seg n m)
      | (Inr removable, n) \<Rightarrow> (None, if removable then um_erase (=) seg m else um_assign (=) seg n m))"

function removeRoute :: "string \<Rightarrow> 'h SegmentTreeNode \<Rightarrow> (exn + bool) \<times> 'h SegmentTreeNode" where
  "removeRoute path (Node fx pa op sp rt) =
     (if path \<noteq> [] then
        let seg = current_segment path; lower = lower_path path;
            ret = (\<lambda>(e, t). ((case e of Some e \<Rightarrow> Inl e | None \<Rightarrow> Inr (node_empty t)), t))
        in case getSegmentType seg of
             Inl e \<Rightarrow> (Inl e, Node fx pa op sp rt)
           | Inr ST_Fixed \<Rightarrow>
               (case um_find (=) fx seg of
                  None \<Rightarrow> (Inl no_such_route, Node fx pa op sp rt)
                | Some n \<Rightarrow> ret (case remove_child seg (removeRoute lower n) fx of (e, m) \<Rightarrow> (e, Node m pa op sp rt)))
           | Inr ST_Param \<Rightarrow>
               (case um_find (=) pa seg of
                  None \<Rightarrow> (Inl no_such_route, Node fx pa op sp rt)
                | Some n \<Rightarrow> ret (case remove_child seg (removeRoute lower n) pa of (e, m) \<Rightarrow> (e, Node fx m op sp rt)))
           | Inr ST_Optional \<Rightarrow>
               (case um_find (=) op (butlast seg) of
                  None \<Rightarrow> (Inl no_such_route, Node fx pa op sp rt)
                | Some n \<Rightarrow>
                    ret (case remove_child (butlast seg) (removeRoute lower n) op of (e, m) \<Rightarrow> (e, Node fx pa m sp rt)))
           | Inr ST_Splat \<Rightarrow>
               (case sp of
                  None \<Rightarrow> (Inl no_such_route, Node fx pa op sp rt)
                | Some n \<Rightarrow> (case removeRoute lower n of (r, n') \<Rightarrow> (r, Node fx pa op (Some n') rt)))
      else let t = Node fx pa op sp None in (Inr (node_empty t), t))"
  by pat_completeness auto
termination
  by (relation "measure (\<lambda>(path, _). length path)") (auto intro: length_lower_path)

declare removeRoute.simps [simp del]

text \<open>
  \<open>findRoute\<close>, with the vectors of parameters and splats found so far; the vectors are as
  before the call when it finds nothing.  The mutually recursive functions are the loops over the
  collections.
\<close>

type_synonym TypedParam = "string \<times> string"
type_synonym 'h found = "('h \<times> TypedParam list \<times> TypedParam list) option"

fun or_else :: "'a option \<Rightarrow> 'a option \<Rightarrow> 'a option" where
  "or_else (Some x) y = Some x"
| "or_else None y = y"

fun findRoute :: "string \<Rightarrow> TypedParam list \<Rightarrow> TypedParam list \<Rightarrow> 'h SegmentTreeNode \<Rightarrow> 'h found"
  and find_fixed :: "string \<Rightarrow> string \<Rightarrow> TypedParam list \<Rightarrow> TypedParam list \<Rightarrow> (string \<times> 'h SegmentTreeNode) list \<Rightarrow> 'h found"
  and find_param :: "string \<Rightarrow> string \<Rightarrow> TypedParam list \<Rightarrow> TypedParam list \<Rightarrow> (string \<times> 'h SegmentTreeNode) list \<Rightarrow> 'h found"
  and find_optional :: "string \<Rightarrow> string \<Rightarrow> TypedParam list \<Rightarrow> TypedParam list \<Rightarrow> (string \<times> 'h SegmentTreeNode) list \<Rightarrow> 'h found"
where
  "findRoute path params splats (Node fx pa op sp rt) =
     (if path \<noteq> [] then
        let seg = current_segment path; lower = lower_path path
        in or_else (find_fixed seg lower params splats fx)
             (or_else (find_param seg lower params splats pa)
               (or_else (find_optional seg lower params splats op)
                 (case sp of None \<Rightarrow> None | Some n \<Rightarrow> findRoute lower params (splats @ [(seg, seg)]) n)))
      else
        (case op of
           (_, n) # _ \<Rightarrow> findRoute path params splats n
         | [] \<Rightarrow> (case rt of None \<Rightarrow> None | Some h \<Rightarrow> Some (h, params, splats))))"
| "find_fixed seg lower params splats [] = None"
| "find_fixed seg lower params splats ((k, n) # m) =
     (if k = seg then findRoute lower params splats n else find_fixed seg lower params splats m)"
| "find_param seg lower params splats [] = None"
| "find_param seg lower params splats ((k, n) # m) =
     or_else (findRoute lower (params @ [(k, seg)]) splats n) (find_param seg lower params splats m)"
| "find_optional seg lower params splats [] = None"
| "find_optional seg lower params splats ((k, n) # m) =
     or_else (findRoute lower (params @ [(k, seg)]) splats n)
       (or_else (findRoute lower params splats n) (find_optional seg lower params splats m))"

text \<open>\<open>findRoute (path)\<close>, which starts with empty vectors.\<close>

definition findRoute0 :: "string \<Rightarrow> 'h SegmentTreeNode \<Rightarrow> 'h found" where
  "findRoute0 path t = findRoute path [] [] t"

section \<open>Requests\<close>

record rest_request =
  rq_request :: message
  rq_params :: "TypedParam list"
  rq_splats :: "TypedParam list"

definition hasParam :: "string \<Rightarrow> rest_request \<Rightarrow> bool" where
  "hasParam name r = list_ex (\<lambda>(n, _). n = name) (rq_params r)"

definition param :: "string \<Rightarrow> rest_request \<Rightarrow> TypedParam result" where
  "param name r =
     (case List.find (\<lambda>(n, _). n = name) (rq_params r) of
        None \<Rightarrow> Inl (Runtime_Error ''Unknown parameter'') | Some p \<Rightarrow> Inr p)"

definition splatAt :: "nat \<Rightarrow> rest_request \<Rightarrow> TypedParam result" where
  "splatAt index r =
     (if length (rq_splats r) \<le> index then Inl (Out_Of_Range ''Request splat index out of range'')
      else Inr (rq_splats r ! index))"

section \<open>The router\<close>

record ('h, 'm, 'd) router =
  ro_routes :: "(Method \<times> 'h SegmentTreeNode) list"
  ro_customHandlers :: "'h list"
  ro_middlewares :: "'m list"
  ro_disconnectHandlers :: "'d list"
  ro_notFoundHandler :: "'h option"

definition Router :: "('h, 'm, 'd) router" where
  "Router = \<lparr>ro_routes = [], ro_customHandlers = [], ro_middlewares = [], ro_disconnectHandlers = [],
     ro_notFoundHandler = None\<rparr>"

text \<open>\<open>routes[method]\<close>, which makes an empty tree when there is none.\<close>

definition routes_at :: "Method \<Rightarrow> (Method \<times> 'h SegmentTreeNode) list \<Rightarrow> 'h SegmentTreeNode" where
  "routes_at method rs = (case um_find (=) rs method of Some t \<Rightarrow> t | None \<Rightarrow> SegmentTreeNode0)"

definition zero_length :: exn where
  "zero_length = Runtime_Error ''Invalid zero-length URL.''"

definition Router_addRoute :: "Method \<Rightarrow> string \<Rightarrow> 'h \<Rightarrow> ('h, 'm, 'd) router \<Rightarrow> exn option \<times> ('h, 'm, 'd) router" where
  "Router_addRoute method resource handler r =
     (if resource = [] then (Some zero_length, r)
      else case sanitizeResource resource of
        Inl e \<Rightarrow> (Some e, r\<lparr>ro_routes := um_assign (=) method (routes_at method (ro_routes r)) (ro_routes r)\<rparr>)
      | Inr path \<Rightarrow>
          (case addRoute path handler (routes_at method (ro_routes r)) of
             (e, t) \<Rightarrow> (e, r\<lparr>ro_routes := um_assign (=) method t (ro_routes r)\<rparr>)))"

definition Router_removeRoute :: "Method \<Rightarrow> string \<Rightarrow> ('h, 'm, 'd) router \<Rightarrow> exn option \<times> ('h, 'm, 'd) router" where
  "Router_removeRoute method resource r =
     (if resource = [] then (Some zero_length, r)
      else case sanitizeResource resource of
        Inl e \<Rightarrow> (Some e, r\<lparr>ro_routes := um_assign (=) method (routes_at method (ro_routes r)) (ro_routes r)\<rparr>)
      | Inr path \<Rightarrow>
          (case removeRoute path (routes_at method (ro_routes r)) of
             (res, t) \<Rightarrow> ((case res of Inl e \<Rightarrow> Some e | Inr _ \<Rightarrow> None),
                         r\<lparr>ro_routes := um_assign (=) method t (ro_routes r)\<rparr>)))"

definition Router_get :: "string \<Rightarrow> 'h \<Rightarrow> ('h, 'm, 'd) router \<Rightarrow> exn option \<times> ('h, 'm, 'd) router" where
  "Router_get = Router_addRoute Get"

definition Router_post :: "string \<Rightarrow> 'h \<Rightarrow> ('h, 'm, 'd) router \<Rightarrow> exn option \<times> ('h, 'm, 'd) router" where
  "Router_post = Router_addRoute Post"

definition Router_put :: "string \<Rightarrow> 'h \<Rightarrow> ('h, 'm, 'd) router \<Rightarrow> exn option \<times> ('h, 'm, 'd) router" where
  "Router_put = Router_addRoute Put"

definition Router_patch :: "string \<Rightarrow> 'h \<Rightarrow> ('h, 'm, 'd) router \<Rightarrow> exn option \<times> ('h, 'm, 'd) router" where
  "Router_patch = Router_addRoute Patch"

definition Router_del :: "string \<Rightarrow> 'h \<Rightarrow> ('h, 'm, 'd) router \<Rightarrow> exn option \<times> ('h, 'm, 'd) router" where
  "Router_del = Router_addRoute Delete"

definition Router_options :: "string \<Rightarrow> 'h \<Rightarrow> ('h, 'm, 'd) router \<Rightarrow> exn option \<times> ('h, 'm, 'd) router" where
  "Router_options = Router_addRoute Options"

definition Router_head :: "string \<Rightarrow> 'h \<Rightarrow> ('h, 'm, 'd) router \<Rightarrow> exn option \<times> ('h, 'm, 'd) router" where
  "Router_head = Router_addRoute Head"

definition addCustomHandler :: "'h \<Rightarrow> ('h, 'm, 'd) router \<Rightarrow> ('h, 'm, 'd) router" where
  "addCustomHandler handler r = r\<lparr>ro_customHandlers := ro_customHandlers r @ [handler]\<rparr>"

definition addMiddleware :: "'m \<Rightarrow> ('h, 'm, 'd) router \<Rightarrow> ('h, 'm, 'd) router" where
  "addMiddleware middleware r = r\<lparr>ro_middlewares := ro_middlewares r @ [middleware]\<rparr>"

definition addDisconnectHandler :: "'d \<Rightarrow> ('h, 'm, 'd) router \<Rightarrow> ('h, 'm, 'd) router" where
  "addDisconnectHandler handler r = r\<lparr>ro_disconnectHandlers := ro_disconnectHandlers r @ [handler]\<rparr>"

definition addNotFoundHandler :: "'h \<Rightarrow> ('h, 'm, 'd) router \<Rightarrow> ('h, 'm, 'd) router" where
  "addNotFoundHandler handler r = r\<lparr>ro_notFoundHandler := Some handler\<rparr>"

text \<open>The handlers \<open>disconnectPeer\<close> calls, in order.\<close>

definition disconnectPeer :: "('h, 'm, 'd) router \<Rightarrow> 'd list" where
  "disconnectPeer r = ro_disconnectHandlers r"

text \<open>
  What the application's code does: a middleware may change the request and the writer and says
  whether to go on; a custom handler says whether it has dealt with the request.
\<close>

record ('h, 'm) callbacks =
  cb_middleware :: "'m \<Rightarrow> message \<Rightarrow> response_writer \<Rightarrow> bool \<times> message \<times> response_writer"
  cb_custom :: "'h \<Rightarrow> rest_request \<Rightarrow> response_writer \<Rightarrow> bool"

datatype Status = Match | NotFound | NotAllowed

datatype 'h route_event =
    Invoke 'h rest_request response_writer
  | Invoke_Custom 'h rest_request response_writer
  | Invoke_NotFound 'h rest_request response_writer
  | Sent send_result "wire_event list"

fun run_middlewares :: "('h, 'm) callbacks \<Rightarrow> 'm list \<Rightarrow> message \<Rightarrow> response_writer \<Rightarrow> bool \<times> message \<times> response_writer" where
  "run_middlewares K [] req resp = (True, req, resp)"
| "run_middlewares K (m # ms) req resp =
     (case cb_middleware K m req resp of
        (True, req', resp') \<Rightarrow> run_middlewares K ms req' resp'
      | (False, req', resp') \<Rightarrow> (False, req', resp'))"

definition plain_request :: "message \<Rightarrow> rest_request" where
  "plain_request req = \<lparr>rq_request = req, rq_params = [], rq_splats = []\<rparr>"

fun run_custom :: "('h, 'm) callbacks \<Rightarrow> 'h list \<Rightarrow> message \<Rightarrow> response_writer \<Rightarrow> bool \<times> 'h route_event list" where
  "run_custom K [] req resp = (False, [])"
| "run_custom K (h # hs) req resp =
     (let ev = Invoke_Custom h (plain_request req) resp
      in if cb_custom K h (plain_request req) resp then (True, [ev])
         else case run_custom K hs req resp of (b, evs) \<Rightarrow> (b, ev # evs))"

definition supported_methods :: "string \<Rightarrow> message \<Rightarrow> (Method \<times> 'h SegmentTreeNode) list \<Rightarrow> Method list" where
  "supported_methods path req rs =
     map fst (filter (\<lambda>(meth, t). msg_method req \<noteq> Some meth \<and> findRoute0 path t \<noteq> None) rs)"

text \<open>
  \<open>Router::route\<close>: the path is the one of the original request, the method the one the
  middlewares left.  \<open>None\<close> is the failed assertion of the buffer of a cloned writer.
\<close>

definition Router_route :: "http_env \<Rightarrow> compress_lib \<Rightarrow> ('h, 'm) callbacks \<Rightarrow> ('h, 'm, 'd) router \<Rightarrow> message \<Rightarrow> response_writer \<Rightarrow>
    (Status \<times> 'h route_event list) result option" where
  "Router_route E Z K r request response =
     (if msg_resource request = [] then Some (Inl zero_length)
      else case ResponseWriter_clone response of
        None \<Rightarrow> None
      | Some resp0 \<Rightarrow> Some
          (case run_middlewares K (ro_middlewares r) request resp0 of
             (False, _, _) \<Rightarrow> Inr (Match, [])
           | (True, req, resp) \<Rightarrow>
               (case sanitizeResource (msg_resource request) of
                  Inl e \<Rightarrow> Inl e
                | Inr path \<Rightarrow>
                    (case Option.bind (msg_method req) (\<lambda>meth. Option.bind (um_find (=) (ro_routes r) meth) (findRoute0 path)) of
                       Some (h, params, splats) \<Rightarrow>
                         Inr (Match, [Invoke h \<lparr>rq_request = req, rq_params = params, rq_splats = splats\<rparr> resp])
                     | None \<Rightarrow>
                         (case run_custom K (ro_customHandlers r) req resp0 of
                            (True, ev) \<Rightarrow> Inr (Match, ev)
                          | (False, ev) \<Rightarrow>
                              let supported = supported_methods path req (ro_routes r)
                              in if supported \<noteq> [] then
                                   (case sendMethodNotAllowed E supported response of
                                      (res, we, _) \<Rightarrow> Inr (NotAllowed, ev @ [Sent res we]))
                                 else
                                   (case ro_notFoundHandler r of
                                      Some h \<Rightarrow> Inr (NotFound, ev @ [Invoke_NotFound h (plain_request req) response])
                                    | None \<Rightarrow>
                                        (case send E Z Code_Not_Found ''Could not find a matching route'' MediaType0 response of
                                           (Thrown e, we, _) \<Rightarrow> Inl e
                                         | (res, we, _) \<Rightarrow> Inr (NotFound, ev @ [Sent res we]))))))))"

end
