(* ===== verification/Router_Spec.thy ===== *)
theory Router_Spec
  imports Rest_Router
begin

text \<open>
  What the segment tree of the router means: it represents a finite map from patterns (lists of
  fixed, parameter, optional and splat segments) to handlers.  Adding and removing routes refines
  updates of that map, and finding a route is matching the path against the patterns of the map.
\<close>

section \<open>Patterns\<close>

datatype pat = P_Fixed string | P_Param string | P_Optional string | P_Splat

definition seg_pat :: "string \<Rightarrow> pat result" where
  "seg_pat seg = map_sum id (\<lambda>ty. case ty of ST_Fixed \<Rightarrow> P_Fixed seg | ST_Param \<Rightarrow> P_Param seg
     | ST_Optional \<Rightarrow> P_Optional (butlast seg) | ST_Splat \<Rightarrow> P_Splat) (getSegmentType seg)"

text \<open>The pattern of a resource, when all its segments are valid, and the segments of a path.\<close>

function path_pats :: "string \<Rightarrow> pat list option" where
  "path_pats path =
     (if path = [] then Some []
      else case seg_pat (current_segment path) of
        Inl _ \<Rightarrow> None | Inr p \<Rightarrow> map_option ((#) p) (path_pats (lower_path path)))"
  by pat_completeness auto
termination
  by (relation "measure length") (auto intro: length_lower_path)

function path_segs :: "string \<Rightarrow> string list" where
  "path_segs path = (if path = [] then [] else current_segment path # path_segs (lower_path path))"
  by pat_completeness auto
termination
  by (relation "measure length") (auto intro: length_lower_path)

declare path_pats.simps [simp del] path_segs.simps [simp del]

section \<open>The map a tree represents\<close>

fun pat_child :: "pat \<Rightarrow> 'h SegmentTreeNode \<Rightarrow> 'h SegmentTreeNode option" where
  "pat_child (P_Fixed s) t = um_find (=) (st_fixed t) s"
| "pat_child (P_Param s) t = um_find (=) (st_param t) s"
| "pat_child (P_Optional s) t = um_find (=) (st_optional t) s"
| "pat_child P_Splat t = st_splat t"

fun route_at :: "pat list \<Rightarrow> 'h SegmentTreeNode \<Rightarrow> 'h option" where
  "route_at [] t = st_route t"
| "route_at (p # ps) t = (case pat_child p t of None \<Rightarrow> None | Some n \<Rightarrow> route_at ps n)"

fun put_child :: "pat \<Rightarrow> 'h SegmentTreeNode \<Rightarrow> 'h SegmentTreeNode \<Rightarrow> 'h SegmentTreeNode" where
  "put_child (P_Fixed s) n (Node fx pa op sp rt) = Node (set_child s n fx) pa op sp rt"
| "put_child (P_Param s) n (Node fx pa op sp rt) = Node fx (set_child s n pa) op sp rt"
| "put_child (P_Optional s) n (Node fx pa op sp rt) = Node fx pa (set_child s n op) sp rt"
| "put_child P_Splat n (Node fx pa op sp rt) = Node fx pa op (Some n) rt"

lemma um_find_um_assign: "um_find (=) (um_assign (=) k v m) k' = (if k = k' then Some v else um_find (=) m k')"
  by (induction m) auto

lemma um_find_set_child: "um_find (=) (set_child s n m) k = (if s = k then Some n else um_find (=) m k)"
  by (simp add: set_child_def um_find_um_assign um_find_insert identity_equivp)

lemma pat_child_put: "pat_child q (put_child p n t) = (if p = q then Some n else pat_child q t)"
  by (cases t; cases p; cases q) (auto simp: um_find_set_child)

lemma st_route_put [simp]: "st_route (put_child p n t) = st_route t"
  by (cases t; cases p) auto

lemma route_at_put: "route_at qs (put_child p n t) = (case qs of q # qs' \<Rightarrow> if q = p then route_at qs' n else route_at qs t | [] \<Rightarrow> route_at qs t)"
  by (cases qs) (auto simp: pat_child_put)

lemma node0_empty [simp]: "node_empty SegmentTreeNode0"
  by (simp add: node_empty_def SegmentTreeNode0_def)

lemma route_at_empty: "node_empty t \<Longrightarrow> route_at qs t = None"
  by (cases qs; cases t; cases "hd qs") (auto simp: node_empty_def)

section \<open>Adding a route\<close>

definition child_or_new :: "pat \<Rightarrow> 'h SegmentTreeNode \<Rightarrow> 'h SegmentTreeNode" where
  "child_or_new p t = (case pat_child p t of Some n \<Rightarrow> n | None \<Rightarrow> SegmentTreeNode0)"

lemma addRoute_step:
  assumes "path \<noteq> []"
  shows "addRoute path h t =
     (case seg_pat (current_segment path) of
        Inl e \<Rightarrow> (Some e, t)
      | Inr p \<Rightarrow> (case addRoute (lower_path path) h (child_or_new p t) of (e, n) \<Rightarrow> (e, put_child p n t)))"
proof (cases t)
  case (Node fx pa op sp rt)
  then show ?thesis
    using assms addRoute.simps [of path h fx pa op sp rt]
    by (simp add: Let_def seg_pat_def child_or_new_def child_def split: sum.split SegmentType.split option.split)
qed

lemma addRoute_Nil:
  "addRoute [] h t =
     (case st_route t of Some _ \<Rightarrow> (Some (Runtime_Error ''Requested route already exist.''), t)
      | None \<Rightarrow> (None, Node (st_fixed t) (st_param t) (st_optional t) (st_splat t) (Some h)))"
  by (cases t) (simp add: addRoute.simps split: option.split)

lemma route_at_child_or_new:
  "route_at qs (child_or_new p t) = route_at (p # qs) t"
  by (auto simp: child_or_new_def route_at_empty split: option.split)

lemma addRoute_spec:
  "route_at qs (snd (addRoute path h t)) =
     (if path_pats path = Some qs \<and> route_at qs t = None then Some h else route_at qs t)
   \<and> (fst (addRoute path h t) = None \<longleftrightarrow> (\<exists>ps. path_pats path = Some ps \<and> route_at ps t = None))"
proof (induction path arbitrary: qs t rule: path_pats.induct)
  case (1 path)
  show ?case
  proof (cases "path = []")
    case True
    have "pat_child p (Node (st_fixed t) (st_param t) (st_optional t) (st_splat t) x) = pat_child p t" for p x
      by (cases p) auto
    then show ?thesis
      using True by (cases qs) (auto simp: addRoute_Nil path_pats.simps split: option.split)
  next
    case False
    show ?thesis
    proof (cases "seg_pat (current_segment path)")
      case (Inl e)
      with False show ?thesis by (simp add: addRoute_step path_pats.simps)
    next
      case (Inr p)
      have pp: "path_pats path = map_option ((#) p) (path_pats (lower_path path))"
        using False Inr by (simp add: path_pats.simps)
      note ih = "1.IH" [OF False Inr, of _ "child_or_new p t", unfolded route_at_child_or_new]
      show ?thesis
        using ih False Inr pp
        by (auto simp: addRoute_step route_at_put case_prod_unfold split: list.split)
    qed
  qed
qed

section \<open>Removing a route\<close>

fun erase_child :: "pat \<Rightarrow> 'h SegmentTreeNode \<Rightarrow> 'h SegmentTreeNode" where
  "erase_child (P_Fixed s) (Node fx pa op sp rt) = Node (um_erase (=) s fx) pa op sp rt"
| "erase_child (P_Param s) (Node fx pa op sp rt) = Node fx (um_erase (=) s pa) op sp rt"
| "erase_child (P_Optional s) (Node fx pa op sp rt) = Node fx pa (um_erase (=) s op) sp rt"
| "erase_child P_Splat t = t"

lemma pat_child_erase: "p \<noteq> P_Splat \<Longrightarrow> pat_child q (erase_child p t) = (if p = q then None else pat_child q t)"
  by (cases t; cases p; cases q) (auto simp: um_find_erase identity_equivp)

lemma st_route_erase [simp]: "st_route (erase_child p t) = st_route t"
  by (cases t; cases p) auto

lemma um_assign_present: "um_find (=) m k = Some x \<Longrightarrow> set_child k n m = um_assign (=) k n m"
  by (simp add: set_child_def um_insert_present)

lemma removeRoute_step:
  assumes "path \<noteq> []" "seg_pat (current_segment path) = Inr p" "p \<noteq> P_Splat"
  shows "removeRoute path t =
     (case pat_child p t of
        None \<Rightarrow> (Inl no_such_route, t)
      | Some n \<Rightarrow>
          (case removeRoute (lower_path path) n of
             (Inl e, n') \<Rightarrow> (Inl e, put_child p n' t)
           | (Inr removable, n') \<Rightarrow>
               let t' = (if removable then erase_child p t else put_child p n' t) in (Inr (node_empty t'), t')))"
proof (cases t)
  case (Node fx pa op sp rt)
  then show ?thesis
    using assms removeRoute.simps [of path fx pa op sp rt]
    by (auto simp: Let_def seg_pat_def remove_child_def um_assign_present split: sum.splits SegmentType.splits option.split prod.split)
qed

lemma removeRoute_invalid: "path \<noteq> [] \<Longrightarrow> seg_pat (current_segment path) = Inl e \<Longrightarrow> removeRoute path t = (Inl e, t)"
  by (cases t) (auto simp: removeRoute.simps Let_def seg_pat_def split: sum.splits)

lemma removeRoute_Nil:
  "removeRoute [] t = (let t' = Node (st_fixed t) (st_param t) (st_optional t) (st_splat t) None in (Inr (node_empty t'), t'))"
  by (cases t) (simp add: removeRoute.simps)

text \<open>A resource without a splat.\<close>

definition splat_free :: "string \<Rightarrow> bool" where
  "splat_free path \<longleftrightarrow> ''*'' \<notin> set (path_segs path)"

lemma seg_pat_Splat: "seg_pat seg = Inr P_Splat \<longleftrightarrow> seg = ''*''"
  by (cases seg) (auto simp: seg_pat_def getSegmentType_def Let_def split: option.splits if_splits SegmentType.splits)

lemma splat_free_step:
  "path \<noteq> [] \<Longrightarrow> splat_free path \<longleftrightarrow> seg_pat (current_segment path) \<noteq> Inr P_Splat \<and> splat_free (lower_path path)"
  unfolding splat_free_def seg_pat_Splat by (subst path_segs.simps) auto

lemma removeRoute_spec:
  assumes "splat_free path"
  shows "route_at qs (snd (removeRoute path t)) = (if path_pats path = Some qs then None else route_at qs t)
    \<and> (\<forall>b. fst (removeRoute path t) = Inr b \<longrightarrow> b = node_empty (snd (removeRoute path t)))"
  using assms
proof (induction path arbitrary: qs t rule: path_pats.induct)
  case (1 path)
  show ?case
  proof (cases "path = []")
    case True
    have "pat_child p (Node (st_fixed t) (st_param t) (st_optional t) (st_splat t) x) = pat_child p t" for p x
      by (cases p) auto
    then show ?thesis
      using True by (cases qs) (auto simp: removeRoute_Nil Let_def path_pats.simps split: option.split)
  next
    case False
    show ?thesis
    proof (cases "seg_pat (current_segment path)")
      case (Inl e)
      with False show ?thesis by (simp add: removeRoute_invalid path_pats.simps)
    next
      case (Inr p)
      have sf: "p \<noteq> P_Splat" "splat_free (lower_path path)" using "1.prems" False Inr by (auto simp: splat_free_step)
      have pp: "path_pats path = map_option ((#) p) (path_pats (lower_path path))"
        using False Inr by (simp add: path_pats.simps)
      show ?thesis
      proof (cases "pat_child p t")
        case None
        with False Inr sf pp show ?thesis by (auto simp: removeRoute_step)
      next
        case (Some n)
        obtain r n' where r: "removeRoute (lower_path path) n = (r, n')" by fastforce
        have ih: "route_at qs n' = (if path_pats (lower_path path) = Some qs then None else route_at qs n)"
          "r = Inr b \<Longrightarrow> b = node_empty n'" for qs b
          using "1.IH" [OF False Inr sf(2), of _ n] r by auto
        have "route_at qs (erase_child p t) = (if path_pats path = Some qs then None else route_at qs t)" if "node_empty n'" for qs
        proof (cases qs)
          case (Cons q qs')
          have "route_at qs' n = None" if "path_pats (lower_path path) \<noteq> Some qs'"
            using ih(1) [of qs'] route_at_empty [OF \<open>node_empty n'\<close>, of qs'] that by simp
          then show ?thesis using Some pp sf(1) Cons by (auto simp: pat_child_erase)
        qed (use pp in auto)
        moreover have "route_at qs (put_child p n' t) = (if path_pats path = Some qs then None else route_at qs t)" for qs
          using ih(1) Some pp by (auto simp: route_at_put split: list.split)
        ultimately show ?thesis
          using ih(2) False Inr sf(1) Some r by (auto simp: removeRoute_step Let_def split: sum.split)
      qed
    qed
  qed
qed

text \<open>
  Removing a route with a splat reports to the parent whether the node of the splat is empty, not
  whether its own node is: the parent drops a node that still has other routes.
\<close>

lemma remove_splat_drops_siblings:
  "let t = snd (addRoute ''a/*'' (2::nat) (snd (addRoute ''a/b'' 1 SegmentTreeNode0)))
   in route_at [P_Fixed ''a'', P_Fixed ''b''] t = Some 1
      \<and> route_at [P_Fixed ''a'', P_Fixed ''b''] (snd (removeRoute ''a/*'' t)) = None"
  by code_simp

section \<open>A table of routes\<close>

text \<open>
  What the router relies on: a table in which a name (here a resource) stands for at most one key
  (here a pattern), with lookups that see the additions and removals and nothing else.
\<close>

datatype ('q, 'h) table_op = T_Add 'q 'h | T_Remove 'q

locale route_table =
  fixes key :: "'q \<Rightarrow> 'p option"
    and look :: "'p \<Rightarrow> 't \<Rightarrow> 'h option"
    and add :: "'q \<Rightarrow> 'h \<Rightarrow> 't \<Rightarrow> exn option \<times> 't"
    and rem :: "'q \<Rightarrow> 't \<Rightarrow> 'r \<times> 't"
    and removable :: "'q \<Rightarrow> bool"
  assumes look_add: "look p (snd (add q h t)) = (if key q = Some p \<and> look p t = None then Some h else look p t)"
    and add_ok: "fst (add q h t) = None \<longleftrightarrow> (\<exists>p. key q = Some p \<and> look p t = None)"
    and look_rem: "removable q \<Longrightarrow> look p (snd (rem q t)) = (if key q = Some p then None else look p t)"
begin

definition table_step :: "('q, 'h) table_op \<Rightarrow> 't \<Rightarrow> 't" where
  "table_step x t = (case x of T_Add q h \<Rightarrow> snd (add q h t) | T_Remove q \<Rightarrow> snd (rem q t))"

definition map_step :: "('q, 'h) table_op \<Rightarrow> ('p \<Rightarrow> 'h option) \<Rightarrow> ('p \<Rightarrow> 'h option)" where
  "map_step x M =
     (case x of
        T_Add q h \<Rightarrow> (case key q of Some p \<Rightarrow> if M p = None then M(p \<mapsto> h) else M | None \<Rightarrow> M)
      | T_Remove q \<Rightarrow> (case key q of Some p \<Rightarrow> M(p := None) | None \<Rightarrow> M))"

lemma step_refines:
  assumes "\<And>q. x = T_Remove q \<Longrightarrow> removable q"
  shows "(\<lambda>p. look p (table_step x t)) = map_step x (\<lambda>p. look p t)"
proof (cases x)
  case (T_Add q h)
  then show ?thesis by (auto simp: table_step_def map_step_def look_add fun_eq_iff split: option.split)
next
  case (T_Remove q)
  then show ?thesis using assms by (auto simp: table_step_def map_step_def look_rem fun_eq_iff split: option.split)
qed

lemma run_refines:
  "(\<And>q. T_Remove q \<in> set xs \<Longrightarrow> removable q) \<Longrightarrow>
   (\<lambda>p. look p (fold table_step xs t)) = fold map_step xs (\<lambda>p. look p t)"
proof (induction xs arbitrary: t)
  case (Cons x xs)
  then have "(\<lambda>p. look p (fold table_step xs (table_step x t))) = fold map_step xs (\<lambda>p. look p (table_step x t))"
    by (intro Cons.IH) simp
  moreover have "(\<lambda>p. look p (table_step x t)) = map_step x (\<lambda>p. look p t)"
    using Cons.prems by (intro step_refines) auto
  ultimately show ?case by simp
qed simp

text \<open>A second addition under the same key is refused and changes nothing.\<close>

lemma add_twice:
  assumes "key q = Some p" "key q' = Some p" "look p t = None"
  shows "fst (add q' h' (snd (add q h t))) \<noteq> None \<and> look p (snd (add q' h' (snd (add q h t)))) = Some h"
  using assms by (simp add: look_add add_ok)

end

interpretation tree_table: route_table path_pats route_at addRoute removeRoute splat_free
  by unfold_locales (simp_all add: addRoute_spec removeRoute_spec)

text \<open>The operations of a router on the tree of one method, and the map they should maintain.\<close>

fun tree_op :: "(string, 'h) table_op \<Rightarrow> 'h SegmentTreeNode \<Rightarrow> 'h SegmentTreeNode" where
  "tree_op (T_Add path h) t = snd (addRoute path h t)"
| "tree_op (T_Remove path) t = snd (removeRoute path t)"

fun map_op :: "(string, 'h) table_op \<Rightarrow> (pat list \<Rightarrow> 'h option) \<Rightarrow> (pat list \<Rightarrow> 'h option)" where
  "map_op (T_Add path h) M = (case path_pats path of Some ps \<Rightarrow> if M ps = None then M(ps \<mapsto> h) else M | None \<Rightarrow> M)"
| "map_op (T_Remove path) M = (case path_pats path of Some ps \<Rightarrow> M(ps := None) | None \<Rightarrow> M)"

lemma tree_op_eq:
  "tree_op = (tree_table.table_step :: (string, 'a) table_op \<Rightarrow> _)"
  "map_op = (tree_table.map_step :: (string, 'a) table_op \<Rightarrow> _)"
proof -
  have "tree_op x t = tree_table.table_step x t" "map_op x M = tree_table.map_step x M" for x :: "(string, 'a) table_op" and t M
    by (cases x; simp add: tree_table.table_step_def tree_table.map_step_def)+
  then show "tree_op = (tree_table.table_step :: (string, 'a) table_op \<Rightarrow> _)" "map_op = (tree_table.map_step :: (string, 'a) table_op \<Rightarrow> _)"
    by (intro ext, simp)+
qed

text \<open>
  C11: the segment tree refines a finite map from patterns to handlers: after any sequence of
  \<open>addRoute\<close> and \<open>removeRoute\<close> calls (removals without a splat, see above), including the calls
  that throw, the routes of the tree are those of the map that was updated accordingly; an
  addition throws exactly when the resource is malformed or its pattern is taken.
\<close>

theorem segment_tree_refines_map:
  assumes "\<forall>path. T_Remove path \<in> set xs \<longrightarrow> splat_free path"
  shows "(\<lambda>ps. route_at ps (fold tree_op xs t)) = fold map_op xs (\<lambda>ps. route_at ps t)
    \<and> (fst (addRoute path h (fold tree_op xs t)) = None \<longleftrightarrow>
         (\<exists>ps. path_pats path = Some ps \<and> fold map_op xs (\<lambda>ps. route_at ps t) ps = None))"
proof -
  have r: "(\<lambda>ps. route_at ps (fold tree_op xs t)) = fold map_op xs (\<lambda>ps. route_at ps t)"
    unfolding tree_op_eq by (rule tree_table.run_refines) (use assms in blast)
  then show ?thesis unfolding tree_table.add_ok by (simp flip: r)
qed

theorem segment_tree_refines_map_witness:
  "route_at [P_Fixed ''users'', P_Param '':id'']
     (fold tree_op [T_Add ''users/:id'' (1::nat), T_Add ''users'' 2, T_Remove ''users''] SegmentTreeNode0) = Some 1"
proof -
  let ?xs = "[T_Add ''users/:id'' (1::nat), T_Add ''users'' 2, T_Remove ''users'']"
  have p: "path_pats ''users/:id'' = Some [P_Fixed ''users'', P_Param '':id'']" "path_pats ''users'' = Some [P_Fixed ''users'']"
    by code_simp+
  have "splat_free ''users''" by code_simp
  then have "\<forall>path. T_Remove path \<in> set ?xs \<longrightarrow> splat_free path" by simp
  from conjunct1 [OF segment_tree_refines_map [OF this, where t = SegmentTreeNode0]]
  have "(\<lambda>ps. route_at ps (fold tree_op ?xs SegmentTreeNode0)) = fold map_op ?xs (\<lambda>ps. route_at ps SegmentTreeNode0)" .
  then have "route_at [P_Fixed ''users'', P_Param '':id''] (fold tree_op ?xs SegmentTreeNode0) =
      fold map_op ?xs (\<lambda>ps. route_at ps SegmentTreeNode0) [P_Fixed ''users'', P_Param '':id'']"
    by (rule fun_cong)
  also have "\<dots> = Some 1" by (simp add: p SegmentTreeNode0_def)
  finally show ?thesis .
qed

section \<open>Well-formed trees\<close>

text \<open>The keys of every collection are distinct.\<close>

fun tree_wf :: "'h SegmentTreeNode \<Rightarrow> bool" where
  "tree_wf (Node fx pa op sp rt) \<longleftrightarrow> distinct (map fst fx) \<and> distinct (map fst pa) \<and> distinct (map fst op)
     \<and> (\<forall>kn \<in> set fx. tree_wf (snd kn)) \<and> (\<forall>kn \<in> set pa. tree_wf (snd kn)) \<and> (\<forall>kn \<in> set op. tree_wf (snd kn))
     \<and> (case sp of None \<Rightarrow> True | Some n \<Rightarrow> tree_wf n)"

definition forest_wf :: "(string \<times> 'h SegmentTreeNode) list \<Rightarrow> bool" where
  "forest_wf m \<longleftrightarrow> distinct (map fst m) \<and> (\<forall>kn \<in> set m. tree_wf (snd kn))"

lemma tree_wf_Node:
  "tree_wf (Node fx pa op sp rt) \<longleftrightarrow> forest_wf fx \<and> forest_wf pa \<and> forest_wf op \<and> (\<forall>n. sp = Some n \<longrightarrow> tree_wf n)"
  by (auto simp: forest_wf_def split: option.split)

declare tree_wf.simps [simp del] tree_wf_Node [simp]

lemma um_find_in_set: "um_find (=) m k = Some v \<Longrightarrow> (k, v) \<in> set m"
  by (induction m) (auto split: if_splits)

lemma um_find_None_keys: "um_find (=) m k = None \<longleftrightarrow> k \<notin> fst ` set m"
  by (induction m) (auto split: if_splits)

lemma keys_um_assign: "fst ` set (um_assign (=) k v m) = insert k (fst ` set m)"
proof (induction m)
  case (Cons x m)
  then show ?case by (cases x; cases "fst x = k") auto
qed simp

lemma forest_wf_assign: "forest_wf m \<Longrightarrow> tree_wf n \<Longrightarrow> forest_wf (um_assign (=) k n m)"
proof (induction m)
  case (Cons x m)
  then show ?case using keys_um_assign [of k n m] by (cases x) (auto simp: forest_wf_def)
qed (simp add: forest_wf_def)

lemma tree_wf_node0 [simp]: "tree_wf SegmentTreeNode0"
  by (simp add: SegmentTreeNode0_def forest_wf_def)

lemma forest_wf_set_child: "forest_wf m \<Longrightarrow> tree_wf n \<Longrightarrow> forest_wf (set_child k n m)"
  unfolding set_child_def
  by (rule forest_wf_assign) (auto simp: um_insert_def forest_wf_def um_find_None_keys split: option.split)

lemma forest_wf_erase: "forest_wf m \<Longrightarrow> forest_wf (um_erase (=) k m)"
  by (auto simp: forest_wf_def um_erase_def distinct_map_filter)

lemma tree_wf_put: "tree_wf t \<Longrightarrow> tree_wf n \<Longrightarrow> tree_wf (put_child p n t)"
  by (cases t; cases p) (auto simp: forest_wf_set_child)

lemma tree_wf_erase: "tree_wf t \<Longrightarrow> tree_wf (erase_child p t)"
  by (cases t; cases p) (auto simp: forest_wf_erase)

lemma tree_wf_child: "tree_wf t \<Longrightarrow> pat_child p t = Some n \<Longrightarrow> tree_wf n"
  by (cases t; cases p) (fastforce simp: forest_wf_def dest: um_find_in_set)+

lemma tree_wf_addRoute: "tree_wf t \<Longrightarrow> tree_wf (snd (addRoute path h t))"
proof (induction path arbitrary: t rule: path_pats.induct)
  case (1 path)
  show ?case
  proof (cases "path = []")
    case True
    with "1.prems" show ?thesis by (cases t) (auto simp: addRoute_Nil split: option.split)
  next
    case False
    show ?thesis
    proof (cases "seg_pat (current_segment path)")
      case (Inr p)
      have "tree_wf (child_or_new p t)" using "1.prems" by (auto simp: child_or_new_def tree_wf_child split: option.split)
      from "1.IH" [OF False Inr this] show ?thesis
        using "1.prems" False Inr by (simp add: addRoute_step case_prod_unfold tree_wf_put)
    qed (use False "1.prems" in \<open>simp add: addRoute_step\<close>)
  qed
qed

lemma removeRoute_splat:
  assumes "path \<noteq> []" "seg_pat (current_segment path) = Inr P_Splat"
  shows "removeRoute path t =
     (case pat_child P_Splat t of
        None \<Rightarrow> (Inl no_such_route, t)
      | Some n \<Rightarrow> (case removeRoute (lower_path path) n of (r, n') \<Rightarrow> (r, put_child P_Splat n' t)))"
proof (cases t)
  case (Node fx pa op sp rt)
  then show ?thesis
    using assms removeRoute.simps [of path fx pa op sp rt]
    by (auto simp: Let_def seg_pat_def split: sum.splits SegmentType.splits option.split)
qed

lemma tree_wf_removeRoute: "tree_wf t \<Longrightarrow> tree_wf (snd (removeRoute path t))"
proof (induction path arbitrary: t rule: path_pats.induct)
  case (1 path)
  show ?case
  proof (cases "path = []")
    case True
    with "1.prems" show ?thesis by (cases t) (auto simp: removeRoute_Nil Let_def)
  next
    case False
    show ?thesis
    proof (cases "seg_pat (current_segment path)")
      case (Inr p)
      have ih: "tree_wf n' " if "pat_child p t = Some n" "removeRoute (lower_path path) n = (r, n')" for n n' r
        using "1.IH" [OF False Inr tree_wf_child [OF "1.prems" that(1)]] that(2) by simp
      show ?thesis
      proof (cases "p = P_Splat")
        case True
        with ih False Inr "1.prems" show ?thesis
          by (auto simp: removeRoute_splat tree_wf_put split: option.split prod.split simp del: pat_child.simps)
      next
        case False
        with ih \<open>path \<noteq> []\<close> Inr "1.prems" show ?thesis
          by (auto simp: removeRoute_step Let_def tree_wf_put tree_wf_erase split: option.split prod.split sum.split)
      qed
    qed (use False "1.prems" in \<open>simp add: removeRoute_invalid\<close>)
  qed
qed

lemma tree_wf_ops: "tree_wf t \<Longrightarrow> tree_wf (fold tree_op xs t)"
proof (induction xs arbitrary: t)
  case (Cons x xs)
  then show ?case by (cases x) (simp_all add: tree_wf_addRoute tree_wf_removeRoute)
qed simp

section \<open>Finding a route\<close>

text \<open>
  The vectors handed down only prefix the result: whether and where a route is found does not
  depend on them.
\<close>

definition shift :: "TypedParam list \<Rightarrow> TypedParam list \<Rightarrow> 'h found \<Rightarrow> 'h found" where
  "shift ps ss r = map_option (\<lambda>(h, p, s). (h, ps @ p, ss @ s)) r"

lemma shift_simps [simp]:
  "shift ps ss None = None" "shift ps ss (Some (h, p, s)) = Some (h, ps @ p, ss @ s)" "shift [] [] r = r"
  "shift ps ss r = None \<longleftrightarrow> r = None" "shift ps ss (or_else a b) = or_else (shift ps ss a) (shift ps ss b)"
  "shift ps ss (shift ps' ss' r) = shift (ps @ ps') (ss @ ss') r"
  by (auto simp: shift_def option.map_comp comp_def case_prod_unfold option.map_ident) (cases a; simp)

lemma or_else_None [simp]: "or_else a b = None \<longleftrightarrow> a = None \<and> b = None" "or_else a None = a"
  by (cases a; simp)+

definition shifts :: "'h SegmentTreeNode \<Rightarrow> bool" where
  "shifts t \<longleftrightarrow> (\<forall>path ps ss. findRoute path ps ss t = shift ps ss (findRoute path [] [] t))"

lemma shiftsD: "shifts t \<Longrightarrow> findRoute path ps ss t = shift ps ss (findRoute path [] [] t)"
  unfolding shifts_def by blast

lemma find_fixed_find: "find_fixed seg lower ps ss m = (case um_find (=) m seg of None \<Rightarrow> None | Some n \<Rightarrow> findRoute lower ps ss n)"
  by (induction m) auto

lemma loops_shift:
  assumes "\<forall>kn \<in> set m. shifts (snd kn)"
  shows "find_fixed seg lower ps ss m = shift ps ss (find_fixed seg lower [] [] m)"
    "find_param seg lower ps ss m = shift ps ss (find_param seg lower [] [] m)"
    "find_optional seg lower ps ss m = shift ps ss (find_optional seg lower [] [] m)"
proof -
  show "find_fixed seg lower ps ss m = shift ps ss (find_fixed seg lower [] [] m)"
  proof (cases "um_find (=) m seg")
    case (Some n)
    then have "shifts n" using assms um_find_in_set by fastforce
    from shiftsD [OF this, of lower ps ss] Some show ?thesis by (simp add: find_fixed_find)
  qed (simp add: find_fixed_find)
  show "find_param seg lower ps ss m = shift ps ss (find_param seg lower [] [] m)"
    using assms
  proof (induction m)
    case (Cons x m)
    obtain k n where x: "x = (k, n)" by (cases x)
    with Cons.prems have n: "shifts n" by simp
    then show ?case using Cons shiftsD [OF n, of lower "[(k, seg)]" "[]"] shiftsD [OF n, of lower "ps @ [(k, seg)]" ss] by (simp add: x)
  qed simp
  show "find_optional seg lower ps ss m = shift ps ss (find_optional seg lower [] [] m)"
    using assms
  proof (induction m)
    case (Cons x m)
    obtain k n where x: "x = (k, n)" by (cases x)
    with Cons.prems have n: "shifts n" by simp
    then show ?case
      using Cons shiftsD [OF n, of lower "[(k, seg)]" "[]"] shiftsD [OF n, of lower "ps @ [(k, seg)]" ss] shiftsD [OF n, of lower ps ss]
      by (simp add: x)
  qed simp
qed

lemma shifts_all: "shifts t"
proof (induction t)
  case (Node fx pa op sp rt)
  have c: "\<forall>kn \<in> set fx. shifts (snd kn)" "\<forall>kn \<in> set pa. shifts (snd kn)" "\<forall>kn \<in> set op. shifts (snd kn)"
    "\<And>n. sp = Some n \<Longrightarrow> shifts n"
    using Node by (auto elim!: allE simp: prod_set_simps)
  show ?case
    unfolding shifts_def
  proof (intro allI)
    fix path ps ss
    show "findRoute path ps ss (Node fx pa op sp rt) = shift ps ss (findRoute path [] [] (Node fx pa op sp rt))"
    proof (cases "path = []")
      case True
      have "findRoute [] ps ss n = shift ps ss (findRoute [] [] [] n)" if "op = (k, n) # m" for k n m
        using c(3) that by (intro shiftsD) simp
      with True show ?thesis by (auto split: list.split option.split)
    next
      case False
      note l = loops_shift [OF c(1)] loops_shift [OF c(2)] loops_shift [OF c(3)]
      let ?x = "(current_segment path, current_segment path)" and ?l = "lower_path path"
      have sp: "(case sp of None \<Rightarrow> None | Some n \<Rightarrow> findRoute ?l ps (ss @ [?x]) n) =
          shift ps ss (case sp of None \<Rightarrow> None | Some n \<Rightarrow> findRoute ?l [] ([] @ [?x]) n)"
      proof (cases sp)
        case (Some n)
        show ?thesis
          using shiftsD [OF c(4) [OF Some], of ?l ps "ss @ [?x]"] shiftsD [OF c(4) [OF Some], of ?l "[]" "[?x]"] Some by simp
      qed simp
      show ?thesis
        unfolding findRoute.simps Let_def using False
        by (simp only: if_True l(1) [of _ _ ps ss] l(5) [of _ _ ps ss] l(9) [of _ _ ps ss] sp shift_simps not_False_eq_True)
    qed
  qed
qed

lemmas findRoute_shift = shiftsD [OF shifts_all]

lemma findRoute_None: "findRoute path ps ss t = None \<longleftrightarrow> findRoute path [] [] t = None"
  using findRoute_shift [of path ps ss t] by simp

text \<open>
  Trying an optional parameter a second time without binding it, as the code does, repeats a
  search that has failed.
\<close>

lemma optional_retry_useless:
  "findRoute lower (params @ [x]) splats n = None \<Longrightarrow> findRoute lower params splats n = None"
  using findRoute_shift [of lower "params @ [x]" splats n] findRoute_shift [of lower params splats n] by simp

subsection \<open>Matching\<close>

text \<open>
  A path matches a pattern with these values of the parameters and splats; an optional parameter
  may be missing at the end of the path.
\<close>

inductive matches :: "pat list \<Rightarrow> string list \<Rightarrow> TypedParam list \<Rightarrow> TypedParam list \<Rightarrow> bool" where
  m_end: "matches [] [] [] []"
| m_fixed: "matches pats segs ps ss \<Longrightarrow> matches (P_Fixed s # pats) (s # segs) ps ss"
| m_param: "matches pats segs ps ss \<Longrightarrow> matches (P_Param k # pats) (s # segs) ((k, s) # ps) ss"
| m_optional: "matches pats segs ps ss \<Longrightarrow> matches (P_Optional k # pats) (s # segs) ((k, s) # ps) ss"
| m_missing: "matches pats [] [] [] \<Longrightarrow> matches (P_Optional k # pats) [] [] []"
| m_splat: "matches pats segs ps ss \<Longrightarrow> matches (P_Splat # pats) (s # segs) ps ((s, s) # ss)"

lemma um_find_distinct: "distinct (map fst m) \<Longrightarrow> (k, n) \<in> set m \<Longrightarrow> um_find (=) m k = Some n"
  by (induction m) (auto simp: image_iff)

lemma find_param_Some:
  "find_param seg lower [] [] m = Some (h, ps, ss) \<Longrightarrow>
   \<exists>k n ps'. (k, n) \<in> set m \<and> findRoute lower [] [] n = Some (h, ps', ss) \<and> ps = (k, seg) # ps'"
proof (induction m)
  case (Cons x m)
  obtain k n where x: "x = (k, n)" by (cases x)
  show ?case
  proof (cases "findRoute lower [] [] n")
    case None
    then show ?thesis using Cons findRoute_shift [of lower "[(k, seg)]" "[]" n] by (fastforce simp: x)
  next
    case (Some r)
    then show ?thesis using Cons.prems findRoute_shift [of lower "[(k, seg)]" "[]" n] by (cases r) (auto simp: x)
  qed
qed simp

lemma find_optional_param: "find_optional seg lower [] [] m = find_param seg lower [] [] m"
proof (induction m)
  case (Cons x m)
  obtain k n where x: "x = (k, n)" by (cases x)
  show ?case
  proof (cases "findRoute lower [(k, seg)] [] n")
    case None
    then show ?thesis using Cons optional_retry_useless [of lower "[]" "(k, seg)" "[]" n] by (simp add: x)
  qed (simp add: x)
qed simp

lemma findRoute_sound_node:
  "tree_wf t \<Longrightarrow> findRoute path [] [] t = Some (h, ps, ss) \<Longrightarrow>
   \<exists>pats. route_at pats t = Some h \<and> matches pats (path_segs path) ps ss"
proof (induction t arbitrary: path h ps ss)
  case (Node fx pa op sp rt)
  let ?t = "Node fx pa op sp rt"
  have wf: "forest_wf fx" "forest_wf pa" "forest_wf op" "\<And>n. sp = Some n \<Longrightarrow> tree_wf n" using Node.prems(1) by simp_all
  have ih: "\<exists>pats. route_at pats n = Some h \<and> matches pats (path_segs path) ps ss"
    if "(k, n) \<in> set fx \<union> set pa \<union> set op \<or> sp = Some n" "findRoute path [] [] n = Some (h, ps, ss)" for k n path h ps ss
  proof -
    have "tree_wf n" using that(1) wf by (auto simp: forest_wf_def)
    with that Node.IH show ?thesis by (force simp: prod_set_simps)
  qed
  show ?case
  proof (cases "path = []")
    case True
    have segs: "path_segs [] = []" by (simp add: path_segs.simps)
    show ?thesis
    proof (cases op)
      case Nil
      then show ?thesis using True Node.prems(2) m_end segs by (intro exI [of _ "[]"]) (auto split: option.splits)
    next
      case (Cons x m)
      obtain k n where x: "x = (k, n)" by (cases x)
      then have "findRoute [] [] [] n = Some (h, ps, ss)" using True Node.prems(2) Cons by simp
      with ih [of k n "[]" h ps ss] obtain pats where p: "route_at pats n = Some h" "matches pats [] ps ss"
        using Cons x segs by auto
      then have "ps = []" "ss = []" using matches.cases [OF p(2)] by (auto elim: matches.cases)
      with p have "matches (P_Optional k # pats) [] ps ss" using m_missing by simp
      moreover have "route_at (P_Optional k # pats) ?t = Some h" using p(1) Cons x by simp
      ultimately show ?thesis using True segs by metis
    qed
  next
    case False
    define seg where "seg = current_segment path"
    define lower where "lower = lower_path path"
    have segs: "path_segs path = seg # path_segs lower" using False by (subst path_segs.simps) (simp add: seg_def lower_def)
    consider "find_fixed seg lower [] [] fx = Some (h, ps, ss)" | "find_param seg lower [] [] pa = Some (h, ps, ss)"
      | "find_param seg lower [] [] op = Some (h, ps, ss)" | n where "sp = Some n" "findRoute lower [] [(seg, seg)] n = Some (h, ps, ss)"
    proof -
      have "or_else (find_fixed seg lower [] [] fx) (or_else (find_param seg lower [] [] pa) (or_else (find_param seg lower [] [] op)
          (case sp of None \<Rightarrow> None | Some n \<Rightarrow> findRoute lower [] [(seg, seg)] n))) = Some (h, ps, ss)"
        using Node.prems(2) False
        by (simp add: Let_def seg_def [symmetric] lower_def [symmetric] find_optional_param cong: option.case_cong)
      then show thesis using that
        by (cases "find_fixed seg lower [] [] fx"; cases "find_param seg lower [] [] pa"; cases "find_param seg lower [] [] op")
          (auto split: option.splits)
    qed
    then show ?thesis
    proof cases
      case 1
      then obtain n where n: "um_find (=) fx seg = Some n" "findRoute lower [] [] n = Some (h, ps, ss)"
        by (auto simp: find_fixed_find split: option.splits)
      with ih [of seg n lower h ps ss] obtain pats where "route_at pats n = Some h" "matches pats (path_segs lower) ps ss"
        using um_find_in_set by fastforce
      with n(1) show ?thesis unfolding segs by (intro exI [of _ "P_Fixed seg # pats"]) (simp add: m_fixed)
    next
      case 2
      from find_param_Some [OF 2] obtain k n ps' where n: "(k, n) \<in> set pa" "findRoute lower [] [] n = Some (h, ps', ss)" "ps = (k, seg) # ps'"
        by blast
      with ih [of k n lower h ps' ss] obtain pats where "route_at pats n = Some h" "matches pats (path_segs lower) ps' ss" by auto
      moreover have "um_find (=) pa k = Some n" using wf(2) n(1) by (simp add: forest_wf_def um_find_distinct)
      ultimately show ?thesis unfolding segs n(3) by (intro exI [of _ "P_Param k # pats"]) (simp add: m_param)
    next
      case 3
      from find_param_Some [OF 3] obtain k n ps' where n: "(k, n) \<in> set op" "findRoute lower [] [] n = Some (h, ps', ss)" "ps = (k, seg) # ps'"
        by blast
      with ih [of k n lower h ps' ss] obtain pats where "route_at pats n = Some h" "matches pats (path_segs lower) ps' ss" by auto
      moreover have "um_find (=) op k = Some n" using wf(3) n(1) by (simp add: forest_wf_def um_find_distinct)
      ultimately show ?thesis unfolding segs n(3) by (intro exI [of _ "P_Optional k # pats"]) (simp add: m_optional)
    next
      case (4 n)
      then obtain ss' where n: "findRoute lower [] [] n = Some (h, ps, ss')" "ss = (seg, seg) # ss'"
        using findRoute_shift [of lower "[]" "[(seg, seg)]" n] by (cases "findRoute lower [] [] n") auto
      with ih [of seg n lower h ps ss'] 4(1) obtain pats where "route_at pats n = Some h" "matches pats (path_segs lower) ps ss'" by auto
      with 4(1) show ?thesis unfolding segs n(2) by (intro exI [of _ "P_Splat # pats"]) (simp add: m_splat)
    qed
  qed
qed

text \<open>
  C12: a route that is found is a route that was added and matches: in a tree built by any
  sequence of additions and removals, \<open>findRoute\<close> returns a handler that is stored under a
  pattern of the request's path, with the parameters and splats in the order of the path.
\<close>

theorem find_route_sound:
  assumes "findRoute0 path (fold tree_op xs SegmentTreeNode0) = Some (h, params, splats)"
  shows "\<exists>pats. route_at pats (fold tree_op xs SegmentTreeNode0) = Some h \<and> matches pats (path_segs path) params splats"
  using assms findRoute_sound_node [OF tree_wf_ops [OF tree_wf_node0]] by (simp add: findRoute0_def)

theorem find_route_sound_witness:
  "\<exists>pats. route_at pats (fold tree_op [T_Add ''users/:id'' (1::nat), T_Add ''*'' 2] SegmentTreeNode0) = Some 1
     \<and> matches pats (path_segs ''users/7'') [('':id'', ''7'')] []"
  by (rule find_route_sound) code_simp

subsection \<open>Completeness\<close>

fun no_optional :: "'h SegmentTreeNode \<Rightarrow> bool" where
  "no_optional (Node fx pa op sp rt) \<longleftrightarrow> op = [] \<and> (\<forall>kn \<in> set fx. no_optional (snd kn)) \<and> (\<forall>kn \<in> set pa. no_optional (snd kn))
     \<and> (case sp of None \<Rightarrow> True | Some n \<Rightarrow> no_optional n)"

lemma no_optional_child: "no_optional t \<Longrightarrow> pat_child p t = Some n \<Longrightarrow> no_optional n"
  by (cases t; cases p) (fastforce dest: um_find_in_set)+

lemma no_optional_pat: "no_optional t \<Longrightarrow> pat_child (P_Optional k) t = None"
  by (cases t) simp

lemma find_param_None: "find_param seg lower [] [] m = None \<Longrightarrow> (k, n) \<in> set m \<Longrightarrow> findRoute lower [] [] n = None"
proof (induction m)
  case (Cons x m)
  then show ?case using findRoute_None [of lower "[(fst x, seg)]" "[]" "snd x"] by (cases x) auto
qed simp

lemma path_segs_Cons:
  "path_segs path = s # segs \<Longrightarrow> path \<noteq> [] \<and> current_segment path = s \<and> path_segs (lower_path path) = segs"
  by (cases "path = []") (use path_segs.simps [of path] in auto)

lemma findRoute_step:
  assumes "path \<noteq> []" "no_optional t"
  shows "findRoute path [] [] t =
     or_else (find_fixed (current_segment path) (lower_path path) [] [] (st_fixed t))
       (or_else (find_param (current_segment path) (lower_path path) [] [] (st_param t))
         (case st_splat t of None \<Rightarrow> None | Some n \<Rightarrow> findRoute (lower_path path) [] [(current_segment path, current_segment path)] n))"
  using assms by (cases t) (auto simp: Let_def split: option.split)

lemma findRoute_complete_node:
  "matches pats segs ps ss \<Longrightarrow> path_segs path = segs \<Longrightarrow> no_optional t \<Longrightarrow> route_at pats t = Some h \<Longrightarrow> findRoute path [] [] t \<noteq> None"
proof (induction arbitrary: path t rule: matches.induct)
  case m_end
  then have "path = []" by (simp add: path_segs.simps split: if_splits)
  with m_end show ?case by (cases t) auto
next
  case (m_fixed pats segs ps ss s)
  then obtain n where n: "pat_child (P_Fixed s) t = Some n" "route_at pats n = Some h" by (auto split: option.splits)
  note c = path_segs_Cons [OF m_fixed.prems(1)]
  have "findRoute (lower_path path) [] [] n \<noteq> None"
    using m_fixed.IH [OF _ no_optional_child [OF m_fixed.prems(2) n(1)] n(2)] c by simp
  with n(1) c show ?case by (simp add: findRoute_step m_fixed.prems(2) find_fixed_find)
next
  case (m_param pats segs ps ss k s)
  then obtain n where n: "pat_child (P_Param k) t = Some n" "route_at pats n = Some h" by (auto split: option.splits)
  note c = path_segs_Cons [OF m_param.prems(1)]
  have "findRoute (lower_path path) [] [] n \<noteq> None"
    using m_param.IH [OF _ no_optional_child [OF m_param.prems(2) n(1)] n(2)] c by simp
  then have "find_param s (lower_path path) [] [] (st_param t) \<noteq> None"
    using find_param_None [of s "lower_path path" "st_param t" k n] n(1) um_find_in_set by fastforce
  with c show ?case by (simp add: findRoute_step m_param.prems(2))
next
  case (m_splat pats segs ps ss s)
  then obtain n where n: "pat_child P_Splat t = Some n" "route_at pats n = Some h" by (auto split: option.splits)
  note c = path_segs_Cons [OF m_splat.prems(1)]
  have "findRoute (lower_path path) [] [] n \<noteq> None"
    using m_splat.IH [OF _ no_optional_child [OF m_splat.prems(2) n(1)] n(2)] c by simp
  then have "findRoute (lower_path path) [] [(s, s)] n \<noteq> None"
    using findRoute_shift [of "lower_path path" "[]" "[(s, s)]" n] by simp
  with n(1) c show ?case by (simp add: findRoute_step m_splat.prems(2))
next
  case (m_optional pats segs ps ss k s)
  then show ?case using no_optional_pat [OF m_optional.prems(2), of k] by simp
next
  case (m_missing pats k)
  then show ?case using no_optional_pat [OF m_missing.prems(2), of k] by simp
qed

lemma findRoute_fixed_first:
  "no_optional t \<Longrightarrow> route_at (map P_Fixed (path_segs path)) t = Some h \<Longrightarrow> findRoute path [] [] t = Some (h, [], [])"
proof (induction path arbitrary: t rule: path_segs.induct)
  case (1 path)
  show ?case
  proof (cases "path = []")
    case True
    with "1.prems" show ?thesis by (cases t) (auto simp: path_segs.simps split: option.splits)
  next
    case False
    then have s: "path_segs path = current_segment path # path_segs (lower_path path)" by (subst path_segs.simps) simp
    then obtain n where n: "pat_child (P_Fixed (current_segment path)) t = Some n" "route_at (map P_Fixed (path_segs (lower_path path))) n = Some h"
      using "1.prems"(2) by (auto split: option.splits)
    have "findRoute (lower_path path) [] [] n = Some (h, [], [])"
      by (rule "1.IH" [OF False no_optional_child [OF "1.prems"(1) n(1)] n(2)])
    with False n(1) "1.prems"(1) show ?thesis by (simp add: findRoute_step find_fixed_find)
  qed
qed

text \<open>
  C13: without optional parameters no matching route is missed: if some pattern of the tree
  matches the path, a route is found; and a route whose segments are literally those of the path
  is preferred to every parameter and splat.
\<close>

theorem find_route_complete:
  assumes "no_optional t" "route_at pats t = Some h" "matches pats (path_segs path) params splats"
  shows "findRoute0 path t \<noteq> None
    \<and> (\<forall>h'. route_at (map P_Fixed (path_segs path)) t = Some h' \<longrightarrow> findRoute0 path t = Some (h', [], []))"
  using findRoute_complete_node [OF assms(3) refl assms(1,2)] findRoute_fixed_first [OF assms(1)]
  by (simp add: findRoute0_def)

theorem find_route_complete_witness:
  "findRoute0 ''a/b'' (fold tree_op [T_Add ''a/c'' (1::nat), T_Add ''*/b'' 2] SegmentTreeNode0) \<noteq> None"
proof -
  let ?t = "fold tree_op [T_Add ''a/c'' (1::nat), T_Add ''*/b'' 2] SegmentTreeNode0"
  have "no_optional ?t" "route_at [P_Splat, P_Fixed ''b''] ?t = Some 2" "path_segs ''a/b'' = [''a'', ''b'']" by code_simp+
  moreover have "matches [P_Splat, P_Fixed ''b''] [''a'', ''b''] [] [(''a'', ''a'')]" by (intro matches.intros)
  ultimately show ?thesis using find_route_complete [of ?t "[P_Splat, P_Fixed ''b'']" 2 "''a/b''"] by simp
qed

text \<open>
  With optional parameters a route can be hidden: at the end of the path an optional child is
  taken in place of the route of the node, and an optional parameter in the middle is not skipped.
\<close>

lemma optional_hides_route:
  "findRoute0 ''a'' (fold tree_op [T_Add ''a'' (1::nat), T_Add ''a/:x?/b'' 2] SegmentTreeNode0) = None"
  "findRoute0 ''a/b'' (fold tree_op [T_Add ''a/:x?/b'' (2::nat)] SegmentTreeNode0) = None"
  by code_simp+

section \<open>Dispatch\<close>

lemma sanitize_loop_nonempty: "dup \<noteq> [] \<or> path \<noteq> [] \<Longrightarrow> sanitize_loop dup path \<noteq> []"
  by (induction dup path rule: sanitize_loop.induct) auto

text \<open>The checks of the callers make sanitising total.\<close>

lemma sanitizeResource_total:
  assumes "resource \<noteq> []"
  shows "\<exists>path. sanitizeResource resource = Inr path"
proof -
  have "sanitize_loop [] resource \<noteq> []" using assms by (intro sanitize_loop_nonempty) simp
  then obtain c s where "sanitize_loop [] resource = c # s" by (cases "sanitize_loop [] resource") auto
  then show ?thesis by (simp add: sanitizeResource_def Let_def substr_def)
qed

lemma sanitizeResource_examples:
  "sanitizeResource ''//users///7/'' = Inr ''users/7''" "sanitizeResource ''/'' = Inr []"
  by code_simp+

definition has_route :: "('h, 'm, 'd) router \<Rightarrow> string \<Rightarrow> Method \<Rightarrow> bool" where
  "has_route r path meth \<longleftrightarrow> (\<exists>t. um_find (=) (ro_routes r) meth = Some t \<and> findRoute0 path t \<noteq> None)"

text \<open>Every method has one tree, and every tree is well-formed.\<close>

definition router_wf :: "('h, 'm, 'd) router \<Rightarrow> bool" where
  "router_wf r \<longleftrightarrow> distinct (map fst (ro_routes r)) \<and> (\<forall>mt \<in> set (ro_routes r). tree_wf (snd mt))"

lemma routes_wf_assign:
  "distinct (map fst rs) \<Longrightarrow> \<forall>mt \<in> set rs. tree_wf (snd mt) \<Longrightarrow> tree_wf t \<Longrightarrow>
   distinct (map fst (um_assign (=) meth t rs)) \<and> (\<forall>mt \<in> set (um_assign (=) meth t rs). tree_wf (snd mt))"
proof (induction rs)
  case (Cons x rs)
  then show ?case using keys_um_assign [of meth t rs] by (cases x) auto
qed simp

lemma router_wf_ops:
  assumes "router_wf r"
  shows "router_wf (snd (Router_addRoute meth resource h r))" "router_wf (snd (Router_removeRoute meth resource r))"
proof -
  have t: "tree_wf (routes_at meth (ro_routes r))"
    using assms by (auto simp: routes_at_def router_wf_def dest!: um_find_in_set split: option.split)
  have a: "router_wf (r\<lparr>ro_routes := um_assign (=) meth t' (ro_routes r)\<rparr>)" if "tree_wf t'" for t'
    using routes_wf_assign [OF _ _ that, of "ro_routes r" meth] assms by (simp add: router_wf_def)
  show "router_wf (snd (Router_addRoute meth resource h r))"
    using assms t a tree_wf_addRoute [OF t] by (auto simp: Router_addRoute_def case_prod_unfold split: sum.split)
  show "router_wf (snd (Router_removeRoute meth resource r))"
    using assms t a tree_wf_removeRoute [OF t] by (auto simp: Router_removeRoute_def case_prod_unfold split: sum.split)
qed

lemma supported_methods_iff:
  assumes "router_wf r" "msg_method req = Some meth"
  shows "meth' \<in> set (supported_methods path req (ro_routes r)) \<longleftrightarrow> meth' \<noteq> meth \<and> has_route r path meth'"
proof -
  have d: "distinct (map fst (ro_routes r))" using assms(1) by (simp add: router_wf_def)
  have "um_find (=) (ro_routes r) meth' = Some t \<longleftrightarrow> (meth', t) \<in> set (ro_routes r)" for t
    using um_find_in_set [of "ro_routes r" meth' t] um_find_distinct [OF d, of meth' t] by blast
  moreover have "meth' \<in> fst ` {x \<in> A. case x of (m, t) \<Rightarrow> Some meth \<noteq> Some m \<and> P t} \<longleftrightarrow> meth' \<noteq> meth \<and> (\<exists>t. (meth', t) \<in> A \<and> P t)"
    for A and P :: "'a SegmentTreeNode \<Rightarrow> bool"
    by force
  ultimately show ?thesis unfolding supported_methods_def has_route_def assms(2) set_map set_filter by (simp only:)
qed

lemma supported_methods_distinct: "router_wf r \<Longrightarrow> distinct (supported_methods path req (ro_routes r))"
  unfolding supported_methods_def router_wf_def by (simp add: distinct_map_filter)

lemma no_route_found:
  "\<not> has_route r path meth \<Longrightarrow> Option.bind (um_find (=) (ro_routes r) meth) (findRoute0 path) = None"
  by (cases "um_find (=) (ro_routes r) meth") (simp_all add: has_route_def del: not_None_eq)

lemma route_found_matches:
  assumes "router_wf r" "um_find (=) (ro_routes r) meth = Some t" "findRoute0 path t = Some (h, params, splats)"
  shows "\<exists>pats. route_at pats t = Some h \<and> matches pats (path_segs path) params splats"
proof -
  have "(meth, t) \<in> set (ro_routes r)" using assms(2) by (rule um_find_in_set)
  then have "tree_wf t" using assms(1) by (force simp: router_wf_def)
  with assms(3) show ?thesis by (simp add: findRoute_sound_node findRoute0_def)
qed

text \<open>
  C14: how a request is answered.  A middleware that stops it leaves nothing else to run.  When its
  method has a matching route, exactly one event follows, the call of a handler that is stored under
  a pattern which matches the path, with the parameters and splats of the match, on the request and
  the writer the middlewares left.  Otherwise the custom handlers are called, and one that takes the
  request ends the search.  Then, when other methods have a matching route, the answer on the
  original writer is 405 with exactly these methods, each once; otherwise the not-found handler is
  called, or 404 is sent (and an exception of that \<open>send\<close> leaves \<open>route\<close>).
\<close>

theorem router_answers:
  assumes "router_wf r" "msg_resource request \<noteq> []" "ResponseWriter_clone response = Some resp0"
    and "run_middlewares K (ro_middlewares r) request resp0 = (go, req, resp)" "msg_method req = Some meth"
    and "sanitizeResource (msg_resource request) = Inr path" "run_custom K (ro_customHandlers r) req resp0 = (taken, ev0)"
    and outcome: "out = Router_route E Z K r request response"
  shows "(\<not> go \<longrightarrow> out = Some (Inr (Match, [])))
    \<and> (go \<and> has_route r path meth \<longrightarrow>
         (\<exists>t pats h params splats. um_find (=) (ro_routes r) meth = Some t \<and> route_at pats t = Some h
           \<and> matches pats (path_segs path) params splats
           \<and> out = Some (Inr (Match, [Invoke h \<lparr>rq_request = req, rq_params = params, rq_splats = splats\<rparr> resp]))))
    \<and> (go \<and> \<not> has_route r path meth \<and> taken \<longrightarrow> out = Some (Inr (Match, ev0)))
    \<and> (go \<and> \<not> has_route r path meth \<and> \<not> taken \<and> (\<exists>meth'. has_route r path meth') \<longrightarrow>
         (\<exists>ms res we w. distinct ms \<and> (\<forall>meth'. meth' \<in> set ms \<longleftrightarrow> has_route r path meth')
           \<and> sendMethodNotAllowed E ms response = (res, we, w) \<and> out = Some (Inr (NotAllowed, ev0 @ [Sent res we]))))
    \<and> (go \<and> \<not> taken \<and> (\<forall>meth'. \<not> has_route r path meth') \<longrightarrow>
         (case ro_notFoundHandler r of
            Some h \<Rightarrow> out = Some (Inr (NotFound, ev0 @ [Invoke_NotFound h (plain_request req) response]))
          | None \<Rightarrow> \<exists>res we w. send E Z Code_Not_Found ''Could not find a matching route'' MediaType0 response = (res, we, w)
              \<and> out = Some (case res of Thrown e \<Rightarrow> Inl e | _ \<Rightarrow> Inr (NotFound, ev0 @ [Sent res we]))))"
proof (intro conjI impI; (elim conjE)?)
  show "out = Some (Inr (Match, []))" if "\<not> go" using that assms by (simp add: Router_route_def)
next
  assume go: go and r: "has_route r path meth"
  then obtain t h params splats where t: "um_find (=) (ro_routes r) meth = Some t" "findRoute0 path t = Some (h, params, splats)"
    by (auto simp: has_route_def)
  obtain pats where "route_at pats t = Some h" "matches pats (path_segs path) params splats"
    using route_found_matches [OF assms(1) t] by blast
  moreover have "out = Some (Inr (Match, [Invoke h \<lparr>rq_request = req, rq_params = params, rq_splats = splats\<rparr> resp]))"
    using go t assms by (simp add: Router_route_def)
  ultimately show "\<exists>t pats h params splats. um_find (=) (ro_routes r) meth = Some t \<and> route_at pats t = Some h
      \<and> matches pats (path_segs path) params splats
      \<and> out = Some (Inr (Match, [Invoke h \<lparr>rq_request = req, rq_params = params, rq_splats = splats\<rparr> resp]))"
    using t(1) by blast
next
  show "out = Some (Inr (Match, ev0))" if go "\<not> has_route r path meth" taken
    using that no_route_found [OF that(2)] assms by (simp add: Router_route_def)
next
  assume g: go "\<not> has_route r path meth" "\<not> taken" and other: "\<exists>meth'. has_route r path meth'"
  define ms where "ms = supported_methods path req (ro_routes r)"
  have ms: "meth' \<in> set ms \<longleftrightarrow> has_route r path meth'" for meth'
    using supported_methods_iff [OF assms(1,5)] g(2) by (auto simp: ms_def)
  have "ms \<noteq> []" using other ms by auto
  moreover have "distinct ms" using assms(1) by (simp add: ms_def supported_methods_distinct)
  moreover obtain res we w where "sendMethodNotAllowed E ms response = (res, we, w)" by (rule prod_cases3)
  ultimately show "\<exists>ms res we w. distinct ms \<and> (\<forall>meth'. meth' \<in> set ms \<longleftrightarrow> has_route r path meth')
      \<and> sendMethodNotAllowed E ms response = (res, we, w) \<and> out = Some (Inr (NotAllowed, ev0 @ [Sent res we]))"
    using g no_route_found [OF g(2)] assms ms
    by (intro exI [of _ ms] exI [of _ res] exI [of _ we] exI [of _ w]) (simp add: Router_route_def Let_def ms_def)
next
  assume g: go "\<not> taken" and no: "\<forall>meth'. \<not> has_route r path meth'"
  have "meth' \<notin> set (supported_methods path req (ro_routes r))" for meth'
    using supported_methods_iff [OF assms(1,5), of meth' path] no by simp
  then have s: "supported_methods path req (ro_routes r) = []" by (cases "supported_methods path req (ro_routes r)") auto
  obtain res we w where "send E Z Code_Not_Found ''Could not find a matching route'' MediaType0 response = (res, we, w)"
    by (rule prod_cases3)
  with g no no_route_found [of r path meth] assms s
  show "case ro_notFoundHandler r of
            Some h \<Rightarrow> out = Some (Inr (NotFound, ev0 @ [Invoke_NotFound h (plain_request req) response]))
          | None \<Rightarrow> \<exists>res we w. send E Z Code_Not_Found ''Could not find a matching route'' MediaType0 response = (res, we, w)
              \<and> out = Some (case res of Thrown e \<Rightarrow> Inl e | _ \<Rightarrow> Inr (NotFound, ev0 @ [Sent res we]))"
    by (cases "ro_notFoundHandler r"; cases res) (simp_all add: Router_route_def Let_def)
qed

definition sample_router :: "(nat, unit, unit) router" where
  "sample_router = snd (Router_addRoute Get ''/users/:id'' 1 (snd (Router_addRoute Put ''/users/:id'' 2 Router)))"

definition sample_callbacks :: "(nat, unit) callbacks" where
  "sample_callbacks = \<lparr>cb_middleware = (\<lambda>_ req resp. (True, req, resp)), cb_custom = (\<lambda>_ _ _. False)\<rparr>"

theorem router_answers_witness:
  "(\<exists>ms res we w. set ms = {Get, Put} \<and> sendMethodNotAllowed sample_env ms sample_writer = (res, we, w)
     \<and> Router_route sample_env no_compression sample_callbacks sample_router
         (Message0\<lparr>msg_method := Some Post, msg_resource := ''/users/7''\<rparr>) sample_writer = Some (Inr (NotAllowed, [Sent res we])))
   \<and> (\<exists>h pats params splats resp. matches pats [''users'', ''7''] params splats
     \<and> Router_route sample_env no_compression sample_callbacks sample_router
         (Message0\<lparr>msg_method := Some Get, msg_resource := ''/users/7''\<rparr>) sample_writer =
       Some (Inr (Match, [Invoke h \<lparr>rq_request = Message0\<lparr>msg_method := Some Get, msg_resource := ''/users/7''\<rparr>,
         rq_params = params, rq_splats = splats\<rparr> resp])))"
proof -
  let ?post = "Message0\<lparr>msg_method := Some Post, msg_resource := ''/users/7''\<rparr>"
  let ?get = "Message0\<lparr>msg_method := Some Get, msg_resource := ''/users/7''\<rparr>"
  have "router_wf Router" by (simp add: router_wf_def Router_def)
  then have wf: "router_wf sample_router" unfolding sample_router_def by (intro router_wf_ops)
  obtain w where w: "ResponseWriter_clone sample_writer = Some w"
    using sample_writer_fresh by (auto simp: ResponseWriter_clone_def DynamicStreamBuf_def DefaultStreamSize_def)
  have r: "ro_middlewares sample_router = []" "ro_customHandlers sample_router = []" by code_simp+
  have s: "sanitizeResource ''/users/7'' = Inr ''users/7''" "path_segs ''users/7'' = [''users'', ''7'']" by code_simp+
  have "\<forall>meth \<in> {Get, Put}. case um_find (=) (ro_routes sample_router) meth of Some t \<Rightarrow> findRoute0 ''users/7'' t \<noteq> None | None \<Rightarrow> False"
    by code_simp
  moreover have "set (map fst (ro_routes sample_router)) = {Get, Put}" by code_simp
  then have "um_find (=) (ro_routes sample_router) meth = Some t \<Longrightarrow> meth \<in> {Get, Put}" for meth t
    using um_find_in_set [of "ro_routes sample_router" meth t] by (metis fst_conv image_eqI set_map)
  ultimately have m: "has_route sample_router ''users/7'' meth \<longleftrightarrow> meth \<in> {Get, Put}" for meth
    unfolding has_route_def by (auto split: option.splits)
  have "\<not> has_route sample_router ''users/7'' Post \<and> (\<exists>meth. has_route sample_router ''users/7'' meth)"
    unfolding m by auto
  moreover note router_answers [OF wf _ w _ _ _ _ refl, of ?post sample_callbacks True ?post w Post "''users/7''" False "[]"
      sample_env no_compression, unfolded m]
  ultimately have a: "\<exists>ms res we w. set ms = {Get, Put} \<and> sendMethodNotAllowed sample_env ms sample_writer = (res, we, w)
      \<and> Router_route sample_env no_compression sample_callbacks sample_router ?post sample_writer = Some (Inr (NotAllowed, [Sent res we]))"
    using r s by (simp add: set_eq_iff) blast
  have "\<exists>h pats params splats resp. matches pats [''users'', ''7''] params splats
      \<and> Router_route sample_env no_compression sample_callbacks sample_router ?get sample_writer =
       Some (Inr (Match, [Invoke h \<lparr>rq_request = ?get, rq_params = params, rq_splats = splats\<rparr> resp]))"
    using router_answers [OF wf _ w _ _ _ _ refl, of ?get sample_callbacks True ?get w Get "''users/7''" False "[]"
        sample_env no_compression, unfolded m] r s by simp blast
  with a show ?thesis by blast
qed

end
