(* ===== verification/Message_Queue.thy ===== *)
theory Message_Queue
  imports Pist_Prelude
begin

text \<open>
  The multi-producer single-consumer queue of mailbox.h (\<open>Queue\<close>) and its pollable variant, which
  wakes the consumer through an eventfd (\<open>PollableQueue\<close>).  The entries live in an explicit heap;
  every operation is cut at its atomic accesses, an access to an entry that is not allocated or
  to data that is not constructed is the outcome \<open>Fault\<close>, and the threads are interleaved at
  will.  The atomics of the source are sequentially consistent or acquire a link that was released
  by a sequentially consistent store, so one shared state is enough.
\<close>

section \<open>Entries and the queue\<close>

type_synonym addr = nat
type_synonym thread = nat

record 'a Entry =
  storage :: "'a option"
  succ_ptr :: "addr option"

record 'a Queue =
  heap :: "addr \<rightharpoonup> 'a Entry"
  head :: addr
  tail :: addr

definition Entry_empty :: "'a Entry" where
  "Entry_empty = \<lparr>storage = None, succ_ptr = None\<rparr>"

definition Entry_of :: "'a \<Rightarrow> 'a Entry" where
  "Entry_of u = \<lparr>storage = Some u, succ_ptr = None\<rparr>"

definition Queue_init :: "addr \<Rightarrow> 'a Queue" where
  "Queue_init sentinel = \<lparr>heap = [sentinel \<mapsto> Entry_empty], head = sentinel, tail = sentinel\<rparr>"

text \<open>
  \<open>push\<close> is two accesses to shared memory: the exchange of the head, which returns the previous
  head, and the store of the link.  The address of the new entry is the one the allocator returns.
\<close>

definition push_exchange :: "'a \<Rightarrow> addr \<Rightarrow> 'a Queue \<Rightarrow> addr \<times> 'a Queue" where
  "push_exchange u entry q =
     (head q, q\<lparr>heap := (heap q)(entry \<mapsto> Entry_of u), head := entry\<rparr>)"

definition push_link :: "addr \<Rightarrow> addr \<Rightarrow> 'a Queue \<Rightarrow> 'a Queue option" where
  "push_link prev entry q =
     map_option (\<lambda>e. q\<lparr>heap := (heap q)(prev \<mapsto> e\<lparr>succ_ptr := Some entry\<rparr>)\<rparr>) (heap q prev)"

definition Queue_push :: "'a \<Rightarrow> addr \<Rightarrow> 'a Queue \<Rightarrow> 'a Queue option" where
  "Queue_push u entry q = (case push_exchange u entry q of (prev, q') \<Rightarrow> push_link prev entry q')"

text \<open>
  \<open>pop\<close> reads the link of the tail once; the moves that follow touch what only the consumer uses.
  The outer option is the access to memory, the inner one the null pointer the code returns.
\<close>

definition Queue_pop :: "'a Queue \<Rightarrow> (addr option \<times> 'a Queue) option" where
  "Queue_pop q =
     (case heap q (tail q) of
        None \<Rightarrow> None
      | Some res \<Rightarrow>
          (case succ_ptr res of
             None \<Rightarrow> Some (None, q)
           | Some n \<Rightarrow>
               (case heap q n of
                  None \<Rightarrow> None
                | Some e \<Rightarrow>
                    (case storage e of
                       None \<Rightarrow> None
                     | Some v \<Rightarrow>
                         Some (Some (tail q),
                           q\<lparr>heap := (heap q)(tail q \<mapsto> res\<lparr>storage := Some v\<rparr>,
                                              n \<mapsto> e\<lparr>storage := None\<rparr>),
                             tail := n\<rparr>)))))"

definition Queue_empty :: "'a Queue \<Rightarrow> bool" where
  "Queue_empty q \<longleftrightarrow> head q = tail q"

text \<open>What \<open>popSafe\<close> does with the entry it got: move the object out, destroy it, delete the entry.\<close>

definition take_entry :: "addr \<Rightarrow> 'a Queue \<Rightarrow> ('a \<times> 'a Queue) option" where
  "take_entry entry q =
     (case heap q entry of
        None \<Rightarrow> None
      | Some e \<Rightarrow> map_option (\<lambda>v. (v, q\<lparr>heap := (heap q)(entry := None)\<rparr>)) (storage e))"

definition popSafe :: "'a Queue \<Rightarrow> ('a option \<times> 'a Queue) option" where
  "popSafe q =
     (case Queue_pop q of
        None \<Rightarrow> None
      | Some (None, q') \<Rightarrow> Some (None, q')
      | Some (Some entry, q') \<Rightarrow> map_option (map_prod Some id) (take_entry entry q'))"

text \<open>The destructor; a null entry would be dereferenced.  The result is what is left allocated.\<close>

partial_function (option) Queue_destroy :: "'a Queue \<Rightarrow> (addr \<rightharpoonup> 'a Entry) option" where
  "Queue_destroy q =
     (if \<not> Queue_empty q then
        (case Queue_pop q of
           Some (Some entry, q') \<Rightarrow>
             (case take_entry entry q' of None \<Rightarrow> None | Some (v, q'') \<Rightarrow> Queue_destroy q'')
         | _ \<Rightarrow> None)
      else if tail q \<in> dom (heap q) then Some ((heap q)(tail q := None)) else None)"

section \<open>The pollable queue and its threads\<close>

text \<open>
  A producer is between the exchange and the link, or between the link and the write to the
  eventfd; the consumer is inside \<open>popSafe\<close> after its first \<open>pop\<close>, about to try again, or about
  to return.  The eventfd is its counter, absent while the queue is not bound.
\<close>

datatype prod_pc = P_Link addr addr | P_Write

datatype cons_pc = C_Idle | C_Popped "addr option" | C_Retry | C_Done "addr option"

record 'a PollableQueue =
  queue :: "'a Queue"
  event_fd :: "nat option"
  producers :: "thread \<rightharpoonup> prod_pc"
  consumer :: cons_pc

definition isBound :: "'a PollableQueue \<Rightarrow> bool" where
  "isBound w \<longleftrightarrow> event_fd w \<noteq> None"

text \<open>
  \<open>eventfd_write\<close> on a non-blocking eventfd fails when the counter would pass its maximum;
  \<open>eventfd_read\<close> fails on a zero counter and else resets it.
\<close>

definition efd_max :: nat where "efd_max = 2 ^ 64 - 2"

definition WRITE_EFD :: "nat \<Rightarrow> nat option" where
  "WRITE_EFD c = (if c + 1 > efd_max then None else Some (c + 1))"

definition READ_EFD :: "nat \<Rightarrow> nat option" where
  "READ_EFD c = (if c = 0 then None else Some 0)"

datatype 'a event = E_Sent 'a | E_Got 'a | E_Null | E_Thrown | E_Tau

datatype 'a outcome = Disabled | Fault | Step "'a event" "'a PollableQueue"

datatype 'a action =
    A_Push thread 'a addr
  | A_Link thread
  | A_Write thread
  | A_Pop
  | A_Read
  | A_Repop
  | A_Return

definition act_push :: "thread \<Rightarrow> 'a \<Rightarrow> addr \<Rightarrow> 'a PollableQueue \<Rightarrow> 'a outcome" where
  "act_push t u entry w =
     (if producers w t = None \<and> heap (queue w) entry = None then
        (case push_exchange u entry (queue w) of
           (prev, q) \<Rightarrow> Step (E_Sent u)
             (w\<lparr>queue := q, producers := (producers w)(t \<mapsto> P_Link prev entry)\<rparr>))
      else Disabled)"

definition act_link :: "thread \<Rightarrow> 'a PollableQueue \<Rightarrow> 'a outcome" where
  "act_link t w =
     (case producers w t of
        Some (P_Link prev entry) \<Rightarrow>
          (case push_link prev entry (queue w) of
             None \<Rightarrow> Fault
           | Some q \<Rightarrow> Step E_Tau (w\<lparr>queue := q, producers := (producers w)(t \<mapsto> P_Write)\<rparr>))
      | _ \<Rightarrow> Disabled)"

definition act_write :: "thread \<Rightarrow> 'a PollableQueue \<Rightarrow> 'a outcome" where
  "act_write t w =
     (case producers w t of
        Some P_Write \<Rightarrow>
          (let w' = w\<lparr>producers := (producers w)(t := None)\<rparr> in
           case event_fd w of
             None \<Rightarrow> Step E_Tau w'
           | Some c \<Rightarrow>
               (case WRITE_EFD c of
                  None \<Rightarrow> Step E_Thrown w'
                | Some c' \<Rightarrow> Step E_Tau (w'\<lparr>event_fd := Some c'\<rparr>)))
      | _ \<Rightarrow> Disabled)"

definition pop_into :: "(addr option \<Rightarrow> cons_pc) \<Rightarrow> 'a PollableQueue \<Rightarrow> 'a outcome" where
  "pop_into pc w =
     (case Queue_pop (queue w) of
        None \<Rightarrow> Fault
      | Some (ret, q) \<Rightarrow> Step E_Tau (w\<lparr>queue := q, consumer := pc ret\<rparr>))"

definition act_read :: "addr option \<Rightarrow> 'a PollableQueue \<Rightarrow> 'a PollableQueue" where
  "act_read ret w =
     (case event_fd w of
        None \<Rightarrow> w\<lparr>consumer := C_Done ret\<rparr>
      | Some c \<Rightarrow>
          (case READ_EFD c of
             None \<Rightarrow> w\<lparr>consumer := C_Done ret\<rparr>
           | Some c' \<Rightarrow> w\<lparr>event_fd := Some c',
                          consumer := (if ret = None then C_Retry else C_Done ret)\<rparr>))"

definition act_return :: "addr option \<Rightarrow> 'a PollableQueue \<Rightarrow> 'a outcome" where
  "act_return ret w =
     (case ret of
        None \<Rightarrow> Step E_Null (w\<lparr>consumer := C_Idle\<rparr>)
      | Some entry \<Rightarrow>
          (case take_entry entry (queue w) of
             None \<Rightarrow> Fault
           | Some (v, q) \<Rightarrow> Step (E_Got v) (w\<lparr>queue := q, consumer := C_Idle\<rparr>)))"

fun act :: "'a action \<Rightarrow> 'a PollableQueue \<Rightarrow> 'a outcome" where
  "act (A_Push t u entry) w = act_push t u entry w"
| "act (A_Link t) w = act_link t w"
| "act (A_Write t) w = act_write t w"
| "act A_Pop w = (case consumer w of C_Idle \<Rightarrow> pop_into C_Popped w | _ \<Rightarrow> Disabled)"
| "act A_Read w = (case consumer w of C_Popped ret \<Rightarrow> Step E_Tau (act_read ret w) | _ \<Rightarrow> Disabled)"
| "act A_Repop w = (case consumer w of C_Retry \<Rightarrow> pop_into C_Done w | _ \<Rightarrow> Disabled)"
| "act A_Return w = (case consumer w of C_Done ret \<Rightarrow> act_return ret w | _ \<Rightarrow> Disabled)"

definition PollableQueue_init :: "addr \<Rightarrow> nat option \<Rightarrow> 'a PollableQueue" where
  "PollableQueue_init sentinel efd =
     \<lparr>queue = Queue_init sentinel, event_fd = efd, producers = Map.empty, consumer = C_Idle\<rparr>"

text \<open>\<open>bind\<close> makes a fresh eventfd with a zero counter, \<open>unbind\<close> closes it.\<close>

definition PollableQueue_bind :: "'a PollableQueue \<Rightarrow> 'a PollableQueue result" where
  "PollableQueue_bind w =
     (if isBound w then Inl (Runtime_Error ''The queue has already been bound'')
      else Inr (w\<lparr>event_fd := Some 0\<rparr>))"

definition PollableQueue_unbind :: "'a PollableQueue \<Rightarrow> 'a PollableQueue" where
  "PollableQueue_unbind w = (if \<not> isBound w then w else w\<lparr>event_fd := None\<rparr>)"

text \<open>The states that any interleaving reaches, with the events so far, the latest first.\<close>

inductive reaches :: "'a PollableQueue \<Rightarrow> 'a event list \<Rightarrow> 'a PollableQueue \<Rightarrow> bool"
  for w0 :: "'a PollableQueue"
  where
    start: "reaches w0 [] w0"
  | step: "reaches w0 tr w \<Longrightarrow> act a w = Step ev w' \<Longrightarrow> reaches w0 (ev # tr) w'"

text \<open>The values sent and received so far, in the order of the exchanges and of the returns.\<close>

fun sent :: "'a event list \<Rightarrow> 'a list" where
  "sent [] = []"
| "sent (E_Sent v # tr) = sent tr @ [v]"
| "sent (_ # tr) = sent tr"

fun got :: "'a event list \<Rightarrow> 'a list" where
  "got [] = []"
| "got (E_Got v # tr) = got tr @ [v]"
| "got (_ # tr) = got tr"

text \<open>The last \<open>popSafe\<close> that returned, if any, returned null.\<close>

fun drained :: "'a event list \<Rightarrow> bool" where
  "drained [] = True"
| "drained (E_Got _ # _) = False"
| "drained (E_Null # _) = True"
| "drained (_ # tr) = drained tr"

section \<open>The chain of entries\<close>

definition nxt :: "'a Queue \<Rightarrow> addr \<Rightarrow> addr option" where
  "nxt q a = Option.bind (heap q a) succ_ptr"

definition data :: "'a Queue \<Rightarrow> addr \<Rightarrow> 'a option" where
  "data q a = Option.bind (heap q a) storage"

definition linked :: "'a Queue \<Rightarrow> (thread \<rightharpoonup> prod_pc) \<Rightarrow> addr \<Rightarrow> addr \<Rightarrow> bool" where
  "linked q P a b \<longleftrightarrow> nxt q a = Some b \<or> (\<exists>t. P t = Some (P_Link a b))"

text \<open>
  The links that producers are about to store leave from different entries of \<open>as\<close> that have none.
\<close>

definition flights :: "'a Queue \<Rightarrow> (thread \<rightharpoonup> prod_pc) \<Rightarrow> addr list \<Rightarrow> bool" where
  "flights q P as \<longleftrightarrow>
     (\<forall>t a b. P t = Some (P_Link a b) \<longrightarrow> a \<in> set (butlast as) \<and> nxt q a = None) \<and>
     (\<forall>t t' a b b'. P t = Some (P_Link a b) \<longrightarrow> P t' = Some (P_Link a b') \<longrightarrow> t = t')"

text \<open>
  From the tail to the head the entries form a chain whose missing links are exactly the ones a
  producer is about to store; all but the tail hold data.
\<close>

definition chain :: "'a Queue \<Rightarrow> (thread \<rightharpoonup> prod_pc) \<Rightarrow> addr list \<Rightarrow> 'a list \<Rightarrow> bool" where
  "chain q P as vs \<longleftrightarrow>
     as \<noteq> [] \<and> hd as = tail q \<and> last as = head q \<and> distinct as \<and> set as \<subseteq> dom (heap q) \<and>
     successively (linked q P) as \<and> nxt q (head q) = None \<and>
     map (data q) (tl as) = map Some vs \<and> flights q P as"

lemma successively_cong_set:
  "successively P xs \<Longrightarrow> (\<And>x y. x \<in> set (butlast xs) \<Longrightarrow> P x y \<Longrightarrow> Q x y) \<Longrightarrow> successively Q xs"
  by (induction xs rule: induct_list012) auto

lemma flightsI:
  assumes "\<And>t a b. P t = Some (P_Link a b) \<Longrightarrow> a \<in> set (butlast as) \<and> nxt q a = None"
    "\<And>t t' a b b'. P t = Some (P_Link a b) \<Longrightarrow> P t' = Some (P_Link a b') \<Longrightarrow> t = t'"
  shows "flights q P as"
  using assms unfolding flights_def by blast

lemma chain_flight:
  assumes "chain q P as vs" "P t = Some (P_Link a b)"
  shows "nxt q a = None" "a \<in> set (butlast as)" "P t' = Some (P_Link a b') \<Longrightarrow> t' = t"
  using assms unfolding chain_def flights_def by blast+

lemma chain_init [simp]: "chain (Queue_init s) Map.empty [s] []"
  by (simp add: chain_def flights_def Queue_init_def nxt_def Entry_empty_def)

lemma chain_head_mem: "chain q P as vs \<Longrightarrow> head q \<in> set as"
  by (metis chain_def last_in_set)

lemma head_not_in_butlast: "chain q P as vs \<Longrightarrow> head q \<notin> set (butlast as)"
  by (metis append_butlast_last_id chain_def distinct_butlast not_distinct_conv_prefix)

lemma chain_push:
  assumes c: "chain q P as vs" and fresh: "heap q entry = None" and t: "P t = None"
    and e: "push_exchange u entry q = (prev, q')"
  shows "chain q' (P(t \<mapsto> P_Link prev entry)) (as @ [entry]) (vs @ [u])"
proof -
  let ?P = "P(t \<mapsto> P_Link prev entry)"
  have q': "prev = head q" "q' = q\<lparr>heap := (heap q)(entry \<mapsto> Entry_of u), head := entry\<rparr>"
    using e by (auto simp: push_exchange_def)
  have notin: "entry \<notin> set as" using c fresh by (auto simp: chain_def)
  have nxt': "nxt q' a = (if a = entry then None else nxt q a)" for a
    by (simp add: nxt_def q' Entry_of_def)
  have data': "data q' a = (if a = entry then Some u else data q a)" for a
    by (simp add: data_def q' Entry_of_def)
  have sub: "a \<in> set (butlast as) \<Longrightarrow> a \<in> set as" for a by (rule in_set_butlastD)
  have "successively (linked q' ?P) as"
  proof (rule successively_cong_set)
    show "successively (linked q P) as" using c by (simp add: chain_def)
    fix x y assume "x \<in> set (butlast as)" "linked q P x y"
    then show "linked q' ?P x y"
      using notin t sub[of x] unfolding linked_def nxt' by (metis fun_upd_apply option.distinct(1))
  qed
  moreover have "map (data q') (tl as) = map (data q) (tl as)"
    using notin by (cases as) (auto simp: data')
  moreover have "linked q' ?P (last as) entry" using c by (auto simp: linked_def chain_def q')
  moreover have "flights q' ?P (as @ [entry])"
  proof (rule flightsI)
    show "a \<in> set (butlast (as @ [entry])) \<and> nxt q' a = None" if "?P t' = Some (P_Link a b)" for t' a b
    proof (cases "t' = t")
      case True
      then have "a = head q" using that q'(1) by simp
      then show ?thesis using chain_head_mem[OF c] c by (simp add: nxt' chain_def)
    next
      case False
      then have p: "P t' = Some (P_Link a b)" using that by simp
      then show ?thesis using chain_flight(1,2)[OF c p] sub[of a] by (simp add: nxt')
    qed
    show "t1 = t2" if "?P t1 = Some (P_Link a b)" "?P t2 = Some (P_Link a b')" for t1 t2 a b b'
      using that chain_flight(2)[OF c] chain_flight(3)[OF c] head_not_in_butlast[OF c]
      unfolding q'(1) by (metis fun_upd_apply option.inject prod_pc.inject(1))
  qed
  moreover have "tail q' = tail q" "head q' = entry" "dom (heap q') = insert entry (dom (heap q))"
    by (simp_all add: q'(2))
  moreover have "map (data q) (tl as) = map Some vs" using c by (simp add: chain_def)
  ultimately show ?thesis
    using c notin unfolding chain_def[of q] chain_def[of q']
    by (simp add: nxt' data' successively_append_iff subset_insertI2 del: map_eq_conv)
qed

lemma chain_link:
  assumes c: "chain q P as vs" and t: "P t = Some (P_Link prev entry)"
  obtains q' where "push_link prev entry q = Some q'" "chain q' (P(t \<mapsto> P_Write)) as vs"
    "dom (heap q') = dom (heap q)" "data q' = data q"
proof -
  note a = chain_flight(1,2)[OF c t]
  then obtain e where e: "heap q prev = Some e" "succ_ptr e = None"
    using c by (auto simp: chain_def nxt_def dest: in_set_butlastD)
  define q' where "q' = q\<lparr>heap := (heap q)(prev \<mapsto> e\<lparr>succ_ptr := Some entry\<rparr>)\<rparr>"
  have uniq: "P t' = Some (P_Link prev b) \<Longrightarrow> t' = t" for t' b using chain_flight(3)[OF c t] .
  have nxt': "nxt q' a = (if a = prev then Some entry else nxt q a)" for a
    by (simp add: nxt_def q'_def)
  have data': "data q' = data q" by (rule ext) (simp add: data_def q'_def e)
  have "successively (linked q' (P(t \<mapsto> P_Write))) as"
  proof (rule successively_cong_set)
    show "successively (linked q P) as" using c by (simp add: chain_def)
    fix x y assume "linked q P x y"
    then show "linked q' (P(t \<mapsto> P_Write)) x y"
      using a(1) t uniq unfolding linked_def nxt'
      by (metis fun_upd_apply option.distinct(1) option.inject prod_pc.inject)
  qed
  moreover have "flights q' (P(t \<mapsto> P_Write)) as"
  proof (rule flightsI)
    show "x \<in> set (butlast as) \<and> nxt q' x = None" if "(P(t \<mapsto> P_Write)) t' = Some (P_Link x b)" for t' x b
    proof -
      have p: "t' \<noteq> t" "P t' = Some (P_Link x b)" using that by (auto split: if_splits)
      then show ?thesis using chain_flight(1,2)[OF c p(2)] uniq[of t' b] by (auto simp: nxt')
    qed
    show "t1 = t2" if "(P(t \<mapsto> P_Write)) t1 = Some (P_Link x b)"
      "(P(t \<mapsto> P_Write)) t2 = Some (P_Link x b')" for t1 t2 x b b'
      using that chain_flight(3)[OF c, of t1 x b t2 b'] by (auto split: if_splits)
  qed
  moreover have "nxt q' (head q) = nxt q (head q)"
    using head_not_in_butlast[OF c] a(2) by (auto simp: nxt')
  moreover have "tail q' = tail q" "head q' = head q" "dom (heap q') = dom (heap q)"
    using e by (auto simp: q'_def)
  ultimately have "chain q' (P(t \<mapsto> P_Write)) as vs"
    using c unfolding chain_def by (simp add: data')
  then show thesis
    using that[of q'] e data' by (auto simp: push_link_def q'_def)
qed

lemma chain_write:
  assumes c: "chain q P as vs" and t: "P t = Some P_Write"
  shows "chain q (P(t := None)) as vs"
proof -
  have "linked q (P(t := None)) = linked q P"
    using t unfolding linked_def
    by (intro ext) (metis fun_upd_apply option.distinct(1) option.inject prod_pc.distinct(1))
  moreover have "flights q (P(t := None)) as"
    using c unfolding chain_def flights_def by (metis fun_upd_apply option.distinct(1))
  ultimately show ?thesis using c by (simp add: chain_def)
qed

text \<open>
  What a \<open>pop\<close> finds: nothing, when the queue is empty or its first link is not yet stored, or
  the oldest value, which it moves into the entry it returns.
\<close>

lemma chain_pop_cases:
  assumes c: "chain q P as vs"
  obtains (null) "Queue_pop q = Some (None, q)" "nxt q (tail q) = None"
      "vs \<noteq> [] \<Longrightarrow> \<exists>t b. P t = Some (P_Link (tail q) b)"
  | (entry) n as' v vs' q' where "as = tail q # n # as'" "vs = v # vs'"
      "Queue_pop q = Some (Some (tail q), q')" "chain q' P (n # as') vs'"
      "data q' (tail q) = Some v" "dom (heap q') = dom (heap q)"
proof (cases "nxt q (tail q)")
  case None
  have m: "tail q \<in> set as" using c by (metis chain_def hd_in_set)
  then have "Queue_pop q = Some (None, q)"
    using c None by (auto simp: Queue_pop_def chain_def nxt_def split: option.splits)
  moreover have "\<exists>t b. P t = Some (P_Link (tail q) b)" if "vs \<noteq> []"
  proof -
    have "tl as \<noteq> []" using c that unfolding chain_def by (metis map_is_Nil_conv)
    then obtain n as' where "as = tail q # n # as'"
      using c unfolding chain_def by (metis list.collapse)
    then show ?thesis using c None by (auto simp: chain_def linked_def)
  qed
  ultimately show thesis using null None by blast
next
  case (Some n)
  obtain r where r: "heap q (tail q) = Some r" "succ_ptr r = Some n"
    using Some by (auto simp: nxt_def bind_eq_Some_conv)
  have ne: "head q \<noteq> tail q" using c Some by (auto simp: chain_def)
  then obtain n' as' where as: "as = tail q # n' # as'"
    using c unfolding chain_def by (metis last.simps list.collapse)
  moreover have "linked q P (tail q) n'" using c as by (simp add: chain_def)
  ultimately have n': "n' = n"
    using Some chain_flight(1)[OF c, of _ "tail q"] unfolding linked_def by force
  then obtain v vs' where vs: "vs = v # vs'" and dn: "data q n = Some v"
    using c as by (cases vs) (auto simp: chain_def)
  obtain e where e: "heap q n = Some e" "storage e = Some v"
    using dn by (auto simp: data_def bind_eq_Some_conv)
  define q' where "q' = q\<lparr>heap := (heap q)(tail q \<mapsto> r\<lparr>storage := Some v\<rparr>,
      n \<mapsto> e\<lparr>storage := None\<rparr>), tail := n\<rparr>"
  have dist: "tail q \<noteq> n" "tail q \<notin> set as'" "n \<notin> set as'"
    using c as n' by (auto simp: chain_def)
  have nxt': "nxt q' = nxt q" by (rule ext) (auto simp: nxt_def q'_def r e)
  have data': "data q' a = (if a = n then None else if a = tail q then Some v else data q a)" for a
    by (simp add: data_def q'_def)
  have "linked q' P = linked q P" by (intro ext) (simp add: linked_def nxt')
  moreover have "map (data q') as' = map (data q) as'" using dist by (auto simp: data')
  from this[symmetric] have "map (data q') as' = map Some vs'"
    using c as vs unfolding chain_def by (simp del: map_eq_conv)
  moreover have "flights q' P (n # as')"
  proof (rule flightsI)
    show "a \<in> set (butlast (n # as')) \<and> nxt q' a = None" if "P t = Some (P_Link a b)" for t a b
      using chain_flight[OF c that] Some as n' unfolding nxt' by (cases "a = tail q") auto
  qed (rule chain_flight(3)[OF c])
  moreover have "tail q' = n" "head q' = head q" "dom (heap q') = dom (heap q)"
    using r e by (auto simp: q'_def)
  ultimately have "chain q' P (n # as') vs'"
    using c as n' unfolding chain_def by (simp add: nxt')
  moreover have "Queue_pop q = Some (Some (tail q), q')"
    by (simp add: Queue_pop_def r e q'_def)
  moreover have "dom (heap q') = dom (heap q)" using r e by (auto simp: q'_def)
  ultimately show thesis using entry as n' vs data' dist(1) by auto
qed

lemma chain_free:
  assumes c: "chain q P as vs" and r: "r \<notin> set as"
  shows "chain (q\<lparr>heap := (heap q)(r := None)\<rparr>) P as vs"
proof -
  let ?q = "q\<lparr>heap := (heap q)(r := None)\<rparr>"
  have on: "nxt ?q a = nxt q a" "data ?q a = data q a" if "a \<in> set as" for a
    using that r by (auto simp: nxt_def data_def)
  have "successively (linked ?q P) as"
    using c on in_set_butlastD by (fastforce simp: chain_def linked_def intro: successively_cong_set)
  moreover have "map (data ?q) (tl as) = map (data q) (tl as)"
    using on(2) by (cases as) auto
  moreover have "flights ?q P as"
  proof (rule flightsI)
    show "a \<in> set (butlast as) \<and> nxt ?q a = None" if "P t = Some (P_Link a b)" for t a b
      using chain_flight(1,2)[OF c that] on(1)[OF in_set_butlastD] by simp
  qed (rule chain_flight(3)[OF c])
  ultimately show ?thesis
    using c r chain_head_mem[OF c] on(1)[of "head q"] unfolding chain_def
    by (simp del: map_eq_conv) blast
qed

section \<open>The invariant of the interleavings\<close>

fun held :: "cons_pc \<Rightarrow> addr option" where
  "held (C_Popped r) = r"
| "held (C_Done r) = r"
| "held _ = None"

text \<open>The consumer has found nothing and will wait for the eventfd, or has done so.\<close>

fun waiting :: "'a event list \<Rightarrow> cons_pc \<Rightarrow> bool" where
  "waiting tr C_Idle \<longleftrightarrow> drained tr"
| "waiting tr (C_Popped r) \<longleftrightarrow> r = None"
| "waiting tr (C_Done r) \<longleftrightarrow> r = None"
| "waiting tr C_Retry \<longleftrightarrow> False"

definition signalled :: "'a PollableQueue \<Rightarrow> bool" where
  "signalled w \<longleftrightarrow> (\<exists>t. producers w t \<noteq> None) \<or> event_fd w \<noteq> Some 0"

text \<open>The entry that the consumer holds is out of the chain; nothing else is allocated.\<close>

definition holds :: "'a Queue \<Rightarrow> addr list \<Rightarrow> addr option \<Rightarrow> 'a list \<Rightarrow> bool" where
  "holds q as r hs \<longleftrightarrow>
     (case r of
        None \<Rightarrow> hs = [] \<and> dom (heap q) = set as
      | Some a \<Rightarrow> (\<exists>v. hs = [v] \<and> a \<notin> set as \<and> data q a = Some v \<and> dom (heap q) = insert a (set as)))"

definition pq_inv :: "'a event list \<Rightarrow> 'a PollableQueue \<Rightarrow> bool" where
  "pq_inv tr w \<longleftrightarrow>
     (\<exists>as vs hs. chain (queue w) (producers w) as vs \<and> holds (queue w) as (held (consumer w)) hs \<and>
        sent tr = got tr @ hs @ vs \<and> (waiting tr (consumer w) \<and> vs \<noteq> [] \<longrightarrow> signalled w))"

lemma pq_invI:
  assumes "chain (queue w) (producers w) as vs" "holds (queue w) as (held (consumer w)) hs"
    "sent tr = got tr @ hs @ vs" "waiting tr (consumer w) \<Longrightarrow> vs \<noteq> [] \<Longrightarrow> signalled w"
  shows "pq_inv tr w"
  using assms unfolding pq_inv_def by blast

lemma pq_inv_init: "pq_inv [] (PollableQueue_init s efd)"
  by (rule pq_invI[of _ "[s]" "[]" "[]"])
    (simp_all add: PollableQueue_init_def holds_def Queue_init_def[of s] chain_init[unfolded Queue_init_def])

lemma inv_push:
  assumes i: "pq_inv tr w" and a: "act_push t u entry w = Step ev w'"
  shows "pq_inv (ev # tr) w'"
proof -
  obtain as vs hs where c: "chain (queue w) (producers w) as vs"
    and h: "holds (queue w) as (held (consumer w)) hs" and s: "sent tr = got tr @ hs @ vs"
    using i unfolding pq_inv_def by blast
  have f: "producers w t = None" "heap (queue w) entry = None" and ev: "ev = E_Sent u"
    and w': "w' = w\<lparr>queue := snd (push_exchange u entry (queue w)),
      producers := (producers w)(t \<mapsto> P_Link (fst (push_exchange u entry (queue w))) entry)\<rparr>"
    using a by (auto simp: act_push_def split: if_splits prod.splits)
  have "chain (queue w') (producers w') (as @ [entry]) (vs @ [u])"
    using chain_push[OF c f(2) f(1)] by (simp add: w' push_exchange_def)
  moreover have "holds (queue w') (as @ [entry]) (held (consumer w')) hs"
    using h f by (auto simp: holds_def w' push_exchange_def data_def Entry_of_def split: option.splits)
  ultimately show ?thesis
    using s ev by (intro pq_invI) (auto simp: signalled_def w')
qed

lemma inv_link:
  assumes i: "pq_inv tr w" and t: "producers w t = Some (P_Link prev entry)"
  shows "\<exists>w'. act_link t w = Step E_Tau w' \<and> pq_inv (E_Tau # tr) w'"
proof -
  obtain as vs hs where c: "chain (queue w) (producers w) as vs"
    and h: "holds (queue w) as (held (consumer w)) hs" and s: "sent tr = got tr @ hs @ vs"
    using i unfolding pq_inv_def by blast
  obtain q' where q': "push_link prev entry (queue w) = Some q'"
    "chain q' ((producers w)(t \<mapsto> P_Write)) as vs" "dom (heap q') = dom (heap (queue w))"
    "data q' = data (queue w)"
    using chain_link[OF c t] .
  then have "holds q' as (held (consumer w)) hs"
    using h by (simp add: holds_def split: option.splits)
  then show ?thesis
    using q' s t unfolding act_link_def
    by (auto intro!: pq_invI[where as = as and vs = vs and hs = hs] simp: signalled_def)
qed

lemma inv_write:
  assumes i: "pq_inv tr w" and t: "producers w t = Some P_Write"
  shows "\<exists>ev w'. act_write t w = Step ev w' \<and> pq_inv (ev # tr) w'"
proof -
  obtain as vs hs where c: "chain (queue w) (producers w) as vs"
    and h: "holds (queue w) as (held (consumer w)) hs" and s: "sent tr = got tr @ hs @ vs"
    using i unfolding pq_inv_def by blast
  note c' = chain_write[OF c t]
  have "waiting (E_Thrown # tr) (consumer w) = waiting tr (consumer w)"
    "waiting (E_Tau # tr) (consumer w) = waiting tr (consumer w)"
    by (cases "consumer w"; simp)+
  then show ?thesis
    using c' h s t unfolding act_write_def Let_def WRITE_EFD_def
    by (auto intro!: pq_invI[where as = as and vs = vs and hs = hs]
        simp: signalled_def efd_max_def split: option.splits)
qed

lemma inv_pop:
  assumes i: "pq_inv tr w" and idle: "held (consumer w) = None"
    and pc: "pc = C_Popped \<or> pc = C_Done"
  shows "\<exists>w'. pop_into pc w = Step E_Tau w' \<and> pq_inv (E_Tau # tr) w'"
proof -
  obtain as vs hs where c: "chain (queue w) (producers w) as vs"
    and h: "holds (queue w) as (held (consumer w)) hs" and s: "sent tr = got tr @ hs @ vs"
    using i unfolding pq_inv_def by blast
  have h': "hs = []" "dom (heap (queue w)) = set as" using h idle by (simp_all add: holds_def)
  have held_pc: "held (pc r) = r" "waiting (E_Tau # tr) (pc r) \<longleftrightarrow> r = None" for r
    using pc by auto
  show ?thesis
    using c
  proof (cases rule: chain_pop_cases)
    case null
    then have "signalled (w\<lparr>consumer := pc None\<rparr>)" if "vs \<noteq> []"
      using that by (auto simp: signalled_def)
    then show ?thesis
      using null(1) c h' s held_pc
      by (auto intro!: pq_invI[where as = as and vs = vs and hs = "[]"] simp: pop_into_def holds_def)
  next
    case (entry n as' v vs' q')
    then have "tail (queue w) \<notin> set (n # as')" using c by (auto simp: chain_def)
    then show ?thesis
      using entry h' s held_pc
      by (auto intro!: pq_invI[where as = "n # as'" and vs = vs' and hs = "[v]"]
          simp: pop_into_def holds_def)
  qed
qed

lemma inv_read:
  assumes i: "pq_inv tr w" and pc: "consumer w = C_Popped ret"
  shows "pq_inv (E_Tau # tr) (act_read ret w)"
proof -
  obtain as vs hs where c: "chain (queue w) (producers w) as vs"
    and h: "holds (queue w) as ret hs" and s: "sent tr = got tr @ hs @ vs"
    and sg: "ret = None \<Longrightarrow> vs \<noteq> [] \<Longrightarrow> signalled w"
    using i pc unfolding pq_inv_def by auto
  show ?thesis
    using c h s sg unfolding act_read_def READ_EFD_def
    by (intro pq_invI[where as = as and vs = vs and hs = hs])
      (auto simp: signalled_def split: option.splits)
qed

lemma inv_return:
  assumes i: "pq_inv tr w" and pc: "consumer w = C_Done ret"
  shows "\<exists>ev w'. act_return ret w = Step ev w' \<and> pq_inv (ev # tr) w'"
proof -
  obtain as vs hs where c: "chain (queue w) (producers w) as vs"
    and h: "holds (queue w) as ret hs" and s: "sent tr = got tr @ hs @ vs"
    and sg: "ret = None \<Longrightarrow> vs \<noteq> [] \<Longrightarrow> signalled w"
    using i pc unfolding pq_inv_def by auto
  show ?thesis
  proof (cases ret)
    case None
    then show ?thesis
      using c h s sg unfolding act_return_def
      by (auto intro!: pq_invI[where as = as and vs = vs and hs = "[]"] simp: signalled_def holds_def)
  next
    case (Some r)
    then obtain v e where v: "hs = [v]" "r \<notin> set as" "dom (heap (queue w)) = insert r (set as)"
      "heap (queue w) r = Some e" "storage e = Some v"
      using h by (auto simp: holds_def data_def bind_eq_Some_conv)
    then show ?thesis
      using chain_free[OF c v(2)] s Some unfolding act_return_def take_entry_def
      by (auto intro!: pq_invI[where as = as and vs = vs and hs = "[]"] simp: holds_def)
  qed
qed

lemma act_safe:
  assumes i: "pq_inv tr w"
  shows "act a w = Disabled \<or> (\<exists>ev w'. act a w = Step ev w' \<and> pq_inv (ev # tr) w')"
proof (cases a)
  case (A_Push t u entry)
  then show ?thesis
    using inv_push[OF i, of t u entry] by (cases "act_push t u entry w") (auto simp: act_push_def split: if_splits prod.splits)
next
  case (A_Link t)
  then show ?thesis
    using inv_link[OF i, of t] by (auto simp: act_link_def split: option.splits prod_pc.splits)
next
  case (A_Write t)
  then show ?thesis
    using inv_write[OF i, of t]
    by (cases "producers w t = Some P_Write") (auto simp: act_write_def split: option.splits prod_pc.splits)
next
  case A_Pop
  then show ?thesis using inv_pop[OF i, of C_Popped] by (auto split: cons_pc.splits)
next
  case A_Read
  then show ?thesis using inv_read[OF i] by (auto split: cons_pc.splits)
next
  case A_Repop
  then show ?thesis using inv_pop[OF i, of C_Done] by (auto split: cons_pc.splits)
next
  case A_Return
  then show ?thesis using inv_return[OF i] by (auto split: cons_pc.splits)
qed

lemma reaches_inv:
  "reaches w0 tr w \<Longrightarrow> w0 = PollableQueue_init s efd \<Longrightarrow> pq_inv tr w"
proof (induction rule: reaches.induct)
  case start
  then show ?case by (simp add: pq_inv_init)
next
  case (step tr w a ev w')
  then show ?case using act_safe[of tr w a] by auto
qed

text \<open>The values that are in the queue of a quiescent state are the ones sent and not received.\<close>

lemma inv_quiescent_empty:
  assumes "pq_inv tr w" "consumer w = C_Idle" "drained tr" "producers w = Map.empty" "event_fd w = Some 0"
  shows "got tr = sent tr"
  using assms unfolding pq_inv_def by (auto simp: holds_def signalled_def)

lemma inv_prefix: "pq_inv tr w \<Longrightarrow> prefix (got tr) (sent tr)"
  unfolding pq_inv_def by (metis prefixI)

section \<open>The queue as a first-in first-out container\<close>

text \<open>
  The contract of a queue that one thread uses: \<open>put\<close> may refuse, \<open>take\<close> returns the oldest
  value.  The items that are put carry what the implementation needs beside the value.
\<close>

primrec put_all :: "('i \<Rightarrow> 'q \<Rightarrow> 'q option) \<Rightarrow> 'i list \<Rightarrow> 'q \<Rightarrow> 'q option" where
  "put_all put [] q = Some q"
| "put_all put (i # is) q = Option.bind (put i q) (put_all put is)"

primrec take_many :: "('q \<Rightarrow> ('a \<times> 'q) option) \<Rightarrow> nat \<Rightarrow> 'q \<Rightarrow> 'a list \<times> 'q" where
  "take_many get 0 q = ([], q)"
| "take_many get (Suc n) q =
     (case get q of None \<Rightarrow> ([], q) | Some (v, q') \<Rightarrow> apfst ((#) v) (take_many get n q'))"

locale fifo =
  fixes rep :: "'q \<Rightarrow> 'a list \<Rightarrow> bool" and put :: "'i \<Rightarrow> 'q \<Rightarrow> 'q option" and val :: "'i \<Rightarrow> 'a"
    and get :: "'q \<Rightarrow> ('a \<times> 'q) option"
  assumes put_rep: "rep q xs \<Longrightarrow> put i q = Some q' \<Longrightarrow> rep q' (xs @ [val i])"
    and get_some: "rep q (x # xs) \<Longrightarrow> \<exists>q'. get q = Some (x, q') \<and> rep q' xs"
    and get_none: "rep q [] \<Longrightarrow> get q = None"
begin

lemma put_all_rep: "rep q xs \<Longrightarrow> put_all put is q = Some q' \<Longrightarrow> rep q' (xs @ map val is)"
proof (induction "is" arbitrary: q xs)
  case (Cons i "is")
  then obtain q1 where "put i q = Some q1" "put_all put is q1 = Some q'"
    by (auto simp: bind_eq_Some_conv)
  then show ?case using Cons put_rep[of q xs i q1] by fastforce
qed simp

lemma take_many_rep:
  "rep q xs \<Longrightarrow> \<exists>q'. take_many get n q = (take n xs, q') \<and> rep q' (drop n xs)"
proof (induction n arbitrary: q xs)
  case (Suc n)
  then show ?case
    using get_none[of q] get_some[of q "hd xs" "tl xs"] by (cases xs) force+
qed simp

lemma put_take:
  assumes "rep q []" "put_all put is q = Some q'"
  shows "fst (take_many get (length is) q') = map val is"
  using take_many_rep[OF put_all_rep[OF assms], of "length is"] by auto

end

definition Queue_rep :: "'a Queue \<Rightarrow> 'a list \<Rightarrow> bool" where
  "Queue_rep q xs \<longleftrightarrow> (\<exists>as. chain q Map.empty as xs \<and> dom (heap q) = set as)"

definition Queue_put :: "'a \<times> addr \<Rightarrow> 'a Queue \<Rightarrow> 'a Queue option" where
  "Queue_put i q = (if heap q (snd i) = None then Queue_push (fst i) (snd i) q else None)"

definition Queue_get :: "'a Queue \<Rightarrow> ('a \<times> 'a Queue) option" where
  "Queue_get q = (case popSafe q of Some (Some v, q') \<Rightarrow> Some (v, q') | _ \<Rightarrow> None)"

lemma Queue_rep_init: "Queue_rep (Queue_init s) []"
  using chain_init[of s] unfolding Queue_rep_def
  by (intro exI[of _ "[s]"]) (simp add: Queue_init_def)

lemma Queue_push_rep:
  assumes r: "Queue_rep q xs" and f: "heap q entry = None"
  shows "\<exists>q'. Queue_push u entry q = Some q' \<and> Queue_rep q' (xs @ [u])"
proof -
  obtain as where c: "chain q Map.empty as xs" "dom (heap q) = set as"
    using r by (auto simp: Queue_rep_def)
  obtain q1 where x: "push_exchange u entry q = (head q, q1)" "dom (heap q1) = insert entry (dom (heap q))"
    by (auto simp: push_exchange_def)
  have c1: "chain q1 [0 \<mapsto> P_Link (head q) entry] (as @ [entry]) (xs @ [u])"
    using chain_push[OF c(1) f _ x(1), of 0] by simp
  obtain q2 where "push_link (head q) entry q1 = Some q2" "chain q2 [0 \<mapsto> P_Write] (as @ [entry]) (xs @ [u])"
    "dom (heap q2) = dom (heap q1)"
    by (rule chain_link[OF c1, of 0 "head q" entry]) auto
  then show ?thesis
    using chain_write[of q2 "[0 \<mapsto> P_Write]" _ _ 0] x c(2)
    by (auto simp: Queue_push_def Queue_rep_def intro!: exI[of _ "as @ [entry]"])
qed

lemma popSafe_rep:
  assumes r: "Queue_rep q xs"
  shows "xs = [] \<Longrightarrow> popSafe q = Some (None, q)"
    and "xs = v # vs \<Longrightarrow> \<exists>entry q1 q2. Queue_pop q = Some (Some entry, q1) \<and>
      take_entry entry q1 = Some (v, q2) \<and> Queue_rep q2 vs"
proof -
  obtain as where c: "chain q Map.empty as xs" and d: "dom (heap q) = set as"
    using r by (auto simp: Queue_rep_def)
  show "popSafe q = Some (None, q)" if "xs = []"
    using c that by (cases rule: chain_pop_cases) (auto simp: popSafe_def)
  assume xs: "xs = v # vs"
  show "\<exists>entry q1 q2. Queue_pop q = Some (Some entry, q1) \<and>
      take_entry entry q1 = Some (v, q2) \<and> Queue_rep q2 vs"
    using c
  proof (cases rule: chain_pop_cases)
    case null
    then show ?thesis using xs by simp
  next
    case (entry n as' v' vs' q1)
    have out: "tail q \<notin> set (n # as')" using c entry(1) by (auto simp: chain_def)
    obtain e where e: "heap q1 (tail q) = Some e" "storage e = Some v"
      using entry(2,5) xs by (auto simp: data_def bind_eq_Some_conv)
    have "dom ((heap q1)(tail q := None)) = set (n # as')" using entry(1,6) d out by auto
    then show ?thesis
      using entry chain_free[OF entry(4) out] e xs
      by (auto simp: take_entry_def Queue_rep_def intro!: exI[of _ "n # as'"])
  qed
qed

interpretation mpsc: fifo Queue_rep Queue_put fst Queue_get
proof
  show "Queue_rep q' (xs @ [fst i])" if "Queue_rep q xs" "Queue_put i q = Some q'" for q xs q' and i :: "'a \<times> addr"
    using that Queue_push_rep[of q xs "snd i" "fst i"] by (auto simp: Queue_put_def split: if_splits)
  show "\<exists>q'. Queue_get q = Some (x, q') \<and> Queue_rep q' xs" if "Queue_rep q (x # xs)" for q xs and x :: 'a
    using popSafe_rep(2)[OF that refl] by (auto simp: Queue_get_def popSafe_def)
  show "Queue_get q = None" if "Queue_rep q []" for q :: "'a Queue"
    using popSafe_rep(1)[OF that refl] by (simp add: Queue_get_def)
qed

lemma Queue_empty_rep: "Queue_rep q xs \<Longrightarrow> Queue_empty q \<longleftrightarrow> xs = []"
  unfolding Queue_rep_def Queue_empty_def chain_def
  by (metis (no_types, lifting) append_butlast_last_id distinct.simps(2) hd_Cons_tl last_ConsL last_ConsR
      last_in_set map_is_Nil_conv)

lemma Queue_destroy_rep: "Queue_rep q xs \<Longrightarrow> Queue_destroy q = Some Map.empty"
proof (induction xs arbitrary: q)
  case Nil
  then obtain as where c: "chain q Map.empty as []" "dom (heap q) = set as" by (auto simp: Queue_rep_def)
  then have "as = [tail q]" unfolding chain_def by (metis hd_Cons_tl map_is_Nil_conv list.simps(8))
  then have "dom (heap q) = {tail q}" using c(2) by simp
  then have "(heap q)(tail q := None) = Map.empty" "tail q \<in> dom (heap q)"
    by (auto simp: fun_eq_iff dom_def)
  then show ?case using Queue_empty_rep[OF Nil] by (simp add: Queue_destroy.simps)
next
  case (Cons v vs)
  then show ?case
    using popSafe_rep(2)[OF Cons.prems refl] Queue_empty_rep[OF Cons.prems]
    by (auto simp: Queue_destroy.simps[of q])
qed

lemma inv_rep:
  assumes "pq_inv tr w" "producers w = Map.empty" "consumer w = C_Idle"
  shows "\<exists>xs. sent tr = got tr @ xs \<and> Queue_rep (queue w) xs"
  using assms by (auto simp: pq_inv_def holds_def Queue_rep_def)

section \<open>Properties\<close>

text \<open>Runs of a schedule, for concrete interleavings.\<close>

fun schedule :: "'a action list \<Rightarrow> 'a event list \<times> 'a PollableQueue \<Rightarrow> ('a event list \<times> 'a PollableQueue) option" where
  "schedule [] tw = Some tw"
| "schedule (a # as) (tr, w) =
     (case act a w of Step ev w' \<Rightarrow> schedule as (ev # tr, w') | _ \<Rightarrow> None)"

lemma schedule_reaches:
  "reaches w0 tr w \<Longrightarrow> schedule as (tr, w) = Some (tr', w') \<Longrightarrow> reaches w0 tr' w'"
  by (induction as "(tr, w)" arbitrary: tr w rule: schedule.induct)
    (auto split: outcome.splits intro: reaches.step)

text \<open>
  C24: whatever the interleaving of any number of producers with the consumer of a pollable queue,
  no operation touches an entry that has been deleted or data that has been moved away, and the
  consumer receives the values in the order of the pushes, none lost, none twice.
\<close>

theorem queue_fifo_safe:
  assumes "reaches (PollableQueue_init s efd) tr w"
  shows "prefix (got tr) (sent tr) \<and> act a w \<noteq> Fault"
  using reaches_inv[OF assms refl] act_safe[of tr w a] inv_prefix by auto

text \<open>
  C25: no wakeup is lost.  When the consumer has drained the queue (its last \<open>popSafe\<close> returned null)
  and no push is in progress, an eventfd that is not readable means that every value sent has been
  received.
\<close>

theorem no_lost_wakeup:
  assumes "reaches (PollableQueue_init s efd) tr w"
    and "consumer w = C_Idle" "drained tr" "producers w = Map.empty" "event_fd w = Some 0"
  shows "got tr = sent tr"
  using inv_quiescent_empty reaches_inv[OF assms(1) refl] assms(2-) by blast


text \<open>
  C26: the destructor of a queue on which no operation is in progress terminates, never
  dereferences a null entry, and deletes every entry that was allocated.
\<close>

theorem queue_destroy_complete:
  assumes "reaches (PollableQueue_init s efd) tr w" "producers w = Map.empty" "consumer w = C_Idle"
  shows "Queue_destroy (queue w) = Some Map.empty"
  using inv_rep[OF reaches_inv[OF assms(1) refl] assms(2,3)] Queue_destroy_rep by blast

text \<open>
  C30: what is pushed on a queue by one thread is popped in the same order.
\<close>

theorem queue_transfers:
  assumes "put_all Queue_put is (Queue_init s) = Some q"
  shows "fst (take_many Queue_get (length is) q) = map fst is"
  using mpsc.put_take[OF Queue_rep_init assms] .

text \<open>
  A schedule in which thread 2 completes its push while thread 1 has exchanged the head and not
  yet linked it, and the consumer comes in between.
\<close>

definition sample_schedule :: "nat action list" where
  "sample_schedule =
     [A_Push 1 10 1, A_Push 2 20 2, A_Link 2, A_Write 2, A_Pop, A_Read, A_Repop, A_Return,
      A_Link 1, A_Write 1]"

definition sample_drain :: "nat action list" where
  "sample_drain = [A_Pop, A_Read, A_Return, A_Pop, A_Read, A_Return, A_Pop, A_Read, A_Return]"

definition sample_state :: "nat event list \<times> nat PollableQueue" where
  "sample_state = the (schedule sample_schedule ([], PollableQueue_init 0 (Some 0)))"

definition drained_state :: "nat event list \<times> nat PollableQueue" where
  "drained_state = the (schedule sample_drain sample_state)"

lemma sample_runs:
  "schedule sample_schedule ([], PollableQueue_init 0 (Some 0)) \<noteq> None"
  "schedule sample_drain sample_state \<noteq> None"
  by code_simp+

lemma sample_reaches:
  "reaches (PollableQueue_init 0 (Some 0)) (fst sample_state) (snd sample_state)"
  using sample_runs(1) schedule_reaches[OF reaches.start, of sample_schedule "PollableQueue_init 0 (Some 0)"]
  by (auto simp: sample_state_def)

lemma drained_reaches:
  "reaches (PollableQueue_init 0 (Some 0)) (fst drained_state) (snd drained_state)"
  using sample_runs(2) schedule_reaches[OF sample_reaches, of sample_drain]
  by (auto simp: drained_state_def)

lemma sample_events:
  "sent (fst sample_state) = [10, 20]" "got (fst sample_state) = []"
  "sent (fst drained_state) = [10, 20]" "drained (fst drained_state)"
  "consumer (snd sample_state) = C_Idle" "consumer (snd drained_state) = C_Idle"
  "event_fd (snd drained_state) = Some 0"
  by code_simp+

lemmas schedule_eval = sample_state_def drained_state_def sample_schedule_def sample_drain_def
  PollableQueue_init_def Queue_init_def act_push_def act_link_def act_write_def pop_into_def
  act_read_def act_return_def push_exchange_def push_link_def Queue_pop_def take_entry_def
  WRITE_EFD_def READ_EFD_def efd_max_def Entry_of_def Entry_empty_def Let_def

lemma sample_quiescent:
  "producers (snd sample_state) = Map.empty" "producers (snd drained_state) = Map.empty"
  by (simp_all add: schedule_eval fun_eq_iff)

theorem queue_fifo_safe_witness:
  "prefix (got (fst sample_state)) (sent (fst sample_state)) \<and> act A_Pop (snd sample_state) \<noteq> Fault
   \<and> sent (fst sample_state) = [10, 20]"
  using queue_fifo_safe[OF sample_reaches, of A_Pop] sample_events by simp

theorem no_lost_wakeup_witness:
  "got (fst drained_state) = [10, 20]"
  using no_lost_wakeup[OF drained_reaches] sample_events sample_quiescent by simp

theorem queue_destroy_complete_witness:
  "Queue_destroy (queue (snd sample_state)) = Some Map.empty"
  using queue_destroy_complete[OF sample_reaches] sample_events sample_quiescent by simp

theorem queue_transfers_witness:
  "fst (take_many Queue_get 2 (the (put_all Queue_put [(7, 1), (8, 2)] (Queue_init 0)))) = [7, 8::nat]"
proof -
  have "put_all Queue_put [(7, 1), (8, 2)] (Queue_init 0 :: nat Queue) \<noteq> None"
    by (simp add: Queue_put_def Queue_push_def schedule_eval)
  then show ?thesis
    using queue_transfers[of "[(7, 1), (8, 2 :: nat)]" 0] by (auto simp: numeral_2_eq_2 simp del: put_all.simps take_many.simps)
qed

end
