(* ===== verification/Mail_Slot.thy ===== *)
theory Mail_Slot
  imports Message_Queue
begin

text \<open>
  The one-place mailbox of mailbox.h and its pollable variant.  A pointer is an option; the loop of
  \<open>post\<close> ends with the compare-exchange that replaces the very value it expects, so the whole
  \<open>post\<close> is one exchange.  The pollable operations are cut after the exchange.
\<close>

record 'a Mailbox =
  slot :: "'a option"
  mail_fd :: "nat option"

definition Mailbox_init :: "'a Mailbox" where
  "Mailbox_init = \<lparr>slot = None, mail_fd = None\<rparr>"

definition Mailbox_isEmpty :: "'a Mailbox \<Rightarrow> bool" where
  "Mailbox_isEmpty m \<longleftrightarrow> slot m = None"

definition Mailbox_get :: "'a Mailbox \<Rightarrow> 'a option result" where
  "Mailbox_get m =
     (if Mailbox_isEmpty m then Inl (Runtime_Error ''Can not retrieve mail from empty mailbox'')
      else Inr (slot m))"

text \<open>One round of the loop of \<open>post\<close>: the expected value is reloaded when the exchange fails.\<close>

definition post_round :: "'a option \<Rightarrow> 'a option \<Rightarrow> 'a Mailbox \<Rightarrow> bool \<times> 'a option \<times> 'a Mailbox" where
  "post_round old newData m =
     (if slot m = old then (True, old, m\<lparr>slot := newData\<rparr>) else (False, slot m, m))"

definition Mailbox_post :: "'a option \<Rightarrow> 'a Mailbox \<Rightarrow> 'a option \<times> 'a Mailbox" where
  "Mailbox_post newData m =
     (case post_round (slot m) newData m of (_, old, m') \<Rightarrow> (old, m'))"

definition Mailbox_clear :: "'a Mailbox \<Rightarrow> 'a option \<times> 'a Mailbox" where
  "Mailbox_clear m = (slot m, m\<lparr>slot := None\<rparr>)"

definition Mailbox_isBound :: "'a Mailbox \<Rightarrow> bool" where
  "Mailbox_isBound m \<longleftrightarrow> mail_fd m \<noteq> None"

definition Mailbox_bind :: "'a Mailbox \<Rightarrow> 'a Mailbox result" where
  "Mailbox_bind m =
     (if Mailbox_isBound m then Inl (Runtime_Error ''The mailbox has already been bound'')
      else Inr (m\<lparr>mail_fd := Some 0\<rparr>))"

definition Mailbox_unbind :: "'a Mailbox \<Rightarrow> 'a Mailbox result" where
  "Mailbox_unbind m =
     (if mail_fd m = None then Inl (Runtime_Error ''The mailbox is not bound'')
      else Inr (m\<lparr>mail_fd := None\<rparr>))"

text \<open>The write that follows the exchange; a failed write raises the error text of the system.\<close>

definition signal_mail :: "string \<Rightarrow> 'a Mailbox \<Rightarrow> 'a Mailbox result" where
  "signal_mail strerror m =
     (case mail_fd m of
        None \<Rightarrow> Inr m
      | Some c \<Rightarrow> (case WRITE_EFD c of None \<Rightarrow> Inl (Runtime_Error strerror)
                    | Some c' \<Rightarrow> Inr (m\<lparr>mail_fd := Some c'\<rparr>)))"

definition PollableMailbox_post :: "string \<Rightarrow> 'a option \<Rightarrow> 'a Mailbox \<Rightarrow> ('a option \<times> 'a Mailbox) result" where
  "PollableMailbox_post strerror newData m =
     (case Mailbox_post newData m of (old, m') \<Rightarrow> map_sum id (Pair old) (signal_mail strerror m'))"

text \<open>The loop that reads the eventfd until it would block: a read leaves a zero counter.\<close>

function drain_efd :: "nat \<Rightarrow> nat" where
  "drain_efd c = (case READ_EFD c of None \<Rightarrow> c | Some c' \<Rightarrow> drain_efd c')"
  by pat_completeness auto
termination
  by (relation "measure id") (auto simp: READ_EFD_def split: if_splits)

definition drain_mail :: "'a Mailbox \<Rightarrow> 'a Mailbox" where
  "drain_mail m = m\<lparr>mail_fd := map_option drain_efd (mail_fd m)\<rparr>"

definition PollableMailbox_clear :: "'a Mailbox \<Rightarrow> 'a option \<times> 'a Mailbox" where
  "PollableMailbox_clear m = (case Mailbox_clear m of (ret, m') \<Rightarrow> (ret, drain_mail m'))"

declare drain_efd.simps [simp del]

lemma drain_efd_zero [simp]: "drain_efd c = 0"
  by (induction c rule: drain_efd.induct)
    (subst drain_efd.simps, auto simp: READ_EFD_def)

text \<open>A round that succeeds has replaced the value it returns, whatever came before it.\<close>

lemma post_round_exchange:
  "post_round old newData m = (True, r, m') \<Longrightarrow> Mailbox_post newData m = (r, m') \<and> r = slot m"
  by (auto simp: post_round_def Mailbox_post_def split: if_splits)

lemma clear_after_post:
  assumes "mail_fd m = Some c" "c + 1 \<le> efd_max"
  shows "\<exists>m'. PollableMailbox_post e (Some v) m = Inr (slot m, m') \<and> mail_fd m' = Some (c + 1) \<and>
    PollableMailbox_clear m' = (Some v, m\<lparr>slot := None, mail_fd := Some 0\<rparr>)"
  using assms
  by (auto simp: PollableMailbox_post_def Mailbox_post_def post_round_def signal_mail_def
      WRITE_EFD_def PollableMailbox_clear_def Mailbox_clear_def drain_mail_def)

text \<open>
  A mail that is posted between the exchange of \<open>clear\<close> and its reads of the eventfd stays in the
  mailbox with the eventfd not readable: nobody is told of it.
\<close>

lemma clear_loses_wakeup:
  assumes "mail_fd m = Some c" "c + 1 \<le> efd_max" "Mailbox_clear m = (ret, m1)"
    "PollableMailbox_post e (Some v) m1 = Inr (old, m2)"
  shows "slot (drain_mail m2) = Some v \<and> mail_fd (drain_mail m2) = Some 0"
  using assms
  by (auto simp: Mailbox_clear_def PollableMailbox_post_def Mailbox_post_def post_round_def
      signal_mail_def WRITE_EFD_def drain_mail_def)

end
