(* ===== verification/Bounded_Queue.thy ===== *)
theory Bounded_Queue
  imports Message_Queue "HOL-Library.Word"
begin

unbundle bit_operations_syntax

text \<open>
  The bounded multi-producer multi-consumer queue of mailbox.h (\<open>MPMCQueue\<close>), which the client
  keeps its waiting requests in.  A \<open>size_t\<close> is a natural number below \<open>2 ^ 64\<close> whose additions
  wrap; the comparison of a sequence number with an index is the signed difference the code takes.
  Each operation is a program counter that advances by one atomic access per step, and any number
  of threads are interleaved.
\<close>

section \<open>Cells and indices\<close>

record 'a Cell =
  sequence :: nat
  cell_data :: 'a

record 'a MPMCQueue =
  cells :: "'a Cell list"
  enqueueIndex :: nat
  dequeueIndex :: nat

abbreviation add64 :: "nat \<Rightarrow> nat \<Rightarrow> nat" where
  "add64 a b \<equiv> (a + b) mod 2 ^ 64"

text \<open>The size is a template argument that must be a power of two above one.\<close>

definition size_ok :: "nat \<Rightarrow> bool" where
  "size_ok Size \<longleftrightarrow> 2 \<le> Size \<and> Size AND (Size - 1) = 0 \<and> Size < 2 ^ 62"

definition Mask :: "nat \<Rightarrow> nat" where "Mask Size = Size - 1"

definition cellIndex :: "nat \<Rightarrow> nat \<Rightarrow> nat" where
  "cellIndex Size index = index AND Mask Size"

definition MPMCQueue_init :: "nat \<Rightarrow> 'a \<Rightarrow> 'a MPMCQueue" where
  "MPMCQueue_init Size dflt =
     \<lparr>cells = map (\<lambda>i. \<lparr>sequence = i, cell_data = dflt\<rparr>) [0..<Size], enqueueIndex = 0, dequeueIndex = 0\<rparr>"

definition seq_at :: "nat \<Rightarrow> nat \<Rightarrow> 'a MPMCQueue \<Rightarrow> nat" where
  "seq_at Size index q = sequence (cells q ! cellIndex Size index)"

definition data_at :: "nat \<Rightarrow> nat \<Rightarrow> 'a MPMCQueue \<Rightarrow> 'a" where
  "data_at Size index q = cell_data (cells q ! cellIndex Size index)"

definition set_seq :: "nat \<Rightarrow> nat \<Rightarrow> nat \<Rightarrow> 'a MPMCQueue \<Rightarrow> 'a MPMCQueue" where
  "set_seq Size index n q =
     (let i = cellIndex Size index in
      q\<lparr>cells := (cells q)[i := (cells q ! i)\<lparr>sequence := n\<rparr>]\<rparr>)"

definition set_data :: "nat \<Rightarrow> nat \<Rightarrow> 'a \<Rightarrow> 'a MPMCQueue \<Rightarrow> 'a MPMCQueue" where
  "set_data Size index v q =
     (let i = cellIndex Size index in
      q\<lparr>cells := (cells q)[i := (cells q ! i)\<lparr>cell_data := v\<rparr>]\<rparr>)"

text \<open>The move assignment, with the source the other queue.\<close>

definition MPMCQueue_move :: "'a MPMCQueue \<Rightarrow> 'a MPMCQueue" where
  "MPMCQueue_move other =
     \<lparr>cells = cells other, enqueueIndex = enqueueIndex other, dequeueIndex = enqueueIndex other\<rparr>"

section \<open>The operations, one access at a time\<close>

datatype 'a pc =
    E_Load 'a | E_Seq 'a nat | E_Cas 'a nat | E_Store 'a nat | E_Publish nat
  | D_Load | D_Seq nat | D_Cas nat | D_Copy nat | D_Release nat 'a

text \<open>
  The events: a producer or a consumer has claimed the position of an index, a producer has
  published it, a consumer returns the value of it, and the returns of false.
\<close>

datatype 'a mev = M_Claim 'a | M_Take | M_Put nat | M_Got nat 'a | M_Full | M_Empty | M_Tau

definition seq_diff :: "nat \<Rightarrow> nat \<Rightarrow> int" where
  "seq_diff seq index = ssz_of_sz seq - ssz_of_sz index"

text \<open>
  One step of an operation: the event, the next program counter (absent when the operation
  returns) and the queue.  A weak compare-exchange may fail although the values agree.
\<close>

fun pc_step :: "nat \<Rightarrow> bool \<Rightarrow> 'a pc \<Rightarrow> 'a MPMCQueue \<Rightarrow> 'a mev \<times> 'a pc option \<times> 'a MPMCQueue" where
  "pc_step Size fail (E_Load v) q = (M_Tau, Some (E_Seq v (enqueueIndex q)), q)"
| "pc_step Size fail (E_Seq v index) q =
     (let d = seq_diff (seq_at Size index q) index in
      if d = 0 then (M_Tau, Some (E_Cas v index), q)
      else if d < 0 then (M_Full, None, q)
      else (M_Tau, Some (E_Load v), q))"
| "pc_step Size fail (E_Cas v index) q =
     (if enqueueIndex q = index \<and> \<not> fail
      then (M_Claim v, Some (E_Store v index), q\<lparr>enqueueIndex := add64 index 1\<rparr>)
      else (M_Tau, Some (E_Seq v (enqueueIndex q)), q))"
| "pc_step Size fail (E_Store v index) q = (M_Tau, Some (E_Publish index), set_data Size index v q)"
| "pc_step Size fail (E_Publish index) q = (M_Put index, None, set_seq Size index (add64 index 1) q)"
| "pc_step Size fail D_Load q = (M_Tau, Some (D_Seq (dequeueIndex q)), q)"
| "pc_step Size fail (D_Seq index) q =
     (let d = seq_diff (seq_at Size index q) (add64 index 1) in
      if d = 0 then (M_Tau, Some (D_Cas index), q)
      else if d < 0 then (M_Empty, None, q)
      else (M_Tau, Some D_Load, q))"
| "pc_step Size fail (D_Cas index) q =
     (if dequeueIndex q = index \<and> \<not> fail
      then (M_Take, Some (D_Copy index), q\<lparr>dequeueIndex := add64 index 1\<rparr>)
      else (M_Tau, Some (D_Seq (dequeueIndex q)), q))"
| "pc_step Size fail (D_Copy index) q = (M_Tau, Some (D_Release index (data_at Size index q)), q)"
| "pc_step Size fail (D_Release index v) q =
     (M_Got index v, None, set_seq Size index (add64 index (Mask Size + 1)) q)"

section \<open>Threads\<close>

type_synonym 'a mworld = "'a MPMCQueue \<times> (thread \<rightharpoonup> 'a pc)"

datatype 'a maction = B_Enqueue thread 'a | B_Dequeue thread | B_Step thread bool

fun mact :: "nat \<Rightarrow> 'a maction \<Rightarrow> 'a mworld \<Rightarrow> ('a mev \<times> 'a mworld) option" where
  "mact Size (B_Enqueue t v) (q, T) =
     (if T t = None then Some (M_Tau, (q, T(t \<mapsto> E_Load v))) else None)"
| "mact Size (B_Dequeue t) (q, T) =
     (if T t = None then Some (M_Tau, (q, T(t \<mapsto> D_Load))) else None)"
| "mact Size (B_Step t fail) (q, T) =
     (case T t of
        None \<Rightarrow> None
      | Some p \<Rightarrow> (case pc_step Size fail p q of (ev, p', q') \<Rightarrow> Some (ev, (q', T(t := p')))))"

inductive mreach :: "nat \<Rightarrow> 'a \<Rightarrow> 'a mev list \<Rightarrow> 'a mworld \<Rightarrow> bool" for Size dflt
  where
    mstart: "mreach Size dflt [] (MPMCQueue_init Size dflt, Map.empty)"
  | mstep: "mreach Size dflt tr w \<Longrightarrow> mact Size a w = Some (ev, w') \<Longrightarrow> mreach Size dflt (ev # tr) w'"

text \<open>The values in the order of the claims, the number of consumers' claims, and the positions
  that have been published and returned.\<close>

fun claims :: "'a mev list \<Rightarrow> 'a list" where
  "claims [] = []"
| "claims (M_Claim v # tr) = claims tr @ [v]"
| "claims (_ # tr) = claims tr"

fun takes :: "'a mev list \<Rightarrow> nat" where
  "takes [] = 0"
| "takes (M_Take # tr) = Suc (takes tr)"
| "takes (_ # tr) = takes tr"

fun puts :: "'a mev list \<Rightarrow> nat list" where
  "puts [] = []"
| "puts (M_Put i # tr) = i # puts tr"
| "puts (_ # tr) = puts tr"

fun gots :: "'a mev list \<Rightarrow> (nat \<times> 'a) list" where
  "gots [] = []"
| "gots (M_Got i v # tr) = (i, v) # gots tr"
| "gots (_ # tr) = gots tr"

section \<open>The invariant\<close>

lemma power_of_two: "0 < n \<Longrightarrow> n AND (n - 1) = 0 \<Longrightarrow> \<exists>k. (n::nat) = 2 ^ k"
proof (induction n rule: less_induct)
  case (less n)
  show ?case
  proof (cases "even n")
    case True
    then obtain m where m: "n = 2 * m" by (elim evenE)
    then have "n - 1 = 2 * (m - 1) + 1" using less.prems by simp
    then have "n AND (n - 1) = 2 * (m AND (m - 1))"
      using m by (subst and_rec) simp
    then have "\<exists>k. m = 2 ^ k" using less m by (intro less.IH) auto
    then show ?thesis using m by (metis power_Suc)
  next
    case False
    then obtain m where m: "n = 2 * m + 1" by (elim oddE)
    then have "n AND (n - 1) = 2 * (m AND m)" by (subst and_rec) simp
    then have "m = 0" using less.prems by simp
    then show ?thesis using m by (intro exI[of _ 0]) simp
  qed
qed

lemma cellIndex_mod: "size_ok Size \<Longrightarrow> cellIndex Size i = i mod Size"
  using power_of_two[of Size] unfolding size_ok_def cellIndex_def Mask_def
  by (metis mask_eq_exp_minus_1 less_le_trans zero_less_numeral take_bit_eq_mask take_bit_eq_mod)

lemma size_okD: "size_ok Size \<Longrightarrow> 2 \<le> Size \<and> Mask Size + 1 = Size"
  by (auto simp: size_ok_def Mask_def)

text \<open>The positions of a window of \<open>Size\<close> indices have different cells.\<close>

lemma window_inj:
  assumes "p mod Size = p' mod Size" "(d::nat) \<le> p" "p < d + Size" "d \<le> p'" "p' < d + Size"
  shows "p = p'"
proof -
  have *: "p = p'" if "p mod Size = p' mod Size" "p \<le> p'" "p' < p + Size" for p p' :: nat
  proof -
    have "(p' - p) mod Size = 0" using that by (metis mod_eq_dvd_iff_nat dvd_imp_mod_0)
    then show ?thesis using that by (auto simp: mod_less)
  qed
  show ?thesis
    using *[of p p'] *[of p' p] assms by (cases "p \<le> p'") auto
qed

lemma seq_at_set_seq:
  "size_ok Size \<Longrightarrow> length (cells q) = Size \<Longrightarrow>
   seq_at Size p (set_seq Size k n q) = (if p mod Size = k mod Size then n else seq_at Size p q)"
  by (auto simp: seq_at_def set_seq_def cellIndex_mod size_ok_def nth_list_update Let_def)

lemma data_at_set_seq:
  "size_ok Size \<Longrightarrow> length (cells q) = Size \<Longrightarrow> data_at Size p (set_seq Size k n q) = data_at Size p q"
  by (auto simp: data_at_def set_seq_def cellIndex_mod size_ok_def nth_list_update Let_def)

lemma data_at_set_data:
  "size_ok Size \<Longrightarrow> length (cells q) = Size \<Longrightarrow>
   data_at Size p (set_data Size k v q) = (if p mod Size = k mod Size then v else data_at Size p q)"
  by (auto simp: data_at_def set_data_def cellIndex_mod size_ok_def nth_list_update Let_def)

lemma seq_at_set_data:
  "size_ok Size \<Longrightarrow> length (cells q) = Size \<Longrightarrow> seq_at Size p (set_data Size k v q) = seq_at Size p q"
  by (auto simp: seq_at_def set_data_def cellIndex_mod size_ok_def nth_list_update Let_def)

lemma set_fields [simp]:
  "length (cells (set_seq Size k n q)) = length (cells q)"
  "length (cells (set_data Size k v q)) = length (cells q)"
  "enqueueIndex (set_seq Size k n q) = enqueueIndex q" "dequeueIndex (set_seq Size k n q) = dequeueIndex q"
  "enqueueIndex (set_data Size k v q) = enqueueIndex q" "dequeueIndex (set_data Size k v q) = dequeueIndex q"
  by (simp_all add: set_seq_def set_data_def Let_def)

lemma at_index_update [simp]:
  "seq_at Size p (q\<lparr>enqueueIndex := n\<rparr>) = seq_at Size p q" "seq_at Size p (q\<lparr>dequeueIndex := n\<rparr>) = seq_at Size p q"
  "data_at Size p (q\<lparr>enqueueIndex := n\<rparr>) = data_at Size p q" "data_at Size p (q\<lparr>dequeueIndex := n\<rparr>) = data_at Size p q"
  by (simp_all add: seq_at_def data_at_def)

lemma at_add_size:
  "size_ok Size \<Longrightarrow> seq_at Size (k + Size) q = seq_at Size k q"
  "size_ok Size \<Longrightarrow> data_at Size (k + Size) q = data_at Size k q"
  by (simp_all add: seq_at_def data_at_def cellIndex_mod)

text \<open>
  The positions below \<open>e\<close> are claimed by producers, below \<open>d\<close> by consumers, \<open>P\<close> are published and
  \<open>G\<close> are returned.  A position from \<open>d\<close> on is being written or full; one from \<open>e\<close> on is free, or
  its cell is still being read for the position one round before.
\<close>

definition counts :: "nat \<Rightarrow> nat \<Rightarrow> nat \<Rightarrow> nat set \<Rightarrow> nat set \<Rightarrow> bool" where
  "counts Size e d P G \<longleftrightarrow>
     d \<le> e \<and> e \<le> d + Size \<and> P \<subseteq> {..<e} \<and> {..<d} \<subseteq> P \<and> G \<subseteq> {..<d} \<and> (\<forall>k. k + Size < e \<longrightarrow> k \<in> G)"

definition cell_ok :: "nat \<Rightarrow> 'a list \<Rightarrow> nat set \<Rightarrow> nat set \<Rightarrow> 'a MPMCQueue \<Rightarrow> nat \<Rightarrow> bool" where
  "cell_ok Size vals P G q p \<longleftrightarrow>
     (if p < length vals
      then seq_at Size p q = (if p \<in> P then p + 1 else p) \<and> (p \<in> P \<longrightarrow> data_at Size p q = vals ! p)
      else seq_at Size p q = (if p < Size \<or> p - Size \<in> G then p else p - Size + 1) \<and>
        (Size \<le> p \<and> p - Size \<notin> G \<longrightarrow> data_at Size p q = vals ! (p - Size)))"

fun pc_ok :: "nat \<Rightarrow> 'a list \<Rightarrow> nat \<Rightarrow> nat set \<Rightarrow> nat set \<Rightarrow> 'a MPMCQueue \<Rightarrow> 'a pc \<Rightarrow> bool" where
  "pc_ok Size vals d P G q (E_Load v) \<longleftrightarrow> True"
| "pc_ok Size vals d P G q (E_Seq v i) \<longleftrightarrow> i \<le> length vals"
| "pc_ok Size vals d P G q (E_Cas v i) \<longleftrightarrow> i \<le> length vals \<and>
     (i = length vals \<longrightarrow> i < d + Size \<and> (i < Size \<or> i - Size \<in> G))"
| "pc_ok Size vals d P G q (E_Store v i) \<longleftrightarrow> i < length vals \<and> i \<notin> P \<and> vals ! i = v"
| "pc_ok Size vals d P G q (E_Publish i) \<longleftrightarrow> i < length vals \<and> i \<notin> P \<and> data_at Size i q = vals ! i"
| "pc_ok Size vals d P G q D_Load \<longleftrightarrow> True"
| "pc_ok Size vals d P G q (D_Seq i) \<longleftrightarrow> i \<le> d"
| "pc_ok Size vals d P G q (D_Cas i) \<longleftrightarrow> i \<le> d \<and> (i = d \<longrightarrow> i \<in> P)"
| "pc_ok Size vals d P G q (D_Copy i) \<longleftrightarrow> i < d \<and> i \<notin> G"
| "pc_ok Size vals d P G q (D_Release i v) \<longleftrightarrow> i < d \<and> i \<notin> G \<and> v = vals ! i"

text \<open>The position an operation owns between its claim and its last store.\<close>

fun owns :: "'a pc \<Rightarrow> (bool \<times> nat) option" where
  "owns (E_Store v i) = Some (True, i)"
| "owns (E_Publish i) = Some (True, i)"
| "owns (D_Copy i) = Some (False, i)"
| "owns (D_Release i v) = Some (False, i)"
| "owns _ = None"

definition exclusive :: "(thread \<rightharpoonup> 'a pc) \<Rightarrow> bool" where
  "exclusive T \<longleftrightarrow> (\<forall>t t' p p'. T t = Some p \<longrightarrow> T t' = Some p' \<longrightarrow> t \<noteq> t' \<longrightarrow>
     owns p \<noteq> None \<longrightarrow> owns p \<noteq> owns p')"

definition queue_ok :: "nat \<Rightarrow> 'a list \<Rightarrow> nat \<Rightarrow> nat set \<Rightarrow> nat set \<Rightarrow> 'a MPMCQueue \<Rightarrow> bool" where
  "queue_ok Size vals d P G q \<longleftrightarrow>
     length (cells q) = Size \<and> enqueueIndex q = length vals \<and> dequeueIndex q = d \<and>
     counts Size (length vals) d P G \<and> (\<forall>p\<in>{d..<d + Size}. cell_ok Size vals P G q p)"

definition threads_ok :: "nat \<Rightarrow> 'a list \<Rightarrow> nat \<Rightarrow> nat set \<Rightarrow> nat set \<Rightarrow> 'a mworld \<Rightarrow> bool" where
  "threads_ok Size vals d P G w \<longleftrightarrow>
     (\<forall>t p. snd w t = Some p \<longrightarrow> pc_ok Size vals d P G (fst w) p) \<and> exclusive (snd w)"

definition history_ok :: "'a mev list \<Rightarrow> bool" where
  "history_ok tr \<longleftrightarrow> distinct (puts tr) \<and> distinct (map fst (gots tr)) \<and>
     (\<forall>(i, v)\<in>set (gots tr). v = claims tr ! i)"

definition mpmc_inv :: "nat \<Rightarrow> 'a mev list \<Rightarrow> 'a mworld \<Rightarrow> bool" where
  "mpmc_inv Size tr w \<longleftrightarrow>
     queue_ok Size (claims tr) (takes tr) (set (puts tr)) (fst ` set (gots tr)) (fst w) \<and>
     threads_ok Size (claims tr) (takes tr) (set (puts tr)) (fst ` set (gots tr)) w \<and> history_ok tr"

lemma mpmc_inv_init: "size_ok Size \<Longrightarrow> mpmc_inv Size [] (MPMCQueue_init Size dflt, Map.empty)"
  by (auto simp: mpmc_inv_def queue_ok_def threads_ok_def history_ok_def MPMCQueue_init_def counts_def
      cell_ok_def seq_at_def cellIndex_mod exclusive_def)

text \<open>What an index of the past or the present sees in its cell.\<close>

lemma window_position:
  assumes "0 < Size"
  shows "\<exists>p. p mod Size = i mod Size \<and> d \<le> p \<and> p < d + Size \<and> (i < d \<longrightarrow> i + Size \<le> (p::nat))"
proof -
  define p where "p = d + (i + Size * d - d) mod Size"
  have d: "d \<le> Size * d" using assms by (cases Size) auto
  have "p mod Size = (d + (i + Size * d - d)) mod Size" by (simp add: p_def mod_simps)
  also have "d + (i + Size * d - d) = i + Size * d" using d by linarith
  finally have "p mod Size = i mod Size" by simp
  moreover have "d \<le> p" "p < d + Size" using assms by (auto simp: p_def)
  ultimately show ?thesis
    using window_inj[of p Size i i] by (intro exI[of _ p]) (auto intro: leI)
qed

lemma seq_bounds:
  assumes s: "size_ok Size" and q: "queue_ok Size vals d P G q"
  shows "seq_at Size i q \<le> d + Size" and "i < d \<Longrightarrow> i + 1 \<le> seq_at Size i q"
proof -
  obtain p where p: "p mod Size = i mod Size" "d \<le> p" "p < d + Size" "i < d \<longrightarrow> i + Size \<le> p"
    using window_position[of Size i d] s by (auto simp: size_ok_def)
  then have "cell_ok Size vals P G q p" using q by (simp add: queue_ok_def)
  moreover have "seq_at Size p q = seq_at Size i q"
    using p(1) by (simp add: seq_at_def cellIndex_mod[OF s])
  ultimately show "seq_at Size i q \<le> d + Size" "i < d \<Longrightarrow> i + 1 \<le> seq_at Size i q"
    using p by (auto simp: cell_ok_def split: if_splits)
qed

lemma enqueue_cell:
  assumes s: "size_ok Size" and q: "queue_ok Size vals d P G q" and i: "i \<le> length vals"
  shows "seq_at Size i q = i \<Longrightarrow> i = length vals \<Longrightarrow> i < d + Size \<and> (i < Size \<or> i - Size \<in> G)"
    and "seq_at Size i q < i \<Longrightarrow> i = length vals \<and> Size \<le> i \<and> i - Size \<notin> G"
    and "i = length vals \<Longrightarrow> seq_at Size i q \<le> i"
proof -
  have c: "counts Size (length vals) d P G" and w: "\<And>p. d \<le> p \<Longrightarrow> p < d + Size \<Longrightarrow> cell_ok Size vals P G q p"
    using q by (simp_all add: queue_ok_def)
  note s2 = size_okD[OF s]
  have full: "seq_at Size i q = (if d \<in> P then d + 1 else d)" if "i = d + Size" "i = length vals"
    using w[of d] s2 that at_add_size(1)[OF s, of d q] by (auto simp: cell_ok_def)
  have open': "seq_at Size i q = (if i < Size \<or> i - Size \<in> G then i else i - Size + 1)"
    if "i < d + Size" "i = length vals"
    using w[of i] that c by (auto simp: cell_ok_def counts_def)
  have cases: "i = length vals \<Longrightarrow> i = d + Size \<or> i < d + Size" using c by (auto simp: counts_def)
  show "seq_at Size i q = i \<Longrightarrow> i = length vals \<Longrightarrow> i < d + Size \<and> (i < Size \<or> i - Size \<in> G)"
    using cases full open' s2 by (auto split: if_splits)
  show "i = length vals \<Longrightarrow> seq_at Size i q \<le> i"
    using cases full open' s2 by (auto split: if_splits)
  assume lt: "seq_at Size i q < i"
  then have "d \<le> i" using seq_bounds(2)[OF s q, of i] by linarith
  then have "i = length vals"
    using w[of i] lt i c by (fastforce simp: cell_ok_def counts_def split: if_splits)
  then show "i = length vals \<and> Size \<le> i \<and> i - Size \<notin> G"
    using lt cases full open' c by (auto simp: counts_def split: if_splits)
qed

lemma dequeue_cell:
  assumes s: "size_ok Size" and q: "queue_ok Size vals d P G q" and i: "i \<le> d"
  shows "seq_at Size i q = i + 1 \<Longrightarrow> i = d \<Longrightarrow> i \<in> P"
    and "seq_at Size i q < i + 1 \<Longrightarrow> i = d \<and> i \<notin> P"
    and "i = d \<Longrightarrow> seq_at Size i q \<le> i + 1"
proof -
  have c: "counts Size (length vals) d P G" and w: "cell_ok Size vals P G q d"
    using q size_okD[OF s] by (simp_all add: queue_ok_def)
  note s2 = size_okD[OF s]
  show "seq_at Size i q = i + 1 \<Longrightarrow> i = d \<Longrightarrow> i \<in> P" "i = d \<Longrightarrow> seq_at Size i q \<le> i + 1"
    using w c s2 by (auto simp: cell_ok_def counts_def split: if_splits)
  assume lt: "seq_at Size i q < i + 1"
  then have "i = d" using seq_bounds(2)[OF s q, of i] i by linarith
  then show "i = d \<and> i \<notin> P" using lt w c by (auto simp: cell_ok_def counts_def split: if_splits)
qed

lemma diff_small: "a < 2 ^ 63 \<Longrightarrow> b < 2 ^ 63 \<Longrightarrow> seq_diff a b = int a - int b"
  by (simp add: seq_diff_def ssz_of_sz_small)

section \<open>Every step keeps the invariant\<close>

lemma threads_update:
  assumes "threads_ok Size vals d P G (q, T)"
    and "\<And>t' p. t' \<noteq> t \<Longrightarrow> T t' = Some p \<Longrightarrow> pc_ok Size vals' d' P' G' q' p"
    and "\<And>p. po = Some p \<Longrightarrow> pc_ok Size vals' d' P' G' q' p"
    and "\<And>p t' p'. po = Some p \<Longrightarrow> owns p \<noteq> None \<Longrightarrow> t' \<noteq> t \<Longrightarrow> T t' = Some p' \<Longrightarrow> owns p \<noteq> owns p'"
  shows "threads_ok Size vals' d' P' G' (q', T(t := po))"
  using assms unfolding threads_ok_def exclusive_def
  by (auto split: if_splits) metis+

lemma owns_other:
  assumes "threads_ok Size vals d P G (q, T)" "T t = Some p" "T t' = Some p'" "t' \<noteq> t" "owns p \<noteq> None"
  shows "owns p \<noteq> owns p'"
  using assms unfolding threads_ok_def exclusive_def by (metis snd_conv)

lemma thread_pc:
  "threads_ok Size vals d P G (q, T) \<Longrightarrow> T t = Some p \<Longrightarrow> pc_ok Size vals d P G q p"
  by (simp add: threads_ok_def)

text \<open>Steps that neither claim nor store.\<close>

lemma threads_local:
  assumes th: "threads_ok Size vals d P G (q, T)" and t: "T t = Some p0"
    and new: "\<And>p. po = Some p \<Longrightarrow> pc_ok Size vals d P G q p \<and> (owns p = None \<or> owns p = owns p0)"
  shows "threads_ok Size vals d P G (q, T(t := po))"
proof (rule threads_update[OF th])
  fix p t' p' assume "po = Some p" "owns p \<noteq> None" "t' \<noteq> t" "T t' = Some p'"
  then show "owns p \<noteq> owns p'" using new owns_other[OF th t] by metis
qed (use thread_pc[OF th] new in auto)

lemma claim_ok:
  assumes s: "size_ok Size" and q: "queue_ok Size vals d P G q" and th: "threads_ok Size vals d P G (q, T)"
    and t: "T t = Some (E_Cas v (length vals))" and b: "length vals + 1 < 2 ^ 63"
    and q': "q' = q\<lparr>enqueueIndex := add64 (length vals) 1\<rparr>"
  shows "queue_ok Size (vals @ [v]) d P G q' \<and>
    threads_ok Size (vals @ [v]) d P G (q', T(t \<mapsto> E_Store v (length vals)))"
proof
  let ?e = "length vals"
  have c: "counts Size ?e d P G" using q by (simp add: queue_ok_def)
  have free: "?e < d + Size" "?e < Size \<or> ?e - Size \<in> G"
    using thread_pc[OF th t] by auto
  have "cell_ok Size (vals @ [v]) P G q' p" if "d \<le> p" "p < d + Size" for p
  proof -
    have "cell_ok Size vals P G q p" using q that by (simp add: queue_ok_def)
    then show ?thesis
      using c free that unfolding counts_def
      by (cases "p = ?e"; cases "p < ?e") (auto simp: cell_ok_def q' nth_append)
  qed
  moreover have "counts Size (?e + 1) d P G"
    using c free unfolding counts_def by (auto simp: less_Suc_eq dest: sym[of "_ + Size"])
  ultimately show "queue_ok Size (vals @ [v]) d P G q'"
    using q b by (simp add: queue_ok_def q')
  show "threads_ok Size (vals @ [v]) d P G (q', T(t \<mapsto> E_Store v ?e))"
  proof (rule threads_update[OF th])
    fix t' p assume p: "T t' = Some p"
    show "pc_ok Size (vals @ [v]) d P G q' p"
      using thread_pc[OF th p] c by (cases p) (auto simp: nth_append q' counts_def)
  next
    fix p t' p' assume "Some (E_Store v ?e) = Some p" "T t' = Some p'"
    then show "owns p \<noteq> owns p'" using thread_pc[OF th, of t' p'] by (cases p') auto
  qed (use c in \<open>auto simp: counts_def\<close>)
qed

lemma store_ok:
  assumes s: "size_ok Size" and q: "queue_ok Size vals d P G q" and th: "threads_ok Size vals d P G (q, T)"
    and t: "T t = Some (E_Store v k)" and q': "q' = set_data Size k v q"
  shows "queue_ok Size vals d P G q' \<and> threads_ok Size vals d P G (q', T(t \<mapsto> E_Publish k))"
proof
  have c: "counts Size (length vals) d P G" and l: "length (cells q) = Size" using q by (simp_all add: queue_ok_def)
  have k: "k < length vals" "k \<notin> P" "vals ! k = v" "d \<le> k" "k < d + Size"
    using thread_pc[OF th t] c by (auto simp: counts_def subset_iff not_less[symmetric])
  have same: "data_at Size p q' = data_at Size p q" if "d \<le> p" "p < d + Size" "p \<noteq> k" for p
    using that k window_inj[of p Size k d] by (auto simp: q' data_at_set_data[OF s l])
  have "cell_ok Size vals P G q' p" if "d \<le> p" "p < d + Size" for p
  proof -
    have "cell_ok Size vals P G q p" using q that by (simp add: queue_ok_def)
    moreover have "seq_at Size p q' = seq_at Size p q" by (simp add: q' seq_at_set_data[OF s l])
    ultimately show ?thesis
      using same[OF that] k by (cases "p = k") (auto simp: cell_ok_def)
  qed
  then show "queue_ok Size vals d P G q'" using q by (simp add: queue_ok_def q')
  show "threads_ok Size vals d P G (q', T(t \<mapsto> E_Publish k))"
  proof (rule threads_update[OF th])
    fix t' p assume p: "T t' = Some p" "t' \<noteq> t"
    have "d \<le> i" "i < d + Size" "i \<noteq> k" if "p = E_Publish i" for i
      using that thread_pc[OF th p(1)] owns_other[OF th t p] c
      by (auto simp: counts_def subset_iff not_less[symmetric])
    then show "pc_ok Size vals d P G q' p"
      using thread_pc[OF th p(1)] same by (cases p) auto
  next
    fix p t' p' assume p: "Some (E_Publish k) = Some p" "t' \<noteq> t" "T t' = Some p'"
    then show "owns p \<noteq> owns p'" using owns_other[OF th t p(3,2)] by auto
  qed (use k in \<open>auto simp: q' data_at_set_data[OF s l]\<close>)
qed

lemma publish_ok:
  assumes s: "size_ok Size" and q: "queue_ok Size vals d P G q" and th: "threads_ok Size vals d P G (q, T)"
    and t: "T t = Some (E_Publish k)" and b: "length vals + 1 < 2 ^ 63"
    and q': "q' = set_seq Size k (add64 k 1) q"
  shows "queue_ok Size vals d (insert k P) G q' \<and> threads_ok Size vals d (insert k P) G (q', T(t := None)) \<and> k \<notin> P"
proof (intro conjI)
  have c: "counts Size (length vals) d P G" and l: "length (cells q) = Size" using q by (simp_all add: queue_ok_def)
  have k: "k < length vals" "k \<notin> P" "data_at Size k q = vals ! k" "d \<le> k" "k < d + Size"
    using thread_pc[OF th t] c by (auto simp: counts_def subset_iff not_less[symmetric])
  then show "k \<notin> P" by simp
  have same: "seq_at Size p q' = seq_at Size p q" if "d \<le> p" "p < d + Size" "p \<noteq> k" for p
    using that k window_inj[of p Size k d] by (auto simp: q' seq_at_set_seq[OF s l])
  have own: "seq_at Size k q' = k + 1" using k b by (simp add: q' seq_at_set_seq[OF s l])
  have "cell_ok Size vals (insert k P) G q' p" if "d \<le> p" "p < d + Size" for p
  proof -
    have "cell_ok Size vals P G q p" using q that by (simp add: queue_ok_def)
    moreover have "data_at Size p q' = data_at Size p q" by (simp add: q' data_at_set_seq[OF s l])
    ultimately show ?thesis
      using same[OF that] own k by (cases "p = k") (auto simp: cell_ok_def)
  qed
  moreover have "counts Size (length vals) d (insert k P) G" using c k by (auto simp: counts_def)
  ultimately show "queue_ok Size vals d (insert k P) G q'" using q by (simp add: queue_ok_def q')
  show "threads_ok Size vals d (insert k P) G (q', T(t := None))"
  proof (rule threads_update[OF th])
    fix t' p assume p: "T t' = Some p" "t' \<noteq> t"
    show "pc_ok Size vals d (insert k P) G q' p"
      using thread_pc[OF th p(1)] owns_other[OF th t p]
      by (cases p) (auto simp: q' data_at_set_seq[OF s l])
  qed auto
qed

lemma take_ok:
  assumes s: "size_ok Size" and q: "queue_ok Size vals d P G q" and th: "threads_ok Size vals d P G (q, T)"
    and t: "T t = Some (D_Cas d)" and b: "length vals + 1 < 2 ^ 63"
    and q': "q' = q\<lparr>dequeueIndex := add64 d 1\<rparr>"
  shows "queue_ok Size vals (d + 1) P G q' \<and> threads_ok Size vals (d + 1) P G (q', T(t \<mapsto> D_Copy d))"
proof
  have c: "counts Size (length vals) d P G" and l: "length (cells q) = Size" using q by (simp_all add: queue_ok_def)
  have pub: "d \<in> P" "d < length vals" "d \<notin> G" using thread_pc[OF th t] c by (auto simp: counts_def)
  have "cell_ok Size vals P G q' p" if "d + 1 \<le> p" "p < d + 1 + Size" for p
  proof (cases "p = d + Size")
    case True
    have "cell_ok Size vals P G q d" using q size_okD[OF s] by (simp add: queue_ok_def)
    then show ?thesis
      using True pub c at_add_size[OF s, of d q] by (auto simp: cell_ok_def q' counts_def)
  next
    case False
    then have "cell_ok Size vals P G q p" using q that by (simp add: queue_ok_def)
    then show ?thesis by (simp add: cell_ok_def q')
  qed
  moreover have "counts Size (length vals) (d + 1) P G"
    using c pub by (auto simp: counts_def subset_iff less_Suc_eq)
  ultimately show "queue_ok Size vals (d + 1) P G q'"
    using q b pub by (simp add: queue_ok_def q')
  show "threads_ok Size vals (d + 1) P G (q', T(t \<mapsto> D_Copy d))"
  proof (rule threads_update[OF th])
    fix t' p assume p: "T t' = Some p" "t' \<noteq> t"
    show "pc_ok Size vals (d + 1) P G q' p"
      using thread_pc[OF th p(1)] by (cases p) (auto simp: q')
  next
    fix p t' p' assume "Some (D_Copy d) = Some p" "T t' = Some p'"
    then show "owns p \<noteq> owns p'" using thread_pc[OF th, of t' p'] by (cases p') auto
  qed (use pub in auto)
qed

lemma copied_value:
  assumes s: "size_ok Size" and q: "queue_ok Size vals d P G q" and k: "k < d" "k \<notin> G"
  shows "data_at Size k q = vals ! k \<and> length vals \<le> k + Size"
proof -
  have c: "counts Size (length vals) d P G" using q by (simp add: queue_ok_def)
  then have e: "length vals \<le> k + Size" using k by (auto simp: counts_def not_less[symmetric])
  then have "cell_ok Size vals P G q (k + Size)" using q k c by (simp add: queue_ok_def counts_def)
  then show ?thesis using e k by (auto simp: cell_ok_def at_add_size[OF s])
qed

lemma release_ok:
  assumes s: "size_ok Size" and q: "queue_ok Size vals d P G q" and th: "threads_ok Size vals d P G (q, T)"
    and t: "T t = Some (D_Release k v)" and b: "length vals + Size < 2 ^ 63"
    and q': "q' = set_seq Size k (add64 k (Mask Size + 1)) q"
  shows "queue_ok Size vals d P (insert k G) q' \<and> threads_ok Size vals d P (insert k G) (q', T(t := None)) \<and>
    k \<notin> G \<and> v = vals ! k"
proof (intro conjI)
  have c: "counts Size (length vals) d P G" and l: "length (cells q) = Size" using q by (simp_all add: queue_ok_def)
  have k: "k < d" "k \<notin> G" "v = vals ! k" using thread_pc[OF th t] by auto
  then show "k \<notin> G" "v = vals ! k" by auto
  have e: "length vals \<le> k + Size" using copied_value[OF s q k(1,2)] by simp
  have same: "seq_at Size p q' = seq_at Size p q" if "d \<le> p" "p < d + Size" "p \<noteq> k + Size" for p
    using that k e c window_inj[of p Size "k + Size" d]
    by (auto simp: q' seq_at_set_seq[OF s l] counts_def)
  have own: "seq_at Size (k + Size) q' = k + Size"
    using k b c size_okD[OF s] by (auto simp: q' seq_at_set_seq[OF s l] counts_def)
  have "cell_ok Size vals P (insert k G) q' p" if "d \<le> p" "p < d + Size" for p
  proof -
    have "cell_ok Size vals P G q p" using q that by (simp add: queue_ok_def)
    moreover have "data_at Size p q' = data_at Size p q" by (simp add: q' data_at_set_seq[OF s l])
    ultimately show ?thesis
      using same[OF that] own k e by (cases "p = k + Size") (auto simp: cell_ok_def)
  qed
  moreover have "counts Size (length vals) d P (insert k G)" using c k by (auto simp: counts_def)
  ultimately show "queue_ok Size vals d P (insert k G) q'" using q by (simp add: queue_ok_def q')
  show "threads_ok Size vals d P (insert k G) (q', T(t := None))"
  proof (rule threads_update[OF th])
    fix t' p assume p: "T t' = Some p" "t' \<noteq> t"
    show "pc_ok Size vals d P (insert k G) q' p"
      using thread_pc[OF th p(1)] owns_other[OF th t p]
      by (cases p) (auto simp: q' data_at_set_seq[OF s l])
  qed auto
qed

lemma threads_start:
  assumes th: "threads_ok Size vals d P G (q, T)" and t: "T t = None"
    and p: "pc_ok Size vals d P G q p" "owns p = None"
  shows "threads_ok Size vals d P G (q, T(t \<mapsto> p))"
  by (rule threads_update[OF th]) (use thread_pc[OF th] p in auto)

lemma mpmc_invI:
  assumes "queue_ok Size (claims tr) (takes tr) (set (puts tr)) (fst ` set (gots tr)) q"
    "threads_ok Size (claims tr) (takes tr) (set (puts tr)) (fst ` set (gots tr)) (q, T)" "history_ok tr"
  shows "mpmc_inv Size tr (q, T)"
  using assms by (simp add: mpmc_inv_def)

lemma mpmc_step:
  assumes s: "size_ok Size" and i: "mpmc_inv Size tr (q, T)" and t: "T t = Some p"
    and st: "pc_step Size fail p q = (ev, po, q')" and b: "length (claims (ev # tr)) + Size < 2 ^ 63"
  shows "mpmc_inv Size (ev # tr) (q', T(t := po))"
proof -
  let ?P = "set (puts tr)" and ?G = "fst ` set (gots tr)"
  have q: "queue_ok Size (claims tr) (takes tr) ?P ?G q"
    and th: "threads_ok Size (claims tr) (takes tr) ?P ?G (q, T)" and h: "history_ok tr"
    using i by (simp_all add: mpmc_inv_def)
  have idx: "enqueueIndex q = length (claims tr)" "dequeueIndex q = takes tr"
    using q by (simp_all add: queue_ok_def)
  have dle: "takes tr \<le> length (claims tr)" using q by (simp add: queue_ok_def counts_def)
  have b': "length (claims tr) + Size < 2 ^ 63" using b by (cases ev) auto
  then have b1: "length (claims tr) + 1 < 2 ^ 63" using size_okD[OF s] by linarith
  have sm: "seq_at Size k q < 2 ^ 63" for k using seq_bounds(1)[OF s q, of k] dle b' by linarith
  have tau: "mpmc_inv Size (ev # tr) (q, T(t := po))"
    if "ev \<in> {M_Tau, M_Full, M_Empty}"
      "\<And>p'. po = Some p' \<Longrightarrow> pc_ok Size (claims tr) (takes tr) ?P ?G q p' \<and> (owns p' = None \<or> owns p' = owns p)"
    using that h q threads_local[OF th t that(2)]
    by (intro mpmc_invI) (auto simp: history_ok_def)
  note pk = thread_pc[OF th t]
  show ?thesis
  proof (cases p)
    case (E_Load v)
    then show ?thesis using st idx tau by auto
  next
    case (E_Seq v i)
    then have "i \<le> length (claims tr)" "i < 2 ^ 63" using pk b1 by auto
    moreover have "pc_ok Size (claims tr) (takes tr) ?P ?G q (E_Cas v i)" if "seq_at Size i q = i"
      using enqueue_cell(1)[OF s q _ that] calculation by auto
    ultimately show ?thesis
      using E_Seq st tau sm[of i]
      by (auto simp: Let_def diff_small simp del: pc_ok.simps(3) split: if_splits)
  next
    case (E_Cas v i)
    show ?thesis
    proof (cases "enqueueIndex q = i \<and> \<not> fail")
      case True
      then have "i = length (claims tr)" "ev = M_Claim v" "po = Some (E_Store v i)"
        "q' = q\<lparr>enqueueIndex := add64 i 1\<rparr>" using E_Cas st idx by auto
      moreover have "fst ` set (gots tr) \<subseteq> {..<length (claims tr)}"
        using q by (auto simp: queue_ok_def counts_def)
      then have "history_ok (M_Claim v # tr)" using h by (force simp: history_ok_def nth_append)
      ultimately show ?thesis
        using claim_ok[OF s q th _ b1, of t v q'] t E_Cas by (intro mpmc_invI) auto
    qed (use E_Cas st idx tau in \<open>auto split: if_splits\<close>)
  next
    case (E_Store v k)
    then show ?thesis
      using store_ok[OF s q th _ refl, of t v k] t st h
      by (auto intro!: mpmc_invI simp: history_ok_def)
  next
    case (E_Publish k)
    then show ?thesis
      using publish_ok[OF s q th _ b1 refl, of t k] t st h
      by (auto intro!: mpmc_invI simp: history_ok_def)
  next
    case D_Load
    then show ?thesis using st idx tau by auto
  next
    case (D_Seq i)
    then have "i \<le> takes tr" "add64 i 1 = i + 1" "i + 1 < 2 ^ 63" using pk b1 dle by auto
    moreover have "pc_ok Size (claims tr) (takes tr) ?P ?G q (D_Cas i)"
      if "int (seq_at Size i q) = int (i + 1)"
      using dequeue_cell(1)[OF s q, of i] that calculation(1) unfolding of_nat_eq_iff by auto
    ultimately show ?thesis
      using D_Seq st tau sm[of i]
      by (auto simp: Let_def diff_small simp del: pc_ok.simps(8) split: if_splits)
  next
    case (D_Cas i)
    show ?thesis
    proof (cases "dequeueIndex q = i \<and> \<not> fail")
      case True
      then have "i = takes tr" "ev = M_Take" "po = Some (D_Copy i)"
        "q' = q\<lparr>dequeueIndex := add64 i 1\<rparr>" using D_Cas st idx by auto
      then show ?thesis
        using take_ok[OF s q th _ b1, of t q'] t D_Cas h
        by (intro mpmc_invI) (auto simp: history_ok_def)
    qed (use D_Cas st idx tau in \<open>auto split: if_splits\<close>)
  next
    case (D_Copy k)
    then show ?thesis
      using st tau pk copied_value[OF s q, of k] by auto
  next
    case (D_Release k v)
    then show ?thesis
      using release_ok[OF s q th _ b' refl, of t k v] t st h
      by (auto intro!: mpmc_invI simp: history_ok_def)
  qed
qed

lemma mreach_inv:
  assumes "mreach Size dflt tr w" "size_ok Size" "length (claims tr) + Size < 2 ^ 63"
  shows "mpmc_inv Size tr w"
  using assms
proof (induction rule: mreach.induct)
  case mstart
  then show ?case by (simp add: mpmc_inv_init)
next
  case (mstep tr w a ev w')
  obtain q T where w: "w = (q, T)" by (cases w)
  have "length (claims tr) \<le> length (claims (ev # tr))" by (cases ev) auto
  then have i: "mpmc_inv Size tr (q, T)" using mstep w by simp
  then have th: "threads_ok Size (claims tr) (takes tr) (set (puts tr)) (fst ` set (gots tr)) (q, T)"
    by (simp add: mpmc_inv_def)
  show ?case
  proof (cases a)
    case (B_Enqueue t v)
    then show ?thesis
      using mstep.hyps(2) w i threads_start[OF th, of t "E_Load v"]
      by (auto simp: mpmc_inv_def history_ok_def split: if_splits)
  next
    case (B_Dequeue t)
    then show ?thesis
      using mstep.hyps(2) w i threads_start[OF th, of t D_Load]
      by (auto simp: mpmc_inv_def history_ok_def split: if_splits)
  next
    case (B_Step t fail)
    then show ?thesis
      using mstep.hyps(2) mstep.prems w mpmc_step[OF mstep.prems(1) i, of t]
      by (auto split: option.splits prod.splits)
  qed
qed

section \<open>Properties\<close>

text \<open>A thread that runs alone, without spurious failures of its compare-exchange.\<close>

fun alone :: "nat \<Rightarrow> thread \<Rightarrow> nat \<Rightarrow> 'a mworld \<Rightarrow> 'a mworld" where
  "alone Size t 0 w = w"
| "alone Size t (Suc n) w =
     (case mact Size (B_Step t False) w of None \<Rightarrow> w | Some (_, w') \<Rightarrow> alone Size t n w')"

text \<open>Runs of a schedule, for concrete interleavings.\<close>

fun mschedule :: "nat \<Rightarrow> 'a maction list \<Rightarrow> 'a mev list \<times> 'a mworld \<Rightarrow> ('a mev list \<times> 'a mworld) option" where
  "mschedule Size [] tw = Some tw"
| "mschedule Size (a # as) (tr, w) =
     (case mact Size a w of Some (ev, w') \<Rightarrow> mschedule Size as (ev # tr, w') | None \<Rightarrow> None)"

lemma mschedule_reach:
  "mreach Size dflt tr w \<Longrightarrow> mschedule Size as (tr, w) = Some (tr', w') \<Longrightarrow> mreach Size dflt tr' w'"
  by (induction as arbitrary: tr w) (auto split: option.splits intro: mreach.mstep)

lemma alone_ends:
  assumes s: "size_ok Size" and q: "queue_ok Size vals d P G q" and th: "threads_ok Size vals d P G (q, T)"
    and t: "T t = Some p" and b: "length vals + Size < 2 ^ 63"
  shows "snd (alone Size t 6 (q, T)) t = None"
proof -
  have idx: "enqueueIndex q = length vals" "dequeueIndex q = d" and dle: "d \<le> length vals"
    using q by (simp_all add: queue_ok_def counts_def)
  have b1: "length vals + 1 < 2 ^ 63" "d + 1 < 2 ^ 63" using b size_okD[OF s] dle by linarith+
  have sm: "seq_at Size k q < 2 ^ 63" for k using seq_bounds(1)[OF s q, of k] dle b by linarith
  have de: "seq_diff (seq_at Size (length vals) q) (length vals) \<le> 0"
    using enqueue_cell(3)[OF s q] b1 sm by (simp add: diff_small)
  have dd: "seq_diff (seq_at Size d q) (add64 d 1) \<le> 0"
    using dequeue_cell(3)[OF s q] b1 sm by (simp add: diff_small)
  have six: "(6::nat) = Suc (Suc (Suc (Suc (Suc (Suc 0)))))" by simp
  show ?thesis
    using t idx de dd by (cases p) (auto simp: six Let_def)
qed

text \<open>
  C27: for every interleaving of any number of producers and consumers of the bounded queue, the
  value that is returned for the position a consumer claimed is the one of the producer that
  claimed the same position, and no position is returned twice, as long as fewer than
  \<open>2 ^ 63 - Size\<close> values have been enqueued.
\<close>

theorem mpmc_fifo:
  assumes "size_ok Size" "mreach Size dflt tr w" "length (claims tr) + Size < 2 ^ 63" "(i, v) \<in> set (gots tr)"
  shows "i < takes tr \<and> takes tr \<le> length (claims tr) \<and> v = claims tr ! i \<and> distinct (map fst (gots tr))"
  using mreach_inv[OF assms(2,1,3)] assms(4)
  by (force simp: mpmc_inv_def queue_ok_def counts_def history_ok_def)

text \<open>
  C28: \<open>enqueue\<close> returns false only when the cell it needs still holds a value that has not been
  returned, \<open>dequeue\<close> only when the next position has not been published.
\<close>

theorem mpmc_refusals:
  assumes "size_ok Size" "mreach Size dflt tr w" "length (claims tr) + Size < 2 ^ 63"
    and "mact Size a w = Some (ev, w')"
  shows "(ev = M_Full \<longrightarrow> Size \<le> length (claims tr) \<and> length (claims tr) - Size \<notin> fst ` set (gots tr)) \<and>
    (ev = M_Empty \<longrightarrow> takes tr \<notin> set (puts tr))"
proof -
  obtain q T where w: "w = (q, T)" by (cases w)
  have q: "queue_ok Size (claims tr) (takes tr) (set (puts tr)) (fst ` set (gots tr)) q"
    and th: "threads_ok Size (claims tr) (takes tr) (set (puts tr)) (fst ` set (gots tr)) (q, T)"
    using mreach_inv[OF assms(2,1,3)] w by (simp_all add: mpmc_inv_def)
  have dle: "takes tr \<le> length (claims tr)" using q by (simp add: queue_ok_def counts_def)
  have b1: "length (claims tr) + 1 < 2 ^ 63" using assms(3) size_okD[OF assms(1)] by linarith
  have sm: "seq_at Size k q < 2 ^ 63" for k
    using seq_bounds(1)[OF assms(1) q, of k] dle assms(3) by linarith
  consider (full) t v i where "ev = M_Full" "T t = Some (E_Seq v i)" "seq_diff (seq_at Size i q) i < 0"
    | (empty) t i where "ev = M_Empty" "T t = Some (D_Seq i)" "seq_diff (seq_at Size i q) (add64 i 1) < 0"
    | (other) "ev \<noteq> M_Full" "ev \<noteq> M_Empty"
    using assms(4) w
    by (cases a) (auto simp: Let_def split: if_splits option.splits prod.splits pc.splits elim!: pc_step.elims)
  then show ?thesis
  proof cases
    case full
    then have "i \<le> length (claims tr)" using thread_pc[OF th full(2)] by simp
    then show ?thesis
      using full enqueue_cell(2)[OF assms(1) q, of i] sm[of i] b1 by (auto simp: diff_small)
  next
    case empty
    then have "i \<le> takes tr" using thread_pc[OF th empty(2)] by simp
    then show ?thesis
      using empty dequeue_cell(2)[OF assms(1) q, of i] sm[of i] b1 dle by (auto simp: diff_small)
  qed simp
qed

text \<open>
  C29: from every reachable state an operation that runs alone returns within six of its steps, so
  the loops of \<open>enqueue\<close> and \<open>dequeue\<close> go round only while another thread makes progress.
\<close>

theorem mpmc_obstruction_free:
  assumes "size_ok Size" "mreach Size dflt tr w" "length (claims tr) + Size < 2 ^ 63" "snd w t = Some p"
  shows "snd (alone Size t 6 w) t = None"
  using alone_ends[OF assms(1)] mreach_inv[OF assms(2,1,3)] assms(3,4)
  by (cases w) (auto simp: mpmc_inv_def)

text \<open>The move operations make the target an empty queue whatever the other one holds.\<close>

lemma move_loses_contents:
  "dequeueIndex (MPMCQueue_move other) = enqueueIndex (MPMCQueue_move other)"
  by (simp add: MPMCQueue_move_def)

text \<open>
  Two producers and two consumers on a queue of two cells: the second producer is overtaken between
  its load and its exchange, the queue fills up, and the first consumer is still copying while the
  second one takes the next value.
\<close>

definition steps :: "thread \<Rightarrow> nat \<Rightarrow> 'a maction list" where
  "steps t n = replicate n (B_Step t False)"

definition mpmc_schedule :: "nat maction list" where
  "mpmc_schedule =
     [B_Enqueue 1 10, B_Enqueue 2 20] @ steps 1 1 @ steps 2 2 @ steps 1 4 @ steps 2 5 @
     [B_Dequeue 3, B_Dequeue 4] @ steps 3 3 @ steps 4 5 @ steps 3 1"

definition mpmc_sample :: "nat mev list \<times> nat mworld" where
  "mpmc_sample = the (mschedule 2 mpmc_schedule ([], (MPMCQueue_init 2 0, Map.empty)))"

definition mpmc_full :: "nat mev list \<times> nat mworld" where
  "mpmc_full = the (mschedule 2 ([B_Enqueue 1 10, B_Enqueue 2 20] @ steps 1 5 @ steps 2 5 @
     [B_Enqueue 5 30] @ steps 5 1) ([], (MPMCQueue_init 2 0, Map.empty)))"

lemma the_reach:
  assumes "mschedule Size as ([], (MPMCQueue_init Size dflt, Map.empty)) \<noteq> None"
    and "tw = the (mschedule Size as ([], (MPMCQueue_init Size dflt, Map.empty)))"
  shows "mreach Size dflt (fst tw) (snd tw)"
  using assms mschedule_reach[OF mreach.mstart, of Size as dflt "fst tw" "snd tw"] by auto

lemma mpmc_sample_reach: "mreach 2 0 (fst mpmc_sample) (snd mpmc_sample)"
  by (rule the_reach[OF _ mpmc_sample_def]) code_simp

lemma mpmc_full_reach: "mreach 2 0 (fst mpmc_full) (snd mpmc_full)"
  by (rule the_reach[OF _ mpmc_full_def]) code_simp

lemma mpmc_sample_facts:
  "size_ok 2" "claims (fst mpmc_sample) = [10, 20]" "gots (fst mpmc_sample) = [(1, 20)]"
  "puts (fst mpmc_sample) = [1, 0]" "takes (fst mpmc_sample) = 2"
  "snd (snd mpmc_sample) 3 = Some (D_Release 0 10)"
  by code_simp+

lemma mpmc_full_facts:
  "claims (fst mpmc_full) = [10, 20]" "snd (snd mpmc_full) 5 = Some (E_Seq 30 2)"
  "pc_step 2 False (E_Seq 30 2) (fst (snd mpmc_full)) = (M_Full, None, fst (snd mpmc_full))"
  by code_simp+

theorem mpmc_fifo_witness:
  "distinct (map fst (gots (fst mpmc_sample))) \<and> 20 = claims (fst mpmc_sample) ! 1"
  using mpmc_fifo[OF mpmc_sample_facts(1) mpmc_sample_reach, of 1 20] mpmc_sample_facts by simp

theorem mpmc_refusals_witness:
  "fst (the (mact 2 (B_Step 5 False) (snd mpmc_full))) = M_Full \<and>
   0 \<notin> fst ` set (gots (fst mpmc_full))"
proof -
  obtain q T where w: "snd mpmc_full = (q, T)" by (cases "snd mpmc_full")
  have "mact 2 (B_Step 5 False) (snd mpmc_full) = Some (M_Full, (q, T(5 := None)))"
    using mpmc_full_facts(2,3) w by (simp del: pc_step.simps)
  note m = this
  show ?thesis
    using mpmc_refusals[OF mpmc_sample_facts(1) mpmc_full_reach _ m] mpmc_full_facts(1) m
    by (simp del: mact.simps)
qed

theorem mpmc_obstruction_free_witness:
  "snd (alone 2 3 6 (snd mpmc_sample)) 3 = None"
  using mpmc_obstruction_free[OF mpmc_sample_facts(1) mpmc_sample_reach] mpmc_sample_facts by simp

end
