(* ===== verification/Client_Request.thy ===== *)
theory Client_Request
  imports Head_Roundtrip
begin

text \<open>
  How the client prints a request (the functions above \<open>Transport\<close> in client.cc) and builds it
  (\<open>RequestBuilder\<close>), and that the server reads back what the client meant.  The requests are the
  messages of the parser; the request of a builder is printed to one string.
\<close>

section \<open>Printing a request\<close>

definition UA :: string where "UA = ''pistache/0.1''"

text \<open>Host, page, and whether the scheme is https.\<close>

definition splitUrl :: "string \<Rightarrow> bool \<Rightarrow> string \<times> string \<times> bool" where
  "splitUrl url remove_subdomain =
     (let c0 = RawStreamBuf url;
          (http, c1) = match_string ''http://'' Insensitive c0;
          (https, c2) = (if \<not> http then match_string ''https://'' Insensitive c1 else (False, c1));
          c3 = (if remove_subdomain
                then snd (match_literal (CHR ''.'') Insensitive (snd (match_string ''www'' Insensitive c2)))
                else c2);
          c4 = snd (match_until [CHR ''?'', CHR ''/''] Insensitive c3)
      in (token_text c3 c4, rest c4, https))"

definition client_writeHeader :: "http_env \<Rightarrow> Header \<Rightarrow> string" where
  "client_writeHeader E h = header_name h @ '': '' @ header_write E h @ crlf"

definition client_writeHeaders :: "http_env \<Rightarrow> Collection \<Rightarrow> string" where
  "client_writeHeaders E hs = concat (map (client_writeHeader E) (Collection_list hs))"

fun write_pairs :: "bool \<Rightarrow> cookie list \<Rightarrow> string" where
  "write_pairs first [] = []"
| "write_pairs first (ck # cks) =
     (if \<not> first then ''; '' else []) @ ck_name ck @ ''='' @ ck_value ck @ write_pairs False cks"

definition client_writeCookies :: "cookie_jar \<Rightarrow> string" where
  "client_writeCookies jar = ''Cookie: '' @ write_pairs True (jar_cookies jar) @ crlf"

text \<open>The constructor of the \<open>Host\<close> header parses its argument and may throw.\<close>

definition writeRequest :: "http_env \<Rightarrow> message \<Rightarrow> string result" where
  "writeRequest E req =
     (let (host, path, is_https) = splitUrl (msg_resource req) False;
          host_str = host @ (if is_https \<and> CHR '':'' \<notin> set host then '':443'' else [])
      in case Host_parse (he_net E) host_str of
           Inl e \<Rightarrow> Inl e
         | Inr h \<Rightarrow>
             Inr ((case msg_method req of Some m \<Rightarrow> methodString m | None \<Rightarrow> []) @ '' ''
               @ (if path = [] \<or> hd path \<noteq> CHR ''/'' then ''/'' else [])
               @ path @ Query_as_str (msg_query req) @ '' HTTP/1.1'' @ crlf
               @ client_writeCookies (msg_cookies req)
               @ client_writeHeaders E (msg_headers req)
               @ client_writeHeader E (H_UserAgent UA)
               @ client_writeHeader E (H_Host h)
               @ (if msg_body req \<noteq> [] then client_writeHeader E (H_ContentLength (length (msg_body req))) else [])
               @ crlf
               @ (if msg_body req \<noteq> [] then msg_body req else [])))"

section \<open>Building a request\<close>

text \<open>The request of a builder, with its timeout in milliseconds (the member \<open>timeout_\<close> of the request).\<close>

record RequestBuilder =
  rb_request :: message
  rb_timeout :: int

definition builder_method :: "Method \<Rightarrow> RequestBuilder \<Rightarrow> RequestBuilder" where
  "builder_method m rb = rb\<lparr>rb_request := (rb_request rb)\<lparr>msg_method := Some m\<rparr>\<rparr>"

definition builder_resource :: "string \<Rightarrow> RequestBuilder \<Rightarrow> RequestBuilder" where
  "builder_resource v rb = rb\<lparr>rb_request := (rb_request rb)\<lparr>msg_resource := v\<rparr>\<rparr>"

definition builder_params :: "query \<Rightarrow> RequestBuilder \<Rightarrow> RequestBuilder" where
  "builder_params q rb = rb\<lparr>rb_request := (rb_request rb)\<lparr>msg_query := q\<rparr>\<rparr>"

definition builder_header :: "Header \<Rightarrow> RequestBuilder \<Rightarrow> RequestBuilder" where
  "builder_header h rb =
     rb\<lparr>rb_request := (rb_request rb)\<lparr>msg_headers := Collection_add h (msg_headers (rb_request rb))\<rparr>\<rparr>"

definition builder_cookie :: "cookie \<Rightarrow> RequestBuilder \<Rightarrow> RequestBuilder" where
  "builder_cookie ck rb =
     rb\<lparr>rb_request := (rb_request rb)\<lparr>msg_cookies := jar_add ck (msg_cookies (rb_request rb))\<rparr>\<rparr>"

definition builder_body :: "string \<Rightarrow> RequestBuilder \<Rightarrow> RequestBuilder" where
  "builder_body v rb = rb\<lparr>rb_request := (rb_request rb)\<lparr>msg_body := v\<rparr>\<rparr>"

definition builder_timeout :: "int \<Rightarrow> RequestBuilder \<Rightarrow> RequestBuilder" where
  "builder_timeout ms rb = rb\<lparr>rb_timeout := ms\<rparr>"

definition bodySize :: "RequestBuilder \<Rightarrow> nat" where
  "bodySize rb = length (msg_body (rb_request rb))"

definition prepareRequest :: "string \<Rightarrow> Method \<Rightarrow> RequestBuilder" where
  "prepareRequest resource m =
     builder_method m (builder_resource resource \<lparr>rb_request = Message0, rb_timeout = 0\<rparr>)"

definition Client_get :: "string \<Rightarrow> RequestBuilder" where "Client_get r = prepareRequest r Get"
definition Client_post :: "string \<Rightarrow> RequestBuilder" where "Client_post r = prepareRequest r Post"
definition Client_put :: "string \<Rightarrow> RequestBuilder" where "Client_put r = prepareRequest r Put"
definition Client_patch :: "string \<Rightarrow> RequestBuilder" where "Client_patch r = prepareRequest r Patch"
definition Client_del :: "string \<Rightarrow> RequestBuilder" where "Client_del r = prepareRequest r Delete"

section \<open>The server reads the request\<close>

lemma c_tolower_question [simp]: "c_tolower (CHR ''?'') = CHR ''?''"
  by code_simp

lemma until_find_url: "until_find [CHR ''?'', CHR ''/''] Insensitive x \<longleftrightarrow> x \<in> {CHR ''?'', CHR ''/''}"
  by (auto simp: until_find_def)

definition url_scheme :: "bool \<Rightarrow> string" where
  "url_scheme https = (if https then ''https://'' else ''http://'')"

lemma splitUrl_text:
  assumes host: "CHR ''?'' \<notin> set host" "CHR ''/'' \<notin> set host"
    and path: "path = [] \<or> hd path = CHR ''/'' \<or> hd path = CHR ''?''"
    and len: "length (url_scheme https @ host @ path) < 2 ^ 63"
  shows "splitUrl (url_scheme https @ host @ path) False = (host, path, https)"
proof -
  let ?url = "url_scheme https @ host @ path"
  define c0 where "c0 = RawStreamBuf ?url"
  define c1 where "c1 = c0\<lparr>spos := spos c0 + length (url_scheme https)\<rparr>"
  have wf: "wf_cursor c0" and r: "rest c0 = ?url" using len by (simp_all add: c0_def)
  have wf1: "wf_cursor c1" and r1: "rest c1 = host @ path"
    unfolding c1_def using wf_at [OF wf r] rest_at [OF r] by simp_all
  have m: "match_string ''http://'' Insensitive c0 = (\<not> https, if https then c0 else c1)"
    "https \<Longrightarrow> match_string ''https://'' Insensitive c0 = (True, c1)"
    using r by (cases https; simp add: match_string_eq [OF wf] url_scheme_def c1_def to_lower_def)+
  have tw: "takeWhile (\<lambda>x. \<not> until_find [CHR ''?'', CHR ''/''] Insensitive x) (host @ path) = host"
    using host path unfolding until_find_url
    by (subst takeWhile_append2) (auto simp: takeWhile_eq_Nil_iff hd_append)
  have u: "snd (match_until [CHR ''?'', CHR ''/''] Insensitive c1) = c1\<lparr>spos := spos c1 + length host\<rparr>"
    by (simp add: match_until_eq [OF wf1] r1 tw)
  have "rest (c1\<lparr>spos := spos c1 + length host\<rparr>) = path" using rest_at [OF r1] .
  moreover have "token_text c1 (c1\<lparr>spos := spos c1 + length host\<rparr>) = host" by (simp add: r1)
  ultimately show ?thesis
    using m u unfolding splitUrl_def Let_def c0_def [symmetric] by (cases https) simp_all
qed

definition pair_of :: "cookie \<Rightarrow> string \<times> string" where
  "pair_of ck = (ck_name ck, ck_value ck)"

lemma write_pairs_text:
  "write_pairs False cks = (if cks = [] then [] else ''; '' @ cookies_text (map pair_of cks))"
  "write_pairs True cks = cookies_text (map pair_of cks)"
proof -
  show f: "write_pairs False cks = (if cks = [] then [] else ''; '' @ cookies_text (map pair_of cks))" for cks
  proof (induction cks)
    case (Cons ck cks)
    then show ?case by (cases cks) (simp_all add: pair_of_def)
  qed simp
  show "write_pairs True cks = cookies_text (map pair_of cks)"
  proof (cases cks)
    case (Cons ck cks')
    have "write_pairs True cks = ck_name ck @ ''='' @ ck_value ck @ write_pairs False cks'" using Cons by simp
    also have "\<dots> = cookies_text (map pair_of cks)"
      using Cons by (cases cks') (simp_all add: f pair_of_def del: write_pairs.simps(2))
    finally show ?thesis .
  qed simp
qed

definition request_cookie_line :: "cookie list \<Rightarrow> line" where
  "request_cookie_line cks = (''Cookie'', cookies_text (map pair_of cks))"

definition readable_pairs :: "cookie list \<Rightarrow> bool" where
  "readable_pairs cks \<longleftrightarrow> (\<forall>nv \<in> set (map pair_of cks). cookie_pair nv)
     \<and> CR \<notin> set (cookies_text (map pair_of cks)) \<and> length (cookies_text (map pair_of cks)) < 2 ^ 63"

lemma good_request_cookie_line: "readable_pairs cks \<Longrightarrow> good_line (request_cookie_line cks)"
  using cookies_text_head [of "map pair_of cks"]
  by (auto simp: readable_pairs_def good_line_def request_cookie_line_def)

definition add_pairs :: "cookie list \<Rightarrow> message \<Rightarrow> message" where
  "add_pairs cks m = m\<lparr>msg_cookies := fold (\<lambda>ck. jar_add (Cookie (ck_name ck) (ck_value ck))) cks CookieJar,
     msg_headers := Collection_addRaw (request_cookie_line cks) (msg_headers m)\<rparr>"

lemma add_lines_pairs:
  assumes "readable_pairs cks"
  shows "add_lines E [request_cookie_line cks] m = Some (add_pairs cks m)"
proof -
  let ?v = "cookies_text (map pair_of cks)"
  have "LowercaseEqualStatic ''Cookie'' ''cookie''" by (simp add: LowercaseEqualStatic_iff to_lower_def)
  moreover have "jar_addFromRaw (?v @ crlf) (length ?v) jar
      = (None, fold (\<lambda>ck. jar_add (Cookie (ck_name ck) (ck_value ck))) cks jar)" for jar
    using jar_add_loop_text [of "map pair_of cks" "RawStreamBuf ?v" jar] assms
    by (simp add: jar_addFromRaw_def readable_pairs_def fold_map comp_def pair_of_def)
  ultimately show ?thesis
    by (simp add: request_cookie_line_def add_header_def add_pairs_def jar_removeAllCookies_def CookieJar_def)
qed

lemma add_pairs_sel [simp]:
  "msg_body (add_pairs cks m) = msg_body m" "msg_method (add_pairs cks m) = msg_method m"
  "msg_resource (add_pairs cks m) = msg_resource m" "msg_query (add_pairs cks m) = msg_query m"
  "msg_version (add_pairs cks m) = msg_version m"
  "msg_cookies (add_pairs cks m) = fold (\<lambda>ck. jar_add (Cookie (ck_name ck) (ck_value ck))) cks CookieJar"
  "Collection_tryGet name (msg_headers (add_pairs cks m)) = Collection_tryGet name (msg_headers m)"
  by (simp_all add: add_pairs_def)

lemma client_line: "client_writeHeader E h = line_text (object_line E h)"
  by (simp add: client_writeHeader_def line_text_def object_line_def)

text \<open>The headers that the client adds to those of the request.\<close>

definition own_headers :: "host_header \<Rightarrow> string \<Rightarrow> Header list" where
  "own_headers h body = [H_UserAgent UA, H_Host h] @ (if body = [] then [] else [H_ContentLength (length body)])"

definition absolute_path :: "string \<Rightarrow> string" where
  "absolute_path path = (if path = [] \<or> hd path \<noteq> CHR ''/'' then ''/'' else []) @ path"

lemma writeRequest_text:
  assumes "splitUrl (msg_resource req) False = (host, path, https)" "msg_method req = Some meth"
    and "Host_parse (he_net E) (host @ (if https \<and> CHR '':'' \<notin> set host then '':443'' else [])) = Inr h"
  shows "writeRequest E req = Inr (request_line meth (absolute_path path) (msg_query req) Http11
     @ concat (map line_text (request_cookie_line (jar_cookies (msg_cookies req))
        # map (object_line E) (Collection_list (msg_headers req) @ own_headers h (msg_body req))))
     @ crlf @ msg_body req)"
  using assms
  by (simp add: writeRequest_def request_line_def absolute_path_def own_headers_def client_writeCookies_def
      client_writeHeaders_def client_line [abs_def] write_pairs_text request_cookie_line_def line_text_def comp_def)

lemma readable_objects_append:
  "readable_objects E hs hs' \<Longrightarrow> readable_objects E ks ks' \<Longrightarrow> readable_objects E (hs @ ks) (hs' @ ks')"
  by (auto simp: readable_objects_def intro: list_all2_appendI)

lemma readable_own:
  assumes "readable_objects E [H_Host h] [H_Host h]" "length body < 2 ^ 62"
  shows "readable_objects E (own_headers h body) (own_headers h body)"
proof -
  have "reads_as E (H_UserAgent UA) (H_UserAgent UA)" by (rule reads_as_recoverable) (simp_all add: UA_def)
  moreover have "good_line (object_line E (H_UserAgent UA))" by (rule good_object_line) (simp_all add: UA_def)
  ultimately have "readable_objects E [H_UserAgent UA] [H_UserAgent UA]"
    by (simp add: readable_objects_def in_registry_iff)
  from readable_objects_append [OF readable_objects_append [OF this assms(1)] readable_framing(2) [OF assms(2)]]
    readable_objects_append [OF this assms(1)]
  show ?thesis by (auto simp: own_headers_def)
qed

lemma request_read_back:
  assumes "msg_resource req = url_scheme https @ host @ path" "length (msg_resource req) < 2 ^ 63"
    and "CHR ''?'' \<notin> set host" "CHR ''/'' \<notin> set host" "path = [] \<or> hd path = CHR ''/''"
    and "\<forall>x \<in> set path. target_char x" "\<forall>kv \<in> set (msg_query req). query_token kv"
    and "msg_method req = Some meth" "writeRequest E req = Inr text"
    and "Host_parse (he_net E) (host @ (if https \<and> CHR '':'' \<notin> set host then '':443'' else [])) = Inr h"
    and "readable_objects E (Collection_list (msg_headers req)) hs'" "no_framing hs'"
    and "readable_objects E [H_Host h] [H_Host h]" "readable_pairs (jar_cookies (msg_cookies req))"
    and "length text \<le> N" "N \<le> string_max_size"
  shows "\<exists>p p'. parser_feed text (ParserImpl True N) = (True, p) \<and> parser_parse E p = (Inr Done, p')
    \<and> msg_method (pa_message p') = Some meth \<and> msg_resource (pa_message p') = absolute_path path
    \<and> msg_query (pa_message p') = fold (\<lambda>(k, v). Query_add k v) (msg_query req) []
    \<and> msg_body (pa_message p') = msg_body req
    \<and> msg_cookies (pa_message p') =
        fold (\<lambda>ck. jar_add (Cookie (ck_name ck) (ck_value ck))) (jar_cookies (msg_cookies req)) CookieJar
    \<and> (\<forall>name. Collection_tryGet name (msg_headers (pa_message p')) =
         List.find (\<lambda>hd. LowercaseEqual (header_name hd) name) (hs' @ own_headers h (msg_body req)))"
proof -
  let ?hs = "Collection_list (msg_headers req)" and ?cks = "jar_cookies (msg_cookies req)"
    and ?d = "msg_body req" and ?l = "request_line meth (absolute_path path) (msg_query req) Http11"
  have split: "splitUrl (msg_resource req) False = (host, path, https)"
    using splitUrl_text [OF assms(3,4) _ assms(2) [unfolded assms(1)]] assms(1,5) by auto
  have tx: "text = ?l @ concat (map line_text (request_cookie_line ?cks # map (object_line E) (?hs @ own_headers h ?d))) @ crlf @ ?d"
    using writeRequest_text [OF split assms(8,10)] assms(9) by simp
  have "length ?d \<le> length text" unfolding tx length_append by linarith
  then have d: "length ?d \<le> string_max_size" using assms(15,16) by linarith
  then have "readable_objects E (own_headers h ?d) (own_headers h ?d)"
    by (intro readable_own [OF assms(13)]) (simp add: string_max_size_def)
  note rd = readable_objects_append [OF assms(11) this]
  define m1 where "m1 = Message0\<lparr>msg_method := Some meth, msg_resource := absolute_path path,
      msg_query := fold (\<lambda>(k, v). Query_add k v) (msg_query req) (msg_query Message0), msg_version := Http11\<rparr>"
  define m2 where "m2 = fold (add_object E) (zip (?hs @ own_headers h ?d) (hs' @ own_headers h ?d)) (add_pairs ?cks m1)"
  have al: "add_lines E (request_cookie_line ?cks # map (object_line E) (?hs @ own_headers h ?d)) m1 = Some m2"
  proof -
    have "list_all2 (\<lambda>h h'. in_registry h \<and> reads_as E h h') (?hs @ own_headers h ?d) (hs' @ own_headers h ?d)"
      using rd by (simp add: readable_objects_def)
    note objs = add_lines_objects [OF this, of "add_pairs ?cks m1"]
    have "add_lines E ([request_cookie_line ?cks] @ map (object_line E) (?hs @ own_headers h ?d)) m1 = Some m2"
      unfolding add_lines_append add_lines_pairs [OF assms(14)] bind.bind_lunit objs m2_def ..
    then show ?thesis by simp
  qed
  have good: "\<forall>l \<in> set (request_cookie_line ?cks # map (object_line E) (?hs @ own_headers h ?d)). good_line l"
    using good_request_cookie_line [OF assms(14)] rd by (auto simp: readable_objects_def)
  have res: "\<forall>x \<in> set (absolute_path path). target_char x" using assms(6) by (auto simp: absolute_path_def target_char_def)
  have zip: "map snd (zip (?hs @ own_headers h ?d) (hs' @ own_headers h ?d)) = hs' @ own_headers h ?d"
    using rd by (intro map_snd_zip) (auto simp: readable_objects_def dest!: list_all2_lengthD)
  have get: "Collection_tryGet name (msg_headers m2) = List.find (\<lambda>h. LowercaseEqual (header_name h) name) (hs' @ own_headers h ?d)" for name
    unfolding m2_def tryGet_fold_add_object zip by (simp add: m1_def)
  have cl: "tryGet_ContentLength (msg_headers m2) = (if ?d = [] then None else Some (length ?d))"
    "tryGet_TransferEncoding (msg_headers m2) = None"
    unfolding tryGet_ContentLength_def tryGet_TransferEncoding_def get using no_framing_find [OF assms(12)]
    by (simp_all add: find_append LowercaseEqual_iff to_lower_def own_headers_def)
  have sel: "msg_body m2 = []" by (simp add: m2_def m1_def)
  have b: "\<exists>b' c'. BodyStep_apply BodyStep0 m2 c = (Inr Done, b', m2\<lparr>msg_body := ?d\<rparr>, c')" if "wf_cursor c" "rest c = ?d" for c
  proof (cases "?d = []")
    case True
    then have "m2\<lparr>msg_body := ?d\<rparr> = m2" using sel by simp
    then show ?thesis using BodyStep_none [of m2 BodyStep0 c] cl True by simp
  next
    case False
    then show ?thesis using BodyStep_length [of c ?d "[]" BodyStep0 m2] that cl sel d by (simp add: BodyStep0_def)
  qed
  have N: "N < 2 ^ 63" using assms(16) by (simp add: string_max_size_def)
  have "\<exists>p p'. parser_feed text (ParserImpl True N) = (True, p) \<and> parser_parse E p = (Inr Done, p')
      \<and> pa_message p' = m2\<lparr>msg_body := ?d\<rparr>"
    by (rule message_parsed [OF tx _ good al assms(15) N b])
      (simp_all add: RequestLineStep_text [OF _ _ res assms(7)] m1_def)
  then obtain p p' where "parser_feed text (ParserImpl True N) = (True, p)" "parser_parse E p = (Inr Done, p')"
    "pa_message p' = m2\<lparr>msg_body := ?d\<rparr>" by blast
  moreover have "msg_method m2 = Some meth" "msg_resource m2 = absolute_path path"
    "msg_query m2 = fold (\<lambda>(k, v). Query_add k v) (msg_query req) []"
    "msg_cookies m2 = fold (\<lambda>ck. jar_add (Cookie (ck_name ck) (ck_value ck))) ?cks CookieJar"
    by (simp_all add: m2_def m1_def Message0_def)
  ultimately show ?thesis using get by auto
qed

section \<open>The host of the URL\<close>

text \<open>
  The authority of a URL: a host name, and a port or the one of the scheme.  The name is none of the forms
  that the address parser treats apart, and the C library does not take it for an IPv6 address.
\<close>

definition authority :: "string \<Rightarrow> nat option \<Rightarrow> string" where
  "authority name port = name @ (case port of None \<Rightarrow> [] | Some p \<Rightarrow> '':'' @ dec_str p)"

definition url_port :: "bool \<Rightarrow> nat option \<Rightarrow> nat" where
  "url_port https port = (case port of Some p \<Rightarrow> p | None \<Rightarrow> if https then 443 else 80)"

definition host_name :: "net_lib \<Rightarrow> string \<Rightarrow> nat \<Rightarrow> bool" where
  "host_name N name port \<longleftrightarrow> set name \<inter> {CHR ''?'', CHR ''/'', CHR '':'', CHR ''['', CR} = {} \<and> (name = [] \<or> hd name \<noteq> SP)
     \<and> nl_pton6 N (c_str name) = None \<and> nl_pton6 N (c_str (name @ '':'' @ dec_str port)) = None \<and> 0 < port \<and> port \<le> 65535"

definition url_host :: "bool \<Rightarrow> string \<Rightarrow> nat option \<Rightarrow> host_header" where
  "url_host https name port = \<lparr>hh_host = name, hh_port = url_port https port\<rparr>"

lemma dec_str_without:
  "\<not> is_digit 10 x \<Longrightarrow> x \<notin> set (dec_str p)"
  using num_str_digits [of 10 p] by (auto simp: list_all_iff)

lemma port_chars: "CHR ''?'' \<notin> set (dec_str p)" "CHR ''/'' \<notin> set (dec_str p)" "CR \<notin> set (dec_str p)"
proof -
  have "\<not> is_digit 10 (CHR ''?'')" "\<not> is_digit 10 (CHR ''/'')" "\<not> is_digit 10 CR" by code_simp+
  then show "CHR ''?'' \<notin> set (dec_str p)" "CHR ''/'' \<notin> set (dec_str p)" "CR \<notin> set (dec_str p)"
    by (auto dest: dec_str_without)
qed

lemma Host_parse_authority:
  assumes "host_name N name (url_port https port)" "host = authority name port"
  shows "Host_parse N (host @ (if https \<and> CHR '':'' \<notin> set host then '':443'' else [])) = Inr (url_host https name port)"
proof (cases "port = None \<and> \<not> https")
  case True
  have n: "CHR '':'' \<notin> set name" "CHR ''['' \<notin> set name" "nl_pton6 N (c_str name) = None"
    using assms(1) by (auto simp: host_name_def)
  moreover have "str_find name (CHR '':'') 0 = None" "str_find name (CHR ''['') 0 = None"
    using n by (simp_all add: str_find_absent)
  ultimately have "parse_address N name = Inr \<lparr>ap_host = name, ap_port = [], ap_hasColon = False, ap_hasNumericPort = False, ap_family = AF_INET\<rparr>"
    by (simp add: parse_address_def parse_port_part_def Let_def)
  then show ?thesis using True
    by (simp add: assms(2) authority_def Host_parse_def HTTP_STANDARD_PORT_def url_host_def url_port_def)
next
  case False
  have d: "dec_str 443 = ''443''" by code_simp
  have "host @ (if https \<and> CHR '':'' \<notin> set host then '':443'' else []) = Host_write (url_host https name port)"
    using False assms by (cases port) (auto simp: authority_def Host_write_def url_host_def url_port_def host_name_def d)
  moreover have "Host_parse N (Host_write (url_host https name port)) = Inr (url_host https name port)"
    using assms(1) by (intro Host_round_trip) (auto simp: host_name_def url_host_def Host_write_def)
  ultimately show ?thesis by simp
qed

lemma readable_host:
  assumes "host_name (he_net E) name (url_port https port)" "length (Host_write (url_host https name port)) < 2 ^ 63"
  shows "readable_objects E [H_Host (url_host https name port)] [H_Host (url_host https name port)]"
proof -
  let ?h = "url_host https name port"
  have "reads_as E (H_Host ?h) (H_Host ?h)"
    using assms by (intro reads_as_recoverable) (auto simp: host_name_def url_host_def Host_write_def)
  moreover have "good_line (object_line E (H_Host ?h))"
    using assms(1) port_chars(3) [of "url_port https port"]
    by (intro good_object_line) (auto simp: host_name_def url_host_def Host_write_def hd_append)
  ultimately show ?thesis by (simp add: readable_objects_def in_registry_iff)
qed

text \<open>
  C9: a server that reads what the client prints gets the request of the client.  For a URL with a
  scheme, a host name, a port or none, and a path without query, the client does print a request, and
  the server's parser ends with \<open>Done\<close> and has the method, the path, the query parameters, the names
  and values of the cookies, the body, and under any name the header of the request or else the user agent,
  the host and port of the URL and the length of the body.  The headers are of the kinds a message
  can carry (\<open>carried\<close>): not \<open>Accept\<close>, \<open>Accept-Encoding\<close>, \<open>Allow\<close>, \<open>Expect\<close>, \<open>ETag\<close>.
\<close>

theorem client_request_round_trip:
  assumes "msg_resource req = url_scheme https @ authority name port @ path" "length (msg_resource req) < 2 ^ 63"
    and "host_name (he_net E) name (url_port https port)" "path = [] \<or> hd path = CHR ''/''"
    and "\<forall>x \<in> set path. target_char x" "\<forall>kv \<in> set (msg_query req). query_token kv" "msg_method req = Some meth"
    and "\<forall>h \<in> set (Collection_list (msg_headers req)). carried E h" "readable_pairs (jar_cookies (msg_cookies req))"
  shows "\<exists>text. writeRequest E req = Inr text \<and> (\<forall>N. length text \<le> N \<and> N \<le> string_max_size \<longrightarrow>
    (\<exists>p p' hs'. parser_feed text (ParserImpl True N) = (True, p) \<and> parser_parse E p = (Inr Done, p')
    \<and> msg_method (pa_message p') = Some meth \<and> msg_resource (pa_message p') = absolute_path path
    \<and> msg_query (pa_message p') = fold (\<lambda>(k, v). Query_add k v) (msg_query req) []
    \<and> msg_body (pa_message p') = msg_body req
    \<and> msg_cookies (pa_message p') =
        fold (\<lambda>ck. jar_add (Cookie (ck_name ck) (ck_value ck))) (jar_cookies (msg_cookies req)) CookieJar
    \<and> list_all2 same_header (Collection_list (msg_headers req)) hs'
    \<and> (\<forall>n. Collection_tryGet n (msg_headers (pa_message p')) =
         List.find (\<lambda>hd. LowercaseEqual (header_name hd) n)
           (hs' @ own_headers (url_host https name port) (msg_body req)))))"
proof -
  let ?host = "authority name port" and ?h = "url_host https name port"
  have host: "CHR ''?'' \<notin> set ?host" "CHR ''/'' \<notin> set ?host"
    using assms(3) port_chars(1,2) by (auto simp: host_name_def authority_def split: option.splits)
  note h = Host_parse_authority [OF assms(3) refl]
  have split: "splitUrl (msg_resource req) False = (?host, path, https)"
    using splitUrl_text [OF host _ assms(2) [unfolded assms(1)]] assms(1,4) by auto
  note printed = writeRequest_text [OF split assms(7) h]
  define tx where "tx = request_line meth (absolute_path path) (msg_query req) Http11
     @ concat (map line_text (request_cookie_line (jar_cookies (msg_cookies req))
        # map (object_line E) (Collection_list (msg_headers req) @ own_headers ?h (msg_body req)))) @ crlf @ msg_body req"
  obtain hs' where hs': "list_all2 same_header (Collection_list (msg_headers req)) hs'"
    "readable_objects E (Collection_list (msg_headers req)) hs'" "no_framing hs'"
    using carried_objects [OF assms(8)] by blast
  have len: "length (Host_write ?h) \<le> length tx"
    by (simp add: tx_def own_headers_def object_line_def line_text_def)
  have "\<exists>p p' hs'. parser_feed tx (ParserImpl True N) = (True, p) \<and> parser_parse E p = (Inr Done, p')
    \<and> msg_method (pa_message p') = Some meth \<and> msg_resource (pa_message p') = absolute_path path
    \<and> msg_query (pa_message p') = fold (\<lambda>(k, v). Query_add k v) (msg_query req) []
    \<and> msg_body (pa_message p') = msg_body req
    \<and> msg_cookies (pa_message p') =
        fold (\<lambda>ck. jar_add (Cookie (ck_name ck) (ck_value ck))) (jar_cookies (msg_cookies req)) CookieJar
    \<and> list_all2 same_header (Collection_list (msg_headers req)) hs'
    \<and> (\<forall>n. Collection_tryGet n (msg_headers (pa_message p')) =
         List.find (\<lambda>hd. LowercaseEqual (header_name hd) n) (hs' @ own_headers ?h (msg_body req)))"
    if N: "length tx \<le> N" "N \<le> string_max_size" for N
  proof -
    have "length (Host_write ?h) < 2 ^ 63" using len N by (simp add: string_max_size_def)
    note rh = readable_host [OF assms(3) this]
    from request_read_back [OF assms(1,2) host assms(4-7) printed [folded tx_def] h hs'(2,3) rh assms(9) N] hs'(1)
    show ?thesis by blast
  qed
  then show ?thesis using printed [folded tx_def] by blast
qed

definition sample_request :: message where
  "sample_request = rb_request (builder_header (H_Connection KeepAlive) (builder_body ''hi'' (builder_cookie (Cookie ''id'' ''7'')
     (builder_params [(''q'', ''a'')] (Client_post ''http://example.com/users'')))))"

lemma sample_request_facts:
  "msg_resource sample_request = url_scheme False @ authority ''example.com'' None @ ''/users''"
  "msg_method sample_request = Some Post" "msg_query sample_request = [(''q'', ''a'')]"
  "msg_body sample_request = ''hi''" "Collection_list (msg_headers sample_request) = [H_Connection KeepAlive]"
  "jar_cookies (msg_cookies sample_request) = [Cookie ''id'' ''7'']"
  by code_simp+

definition sample_request_text :: string where
  "sample_request_text = ''POST /users?q=a HTTP/1.1'' @ crlf @ ''Cookie: id=7'' @ crlf
     @ ''Connection: Keep-Alive'' @ crlf @ ''User-Agent: pistache/0.1'' @ crlf @ ''Host: example.com:80'' @ crlf
     @ ''Content-Length: 2'' @ crlf @ crlf @ ''hi''"

lemma sample_request_written: "writeRequest sample_env sample_request = Inr sample_request_text"
  by code_simp

theorem client_request_round_trip_witness:
  "\<exists>p p'. parser_feed sample_request_text (ParserImpl True 4096) = (True, p) \<and> parser_parse sample_env p = (Inr Done, p')
    \<and> msg_method (pa_message p') = Some Post \<and> msg_resource (pa_message p') = ''/users''
    \<and> msg_body (pa_message p') = ''hi''"
proof -
  note f = sample_request_facts
  have "host_name (he_net sample_env) ''example.com'' (url_port False None)" by code_simp
  moreover have "readable_pairs (jar_cookies (msg_cookies sample_request))"
    by (simp add: f readable_pairs_def pair_of_def Cookie_def cookie_pair_def)
  moreover have "carried sample_env (H_Connection KeepAlive)" by (simp add: carried_def good_line_def object_line_def)
  moreover have "length sample_request_text \<le> 4096" by (simp add: sample_request_text_def)
  moreover have "\<forall>kv \<in> set (msg_query sample_request). query_token kv" by (simp add: f query_token_def)
  moreover have "length (msg_resource sample_request) < 2 ^ 63" unfolding f(1) by (simp add: url_scheme_def authority_def)
  ultimately show ?thesis
    using client_request_round_trip [OF f(1) _ _ _ _ _ f(2), of sample_env] f sample_request_written
    by (simp add: target_char_def absolute_path_def) (fastforce simp: string_max_size_def)
qed

text \<open>The client sends a \<open>Cookie\<close> line without a value when the request has no cookie.\<close>

lemma empty_cookie_line: "client_writeCookies CookieJar = ''Cookie: '' @ crlf"
  by code_simp

end
