(* ===== verification/Timer_Pool.thy ===== *)
theory Timer_Pool
  imports Pist_Prelude
begin

text \<open>
  The pool of timer descriptors of timer_pool.cc.  A timerfd is its number, the results of the
  system calls are arguments, and what a timer was last set to is kept in the entry.
\<close>

section \<open>Entries\<close>

datatype timer_state = T_Idle | T_Used

record itimerspec =
  it_interval_sec :: int
  it_interval_nsec :: int
  it_value_sec :: int
  it_value_nsec :: int

record timer_entry =
  te_state :: timer_state
  te_fd :: "nat option"
  te_registered :: bool
  te_spec :: "itimerspec option"

definition timer_entry0 :: timer_entry where
  "timer_entry0 = \<lparr>te_state = T_Idle, te_fd = None, te_registered = False, te_spec = None\<rparr>"

text \<open>\<open>timerfd_create\<close> returns a descriptor, or \<open>TRY_RET\<close> throws the text of the error.\<close>

definition timer_initialize :: "string + nat \<Rightarrow> timer_entry \<Rightarrow> timer_entry result" where
  "timer_initialize created t =
     (if te_fd t = None
      then (case created of Inl err \<Rightarrow> Inl (Runtime_Error err) | Inr fd \<Rightarrow> Inr (t\<lparr>te_fd := Some fd\<rparr>))
      else Inr t)"

definition zero_spec :: itimerspec where
  "zero_spec = \<lparr>it_interval_sec = 0, it_interval_nsec = 0, it_value_sec = 0, it_value_nsec = 0\<rparr>"

text \<open>\<open>timerfd_settime\<close> refuses nanoseconds outside of a second and negative seconds.\<close>

definition valid_spec :: "itimerspec \<Rightarrow> bool" where
  "valid_spec s \<longleftrightarrow> 0 \<le> it_value_sec s \<and> 0 \<le> it_value_nsec s \<and> it_value_nsec s < 10 ^ 9
     \<and> 0 \<le> it_interval_sec s \<and> 0 \<le> it_interval_nsec s \<and> it_interval_nsec s < 10 ^ 9"

definition timer_settime :: "itimerspec \<Rightarrow> timer_entry \<Rightarrow> timer_entry result" where
  "timer_settime s t =
     (if valid_spec s then Inr (t\<lparr>te_spec := Some s\<rparr>) else Inl (Runtime_Error ''Invalid argument''))"

definition timer_disarm :: "timer_entry \<Rightarrow> timer_entry result" where
  "timer_disarm t =
     (if te_fd t = None then Inl (Runtime_Error ''fd_ empty'') else timer_settime zero_spec t)"

text \<open>The division of \<open>duration_cast\<close> truncates towards zero; milliseconds below 1000 divide nothing.\<close>

definition arm_spec :: "int \<Rightarrow> itimerspec" where
  "arm_spec ms =
     (if ms < 1000 then zero_spec\<lparr>it_value_sec := 0, it_value_nsec := ms * 1000000\<rparr>
      else zero_spec\<lparr>it_value_sec := ms div 1000, it_value_nsec := 0\<rparr>)"

definition armMs :: "int \<Rightarrow> timer_entry \<Rightarrow> timer_entry result" where
  "armMs ms t =
     (if te_fd t = None then Inl (Runtime_Error ''fd_ NULL'') else timer_settime (arm_spec ms) t)"

text \<open>Registration with a reactor; the flag is the only memory of it.\<close>

definition registerReactor :: "timer_entry \<Rightarrow> bool \<times> timer_entry" where
  "registerReactor t = (\<not> te_registered t, t\<lparr>te_registered := True\<rparr>)"

section \<open>The pool\<close>

type_synonym timer_pool = "timer_entry list"

definition TimerPool_init :: "nat \<Rightarrow> timer_pool" where
  "TimerPool_init initialSize = replicate initialSize timer_entry0"

text \<open>
  \<open>pickTimer\<close>: the index of the first entry whose state the exchange changes, absent for a null
  pointer.  An entry stays used when its initialisation throws.
\<close>

fun pickTimer :: "string + nat \<Rightarrow> timer_pool \<Rightarrow> nat option result \<times> timer_pool" where
  "pickTimer created [] = (Inr None, [])"
| "pickTimer created (t # ts) =
     (if te_state t = T_Idle then
        (case timer_initialize created (t\<lparr>te_state := T_Used\<rparr>) of
           Inl e \<Rightarrow> (Inl e, t\<lparr>te_state := T_Used\<rparr> # ts)
         | Inr t' \<Rightarrow> (Inr (Some 0), t' # ts))
      else case pickTimer created ts of (r, ts') \<Rightarrow> (map_sum id (map_option Suc) r, t # ts'))"

definition releaseTimer :: "nat \<Rightarrow> timer_pool \<Rightarrow> timer_pool" where
  "releaseTimer i ts = (if i < length ts then ts[i := (ts ! i)\<lparr>te_state := T_Idle\<rparr>] else ts)"

definition used_timers :: "timer_pool \<Rightarrow> nat set" where
  "used_timers ts = {i. i < length ts \<and> te_state (ts ! i) = T_Used}"

section \<open>What the pool guarantees\<close>

lemma pickTimer_length [simp]: "length (snd (pickTimer created ts)) = length ts"
  by (induction ts) (auto split: sum.split prod.split)

lemma pickTimer_none: "fst (pickTimer created ts) = Inr None \<longleftrightarrow> (\<forall>t \<in> set ts. te_state t = T_Used)"
proof (induction ts)
  case (Cons t ts)
  then show ?case
    by (cases "te_state t"; cases "fst (pickTimer created ts)") (auto split: sum.splits prod.splits)
qed simp

text \<open>A picked timer was idle, is used now and has a descriptor; no other entry has changed.\<close>

lemma pickTimer_some:
  "pickTimer created ts = (Inr (Some i), ts') \<Longrightarrow>
   i < length ts \<and> te_state (ts ! i) = T_Idle \<and> te_state (ts' ! i) = T_Used \<and> te_fd (ts' ! i) \<noteq> None
   \<and> (\<forall>j. j \<noteq> i \<longrightarrow> j < length ts \<longrightarrow> ts' ! j = ts ! j)"
proof (induction ts arbitrary: i ts')
  case (Cons t ts)
  show ?case
  proof (cases "te_state t = T_Idle")
    case True
    then have "i = 0" "\<exists>t'. ts' = t' # ts \<and> te_state t' = T_Used \<and> te_fd t' \<noteq> None"
      using Cons.prems by (auto simp: timer_initialize_def split: sum.splits if_splits)
    with True show ?thesis by (auto simp: nth_Cons split: nat.split)
  next
    case False
    then obtain k ts1 where "pickTimer created ts = (Inr (Some k), ts1)" "i = Suc k" "ts' = t # ts1"
      using Cons.prems by (cases "pickTimer created ts"; cases "fst (pickTimer created ts)") auto
    with Cons.IH [of k ts1] show ?thesis by (auto simp: nth_Cons split: nat.split)
  qed
qed simp

lemma armMs_ok:
  assumes "0 < ms" "te_fd t \<noteq> None"
  shows "armMs ms t = Inr (t\<lparr>te_spec := Some (arm_spec ms)\<rparr>)"
proof -
  have "valid_spec (arm_spec ms)" using assms(1) by (auto simp: valid_spec_def arm_spec_def zero_spec_def)
  then show ?thesis using assms(2) by (simp add: armMs_def timer_settime_def)
qed

text \<open>
  C31: every millisecond count from 1 on makes a value that \<open>timerfd_settime\<close> accepts and that
  arms the timer, for at most the time asked for and less than a second short of it.
\<close>

theorem armMs_bounds:
  assumes "0 < ms" "te_fd t = Some fd"
  shows "\<exists>s. armMs ms t = Inr (t\<lparr>te_spec := Some s\<rparr>)
    \<and> 0 < it_value_sec s * 10 ^ 9 + it_value_nsec s
    \<and> it_value_sec s * 10 ^ 9 + it_value_nsec s \<le> ms * 10 ^ 6
    \<and> ms * 10 ^ 6 < it_value_sec s * 10 ^ 9 + it_value_nsec s + 10 ^ 9"
proof -
  have d: "ms div 1000 * 1000 \<le> ms" "ms < ms div 1000 * 1000 + 1000" by linarith+
  show ?thesis
    using assms d armMs_ok [of ms t] by (auto simp: arm_spec_def zero_spec_def)
qed

theorem armMs_bounds_witness:
  "\<exists>s. armMs 1999 (timer_entry0\<lparr>te_fd := Some 5\<rparr>) = Inr ((timer_entry0\<lparr>te_fd := Some 5\<rparr>)\<lparr>te_spec := Some s\<rparr>)
     \<and> it_value_sec s * 10 ^ 9 + it_value_nsec s \<le> 1999 * 10 ^ 6"
  using armMs_bounds [of 1999 "timer_entry0\<lparr>te_fd := Some 5\<rparr>" 5] by auto

text \<open>Above a second the milliseconds are dropped: 1.999 s are armed as 1 s.\<close>

lemma armMs_truncates: "it_value_sec (arm_spec 1999) = 1 \<and> it_value_nsec (arm_spec 1999) = 0"
  by (simp add: arm_spec_def zero_spec_def)

end
