(* ===== verification/Client_Connection.thy ===== *)
theory Client_Connection
  imports Client_Request Timer_Pool "HOL-Library.Multiset"
begin

text \<open>
  One connection of the client (\<open>Connection\<close> in client.cc): its two states, the request in
  progress, the requests waiting for the socket to connect, its timers and the response parser.
  The promise of a request is its number; resolving or rejecting it is an event.  A callback
  \<open>onDone\<close> is present or absent: what it does is in Client_Pool.  The queue of the connection is
  the list that Message_Queue shows it to be, a system call's result is an argument.
\<close>

section \<open>State\<close>

datatype client_event =
    Resolved nat message
  | Rejected nat string
  | To_Transport nat string

text \<open>A return, an exception, or undefined behaviour (a null pointer is used).\<close>

datatype 'a run = Ret 'a | Raise exn | Crash

fun run_bind :: "'a run \<Rightarrow> ('a \<Rightarrow> 'b run) \<Rightarrow> 'b run" where
  "run_bind (Ret x) f = f x"
| "run_bind (Raise e) f = Raise e"
| "run_bind Crash f = Crash"

definition of_result :: "'a result \<Rightarrow> 'a run" where
  "of_result r = (case r of Inl e \<Rightarrow> Raise e | Inr x \<Rightarrow> Ret x)"

record request_data =
  rd_id :: nat
  rd_request :: message
  rd_timeout :: int
  rd_onDone :: bool

record request_entry =
  re_id :: nat
  re_timer :: "nat option"
  re_onDone :: bool

datatype conn_state = Conn_Idle | Conn_Used
datatype connection_state = NotConnected | Connecting | Connected

record connection =
  cn_id :: nat
  cn_state :: conn_state
  cn_connection :: connection_state
  cn_fd :: "nat option"
  cn_transport :: "nat option"
  cn_entry :: "request_entry option"
  cn_queue :: "request_data list"
  cn_timers :: timer_pool
  cn_parser :: parser

definition DefaultTimerPoolSize :: nat where "DefaultTimerPoolSize = 128"

definition Connection_init :: "nat \<Rightarrow> nat \<Rightarrow> connection" where
  "Connection_init i maxResponseSize =
     \<lparr>cn_id = i, cn_state = Conn_Idle, cn_connection = NotConnected, cn_fd = None, cn_transport = None,
      cn_entry = None, cn_queue = [], cn_timers = TimerPool_init DefaultTimerPoolSize,
      cn_parser = ParserImpl False maxResponseSize\<rparr>"

definition isIdle :: "connection \<Rightarrow> bool" where
  "isIdle c \<longleftrightarrow> cn_state c = Conn_Idle"

definition tryUse :: "connection \<Rightarrow> bool \<times> connection" where
  "tryUse c = (if cn_state c = Conn_Idle then (True, c\<lparr>cn_state := Conn_Used\<rparr>) else (False, c))"

definition setAsIdle :: "connection \<Rightarrow> connection" where
  "setAsIdle c = c\<lparr>cn_state := Conn_Idle\<rparr>"

definition isConnected :: "connection \<Rightarrow> bool" where
  "isConnected c \<longleftrightarrow> cn_connection c = Connected"

definition hasTransport :: "connection \<Rightarrow> bool" where
  "hasTransport c \<longleftrightarrow> cn_transport c \<noteq> None"

definition associateTransport :: "nat \<Rightarrow> connection \<Rightarrow> connection result" where
  "associateTransport t c =
     (if cn_transport c \<noteq> None
      then Inl (Runtime_Error ''A transport has already been associated to the connection'')
      else Inr (c\<lparr>cn_transport := Some t\<rparr>))"

text \<open>\<open>close\<close> also tells its transport to stop handling, which its result says.\<close>

definition Connection_close :: "connection \<Rightarrow> nat option \<times> connection" where
  "Connection_close c = (cn_transport c, c\<lparr>cn_connection := NotConnected, cn_fd := None\<rparr>)"

definition closeFromRemoteClosedConnection :: "connection \<Rightarrow> connection" where
  "closeFromRemoteClosedConnection c = c\<lparr>cn_connection := NotConnected, cn_fd := None\<rparr>"

section \<open>Ending a request\<close>

text \<open>Disarming and releasing the timer of an entry, if it has one.\<close>

definition stop_timer :: "nat option \<Rightarrow> timer_pool \<Rightarrow> timer_pool run" where
  "stop_timer i ts =
     (case i of
        None \<Rightarrow> Ret ts
      | Some i \<Rightarrow>
          if i < length ts then
            (case timer_disarm (ts ! i) of
               Inl e \<Rightarrow> Raise e
             | Inr t \<Rightarrow> Ret (releaseTimer i (ts[i := t])))
          else Crash)"

text \<open>
  Each handler returns the events, whether \<open>onDone\<close> is called, and the connection as it is when
  \<open>onDone\<close> is called.
\<close>

type_synonym handled = "client_event list \<times> bool \<times> connection"

definition handleError :: "string \<Rightarrow> connection \<Rightarrow> handled run" where
  "handleError err c =
     (case cn_entry c of
        None \<Rightarrow> Ret ([], False, c)
      | Some re \<Rightarrow>
          run_bind (stop_timer (re_timer re) (cn_timers c)) (\<lambda>ts.
            Ret ([Rejected (re_id re) err], re_onDone re, c\<lparr>cn_timers := ts, cn_entry := None\<rparr>)))"

text \<open>\<open>handleTimeout\<close> uses the timer of the entry without asking whether there is one.\<close>

definition handleTimeout :: "connection \<Rightarrow> handled run" where
  "handleTimeout c =
     (case cn_entry c of
        None \<Rightarrow> Ret ([], False, c)
      | Some re \<Rightarrow>
          (case re_timer re of
             None \<Rightarrow> Crash
           | Some i \<Rightarrow>
               run_bind (stop_timer (Some i) (cn_timers c)) (\<lambda>ts.
                 Ret ([Rejected (re_id re) ''Timeout''], re_onDone re, c\<lparr>cn_timers := ts, cn_entry := None\<rparr>))))"

text \<open>The response after it has been moved out: the containers are empty, the plain members stay.\<close>

definition moved_from :: "message \<Rightarrow> message" where
  "moved_from m = Message0\<lparr>msg_code := msg_code m, msg_version := msg_version m\<rparr>"

text \<open>
  The \<open>try\<close> block up to the call of \<open>onDone\<close>: an exception ends it with the connection as it is then.
  (\<open>onDone\<close> itself is called from \<open>finish\<close> in Client_Pool, where an exception of it is the outcome
  \<open>Raise\<close>; in the code it would be handed to \<open>handleError\<close>.  Where Client_Run shows that no step has
  this outcome, the two agree.)
\<close>

definition response_packet :: "http_env \<Rightarrow> string \<Rightarrow> connection \<Rightarrow> handled run + exn \<times> connection" where
  "response_packet E buffer c =
     (case parser_feed buffer (cn_parser c) of
        (False, p) \<Rightarrow> Inl (handleError ''Client: Too long packet'' (c\<lparr>cn_parser := p\<rparr>))
      | (True, p) \<Rightarrow>
          (case parser_parse E p of
             (Inl e, p') \<Rightarrow> Inr (e, c\<lparr>cn_parser := p'\<rparr>)
           | (Inr st, p') \<Rightarrow>
               let c' = c\<lparr>cn_parser := p'\<rparr>
               in case cn_entry c' of
                    None \<Rightarrow> Inl (Ret ([], False, c'))
                  | Some re \<Rightarrow>
                      if st \<noteq> Done then Inl (Ret ([], False, c'))
                      else case stop_timer (re_timer re) (cn_timers c') of
                        Raise e \<Rightarrow> Inr (e, c')
                      | Crash \<Rightarrow> Inl Crash
                      | Ret ts \<Rightarrow>
                          let m = pa_message p'; p'' = parser_reset (p'\<lparr>pa_message := moved_from m\<rparr>)
                          in Inl (Ret ([Resolved (re_id re) m], re_onDone re,
                               c'\<lparr>cn_timers := ts, cn_parser := p'', cn_entry := None\<rparr>))))"

definition handleResponsePacket :: "http_env \<Rightarrow> string \<Rightarrow> connection \<Rightarrow> handled run" where
  "handleResponsePacket E buffer c =
     (case response_packet E buffer c of Inl r \<Rightarrow> r | Inr (e, c') \<Rightarrow> handleError (what e) c')"

section \<open>Starting a request\<close>

text \<open>
  The timer of a request: \<open>pickTimer\<close> may return a null pointer, which \<open>arm\<close> is then called on.
\<close>

definition start_timer :: "string + nat \<Rightarrow> int \<Rightarrow> timer_pool \<Rightarrow> (nat option \<times> timer_pool) run" where
  "start_timer created timeout ts =
     (if timeout > 0 then
        (case pickTimer created ts of
           (Inl e, ts') \<Rightarrow> Raise e
         | (Inr None, ts') \<Rightarrow> Crash
         | (Inr (Some i), ts') \<Rightarrow>
             (case armMs timeout (ts' ! i) of
                Inl e \<Rightarrow> Raise e
              | Inr t \<Rightarrow> Ret (Some i, ts'[i := t])))
      else Ret (None, ts))"

text \<open>
  What \<open>asyncSendRequest\<close> does with the buffer of a request.  From another thread than the transport's
  it is queued, and how it is sent is reported later.  On the transport's own thread it is sent
  at once: \<open>send\<close> may take all of it, fail, which calls \<open>handleError\<close> before \<open>asyncSendRequest\<close> returns, or
  would block, which throws; \<open>Send_Relocks\<close> is the registration of its timer while the
  thread holds the lock of the timeouts.  Client_Transport computes these answers.
\<close>

datatype send_answer = Send_Queued | Send_Whole | Send_Fails string | Send_Raises exn | Send_Relocks

type_synonym sender = "request_data \<Rightarrow> string \<Rightarrow> send_answer"

definition performImpl :: "http_env \<Rightarrow> string + nat \<Rightarrow> sender \<Rightarrow> request_data \<Rightarrow> connection \<Rightarrow> handled run" where
  "performImpl E created T rd c =
     run_bind (of_result (writeRequest E (rd_request rd))) (\<lambda>buffer.
     run_bind (start_timer created (rd_timeout rd) (cn_timers c)) (\<lambda>(timer, ts).
       let c' = c\<lparr>cn_timers := ts, cn_entry := Some \<lparr>re_id = rd_id rd, re_timer = timer, re_onDone = rd_onDone rd\<rparr>\<rparr>
       in if cn_transport c = None then Crash
          else case T rd buffer of
            Send_Queued \<Rightarrow> Ret ([To_Transport (cn_id c) buffer], False, c')
          | Send_Whole \<Rightarrow> Ret ([To_Transport (cn_id c) buffer], False, c')
          | Send_Fails err \<Rightarrow> handleError err c'
          | Send_Raises e \<Rightarrow> Raise e
          | Send_Relocks \<Rightarrow> Crash))"

definition perform :: "http_env \<Rightarrow> string + nat \<Rightarrow> sender \<Rightarrow> request_data \<Rightarrow> connection \<Rightarrow> handled run" where
  "perform E created T rd c = performImpl E created T rd c"

definition asyncPerform :: "request_data \<Rightarrow> connection \<Rightarrow> connection" where
  "asyncPerform rd c = c\<lparr>cn_queue := cn_queue c @ [rd]\<rparr>"

text \<open>Sends that neither fail at once nor throw.\<close>

definition good_sends :: "sender \<Rightarrow> bool" where
  "good_sends T \<longleftrightarrow> (\<forall>rd b. T rd b = Send_Queued \<or> T rd b = Send_Whole)"

section \<open>The invariant of a connection\<close>

text \<open>
  An idle connection has nothing to do, a used one has at most one request, waiting or in progress;
  exactly the timer of the request in progress is taken, and it has a descriptor.
\<close>

definition conn_ok :: "connection \<Rightarrow> bool" where
  "conn_ok c \<longleftrightarrow>
     (cn_state c = Conn_Idle \<longrightarrow> cn_entry c = None \<and> cn_queue c = [])
     \<and> (cn_entry c \<noteq> None \<longrightarrow> cn_queue c = []) \<and> length (cn_queue c) \<le> 1
     \<and> length (cn_timers c) = DefaultTimerPoolSize
     \<and> used_timers (cn_timers c) = (case cn_entry c of Some re \<Rightarrow> set_option (re_timer re) | None \<Rightarrow> {})
     \<and> (\<forall>i \<in> used_timers (cn_timers c). te_fd (cn_timers c ! i) \<noteq> None)"

lemma conn_ok_init [simp]: "conn_ok (Connection_init i n)"
  by (simp add: conn_ok_def Connection_init_def TimerPool_init_def used_timers_def timer_entry0_def)

lemma timer_disarm_ok: "te_fd t \<noteq> None \<Longrightarrow> timer_disarm t = Inr (t\<lparr>te_spec := Some zero_spec\<rparr>)"
  by (simp add: timer_disarm_def timer_settime_def valid_spec_def zero_spec_def)

lemma stop_timer_ok:
  assumes "used_timers ts = set_option i" "\<forall>j \<in> used_timers ts. te_fd (ts ! j) \<noteq> None"
  shows "\<exists>ts'. stop_timer i ts = Ret ts' \<and> length ts' = length ts \<and> used_timers ts' = {}"
proof (cases i)
  case (Some j)
  then have j: "j < length ts" "te_fd (ts ! j) \<noteq> None" using assms by (auto simp: used_timers_def)
  let ?ts = "releaseTimer j (ts[j := (ts ! j)\<lparr>te_spec := Some zero_spec\<rparr>])"
  have "k \<noteq> j \<Longrightarrow> k < length ts \<Longrightarrow> te_state (ts ! k) \<noteq> T_Used" for k
    using assms(1) Some by (auto simp: used_timers_def)
  then have "used_timers ?ts = {}"
    using j by (auto simp: used_timers_def releaseTimer_def nth_list_update split: if_splits)
  moreover have "stop_timer i ts = Ret ?ts" using j timer_disarm_ok [OF j(2)] by (simp add: stop_timer_def Some)
  ultimately show ?thesis using j by (simp add: releaseTimer_def)
qed (use assms in \<open>simp add: stop_timer_def\<close>)

lemma start_timer_ok:
  assumes "used_timers ts = {}" "ts \<noteq> []"
  shows "\<exists>i ts'. start_timer (Inr fd) timeout ts = Ret (i, ts') \<and> length ts' = length ts
    \<and> used_timers ts' = set_option i \<and> (\<forall>j \<in> used_timers ts'. te_fd (ts' ! j) \<noteq> None) \<and> (i \<noteq> None \<longleftrightarrow> timeout > 0)"
proof (cases "timeout > 0")
  case True
  have idle: "te_state (ts ! k) = T_Idle" if "k < length ts" for k
    using assms(1) that by (cases "te_state (ts ! k)") (auto simp: used_timers_def)
  then obtain t u where ts: "ts = t # u" "te_state t = T_Idle" using assms(2) by (cases ts) force+
  define t' where "t' = (case timer_initialize (Inr fd) (t\<lparr>te_state := T_Used\<rparr>) of Inr x \<Rightarrow> x | Inl _ \<Rightarrow> t)"
  have t': "timer_initialize (Inr fd) (t\<lparr>te_state := T_Used\<rparr>) = Inr t'" "te_state t' = T_Used" "te_fd t' \<noteq> None"
    by (auto simp: t'_def timer_initialize_def)
  then have p: "pickTimer (Inr fd) ts = (Inr (Some 0), t' # u)" using ts by simp
  obtain s where "armMs timeout t' = Inr (t'\<lparr>te_spec := Some s\<rparr>)"
    using True t'(3) armMs_ok by blast
  then have "start_timer (Inr fd) timeout ts = Ret (Some 0, t'\<lparr>te_spec := Some s\<rparr> # u)"
    using True p by (simp add: start_timer_def)
  moreover have "te_state (u ! k) \<noteq> T_Used" if "k < length u" for k
    using idle [of "Suc k"] that ts by simp
  then have "used_timers (t'\<lparr>te_spec := Some s\<rparr> # u) = {0}"
    using t'(2) by (auto simp: used_timers_def nth_Cons split: nat.splits) (metis not0_implies_Suc)
  ultimately show ?thesis using True ts t'(3) by simp
qed (use assms in \<open>auto simp: start_timer_def\<close>)

section \<open>The handlers keep the invariant\<close>

text \<open>The requests an event completes, and the ones a connection has.\<close>

fun completed :: "client_event list \<Rightarrow> nat list" where
  "completed [] = []"
| "completed (Resolved i m # ev) = i # completed ev"
| "completed (Rejected i e # ev) = i # completed ev"
| "completed (To_Transport c b # ev) = completed ev"

lemma completed_append [simp]: "completed (a @ b) = completed a @ completed b"
  by (induction a rule: completed.induct) simp_all

definition conn_load :: "connection \<Rightarrow> nat multiset" where
  "conn_load c = mset (map rd_id (cn_queue c)) + (case cn_entry c of None \<Rightarrow> {#} | Some re \<Rightarrow> {#re_id re#})"

text \<open>
  A handler leaves the request in progress, or completes it once and frees its timer; it never
  throws nor uses a null pointer.
\<close>

definition handled_ok :: "connection \<Rightarrow> handled run \<Rightarrow> bool" where
  "handled_ok c r \<longleftrightarrow> (\<exists>ev d c'. r = Ret (ev, d, c') \<and> conn_ok c' \<and> cn_id c' = cn_id c \<and> cn_state c' = cn_state c
     \<and> cn_queue c' = cn_queue c \<and> cn_transport c' = cn_transport c
     \<and> mset (completed ev) + conn_load c' = conn_load c
     \<and> (d \<longrightarrow> cn_entry c' = None \<and> cn_queue c' = []))"

lemma handled_ok_Ret:
  "handled_ok c (Ret (ev, d, c')) \<longleftrightarrow> conn_ok c' \<and> cn_id c' = cn_id c \<and> cn_state c' = cn_state c
     \<and> cn_queue c' = cn_queue c \<and> cn_transport c' = cn_transport c
     \<and> mset (completed ev) + conn_load c' = conn_load c
     \<and> (d \<longrightarrow> cn_entry c' = None \<and> cn_queue c' = [])"
  by (auto simp: handled_ok_def)

lemma conn_ok_parser [simp]: "conn_ok (c\<lparr>cn_parser := p\<rparr>) = conn_ok c"
  by (simp add: conn_ok_def)

lemma handled_ok_skip: "conn_ok c \<Longrightarrow> handled_ok c (Ret ([], False, c\<lparr>cn_parser := p\<rparr>))"
  by (simp add: handled_ok_Ret conn_load_def)

lemma handled_ok_parser [simp]: "handled_ok (c\<lparr>cn_parser := p\<rparr>) r = handled_ok c r"
  by (simp add: handled_ok_def conn_load_def)

lemma conn_ok_timer:
  assumes "conn_ok c" "cn_entry c = Some re"
  shows "\<exists>ts. stop_timer (re_timer re) (cn_timers c) = Ret ts \<and> conn_ok (c\<lparr>cn_timers := ts, cn_entry := None\<rparr>)
    \<and> cn_queue c = []"
  using assms stop_timer_ok [of "cn_timers c" "re_timer re"] by (auto simp: conn_ok_def)

lemma handleError_ok:
  assumes "conn_ok c"
  shows "handled_ok c (handleError err c)"
proof (cases "cn_entry c")
  case None
  then show ?thesis using assms by (simp add: handleError_def handled_ok_Ret)
next
  case (Some re)
  with conn_ok_timer [OF assms Some] show ?thesis
    by (auto simp: handleError_def handled_ok_Ret conn_load_def)
qed

lemma handleTimeout_ok:
  assumes "conn_ok c" "cn_entry c = Some re" "re_timer re \<noteq> None"
  shows "handled_ok c (handleTimeout c)"
  using conn_ok_timer [OF assms(1,2)] assms(2,3) by (auto simp: handleTimeout_def handled_ok_Ret conn_load_def)

lemma handleResponsePacket_ok:
  assumes "conn_ok c"
  shows "handled_ok c (handleResponsePacket E buffer c)"
proof -
  obtain ok p where f: "parser_feed buffer (cn_parser c) = (ok, p)" by fastforce
  obtain r p' where p: "parser_parse E p = (r, p')" by fastforce
  let ?c = "c\<lparr>cn_parser := p'\<rparr>"
  have err: "handled_ok c (handleError e (c\<lparr>cn_parser := q\<rparr>))" for e q
    using handleError_ok [of "c\<lparr>cn_parser := q\<rparr>" e] assms by simp
  show ?thesis
  proof (cases "\<not> ok \<or> (\<exists>e. r = Inl e)")
    case True
    then show ?thesis using f p err by (cases ok) (auto simp: handleResponsePacket_def response_packet_def)
  next
    case False
    then obtain st where ok: "ok" and r: "r = Inr st" by (cases r) auto
    show ?thesis
    proof (cases "cn_entry c = None \<or> st \<noteq> Done")
      case True
      then show ?thesis using f p ok r assms handled_ok_skip [OF assms]
        by (auto simp: handleResponsePacket_def response_packet_def Let_def split: option.split)
    next
      case False
      then obtain re where re: "cn_entry c = Some re" by auto
      from conn_ok_timer [OF assms re] obtain ts where ts: "stop_timer (re_timer re) (cn_timers c) = Ret ts"
        "conn_ok (c\<lparr>cn_timers := ts, cn_entry := None\<rparr>)" "cn_queue c = []" by blast
      moreover have "conn_ok (c\<lparr>cn_timers := ts, cn_parser := q, cn_entry := None\<rparr>)" for q
        using ts(2) by (simp add: conn_ok_def)
      ultimately show ?thesis using f p ok r re False
        by (simp add: handleResponsePacket_def response_packet_def Let_def handled_ok_Ret conn_load_def)
    qed
  qed
qed

text \<open>Starting a request on a connection that is in use and has none.\<close>

lemma performImpl_ok:
  assumes "conn_ok c" "cn_entry c = None" "cn_queue c = []" "cn_state c = Conn_Used" "cn_transport c \<noteq> None"
    and "writeRequest E (rd_request rd) = Inr b" "good_sends T"
  shows "\<exists>c'. performImpl E (Inr fd) T rd c = Ret ([To_Transport (cn_id c) b], False, c') \<and> conn_ok c'
    \<and> cn_id c' = cn_id c \<and> cn_state c' = Conn_Used \<and> cn_transport c' = cn_transport c \<and> cn_queue c' = []
    \<and> cn_connection c' = cn_connection c \<and> cn_parser c' = cn_parser c
    \<and> (\<exists>re. cn_entry c' = Some re \<and> re_id re = rd_id rd \<and> re_onDone re = rd_onDone rd
          \<and> (re_timer re \<noteq> None \<longleftrightarrow> rd_timeout rd > 0))"
proof -
  have "used_timers (cn_timers c) = {}" "cn_timers c \<noteq> []"
    using assms(1,2) by (auto simp: conn_ok_def DefaultTimerPoolSize_def)
  from start_timer_ok [OF this, of fd "rd_timeout rd"] obtain i ts where
    "start_timer (Inr fd) (rd_timeout rd) (cn_timers c) = Ret (i, ts)" "length ts = length (cn_timers c)"
    "used_timers ts = set_option i" "\<forall>j \<in> used_timers ts. te_fd (ts ! j) \<noteq> None" "(i \<noteq> None) = (rd_timeout rd > 0)"
    by blast
  moreover have "T rd b = Send_Queued \<or> T rd b = Send_Whole" using assms(7) by (simp add: good_sends_def)
  ultimately show ?thesis using assms(1-6) by (elim disjE) (simp_all add: performImpl_def of_result_def conn_ok_def Let_def)
qed

text \<open>
  C16: whatever packet or error arrives on a connection, the handler (up to the call of \<open>onDone\<close>)
  neither throws nor dereferences a null timer, and so for a timeout when the request in progress
  has a timer: the request in progress stays or is completed exactly once, its timer goes back
  to the pool, and \<open>onDone\<close> is only called when nothing is left to do.  A timeout while the request
  in progress has no timer is excluded; the lemma below shows what it does.
\<close>

theorem connection_handlers_safe:
  assumes "conn_ok c"
  shows "handled_ok c (handleResponsePacket E buffer c) \<and> handled_ok c (handleError err c)
    \<and> (\<forall>re. cn_entry c = Some re \<and> re_timer re \<noteq> None \<longrightarrow> handled_ok c (handleTimeout c))"
  using assms handleResponsePacket_ok handleError_ok handleTimeout_ok by blast

text \<open>A connection with a request in progress and its timer.\<close>

theorem connection_handlers_safe_witness:
  "\<exists>c re. cn_entry c = Some re \<and> re_id re = 7 \<and> re_timer re \<noteq> None \<and> conn_load c = {#7#}
     \<and> handled_ok c (handleResponsePacket sample_env ''HTTP/1.1 200 OK'' c) \<and> handled_ok c (handleError ''reset'' c)
     \<and> handled_ok c (handleTimeout c)"
proof -
  let ?c = "(Connection_init 0 4096)\<lparr>cn_state := Conn_Used, cn_transport := Some 0\<rparr>"
  let ?rd = "\<lparr>rd_id = 7, rd_request = sample_request, rd_timeout = 100, rd_onDone = True\<rparr>"
  have c: "conn_ok ?c" "cn_entry ?c = None" "cn_queue ?c = []" using conn_ok_init [of 0 4096]
    by (simp_all add: conn_ok_def Connection_init_def)
  obtain b where b: "writeRequest sample_env (rd_request ?rd) = Inr b" using sample_request_written by auto
  from performImpl_ok [OF c _ _ b, of "\<lambda>_ _. Send_Queued" 3] obtain c' re where
    c': "conn_ok c'" "cn_queue c' = []" "cn_entry c' = Some re" "re_id re = 7" "re_timer re \<noteq> None"
    by (auto simp: good_sends_def)
  then have "conn_load c' = {#7#}" by (simp add: conn_load_def)
  with c' connection_handlers_safe [OF c'(1), of sample_env "''HTTP/1.1 200 OK''" "''reset''"] show ?thesis by blast
qed

text \<open>What a send that does not go through does on the transport's own thread.\<close>

lemma performImpl_send_fails:
  assumes "conn_ok c" "cn_entry c = None" "cn_queue c = []" "cn_state c = Conn_Used" "cn_transport c \<noteq> None"
    and "writeRequest E (rd_request rd) = Inr b" "T rd b = Send_Fails err"
  shows "\<exists>c'. performImpl E (Inr fd) T rd c = Ret ([Rejected (rd_id rd) err], rd_onDone rd, c') \<and> conn_ok c'"
proof -
  let ?T = "\<lambda>_ _. Send_Queued"
  from performImpl_ok [OF assms(1-6), of ?T fd] obtain c' re where
    p: "performImpl E (Inr fd) ?T rd c = Ret ([To_Transport (cn_id c) b], False, c')" "conn_ok c'" "cn_entry c' = Some re"
      "re_id re = rd_id rd" "re_onDone re = rd_onDone rd" by (auto simp: good_sends_def)
  have "performImpl E (Inr fd) T rd c = handleError err c'"
    using p(1) assms(5-7) by (cases "start_timer (Inr fd) (rd_timeout rd) (cn_timers c)")
      (auto simp: performImpl_def of_result_def Let_def)
  moreover from conn_ok_timer [OF p(2,3)] obtain ts where "stop_timer (re_timer re) (cn_timers c') = Ret ts"
    "conn_ok (c'\<lparr>cn_timers := ts, cn_entry := None\<rparr>)" by blast
  ultimately show ?thesis using p(3-5) by (simp add: handleError_def)
qed

lemma performImpl_would_block:
  assumes "conn_ok c" "cn_entry c = None" "cn_transport c \<noteq> None"
    and "writeRequest E (rd_request rd) = Inr b" "T rd b = Send_Raises e"
  shows "performImpl E (Inr fd) T rd c = Raise e"
proof -
  have "used_timers (cn_timers c) = {}" "cn_timers c \<noteq> []"
    using assms(1,2) by (auto simp: conn_ok_def DefaultTimerPoolSize_def)
  from start_timer_ok [OF this, of fd "rd_timeout rd"] assms(3-5) show ?thesis
    by (auto simp: performImpl_def of_result_def Let_def)
qed

text \<open>
  A timer that fires for a request which has just been completed ends the request that has taken
  its place on the connection; when that one has no timer, a null pointer is dereferenced.
\<close>

lemma stale_timeout_crashes: "cn_entry c = Some re \<Longrightarrow> re_timer re = None \<Longrightarrow> handleTimeout c = Crash"
  by (simp add: handleTimeout_def)

text \<open>
  After a timeout the connection takes the next request, and the response to the first one, when it
  comes, is delivered for the second.
\<close>

lemma late_response_misdelivered:
  assumes "conn_ok c" "cn_entry c = Some re" "re_timer re \<noteq> None" "cn_state c = Conn_Used" "cn_transport c \<noteq> None"
    and "writeRequest E (rd_request rd) = Inr b" "good_sends T"
    and "parser_feed buffer (cn_parser c) = (True, p)" "parser_parse E p = (Inr Done, p')"
  shows "\<exists>d c1 ev c2 c3. handleTimeout c = Ret ([Rejected (re_id re) ''Timeout''], d, c1)
    \<and> performImpl E (Inr fd) T rd c1 = Ret (ev, False, c2)
    \<and> handleResponsePacket E buffer c2 = Ret ([Resolved (rd_id rd) (pa_message p')], rd_onDone rd, c3)"
proof -
  from conn_ok_timer [OF assms(1,2)] obtain ts where ts: "stop_timer (re_timer re) (cn_timers c) = Ret ts"
    "conn_ok (c\<lparr>cn_timers := ts, cn_entry := None\<rparr>)" "cn_queue c = []" by blast
  let ?c1 = "c\<lparr>cn_timers := ts, cn_entry := None\<rparr>"
  have t: "handleTimeout c = Ret ([Rejected (re_id re) ''Timeout''], re_onDone re, ?c1)"
    using ts(1) assms(2,3) by (auto simp: handleTimeout_def)
  obtain c2 re2 where c2: "performImpl E (Inr fd) T rd ?c1 = Ret ([To_Transport (cn_id ?c1) b], False, c2)" "conn_ok c2"
    "cn_entry c2 = Some re2" "re_id re2 = rd_id rd" "re_onDone re2 = rd_onDone rd" "cn_parser c2 = cn_parser c"
    using performImpl_ok [OF ts(2) _ _ _ _ assms(6,7), of fd] ts(3) assms(4,5) by auto
  from conn_ok_timer [OF c2(2,3)] have "\<exists>c3. handleResponsePacket E buffer c2 = Ret ([Resolved (rd_id rd) (pa_message p')], rd_onDone rd, c3)"
    using assms(8,9) c2(3-6) by (auto simp: handleResponsePacket_def response_packet_def Let_def)
  with t c2(1) show ?thesis by blast
qed

text \<open>An error in a response leaves the parser as it is: the next response starts in the middle of it.\<close>

lemma error_keeps_parser: "handleError err c = Ret (ev, d, c') \<Longrightarrow> cn_parser c' = cn_parser c"
  by (auto simp: handleError_def split: option.splits elim!: run_bind.elims)

end
