(* ===== verification/Client_Pool.thy ===== *)
theory Client_Pool
  imports Client_Connection
begin

text \<open>
  The client around its connections (client.cc): the pool of connections per domain, the bounded
  queue of the requests that found no free connection, and what happens when a request ends: the
  connection is released and the queues are looked through.  Connections are shared pointers, so
  they live in one list and are named by their index.  A queue is the list that Bounded_Queue
  shows it to be.  The lock of the queues makes each operation one step.
\<close>

section \<open>The pool\<close>

record client =
  cl_conns :: "connection list"
  cl_pool :: "(string \<times> nat list) list"
  cl_maxConnectionsPerHost :: nat
  cl_maxResponseSize :: nat
  cl_queues :: "(string \<times> request_data list) list"
  cl_stop :: bool
  cl_transports :: nat
  cl_ioIndex :: nat

record options =
  op_threads :: int
  op_maxConnectionsPerHost :: nat
  op_keepAlive :: bool
  op_maxResponseSize :: nat

definition Options0 :: options where
  "Options0 = \<lparr>op_threads = 1, op_maxConnectionsPerHost = 8, op_keepAlive = True,
     op_maxResponseSize = 2 ^ 32 - 1\<rparr>"

text \<open>A client after \<open>init\<close>: one transport per thread of the reactor.\<close>

definition Client_init :: "options \<Rightarrow> client" where
  "Client_init op =
     \<lparr>cl_conns = [], cl_pool = [], cl_maxConnectionsPerHost = op_maxConnectionsPerHost op,
      cl_maxResponseSize = op_maxResponseSize op, cl_queues = [], cl_stop = False,
      cl_transports = nat (op_threads op), cl_ioIndex = 0\<rparr>"

text \<open>The first connection that \<open>tryUse\<close> takes.\<close>

fun first_idle :: "nat list \<Rightarrow> connection list \<Rightarrow> nat option \<times> connection list" where
  "first_idle [] conns = (None, conns)"
| "first_idle (i # is) conns =
     (case tryUse (conns ! i) of
        (True, c) \<Rightarrow> (Some i, conns[i := c])
      | (False, _) \<Rightarrow> first_idle is conns)"

definition make_connections :: "string \<Rightarrow> client \<Rightarrow> client" where
  "make_connections domain cl =
     (let n = length (cl_conns cl); new = [n..<n + cl_maxConnectionsPerHost cl]
      in cl\<lparr>cl_conns := cl_conns cl @ map (\<lambda>i. Connection_init i (cl_maxResponseSize cl)) new,
            cl_pool := um_insert (=) domain new (cl_pool cl)\<rparr>)"

definition pickConnection :: "string \<Rightarrow> client \<Rightarrow> nat option \<times> client" where
  "pickConnection domain cl =
     (let cl' = (if um_find (=) (cl_pool cl) domain = None then make_connections domain cl else cl);
          (r, conns) = first_idle (the (um_find (=) (cl_pool cl') domain)) (cl_conns cl')
      in (r, cl'\<lparr>cl_conns := conns\<rparr>))"

definition put_conn :: "nat \<Rightarrow> connection \<Rightarrow> client \<Rightarrow> client" where
  "put_conn i c cl = cl\<lparr>cl_conns := (cl_conns cl)[i := c]\<rparr>"

definition releaseConnection :: "nat \<Rightarrow> client \<Rightarrow> client" where
  "releaseConnection i cl = put_conn i (setAsIdle (cl_conns cl ! i)) cl"

definition usedConnections :: "string \<Rightarrow> client \<Rightarrow> nat" where
  "usedConnections domain cl =
     (case um_find (=) (cl_pool cl) domain of
        None \<Rightarrow> 0 | Some is \<Rightarrow> length (filter (\<lambda>i. isConnected (cl_conns cl ! i)) is))"

definition idleConnections :: "string \<Rightarrow> client \<Rightarrow> nat" where
  "idleConnections domain cl =
     (case um_find (=) (cl_pool cl) domain of
        None \<Rightarrow> 0 | Some is \<Rightarrow> length (filter (\<lambda>i. isIdle (cl_conns cl ! i)) is))"

definition availableConnections :: "string \<Rightarrow> client \<Rightarrow> nat" where
  "availableConnections domain cl = 0"

definition close_connected :: "connection \<Rightarrow> connection" where
  "close_connected c = (if isConnected c then snd (Connection_close c) else c)"

definition pool_shutdown :: "client \<Rightarrow> client" where
  "pool_shutdown cl = cl\<lparr>cl_conns := map close_connected (cl_conns cl)\<rparr>"

definition Client_shutdown :: "client \<Rightarrow> client" where
  "Client_shutdown cl = pool_shutdown (cl\<lparr>cl_stop := True\<rparr>)"

section \<open>Connecting\<close>

text \<open>
  What the resolver and \<open>socket\<close> answer: an exception, or for each address found the socket or a
  failure.  The first socket is used; its connection is requested from the transport.
\<close>

fun first_socket :: "nat option list \<Rightarrow> nat option" where
  "first_socket [] = None"
| "first_socket (Some fd # _) = Some fd"
| "first_socket (None # rs) = first_socket rs"

definition connectSocket :: "nat option list result \<Rightarrow> connection \<Rightarrow> exn option \<times> connection" where
  "connectSocket sockets c =
     (case sockets of
        Inl e \<Rightarrow> (Some e, c)
      | Inr rs \<Rightarrow>
          (case first_socket rs of
             None \<Rightarrow> (Some (Runtime_Error ''Failed to connect''), c)
           | Some fd \<Rightarrow> (None, c\<lparr>cn_fd := Some fd, cn_connection := Connecting\<rparr>)))"

section \<open>Requests\<close>

text \<open>
  The capacity of a queue of waiting requests, and the loop that serves one queue: as long as a
  connection is free and a request waits, the request is performed on the connection.  All this
  happens with \<open>queuesLock\<close> held: a send that fails at once calls \<open>onDone\<close>, which locks the mutex
  again on the same thread, and that is undefined.
\<close>

definition queue_capacity :: nat where "queue_capacity = 2048"

fun serve_queue :: "http_env \<Rightarrow> string + nat \<Rightarrow> sender \<Rightarrow> string \<Rightarrow> request_data list \<Rightarrow> client
    \<Rightarrow> (client_event list \<times> request_data list \<times> client) run" where
  "serve_queue E created T domain q cl =
     (case pickConnection domain cl of
        (None, cl') \<Rightarrow> Ret ([], q, cl')
      | (Some i, cl') \<Rightarrow>
          (case q of
             [] \<Rightarrow> Ret ([], [], releaseConnection i cl')
           | rd # rds \<Rightarrow>
               run_bind (performImpl E created T (rd\<lparr>rd_onDone := True\<rparr>) (cl_conns cl' ! i)) (\<lambda>(ev, done, c).
               if done then Crash
               else run_bind (serve_queue E created T domain rds (put_conn i c cl')) (\<lambda>(ev', q', cl'').
                 Ret (ev @ ev', q', cl'')))))"

declare serve_queue.simps [simp del]

fun serve_queues :: "http_env \<Rightarrow> string + nat \<Rightarrow> sender \<Rightarrow> (string \<times> request_data list) list \<Rightarrow> client
    \<Rightarrow> (client_event list \<times> (string \<times> request_data list) list \<times> client) run" where
  "serve_queues E created T [] cl = Ret ([], [], cl)"
| "serve_queues E created T ((domain, q) # qs) cl =
     run_bind (serve_queue E created T domain q cl) (\<lambda>(ev, q', cl').
     run_bind (serve_queues E created T qs cl') (\<lambda>(ev', qs', cl'').
       Ret (ev @ ev', (domain, q') # qs', cl'')))"

definition Client_processRequestQueue :: "http_env \<Rightarrow> string + nat \<Rightarrow> sender \<Rightarrow> client \<Rightarrow> (client_event list \<times> client) run" where
  "Client_processRequestQueue E created T cl =
     (if cl_stop cl then Ret ([], cl)
      else run_bind (serve_queues E created T (cl_queues cl) cl) (\<lambda>(ev, qs, cl').
             Ret (ev, cl'\<lparr>cl_queues := qs\<rparr>)))"

definition queue_of :: "string \<Rightarrow> client \<Rightarrow> request_data list" where
  "queue_of domain cl = (case um_find (=) (cl_queues cl) domain of None \<Rightarrow> [] | Some q \<Rightarrow> q)"

definition enqueue_request :: "string \<Rightarrow> request_data \<Rightarrow> client \<Rightarrow> client_event list \<times> client" where
  "enqueue_request domain rd cl =
     (let cl' = cl\<lparr>cl_queues := um_insert (=) domain [] (cl_queues cl)\<rparr>; q = queue_of domain cl'
      in if length q < queue_capacity
         then ([], cl'\<lparr>cl_queues := um_assign (=) domain (q @ [rd\<lparr>rd_onDone := False\<rparr>]) (cl_queues cl')\<rparr>)
         else ([Rejected (rd_id rd) ''Queue is full''], cl'))"

text \<open>The header that \<open>doRequest\<close> removes, and the domain it picks a connection for.\<close>

definition without_agent :: "request_data \<Rightarrow> request_data" where
  "without_agent rd = rd\<lparr>rd_request := (rd_request rd)\<lparr>msg_headers :=
     snd (Collection_remove ''User-Agent'' (msg_headers (rd_request rd)))\<rparr>\<rparr>"

definition request_domain :: "request_data \<Rightarrow> string" where
  "request_domain rd = fst (splitUrl (msg_resource (rd_request rd)) True)"

text \<open>A connection without a transport gets one in turn; no transport at all is a division by zero.\<close>

definition with_transport :: "nat \<Rightarrow> client \<Rightarrow> client run" where
  "with_transport i cl =
     (if hasTransport (cl_conns cl ! i) then Ret cl
      else if cl_transports cl = 0 then Crash
      else run_bind (of_result (associateTransport (cl_ioIndex cl mod cl_transports cl) (cl_conns cl ! i))) (\<lambda>c.
             Ret (put_conn i c (cl\<lparr>cl_ioIndex := cl_ioIndex cl + 1\<rparr>))))"

text \<open>
  What a handler of connection \<open>i\<close> has returned; the callback \<open>onDone\<close> releases the connection
  and serves the queues.
\<close>

definition finish :: "http_env \<Rightarrow> string + nat \<Rightarrow> sender \<Rightarrow> nat \<Rightarrow> client \<Rightarrow> handled \<Rightarrow> (client_event list \<times> client) run" where
  "finish E created T i cl h =
     (case h of (ev, done, c) \<Rightarrow>
        let cl1 = put_conn i c cl
        in if done then run_bind (Client_processRequestQueue E created T (releaseConnection i cl1)) (\<lambda>(ev', cl2). Ret (ev @ ev', cl2))
           else Ret (ev, cl1))"

text \<open>The loop that empties the queue of a connection once it is connected, and what runs then.\<close>

fun perform_all :: "http_env \<Rightarrow> string + nat \<Rightarrow> sender \<Rightarrow> nat \<Rightarrow> request_data list \<Rightarrow> client \<Rightarrow> (client_event list \<times> client) run" where
  "perform_all E created T i [] cl = Ret ([], put_conn i ((cl_conns cl ! i)\<lparr>cn_queue := []\<rparr>) cl)"
| "perform_all E created T i (rd # rds) cl =
     run_bind (performImpl E created T rd ((cl_conns cl ! i)\<lparr>cn_queue := rds\<rparr>)) (\<lambda>h.
     run_bind (finish E created T i cl h) (\<lambda>(ev, cl').
     run_bind (perform_all E created T i rds cl') (\<lambda>(ev', cl''). Ret (ev @ ev', cl''))))"

definition Connection_processRequestQueue :: "http_env \<Rightarrow> string + nat \<Rightarrow> sender \<Rightarrow> nat \<Rightarrow> client \<Rightarrow> (client_event list \<times> client) run" where
  "Connection_processRequestQueue E created T i cl = perform_all E created T i (cn_queue (cl_conns cl ! i)) cl"

definition onConnected :: "http_env \<Rightarrow> string + nat \<Rightarrow> sender \<Rightarrow> nat \<Rightarrow> client \<Rightarrow> (client_event list \<times> client) run" where
  "onConnected E created T i cl =
     Connection_processRequestQueue E created T i (put_conn i ((cl_conns cl ! i)\<lparr>cn_connection := Connected\<rparr>) cl)"

text \<open>
  \<open>doRequest\<close>: the exception of \<open>connect\<close>, if it throws, is the one that its caller sees.
\<close>

definition doRequest :: "http_env \<Rightarrow> string + nat \<Rightarrow> sender \<Rightarrow> nat option list result \<Rightarrow> request_data \<Rightarrow> client
    \<Rightarrow> (exn option \<times> client_event list \<times> client) run" where
  "doRequest E created T sockets rd0 cl =
     (let rd = without_agent rd0; domain = request_domain rd
      in case pickConnection domain cl of
           (None, cl1) \<Rightarrow> (case enqueue_request domain rd cl1 of (ev, cl2) \<Rightarrow> Ret (None, ev, cl2))
         | (Some i, cl1) \<Rightarrow>
             run_bind (with_transport i cl1) (\<lambda>cl2.
               let c = cl_conns cl2 ! i; rd' = rd\<lparr>rd_onDone := True\<rparr>
               in if \<not> isConnected c then
                    (case connectSocket sockets (asyncPerform rd' c) of (e, c') \<Rightarrow> Ret (e, [], put_conn i c' cl2))
                  else run_bind (perform E created T rd' c) (\<lambda>h.
                    run_bind (finish E created T i cl2 h) (\<lambda>(ev, cl3). Ret (None, ev, cl3)))))"

section \<open>The invariant of the client\<close>

definition writable :: "http_env \<Rightarrow> request_data \<Rightarrow> bool" where
  "writable E rd \<longleftrightarrow> (\<exists>b. writeRequest E (rd_request rd) = Inr b)"

text \<open>
  Every connection is in order, and a connection in use has its transport (those in \<open>X\<close>, just
  picked, may still lack it).
\<close>

definition conns_ok :: "http_env \<Rightarrow> nat set \<Rightarrow> connection list \<Rightarrow> bool" where
  "conns_ok E X conns \<longleftrightarrow> (\<forall>i < length conns. conn_ok (conns ! i)
     \<and> (cn_state (conns ! i) = Conn_Used \<and> i \<notin> X \<longrightarrow> cn_transport (conns ! i) \<noteq> None)
     \<and> (\<forall>rd \<in> set (cn_queue (conns ! i)). writable E rd))"

definition pool_ok :: "client \<Rightarrow> bool" where
  "pool_ok cl \<longleftrightarrow> (\<forall>d js. um_find (=) (cl_pool cl) d = Some js \<longrightarrow> (\<forall>i \<in> set js. i < length (cl_conns cl)))
     \<and> 0 < cl_transports cl"

text \<open>
  Requests only wait for a domain all of whose connections have been used, and so have a transport.
\<close>

definition queue_ok :: "http_env \<Rightarrow> client \<Rightarrow> string \<times> request_data list \<Rightarrow> bool" where
  "queue_ok E cl dq \<longleftrightarrow> (\<forall>rd \<in> set (snd dq). writable E rd) \<and> (snd dq \<noteq> [] \<longrightarrow>
     (\<exists>js. um_find (=) (cl_pool cl) (fst dq) = Some js \<and> (\<forall>i \<in> set js. cn_transport (cl_conns cl ! i) \<noteq> None)))"

definition client_ok :: "http_env \<Rightarrow> client \<Rightarrow> bool" where
  "client_ok E cl \<longleftrightarrow> conns_ok E {} (cl_conns cl) \<and> pool_ok cl \<and> (\<forall>dq \<in> set (cl_queues cl). queue_ok E cl dq)"

text \<open>The requests on the connections and in the queues.\<close>

definition loads :: "client \<Rightarrow> nat multiset" where
  "loads cl = sum_list (map conn_load (cl_conns cl))"

definition queued :: "(string \<times> request_data list) list \<Rightarrow> nat multiset" where
  "queued qs = mset (map rd_id (concat (map snd qs)))"

definition placed :: "client \<Rightarrow> nat multiset" where
  "placed cl = queued (cl_queues cl) + loads cl"

text \<open>What the operations on connections leave alone.\<close>

definition grows :: "client \<Rightarrow> client \<Rightarrow> bool" where
  "grows cl cl' \<longleftrightarrow> cl_queues cl' = cl_queues cl \<and> cl_stop cl' = cl_stop cl \<and> length (cl_conns cl) \<le> length (cl_conns cl')
     \<and> (\<forall>d js. um_find (=) (cl_pool cl) d = Some js \<longrightarrow> um_find (=) (cl_pool cl') d = Some js)
     \<and> (\<forall>i < length (cl_conns cl). cn_transport (cl_conns cl ! i) \<noteq> None \<longrightarrow> cn_transport (cl_conns cl' ! i) \<noteq> None)"

lemma grows_refl [simp]: "grows cl cl"
  by (simp add: grows_def)

lemma grows_trans: "grows a b \<Longrightarrow> grows b c \<Longrightarrow> grows a c"
  by (auto simp: grows_def)

lemma nth_updated: "j < length xs \<Longrightarrow> xs[i := c] ! j = (if i = j then c else xs ! j)"
  by (cases "i = j") auto

lemma grows_put_conn:
  "(i < length (cl_conns cl) \<Longrightarrow> cn_transport (cl_conns cl ! i) \<noteq> None \<Longrightarrow> cn_transport c \<noteq> None) \<Longrightarrow> grows cl (put_conn i c cl)"
  by (auto simp: grows_def put_conn_def nth_updated)

lemma queue_ok_grows: "queue_ok E cl dq \<Longrightarrow> grows cl cl' \<Longrightarrow> pool_ok cl \<Longrightarrow> queue_ok E cl' dq"
proof -
  assume q: "queue_ok E cl dq" and g: "grows cl cl'" and p: "pool_ok cl"
  have "\<exists>js. um_find (=) (cl_pool cl') (fst dq) = Some js \<and> (\<forall>i \<in> set js. cn_transport (cl_conns cl' ! i) \<noteq> None)"
    if ne: "snd dq \<noteq> []"
  proof -
    obtain js where js: "um_find (=) (cl_pool cl) (fst dq) = Some js" "\<forall>i \<in> set js. cn_transport (cl_conns cl ! i) \<noteq> None"
      using q ne unfolding queue_ok_def by blast
    moreover have "\<forall>i \<in> set js. i < length (cl_conns cl)" using p js(1) unfolding pool_ok_def by blast
    ultimately show ?thesis using g unfolding grows_def by (metis (no_types, lifting))
  qed
  then show ?thesis using q unfolding queue_ok_def by blast
qed

lemma put_conn_sel [simp]:
  "cl_queues (put_conn i c cl) = cl_queues cl" "cl_stop (put_conn i c cl) = cl_stop cl"
  "cl_pool (put_conn i c cl) = cl_pool cl" "length (cl_conns (put_conn i c cl)) = length (cl_conns cl)"
  "cl_transports (put_conn i c cl) = cl_transports cl" "cl_conns (put_conn i c cl) = (cl_conns cl)[i := c]"
  by (simp_all add: put_conn_def)

lemma pool_ok_put_conn [simp]: "pool_ok (put_conn i c cl) = pool_ok cl"
  by (simp add: pool_ok_def put_conn_def)

lemma pool_ok_queues [simp]: "pool_ok (cl\<lparr>cl_queues := qs\<rparr>) = pool_ok cl" "loads (cl\<lparr>cl_queues := qs\<rparr>) = loads cl"
  "queue_ok E (cl\<lparr>cl_queues := qs\<rparr>) dq = queue_ok E cl dq"
  by (simp_all add: pool_ok_def loads_def queue_ok_def)

lemma conns_ok_update:
  assumes "conns_ok E X conns" "conn_ok c" "cn_state c = Conn_Used \<Longrightarrow> i \<notin> Y \<Longrightarrow> cn_transport c \<noteq> None"
    "\<forall>rd \<in> set (cn_queue c). writable E rd" "X \<subseteq> insert i Y"
  shows "conns_ok E Y (conns[i := c])"
  using assms unfolding conns_ok_def by (auto simp: nth_updated)

lemma sum_list_update_load:
  "i < length conns \<Longrightarrow> sum_list (map conn_load (conns[i := c])) + conn_load (conns ! i) = sum_list (map conn_load conns) + conn_load c"
proof (induction conns arbitrary: i)
  case (Cons x conns)
  show ?case
  proof (cases i)
    case (Suc j)
    then show ?thesis using Cons.IH [of j] Cons.prems by (simp add: ac_simps)
  qed simp
qed simp

lemma loads_put_conn:
  "i < length (cl_conns cl) \<Longrightarrow> loads (put_conn i c cl) + conn_load (cl_conns cl ! i) = loads cl + conn_load c"
  by (simp add: loads_def sum_list_update_load)

lemma loads_put_same:
  "i < length (cl_conns cl) \<Longrightarrow> conn_load c = conn_load (cl_conns cl ! i) \<Longrightarrow> loads (put_conn i c cl) = loads cl"
  using loads_put_conn [of i cl c] by simp

section \<open>Picking and releasing\<close>

lemma first_idle_cases:
  assumes "first_idle js conns = (r, conns')"
  obtains (none) "r = None" "conns' = conns" "\<forall>i \<in> set js. cn_state (conns ! i) = Conn_Used"
  | (some) i where "r = Some i" "i \<in> set js" "cn_state (conns ! i) = Conn_Idle"
      "conns' = conns[i := (conns ! i)\<lparr>cn_state := Conn_Used\<rparr>]"
  using assms
proof (induction js arbitrary: thesis)
  case (Cons k ks)
  show ?case
  proof (cases "cn_state (conns ! k)")
    case Conn_Idle
    then show ?thesis using Cons.prems by (auto simp: tryUse_def)
  next
    case Conn_Used
    then have "first_idle ks conns = (r, conns')" using Cons.prems(3) by (simp add: tryUse_def)
    from Cons.IH [OF _ _ this] Conn_Used Cons.prems(1,2) show ?thesis by auto
  qed
qed simp

lemma new_connections:
  assumes "conns_ok E X (cl_conns cl)" "pool_ok cl" "um_find (=) (cl_pool cl) d = None"
  shows "conns_ok E X (cl_conns (make_connections d cl)) \<and> pool_ok (make_connections d cl)
    \<and> grows cl (make_connections d cl) \<and> loads (make_connections d cl) = loads cl
    \<and> um_find (=) (cl_pool (make_connections d cl)) d \<noteq> None"
proof -
  let ?n = "length (cl_conns cl)" and ?m = "cl_maxConnectionsPerHost cl"
  let ?new = "map (\<lambda>i. Connection_init i (cl_maxResponseSize cl)) [?n..<?n + ?m]"
  have e: "cl_conns (make_connections d cl) = cl_conns cl @ ?new"
    "cl_pool (make_connections d cl) = um_insert (=) d [?n..<?n + ?m] (cl_pool cl)"
    "cl_transports (make_connections d cl) = cl_transports cl" "cl_queues (make_connections d cl) = cl_queues cl"
    "cl_stop (make_connections d cl) = cl_stop cl"
    by (simp_all add: make_connections_def Let_def)
  have find: "um_find (=) (cl_pool (make_connections d cl)) d' =
      (if d' = d then Some [?n..<?n + ?m] else um_find (=) (cl_pool cl) d')" for d'
    using assms(3) unfolding e(2) str_map.look_ins by auto
  have "conns_ok E X (cl_conns cl @ ?new)"
    using assms(1) unfolding conns_ok_def by (auto simp: nth_append) (auto simp: Connection_init_def)
  moreover have "pool_ok (make_connections d cl)"
    using assms(2) unfolding pool_ok_def find e(1,3) by (auto split: if_splits) fastforce
  moreover have "grows cl (make_connections d cl)"
    using assms(3) unfolding grows_def find e(1,4,5) by (auto simp: nth_append)
  moreover have "sum_list (map conn_load ?new) = {#}"
    by (simp add: comp_def conn_load_def Connection_init_def)
  ultimately show ?thesis by (simp add: e(1) loads_def find)
qed

lemma pick_cases:
  assumes "conns_ok E {} (cl_conns cl)" "pool_ok cl" "pickConnection d cl = (r, cl')"
  obtains (none) js where "r = None" "conns_ok E {} (cl_conns cl')" "pool_ok cl'" "grows cl cl'" "loads cl' = loads cl"
      "um_find (=) (cl_pool cl') d = Some js" "\<forall>i \<in> set js. cn_transport (cl_conns cl' ! i) \<noteq> None"
  | (some) i js where "r = Some i" "i < length (cl_conns cl')" "conns_ok E {i} (cl_conns cl')" "pool_ok cl'" "grows cl cl'"
      "loads cl' = loads cl" "um_find (=) (cl_pool cl') d = Some js" "i \<in> set js"
      "cn_state (cl_conns cl' ! i) = Conn_Used" "cn_entry (cl_conns cl' ! i) = None" "cn_queue (cl_conns cl' ! i) = []"
proof -
  define cl1 where "cl1 = (if um_find (=) (cl_pool cl) d = None then make_connections d cl else cl)"
  have 1: "conns_ok E {} (cl_conns cl1)" "pool_ok cl1" "grows cl cl1" "loads cl1 = loads cl"
    "um_find (=) (cl_pool cl1) d \<noteq> None"
    using new_connections [OF assms(1,2)] assms(1,2) by (auto simp: cl1_def)
  obtain js where js: "um_find (=) (cl_pool cl1) d = Some js" using 1(5) by blast
  obtain conns where f: "first_idle js (cl_conns cl1) = (r, conns)" and cl': "cl' = cl1\<lparr>cl_conns := conns\<rparr>"
    using assms(3) js unfolding pickConnection_def cl1_def [symmetric] Let_def by (auto split: prod.splits)
  have lt: "i < length (cl_conns cl1)" if "i \<in> set js" for i using 1(2) js that by (auto simp: pool_ok_def)
  from f show thesis
  proof (cases rule: first_idle_cases)
    case none
    then have "cl' = cl1" by (simp add: cl')
    moreover have "\<forall>i \<in> set js. cn_transport (cl_conns cl1 ! i) \<noteq> None"
      using 1(1) none(3) lt unfolding conns_ok_def by auto
    ultimately show ?thesis using that(1) none(1) 1 js by blast
  next
    case (some i)
    let ?c = "(cl_conns cl1 ! i)\<lparr>cn_state := Conn_Used\<rparr>"
    note i = lt [OF some(2)]
    have c: "conn_ok (cl_conns cl1 ! i)" "\<forall>rd \<in> set (cn_queue (cl_conns cl1 ! i)). writable E rd"
      using 1(1) i by (simp_all add: conns_ok_def)
    then have e: "cn_entry ?c = None" "cn_queue ?c = []" using some(3) by (simp_all add: conn_ok_def)
    have p: "cl' = put_conn i ?c cl1" by (simp add: cl' put_conn_def some(4))
    have "conn_ok ?c" using c(1) some(3) by (simp add: conn_ok_def)
    then have "conns_ok E {i} (cl_conns cl')"
      using 1(1) e(2) unfolding p put_conn_sel by (intro conns_ok_update [OF 1(1)]) auto
    moreover have "grows cl cl'" unfolding p by (rule grows_trans [OF 1(3) grows_put_conn]) simp
    moreover have "loads cl' = loads cl" unfolding p using i 1(4) by (subst loads_put_same) (simp_all add: conn_load_def)
    ultimately show ?thesis
      using that(2) [of i js] some(1,2) i 1(2) js e unfolding p by simp
  qed
qed

lemma release_conn_ok:
  assumes "conns_ok E {i} (cl_conns cl)" "i < length (cl_conns cl)" "cn_entry (cl_conns cl ! i) = None"
    "cn_queue (cl_conns cl ! i) = []"
  shows "conns_ok E {} (cl_conns (releaseConnection i cl)) \<and> grows cl (releaseConnection i cl)
    \<and> loads (releaseConnection i cl) = loads cl \<and> pool_ok (releaseConnection i cl) = pool_ok cl"
proof -
  have c: "conn_ok (setAsIdle (cl_conns cl ! i))"
    using assms by (auto simp: conns_ok_def conn_ok_def setAsIdle_def)
  have "conns_ok E {} ((cl_conns cl)[i := setAsIdle (cl_conns cl ! i)])"
    using assms c by (intro conns_ok_update [OF assms(1)]) (auto simp: setAsIdle_def)
  moreover have "grows cl (releaseConnection i cl)"
    unfolding releaseConnection_def by (rule grows_put_conn) (simp add: setAsIdle_def)
  moreover have "loads (releaseConnection i cl) = loads cl"
    unfolding releaseConnection_def using assms(2) by (intro loads_put_same) (simp_all add: setAsIdle_def conn_load_def)
  ultimately show ?thesis by (simp add: releaseConnection_def)
qed

text \<open>Performing a request on a connection that is in use and has none.\<close>

lemma perform_on:
  assumes "conns_ok E X (cl_conns cl)" "i < length (cl_conns cl)" "X \<subseteq> {i}" "cn_state (cl_conns cl ! i) = Conn_Used"
    "cn_entry (cl_conns cl ! i) = None" "cn_queue (cl_conns cl ! i) = []" "cn_transport (cl_conns cl ! i) \<noteq> None" "writable E rd" "good_sends T"
  shows "\<exists>ev c. performImpl E (Inr fd) T rd (cl_conns cl ! i) = Ret (ev, False, c) \<and> completed ev = []
    \<and> conns_ok E {} (cl_conns (put_conn i c cl)) \<and> grows cl (put_conn i c cl)
    \<and> loads (put_conn i c cl) = loads cl + {#rd_id rd#}"
proof -
  obtain b where b: "writeRequest E (rd_request rd) = Inr b" using assms(8) by (auto simp: writable_def)
  have "conn_ok (cl_conns cl ! i)" using assms(1,2) by (simp add: conns_ok_def)
  from performImpl_ok [OF this assms(5,6,4,7) b assms(9), of fd] obtain c re where
    p: "performImpl E (Inr fd) T rd (cl_conns cl ! i) = Ret ([To_Transport (cn_id (cl_conns cl ! i)) b], False, c)"
    and c: "conn_ok c" "cn_transport c = cn_transport (cl_conns cl ! i)" "cn_queue c = []" "cn_entry c = Some re" "re_id re = rd_id rd"
    by auto
  have "conns_ok E {} ((cl_conns cl)[i := c])"
    using assms(1,3,7) c by (intro conns_ok_update [OF assms(1)]) auto
  moreover have "grows cl (put_conn i c cl)" by (rule grows_put_conn) (simp add: c(2))
  moreover have "loads (put_conn i c cl) = loads cl + {#rd_id rd#}"
    using loads_put_conn [OF assms(2), of c] c(3-5) assms(5,6) by (simp add: conn_load_def)
  ultimately show ?thesis using p by simp
qed

section \<open>Serving the queues\<close>

lemma writable_onDone [simp]: "writable E (rd\<lparr>rd_onDone := b\<rparr>) = writable E rd"
  by (simp add: writable_def)

lemma serve_queue_ok:
  assumes "conns_ok E {} (cl_conns cl)" "pool_ok cl" "queue_ok E cl (d, q)" "good_sends T"
  shows "\<exists>ev q' cl'. serve_queue E (Inr fd) T d q cl = Ret (ev, q', cl') \<and> completed ev = []
    \<and> conns_ok E {} (cl_conns cl') \<and> pool_ok cl' \<and> grows cl cl' \<and> queue_ok E cl' (d, q')
    \<and> mset (map rd_id q') + loads cl' = mset (map rd_id q) + loads cl"
  using assms
proof (induction q arbitrary: cl)
  case Nil
  obtain r cl1 where p: "pickConnection d cl = (r, cl1)" by fastforce
  from Nil.prems(1,2) p show ?case
  proof (cases rule: pick_cases)
    case none
    then show ?thesis using p by (subst serve_queue.simps) (simp add: queue_ok_def)
  next
    case (some i js)
    with release_conn_ok [OF some(3,2,10,11)] p show ?thesis
      by (subst serve_queue.simps) (auto simp: queue_ok_def intro: grows_trans)
  qed
next
  case (Cons rd rds)
  obtain r cl1 where p: "pickConnection d cl = (r, cl1)" by fastforce
  from Cons.prems(1,2) p show ?case
  proof (cases rule: pick_cases)
    case (none js)
    then show ?thesis
      using p queue_ok_grows [OF Cons.prems(3) none(4) Cons.prems(2)] by (subst serve_queue.simps) simp
  next
    case (some i js)
    have q1: "queue_ok E cl1 (d, rd # rds)" by (rule queue_ok_grows [OF Cons.prems(3) some(5) Cons.prems(2)])
    then have tr: "cn_transport (cl_conns cl1 ! i) \<noteq> None" "writable E (rd\<lparr>rd_onDone := True\<rparr>)"
      using some(7,8) by (auto simp: queue_ok_def)
    from perform_on [OF some(3,2) _ some(9-11) tr assms(4), of fd] obtain ev c where
      pf: "performImpl E (Inr fd) T (rd\<lparr>rd_onDone := True\<rparr>) (cl_conns cl1 ! i) = Ret (ev, False, c)" "completed ev = []"
      and 2: "conns_ok E {} (cl_conns (put_conn i c cl1))" "grows cl1 (put_conn i c cl1)"
      "loads (put_conn i c cl1) = loads cl1 + {#rd_id rd#}" by auto
    have "queue_ok E (put_conn i c cl1) (d, rd # rds)" by (rule queue_ok_grows [OF q1 2(2) some(4)])
    then have "queue_ok E (put_conn i c cl1) (d, rds)" by (auto simp: queue_ok_def)
    with Cons.IH [OF 2(1) _ _ assms(4)] some(4) obtain ev' q' cl' where
      sv: "serve_queue E (Inr fd) T d rds (put_conn i c cl1) = Ret (ev', q', cl')" "completed ev' = []"
      "conns_ok E {} (cl_conns cl')" "pool_ok cl'" "grows (put_conn i c cl1) cl'" "queue_ok E cl' (d, q')"
      "mset (map rd_id q') + loads cl' = mset (map rd_id rds) + loads (put_conn i c cl1)"
      by auto
    have "grows cl cl'" using grows_trans [OF some(5) grows_trans [OF 2(2) sv(5)]] .
    then show ?thesis
      using p pf sv 2(3) some(1,6) by (subst serve_queue.simps) simp
  qed
qed

lemma queued_Cons: "queued ((d, q) # qs) = mset (map rd_id q) + queued qs"
  by (simp add: queued_def)

lemma serve_queues_ok:
  assumes "conns_ok E {} (cl_conns cl)" "pool_ok cl" "\<forall>dq \<in> set qs. queue_ok E cl dq" "good_sends T"
  shows "\<exists>ev qs' cl'. serve_queues E (Inr fd) T qs cl = Ret (ev, qs', cl') \<and> completed ev = []
    \<and> conns_ok E {} (cl_conns cl') \<and> pool_ok cl' \<and> grows cl cl' \<and> (\<forall>dq \<in> set qs'. queue_ok E cl' dq)
    \<and> queued qs' + loads cl' = queued qs + loads cl"
  using assms
proof (induction qs arbitrary: cl)
  case (Cons dq qs)
  obtain d q where dq: "dq = (d, q)" by fastforce
  with serve_queue_ok [OF Cons.prems(1,2) _ assms(4), of d q fd] Cons.prems(3) obtain ev q' cl1 where
    1: "serve_queue E (Inr fd) T d q cl = Ret (ev, q', cl1)" "completed ev = []" "conns_ok E {} (cl_conns cl1)"
    "pool_ok cl1" "grows cl cl1" "queue_ok E cl1 (d, q')" "mset (map rd_id q') + loads cl1 = mset (map rd_id q) + loads cl"
    by auto
  have "\<forall>dq \<in> set qs. queue_ok E cl1 dq" using Cons.prems(3) queue_ok_grows [OF _ 1(5) Cons.prems(2)] by simp
  with Cons.IH [OF 1(3,4) _ assms(4)] obtain ev' qs' cl' where
    2: "serve_queues E (Inr fd) T qs cl1 = Ret (ev', qs', cl')" "completed ev' = []" "conns_ok E {} (cl_conns cl')"
    "pool_ok cl'" "grows cl1 cl'" "\<forall>dq \<in> set qs'. queue_ok E cl' dq" "queued qs' + loads cl' = queued qs + loads cl1"
    by auto
  have "queued ((d, q') # qs') + loads cl' = mset (map rd_id q') + (queued qs' + loads cl')" by (simp add: queued_Cons)
  also have "\<dots> = queued (dq # qs) + loads cl" unfolding 2(7) dq queued_Cons using 1(7) by (simp add: ac_simps)
  finally have "queued ((d, q') # qs') + loads cl' = queued (dq # qs) + loads cl" .
  moreover have "queue_ok E cl' (d, q')" by (rule queue_ok_grows [OF 1(6) 2(5) 1(4)])
  moreover have "grows cl cl'" by (rule grows_trans [OF 1(5) 2(5)])
  ultimately show ?case using 1(1,2) 2 dq by simp
qed (simp add: queued_def)

text \<open>The operations on the client: no exception, the invariant kept, no request lost or made.\<close>

definition step_ok :: "http_env \<Rightarrow> client \<Rightarrow> nat multiset \<Rightarrow> client_event list \<times> client \<Rightarrow> bool" where
  "step_ok E cl new r \<longleftrightarrow> client_ok E (snd r) \<and> mset (completed (fst r)) + placed (snd r) = placed cl + new
     \<and> length (cl_conns cl) \<le> length (cl_conns (snd r))"

lemma processRequestQueue_ok:
  assumes "client_ok E cl" "good_sends T"
  shows "\<exists>r. Client_processRequestQueue E (Inr fd) T cl = Ret r \<and> step_ok E cl {#} r"
proof (cases "cl_stop cl")
  case True
  then show ?thesis using assms(1) by (simp add: Client_processRequestQueue_def step_ok_def)
next
  case False
  from serve_queues_ok [of E cl "cl_queues cl" T fd] assms obtain ev qs cl' where
    1: "serve_queues E (Inr fd) T (cl_queues cl) cl = Ret (ev, qs, cl')" "completed ev = []" "conns_ok E {} (cl_conns cl')"
    "pool_ok cl'" "grows cl cl'" "\<forall>dq \<in> set qs. queue_ok E cl' dq" "queued qs + loads cl' = placed cl"
    by (auto simp: client_ok_def placed_def)
  have "length (cl_conns cl) \<le> length (cl_conns cl')" using 1(5) by (simp add: grows_def)
  then show ?thesis
    using False 1 by (simp add: Client_processRequestQueue_def step_ok_def client_ok_def placed_def)
qed

lemma client_ok_put_conn:
  assumes "client_ok E cl" "i < length (cl_conns cl)" "conn_ok c" "cn_transport c = cn_transport (cl_conns cl ! i)"
    "cn_state c = Conn_Used \<Longrightarrow> cn_transport c \<noteq> None" "\<forall>rd \<in> set (cn_queue c). writable E rd"
  shows "client_ok E (put_conn i c cl)" "placed (put_conn i c cl) + conn_load (cl_conns cl ! i) = placed cl + conn_load c"
proof -
  have "conns_ok E {} ((cl_conns cl)[i := c])"
    using assms by (intro conns_ok_update [of E "{}"]) (auto simp: client_ok_def)
  moreover have "grows cl (put_conn i c cl)" by (rule grows_put_conn) (simp add: assms(4))
  ultimately show "client_ok E (put_conn i c cl)"
    using assms(1) queue_ok_grows by (auto simp: client_ok_def)
  show "placed (put_conn i c cl) + conn_load (cl_conns cl ! i) = placed cl + conn_load c"
    using loads_put_conn [OF assms(2), of c] by (simp add: placed_def ac_simps)
qed

lemma client_okD:
  assumes "client_ok E cl" "i < length (cl_conns cl)"
  shows "conn_ok (cl_conns cl ! i)" "cn_state (cl_conns cl ! i) = Conn_Used \<Longrightarrow> cn_transport (cl_conns cl ! i) \<noteq> None"
    "\<forall>rd \<in> set (cn_queue (cl_conns cl ! i)). writable E rd"
  using assms by (auto simp: client_ok_def conns_ok_def)

lemma finish_ok:
  assumes "client_ok E cl" "i < length (cl_conns cl)" "handled_ok (cl_conns cl ! i) r" "good_sends T"
  shows "\<exists>h r'. r = Ret h \<and> finish E (Inr fd) T i cl h = Ret r' \<and> step_ok E cl {#} r'"
proof -
  obtain ev d c where r: "r = Ret (ev, d, c)" and c: "conn_ok c" "cn_state c = cn_state (cl_conns cl ! i)"
    "cn_queue c = cn_queue (cl_conns cl ! i)" "cn_transport c = cn_transport (cl_conns cl ! i)"
    "mset (completed ev) + conn_load c = conn_load (cl_conns cl ! i)" "d \<Longrightarrow> cn_entry c = None \<and> cn_queue c = []"
    using assms(3) unfolding handled_ok_def by blast
  define cl1 where "cl1 = put_conn i c cl"
  have 1: "client_ok E cl1" "placed cl1 + conn_load (cl_conns cl ! i) = placed cl + conn_load c"
    unfolding cl1_def using client_ok_put_conn [OF assms(1,2) c(1,4)] client_okD [OF assms(1,2)] c(2-4) by auto
  have "placed cl1 + (mset (completed ev) + conn_load c) = placed cl + conn_load c" using 1(2) c(5) by simp
  then have 2: "mset (completed ev) + placed cl1 = placed cl" by (simp add: ac_simps)
  show ?thesis
  proof (cases d)
    case False
    then have "finish E (Inr fd) T i cl (ev, d, c) = Ret (ev, cl1)" by (simp add: finish_def cl1_def)
    moreover have "step_ok E cl {#} (ev, cl1)" using 1(1) 2 by (simp add: step_ok_def cl1_def)
    ultimately show ?thesis using r by blast
  next
    case True
    have at: "cl_conns cl1 ! i = c" "i < length (cl_conns cl1)" using assms(2) by (simp_all add: cl1_def)
    have "conns_ok E {i} (cl_conns cl1)" using 1(1) by (auto simp: client_ok_def conns_ok_def)
    from release_conn_ok [OF this at(2)] c(6) True at(1) have rel: "conns_ok E {} (cl_conns (releaseConnection i cl1))"
      "grows cl1 (releaseConnection i cl1)" "loads (releaseConnection i cl1) = loads cl1"
      "pool_ok (releaseConnection i cl1) = pool_ok cl1" by auto
    have "client_ok E (releaseConnection i cl1)" "placed (releaseConnection i cl1) = placed cl1"
      using 1(1) rel queue_ok_grows by (auto simp: client_ok_def placed_def grows_def)
    with processRequestQueue_ok [OF _ assms(4), of E "releaseConnection i cl1" fd] obtain ev' cl2 where
      p: "Client_processRequestQueue E (Inr fd) T (releaseConnection i cl1) = Ret (ev', cl2)" "client_ok E cl2"
      "mset (completed ev') + placed cl2 = placed cl1" "length (cl_conns cl1) \<le> length (cl_conns cl2)"
      by (auto simp: step_ok_def releaseConnection_def)
    have "mset (completed (ev @ ev')) + placed cl2 = placed cl"
      by (simp only: completed_append mset_append add.assoc p(3) 2)
    then have "step_ok E cl {#} (ev @ ev', cl2)" using p(2,4) by (simp add: step_ok_def cl1_def)
    moreover have "finish E (Inr fd) T i cl (ev, d, c) = Ret (ev @ ev', cl2)"
      using True p(1) by (simp add: finish_def cl1_def)
    ultimately show ?thesis using r by blast
  qed
qed

text \<open>The mutex of the queues is locked again when a waiting request cannot be sent on the transport's own thread.\<close>

lemma queued_send_failure_relocks:
  assumes "conns_ok E {} (cl_conns cl)" "pool_ok cl" "pickConnection d cl = (Some i, cl1)" "cn_transport (cl_conns cl1 ! i) \<noteq> None"
    and "writeRequest E (rd_request rd) = Inr b" "T (rd\<lparr>rd_onDone := True\<rparr>) b = Send_Fails err"
  shows "serve_queue E (Inr fd) T d (rd # rds) cl = Crash"
proof -
  from assms(1-3) have i: "i < length (cl_conns cl1)" "conns_ok E {i} (cl_conns cl1)" "cn_state (cl_conns cl1 ! i) = Conn_Used"
    "cn_entry (cl_conns cl1 ! i) = None" "cn_queue (cl_conns cl1 ! i) = []" by (auto elim: pick_cases)
  then have "conn_ok (cl_conns cl1 ! i)" by (simp add: conns_ok_def)
  from performImpl_send_fails [of _ E "rd\<lparr>rd_onDone := True\<rparr>" b T err fd, OF this i(4,5,3) assms(4) _ assms(6)] assms(5) obtain c' where
    "performImpl E (Inr fd) T (rd\<lparr>rd_onDone := True\<rparr>) (cl_conns cl1 ! i) = Ret ([Rejected (rd_id rd) err], True, c')" by auto
  then show ?thesis by (subst serve_queue.simps) (simp add: assms(3))
qed

end
