(* ===== verification/Client_Run.thy ===== *)
theory Client_Run
  imports Client_Pool
begin

text \<open>
  The client as a state machine: the requests of its user and what the transports report, in any
  order.  Every request is completed at most once, none is lost by the client's own steps, and no
  step throws or uses a null pointer.
\<close>

section \<open>Steps\<close>

datatype client_action =
    Do_Request request_data "nat option list result"
  | On_Connected nat
  | On_Packet nat string
  | On_Error nat string
  | On_Timeout nat
  | On_Remote_Close nat string
  | Do_Shutdown

text \<open>
  The remote end closes: what was read before is handled first, and only after the handler and its
  callbacks the connection is marked as not connected.
\<close>

definition remote_close :: "http_env \<Rightarrow> string + nat \<Rightarrow> sender \<Rightarrow> nat \<Rightarrow> string \<Rightarrow> client \<Rightarrow> (client_event list \<times> client) run" where
  "remote_close E created T i bytes cl =
     run_bind (if bytes = [] then handleError ''Remote closed connection'' (cl_conns cl ! i)
               else handleResponsePacket E bytes (cl_conns cl ! i)) (\<lambda>h.
     run_bind (finish E created T i cl h) (\<lambda>(ev, cl').
       Ret (ev, put_conn i (closeFromRemoteClosedConnection (cl_conns cl' ! i)) cl')))"

text \<open>
  When an action can happen, and its outcome: a socket is reported as connected once, a timer fires
  while its request is in progress.
\<close>

fun enabled :: "client_action \<Rightarrow> client \<Rightarrow> bool" where
  "enabled (Do_Request rd sockets) cl \<longleftrightarrow> True"
| "enabled (On_Connected i) cl \<longleftrightarrow> i < length (cl_conns cl) \<and> cn_connection (cl_conns cl ! i) = Connecting"
| "enabled (On_Packet i bytes) cl \<longleftrightarrow> i < length (cl_conns cl)"
| "enabled (On_Error i err) cl \<longleftrightarrow> i < length (cl_conns cl)"
| "enabled (On_Timeout i) cl \<longleftrightarrow> i < length (cl_conns cl)
     \<and> (\<exists>re. cn_entry (cl_conns cl ! i) = Some re \<and> re_timer re \<noteq> None)"
| "enabled (On_Remote_Close i bytes) cl \<longleftrightarrow> i < length (cl_conns cl)"
| "enabled Do_Shutdown cl \<longleftrightarrow> True"

text \<open>A timeout is handled with the lock of the transport's timeouts held.\<close>

definition timeouts_locked :: "sender \<Rightarrow> sender" where
  "timeouts_locked T rd b = (if T rd b = Send_Whole \<and> rd_timeout rd > 0 then Send_Relocks else T rd b)"

fun client_act :: "http_env \<Rightarrow> string + nat \<Rightarrow> sender \<Rightarrow> client_action \<Rightarrow> client \<Rightarrow> (exn option \<times> client_event list \<times> client) run" where
  "client_act E created T (Do_Request rd sockets) cl = doRequest E created T sockets rd cl"
| "client_act E created T (On_Connected i) cl =
     run_bind (onConnected E created T i cl) (\<lambda>r. Ret (None, r))"
| "client_act E created T (On_Packet i bytes) cl =
     run_bind (handleResponsePacket E bytes (cl_conns cl ! i)) (\<lambda>h. run_bind (finish E created T i cl h) (\<lambda>r. Ret (None, r)))"
| "client_act E created T (On_Error i err) cl =
     run_bind (handleError err (cl_conns cl ! i)) (\<lambda>h. run_bind (finish E created T i cl h) (\<lambda>r. Ret (None, r)))"
| "client_act E created T (On_Timeout i) cl =
     run_bind (handleTimeout (cl_conns cl ! i)) (\<lambda>h. run_bind (finish E created (timeouts_locked T) i cl h) (\<lambda>r. Ret (None, r)))"
| "client_act E created T (On_Remote_Close i bytes) cl = run_bind (remote_close E created T i bytes cl) (\<lambda>r. Ret (None, r))"
| "client_act E created T Do_Shutdown cl = Ret (None, [], Client_shutdown cl)"

text \<open>A submitted request can be written: without a host, or with a body that is too large, it cannot.\<close>

fun acceptable :: "http_env \<Rightarrow> client_action \<Rightarrow> bool" where
  "acceptable E (Do_Request rd sockets) \<longleftrightarrow> writable E (without_agent rd)"
| "acceptable E _ \<longleftrightarrow> True"

text \<open>
  The sends that the runs below have: each is queued for the transport's thread, or goes out whole at
  once; and none at once for a request with a timer while a timeout is handled.
\<close>

fun sends_ok :: "sender \<Rightarrow> client_action \<Rightarrow> bool" where
  "sends_ok T (On_Timeout i) \<longleftrightarrow> good_sends (timeouts_locked T)"
| "sends_ok T _ \<longleftrightarrow> good_sends T"

text \<open>Runs, with the requests submitted and the events, the latest first.\<close>

fun submitted :: "client_action \<Rightarrow> nat list" where
  "submitted (Do_Request rd sockets) = [rd_id rd]"
| "submitted _ = []"

inductive client_run :: "http_env \<Rightarrow> nat \<Rightarrow> client \<Rightarrow> nat list \<Rightarrow> client_event list \<Rightarrow> client \<Rightarrow> bool"
  for E fd cl0
  where
    client_start: "client_run E fd cl0 [] [] cl0"
  | client_step: "client_run E fd cl0 ids ev cl \<Longrightarrow> enabled a cl \<Longrightarrow> acceptable E a \<Longrightarrow> sends_ok T a
      \<Longrightarrow> client_act E (Inr fd) T a cl = Ret (e, ev', cl')
      \<Longrightarrow> client_run E fd cl0 (submitted a @ ids) (ev @ ev') cl'"

section \<open>Every step keeps the invariant\<close>

lemma grows_ioIndex [simp]: "grows cl (cl\<lparr>cl_ioIndex := n\<rparr>)"
  by (simp add: grows_def)

lemma with_transport_ok:
  assumes "conns_ok E {i} (cl_conns cl)" "pool_ok cl" "i < length (cl_conns cl)"
  shows "\<exists>cl' t. with_transport i cl = Ret cl' \<and> conns_ok E {} (cl_conns cl') \<and> pool_ok cl' \<and> grows cl cl'
    \<and> loads cl' = loads cl \<and> length (cl_conns cl') = length (cl_conns cl)
    \<and> cl_conns cl' ! i = (cl_conns cl ! i)\<lparr>cn_transport := Some t\<rparr>"
proof (cases "cn_transport (cl_conns cl ! i)")
  case (Some t)
  have "conns_ok E {} (cl_conns cl)" using assms(1) Some by (auto simp: conns_ok_def)
  moreover have "(cl_conns cl ! i)\<lparr>cn_transport := Some t\<rparr> = cl_conns cl ! i" using Some by simp
  ultimately show ?thesis using assms Some by (auto simp: with_transport_def hasTransport_def intro!: exI [of _ t])
next
  case None
  let ?t = "cl_ioIndex cl mod cl_transports cl" and ?cl = "cl\<lparr>cl_ioIndex := cl_ioIndex cl + 1\<rparr>"
  let ?c = "(cl_conns cl ! i)\<lparr>cn_transport := Some ?t\<rparr>"
  have "conn_ok (cl_conns cl ! i)" "\<forall>rd \<in> set (cn_queue (cl_conns cl ! i)). writable E rd"
    using assms(1,3) by (simp_all add: conns_ok_def)
  then have "conns_ok E {} ((cl_conns cl)[i := ?c])"
    by (intro conns_ok_update [OF assms(1)]) (simp_all add: conn_ok_def)
  moreover have "grows cl (put_conn i ?c ?cl)"
    by (rule grows_trans [of _ ?cl]) (simp_all add: grows_put_conn)
  moreover have "loads (put_conn i ?c ?cl) = loads ?cl"
    using assms(3) by (intro loads_put_same) (simp_all add: conn_load_def)
  then have "loads (put_conn i ?c ?cl) = loads cl" by (simp add: loads_def)
  moreover have "pool_ok (put_conn i ?c ?cl)" using assms(2) by (simp add: pool_ok_def)
  moreover have "with_transport i cl = Ret (put_conn i ?c ?cl)"
    using None assms(2) by (simp add: with_transport_def hasTransport_def associateTransport_def of_result_def pool_ok_def)
  ultimately show ?thesis using assms(3) by auto
qed

lemma connectSocket_conn:
  obtains e s fd where "connectSocket sockets c = (e, c\<lparr>cn_fd := fd, cn_connection := s\<rparr>)"
proof -
  have same: "c = c\<lparr>cn_fd := cn_fd c, cn_connection := cn_connection c\<rparr>" by simp
  show thesis
  proof (cases sockets)
    case (Inl e)
    have "connectSocket sockets c = (Some e, c)" using Inl by (simp add: connectSocket_def)
    with same show ?thesis by (metis that)
  next
    case (Inr rs)
    show ?thesis
    proof (cases "first_socket rs")
      case None
      have "connectSocket sockets c = (Some (Runtime_Error ''Failed to connect''), c)"
        using Inr None by (simp add: connectSocket_def)
      with same show ?thesis by (metis that)
    next
      case (Some fd)
      then show ?thesis using Inr that [of None Connecting "Some fd"] by (simp add: connectSocket_def)
    qed
  qed
qed

text \<open>A request for which no connection is free.\<close>

lemma queued_insert [simp]: "queued (um_insert (=) d [] qs) = queued qs"
  by (simp add: um_insert_def queued_def split: option.split)

lemma um_insert_set: "set (um_insert (=) d [] qs) \<subseteq> insert (d, []) (set qs)"
  by (auto simp: um_insert_def split: option.splits)

lemma queued_assign:
  "um_find (=) qs d = Some q \<Longrightarrow> queued (um_assign (=) d (q @ [rd]) qs) = queued qs + {#rd_id rd#}"
proof (induction qs)
  case (Cons dq qs)
  then show ?case by (cases dq) (auto simp: queued_def split: if_splits)
qed simp

lemma um_assign_set: "set (um_assign (=) d v qs) \<subseteq> insert (d, v) (set qs)"
proof (induction qs)
  case (Cons dq qs)
  then show ?case by (cases dq) auto
qed simp

lemma um_find_in: "um_find (=) qs d = Some q \<Longrightarrow> (d, q) \<in> set qs"
  by (induction qs) (auto split: if_splits)

lemma enqueue_ok:
  assumes "client_ok E cl" "um_find (=) (cl_pool cl) d = Some js" "\<forall>i \<in> set js. cn_transport (cl_conns cl ! i) \<noteq> None"
    "writable E rd"
  shows "step_ok E cl {#rd_id rd#} (enqueue_request d rd cl)"
proof -
  let ?cl = "cl\<lparr>cl_queues := um_insert (=) d [] (cl_queues cl)\<rparr>"
  have q0: "queue_ok E cl dq" if "dq \<in> set (um_insert (=) d [] (cl_queues cl))" for dq
    using that assms(1) um_insert_set [of d "cl_queues cl"] by (auto simp: client_ok_def queue_ok_def)
  have c: "client_ok E ?cl" "placed ?cl = placed cl"
    using assms(1) q0 by (simp_all add: client_ok_def placed_def)
  obtain q where q: "um_find (=) (cl_queues ?cl) d = Some q"
    using str_map.look_ins_same [of d "[]" "cl_queues cl"] by auto
  show ?thesis
  proof (cases "length q < queue_capacity")
    case False
    then show ?thesis using c q by (simp add: enqueue_request_def queue_of_def step_ok_def)
  next
    case True
    let ?q = "q @ [rd\<lparr>rd_onDone := False\<rparr>]"
    let ?cl' = "?cl\<lparr>cl_queues := um_assign (=) d ?q (cl_queues ?cl)\<rparr>"
    have "queue_ok E ?cl (d, q)" using c(1) um_find_in [OF q] by (auto simp: client_ok_def)
    then have "queue_ok E ?cl (d, ?q)" using assms(2-4) by (auto simp: queue_ok_def)
    then have "client_ok E ?cl'" using c(1) um_assign_set [of d ?q "cl_queues ?cl"] by (auto simp: client_ok_def)
    moreover have "placed ?cl' = placed cl + {#rd_id rd#}"
      using queued_assign [OF q, of "rd\<lparr>rd_onDone := False\<rparr>"] c(2) by (simp add: placed_def ac_simps)
    ultimately show ?thesis using True q by (simp add: enqueue_request_def queue_of_def step_ok_def)
  qed
qed

text \<open>A request for which a connection is free: it is sent, or waits for the socket.\<close>

lemma client_ok_grows:
  assumes "client_ok E cl" "conns_ok E {} (cl_conns cl')" "pool_ok cl'" "grows cl cl'" "loads cl' = loads cl + new"
  shows "client_ok E cl'" "placed cl' = placed cl + new" "length (cl_conns cl) \<le> length (cl_conns cl')"
proof -
  have "cl_queues cl' = cl_queues cl" using assms(4) by (simp add: grows_def)
  then show "client_ok E cl'" "placed cl' = placed cl + new"
    using assms(1-3,5) queue_ok_grows [OF _ assms(4)] by (auto simp: client_ok_def placed_def ac_simps)
  show "length (cl_conns cl) \<le> length (cl_conns cl')" using assms(4) by (simp add: grows_def)
qed

lemma asyncPerform_on:
  assumes "conns_ok E {} (cl_conns cl)" "i < length (cl_conns cl)" "cn_state (cl_conns cl ! i) = Conn_Used"
    "cn_entry (cl_conns cl ! i) = None" "cn_queue (cl_conns cl ! i) = []" "writable E rd"
  shows "conns_ok E {} (cl_conns (put_conn i ((asyncPerform rd (cl_conns cl ! i))\<lparr>cn_fd := fd, cn_connection := s\<rparr>) cl))
    \<and> grows cl (put_conn i ((asyncPerform rd (cl_conns cl ! i))\<lparr>cn_fd := fd, cn_connection := s\<rparr>) cl)
    \<and> loads (put_conn i ((asyncPerform rd (cl_conns cl ! i))\<lparr>cn_fd := fd, cn_connection := s\<rparr>) cl) = loads cl + {#rd_id rd#}"
proof -
  let ?c = "(asyncPerform rd (cl_conns cl ! i))\<lparr>cn_fd := fd, cn_connection := s\<rparr>"
  have c: "conn_ok (cl_conns cl ! i)" "cn_transport (cl_conns cl ! i) \<noteq> None"
    using assms(1-3) by (auto simp: conns_ok_def)
  have "conns_ok E {} ((cl_conns cl)[i := ?c])"
    using c assms(3-6) by (intro conns_ok_update [OF assms(1)]) (auto simp: asyncPerform_def conn_ok_def)
  moreover have "grows cl (put_conn i ?c cl)" using c(2) by (intro grows_put_conn) (simp add: asyncPerform_def)
  moreover have "loads (put_conn i ?c cl) = loads cl + {#rd_id rd#}"
    using loads_put_conn [OF assms(2), of ?c] assms(4,5) by (simp add: conn_load_def asyncPerform_def)
  ultimately show ?thesis by simp
qed

lemma rd_id_onDone [simp]: "rd_id (rd\<lparr>rd_onDone := b\<rparr>) = rd_id rd" "rd_id (without_agent rd) = rd_id rd"
  by (simp_all add: without_agent_def)

lemma doRequest_ok:
  assumes "client_ok E cl" "writable E (without_agent rd)" "good_sends T"
  shows "\<exists>e r. doRequest E (Inr fd) T sockets rd cl = Ret (e, r) \<and> step_ok E cl {#rd_id rd#} r"
proof -
  let ?rd = "without_agent rd" and ?d = "request_domain (without_agent rd)"
  obtain p cl1 where pick: "pickConnection ?d cl = (p, cl1)" by fastforce
  have 0: "conns_ok E {} (cl_conns cl)" "pool_ok cl" using assms(1) by (simp_all add: client_ok_def)
  from 0 pick show ?thesis
  proof (cases rule: pick_cases)
    case (none js)
    have 1: "client_ok E cl1" "placed cl1 = placed cl" "length (cl_conns cl) \<le> length (cl_conns cl1)"
      using client_ok_grows [OF assms(1) none(2-4), of "{#}"] none(5) by simp_all
    obtain ev cl2 where e: "enqueue_request ?d ?rd cl1 = (ev, cl2)" by fastforce
    with enqueue_ok [OF 1(1) none(6,7) assms(2)] 1 have "step_ok E cl {#rd_id rd#} (ev, cl2)" by (simp add: step_ok_def)
    then show ?thesis using pick none(1) e by (simp add: doRequest_def Let_def)
  next
    case (some i js)
    from with_transport_ok [OF some(3,4,2)] obtain cl2 t where w: "with_transport i cl1 = Ret cl2"
      "conns_ok E {} (cl_conns cl2)" "pool_ok cl2" "grows cl1 cl2" "loads cl2 = loads cl1"
      "length (cl_conns cl2) = length (cl_conns cl1)" "cl_conns cl2 ! i = (cl_conns cl1 ! i)\<lparr>cn_transport := Some t\<rparr>"
      by blast
    have c: "i < length (cl_conns cl2)" "cn_state (cl_conns cl2 ! i) = Conn_Used" "cn_entry (cl_conns cl2 ! i) = None"
      "cn_queue (cl_conns cl2 ! i) = []" "cn_transport (cl_conns cl2 ! i) \<noteq> None"
      using w(6,7) some(2,9-11) by simp_all
    have wr: "writable E (?rd\<lparr>rd_onDone := True\<rparr>)" using assms(2) by simp
    have fin: "step_ok E cl {#rd_id rd#} (ev, put_conn i c' cl2)"
      if "completed ev = []" "conns_ok E {} (cl_conns (put_conn i c' cl2))" "grows cl2 (put_conn i c' cl2)"
        "loads (put_conn i c' cl2) = loads cl2 + {#rd_id rd#}" for ev c'
    proof -
      have "grows cl (put_conn i c' cl2)" using grows_trans [OF some(5) grows_trans [OF w(4) that(3)]] .
      from client_ok_grows [OF assms(1) that(2) _ this] w(3,5) some(6) that(1,4) show ?thesis
        by (simp add: step_ok_def)
    qed
    show ?thesis
    proof (cases "isConnected (cl_conns cl2 ! i)")
      case True
      from perform_on [OF w(2) c(1) _ c(2-5) wr assms(3), of fd] obtain ev c' where
        p: "performImpl E (Inr fd) T (?rd\<lparr>rd_onDone := True\<rparr>) (cl_conns cl2 ! i) = Ret (ev, False, c')" "completed ev = []"
        "conns_ok E {} (cl_conns (put_conn i c' cl2))" "grows cl2 (put_conn i c' cl2)"
        "loads (put_conn i c' cl2) = loads cl2 + {#rd_id rd#}" by auto
      then show ?thesis
        using pick some(1) w(1) True fin [OF p(2-5)] by (simp add: doRequest_def Let_def perform_def finish_def)
    next
      case False
      let ?a = "asyncPerform (?rd\<lparr>rd_onDone := True\<rparr>) (cl_conns cl2 ! i)"
      obtain e s f where s: "connectSocket sockets ?a = (e, ?a\<lparr>cn_fd := f, cn_connection := s\<rparr>)"
        by (rule connectSocket_conn)
      from asyncPerform_on [OF w(2) c(1-4) wr, where fd = f and s = s] have "step_ok E cl {#rd_id rd#} ([], put_conn i (?a\<lparr>cn_fd := f, cn_connection := s\<rparr>) cl2)"
        by (intro fin) simp_all
      then show ?thesis using pick some(1) w(1) False s by (simp add: doRequest_def Let_def)
    qed
  qed
qed

lemma onConnected_ok:
  assumes "client_ok E cl" "i < length (cl_conns cl)" "cn_connection (cl_conns cl ! i) = Connecting" "good_sends T"
  shows "\<exists>r. onConnected E (Inr fd) T i cl = Ret r \<and> step_ok E cl {#} r"
proof -
  let ?c = "cl_conns cl ! i"
  note c = client_okD [OF assms(1,2)]
  let ?cl = "put_conn i (?c\<lparr>cn_connection := Connected\<rparr>) cl"
  have at: "cl_conns ?cl ! i = ?c\<lparr>cn_connection := Connected\<rparr>" using assms(2) by simp
  show ?thesis
  proof (cases "cn_queue ?c")
    case Nil
    let ?c' = "?c\<lparr>cn_connection := Connected, cn_queue := []\<rparr>"
    have "conn_ok ?c'" "conn_load ?c' = conn_load ?c" using c(1) Nil by (simp_all add: conn_ok_def conn_load_def)
    with client_ok_put_conn [OF assms(1,2), of ?c'] c(2) Nil have "step_ok E cl {#} ([], put_conn i ?c' cl)"
      by (simp add: step_ok_def)
    then show ?thesis using Nil assms(2) by (simp add: onConnected_def Connection_processRequestQueue_def put_conn_def)
  next
    case (Cons rd rds)
    then have q: "rds = []" "cn_entry ?c = None" "cn_state ?c = Conn_Used"
      using c(1) by (cases "cn_state ?c"; cases "cn_entry ?c"; simp add: conn_ok_def)+
    let ?u = "?c\<lparr>cn_connection := Connected, cn_queue := []\<rparr>"
    obtain b where b: "writeRequest E (rd_request rd) = Inr b" using c(3) Cons by (auto simp: writable_def)
    have "conn_ok ?u" using c(1) Cons by (simp add: conn_ok_def)
    from performImpl_ok [OF this _ _ _ _ b assms(4), of fd] q c(2) obtain c' re where
      p: "performImpl E (Inr fd) T rd ?u = Ret ([To_Transport (cn_id ?c) b], False, c')" "conn_ok c'" "cn_state c' = Conn_Used"
      "cn_transport c' = cn_transport ?c" "cn_queue c' = []" "cn_entry c' = Some re" "re_id re = rd_id rd" by auto
    have "conn_load c' = conn_load ?c" by (simp add: conn_load_def p(5-7) q(1,2) Cons)
    moreover have "cn_transport c' \<noteq> None" using p(4) c(2) [OF q(3)] by auto
    ultimately have l: "conn_load c' = conn_load ?c" "cn_transport c' \<noteq> None" .
    with client_ok_put_conn [OF assms(1,2) p(2,4) l(2)] p(5) have "step_ok E cl {#} ([To_Transport (cn_id ?c) b], put_conn i c' cl)"
      by (simp add: step_ok_def)
    moreover have "c'\<lparr>cn_queue := []\<rparr> = c'" using p(5) by simp
    ultimately show ?thesis using Cons q(1) p(1) assms(2)
      by (simp add: onConnected_def Connection_processRequestQueue_def finish_def put_conn_def)
  qed
qed

lemma close_connected_sel [simp]:
  "conn_ok (close_connected c) = conn_ok c" "cn_state (close_connected c) = cn_state c"
  "cn_queue (close_connected c) = cn_queue c" "cn_transport (close_connected c) = cn_transport c"
  "conn_load (close_connected c) = conn_load c"
  by (simp_all add: close_connected_def Connection_close_def conn_ok_def conn_load_def)

lemma Client_shutdown_ok:
  assumes "client_ok E cl"
  shows "step_ok E cl {#} ([], Client_shutdown cl)"
proof -
  have e: "cl_conns (Client_shutdown cl) = map close_connected (cl_conns cl)" "cl_pool (Client_shutdown cl) = cl_pool cl"
    "cl_transports (Client_shutdown cl) = cl_transports cl" "cl_queues (Client_shutdown cl) = cl_queues cl"
    by (simp_all add: Client_shutdown_def pool_shutdown_def)
  have 1: "conns_ok E {} (cl_conns (Client_shutdown cl))" "pool_ok (Client_shutdown cl)"
    using assms by (auto simp: client_ok_def conns_ok_def pool_ok_def e)
  have "queue_ok E (Client_shutdown cl) dq" if "queue_ok E cl dq" for dq
  proof -
    have "cn_transport (cl_conns (Client_shutdown cl) ! j) = cn_transport (cl_conns cl ! j)" if "j < length (cl_conns cl)" for j
      using that by (simp add: e(1))
    then show ?thesis using that assms unfolding queue_ok_def e(2) client_ok_def pool_ok_def by metis
  qed
  with 1 assms show ?thesis
    by (simp add: step_ok_def client_ok_def placed_def loads_def e comp_def)
qed

lemma remote_close_ok:
  assumes "client_ok E cl" "i < length (cl_conns cl)" "good_sends T"
  shows "\<exists>r. remote_close E (Inr fd) T i bytes cl = Ret r \<and> step_ok E cl {#} r"
proof -
  let ?c = "cl_conns cl ! i"
  let ?h = "if bytes = [] then handleError ''Remote closed connection'' ?c else handleResponsePacket E bytes ?c"
  have "handled_ok ?c ?h" using client_okD(1) [OF assms(1,2)] handleError_ok handleResponsePacket_ok by simp
  from finish_ok [OF assms(1,2) this assms(3), of fd] obtain h ev cl1 where
    h: "?h = Ret h" "finish E (Inr fd) T i cl h = Ret (ev, cl1)" "step_ok E cl {#} (ev, cl1)" by auto
  let ?c1 = "closeFromRemoteClosedConnection (cl_conns cl1 ! i)"
  have 1: "client_ok E cl1" "i < length (cl_conns cl1)" using h(3) assms(2) by (simp_all add: step_ok_def)
  note c1 = client_okD [OF 1]
  have "conn_ok ?c1" "conn_load ?c1 = conn_load (cl_conns cl1 ! i)" "cn_transport ?c1 = cn_transport (cl_conns cl1 ! i)"
    using c1(1) by (simp_all add: closeFromRemoteClosedConnection_def conn_ok_def conn_load_def)
  with client_ok_put_conn [OF 1, of ?c1] c1(2,3) h(3) have "step_ok E cl {#} (ev, put_conn i ?c1 cl1)"
    by (simp add: step_ok_def closeFromRemoteClosedConnection_def)
  then show ?thesis using h(1,2) by (simp add: remote_close_def)
qed

lemma client_act_ok:
  assumes "client_ok E cl" "enabled a cl" "acceptable E a" "sends_ok T a"
  shows "\<exists>e r. client_act E (Inr fd) T a cl = Ret (e, r) \<and> step_ok E cl (mset (submitted a)) r"
proof (cases a)
  case (Do_Request rd sockets)
  then show ?thesis using doRequest_ok [OF assms(1)] assms(3,4) by simp
next
  case (On_Connected i)
  then have i: "i < length (cl_conns cl)" "cn_connection (cl_conns cl ! i) = Connecting" using assms(2) by simp_all
  from onConnected_ok [OF assms(1) i, of T fd] On_Connected assms(4) show ?thesis by auto
next
  case (On_Packet i bytes)
  then have i: "i < length (cl_conns cl)" using assms(2) by simp
  from finish_ok [OF assms(1) i handleResponsePacket_ok [OF client_okD(1) [OF assms(1) i], where E = E and buffer = bytes], of T fd] On_Packet assms(4)
  show ?thesis by auto
next
  case (On_Error i err)
  then have i: "i < length (cl_conns cl)" using assms(2) by simp
  from finish_ok [OF assms(1) i handleError_ok [OF client_okD(1) [OF assms(1) i], where err = err], of T fd] On_Error assms(4)
  show ?thesis by auto
next
  case (On_Timeout i)
  then obtain re where i: "i < length (cl_conns cl)" "cn_entry (cl_conns cl ! i) = Some re" "re_timer re \<noteq> None"
    using assms(2) by auto
  from finish_ok [OF assms(1) i(1) handleTimeout_ok [OF client_okD(1) [OF assms(1) i(1)] i(2,3)], of "timeouts_locked T" fd] On_Timeout assms(4)
  show ?thesis by auto
next
  case (On_Remote_Close i bytes)
  then have "i < length (cl_conns cl)" using assms(2) by simp
  from remote_close_ok [OF assms(1) this, of T fd bytes] On_Remote_Close assms(4) show ?thesis by auto
next
  case Do_Shutdown
  then show ?thesis using Client_shutdown_ok [OF assms(1)] by simp
qed

section \<open>No request is lost or completed twice\<close>

lemma Client_init_ok: "0 < op_threads op \<Longrightarrow> client_ok E (Client_init op) \<and> placed (Client_init op) = {#}"
  by (simp add: client_ok_def conns_ok_def pool_ok_def placed_def queued_def loads_def Client_init_def)

lemma client_run_ok:
  assumes "client_run E fd cl0 ids ev cl" "client_ok E cl0" "placed cl0 = {#}"
  shows "client_ok E cl \<and> mset ids = mset (completed ev) + placed cl"
  using assms(1)
proof induction
  case client_start
  then show ?case using assms(2,3) by simp
next
  case (client_step ids ev cl a T e ev' cl')
  from client_act_ok [OF _ client_step.hyps(2-4), of fd] client_step.IH client_step.hyps(5)
  have s: "client_ok E cl'" "mset (completed ev') + placed cl' = placed cl + mset (submitted a)"
    by (auto simp: step_ok_def)
  have "mset (submitted a @ ids) = mset (completed ev) + (placed cl + mset (submitted a))"
    using client_step.IH by (simp add: ac_simps)
  also have "\<dots> = mset (completed (ev @ ev')) + placed cl'" unfolding s(2) [symmetric] by (simp add: ac_simps)
  finally show ?case using s(1) by blast
qed

text \<open>
  C15: whatever the client's user asks and whatever its transports report, in any order, every
  request submitted is completed, on a connection, or waiting in a queue, and exactly one of them:
  none is lost or completed twice.  And no such step throws (a failed \<open>connect\<close> apart, whose
  exception is returned) or uses a null pointer.  This is for requests that can be written, timers
  the system always gives and that fire only for the request they were armed for, and sends that
  are queued for the transport's thread or go out whole at once: a send that fails or would
  block on the transport's own thread is not covered (\<open>performImpl_would_block\<close> and
  \<open>queued_send_failure_relocks\<close> show what it does).
\<close>

theorem client_conserves_requests:
  assumes "client_run E fd (Client_init op) ids ev cl" "0 < op_threads op"
  shows "mset ids = mset (completed ev) + placed cl \<and> (distinct ids \<longrightarrow> distinct (completed ev))
    \<and> (\<forall>a T. enabled a cl \<and> acceptable E a \<and> sends_ok T a \<longrightarrow> (\<exists>e ev' cl'. client_act E (Inr fd) T a cl = Ret (e, ev', cl')))"
proof -
  have 1: "client_ok E cl" "mset ids = mset (completed ev) + placed cl"
    using client_run_ok [OF assms(1)] Client_init_ok [OF assms(2)] by auto
  have "distinct (completed ev)" if d: "distinct ids"
  proof -
    have "count (mset (completed ev)) x \<le> 1" for x
      using d count_mset_set 1(2) by (metis count_union distinct_count_atmost_1 le_add1 le_trans nle_le not_one_le_zero)
    then show ?thesis by (metis distinct_count_atmost_1 le_Suc_eq One_nat_def le_zero_eq count_mset_0_iff)
  qed
  moreover have "\<exists>e ev' cl'. client_act E (Inr fd) T a cl = Ret (e, ev', cl')" if "enabled a cl" "acceptable E a" "sends_ok T a" for a T
    using client_act_ok [OF 1(1) that, of fd] by auto
  ultimately show ?thesis using 1(2) by blast
qed

text \<open>A client that submits a request.\<close>

theorem client_conserves_requests_witness:
  "\<exists>ev cl. client_run sample_env 3 (Client_init Options0) [7] ev cl \<and> {#7#} = mset (completed ev) + placed cl"
proof -
  let ?rd = "\<lparr>rd_id = 7, rd_request = sample_request, rd_timeout = 100, rd_onDone = False\<rparr>"
  let ?a = "Do_Request ?rd (Inr [None, Some 5])"
  have "without_agent ?rd = ?rd" by (simp add: without_agent_def) code_simp
  then have a: "acceptable sample_env ?a" by (simp add: writable_def sample_request_written)
  have 0: "0 < op_threads Options0" by (simp add: Options0_def)
  let ?T = "\<lambda>_ _. Send_Queued"
  have g: "sends_ok ?T ?a" by (simp add: good_sends_def)
  from client_act_ok [OF _ _ a g, of "Client_init Options0" 3] Client_init_ok [OF 0] obtain e ev cl where
    "client_act sample_env (Inr 3) ?T ?a (Client_init Options0) = Ret (e, ev, cl)" by auto
  from client_step [OF client_start _ a g this] have r: "client_run sample_env 3 (Client_init Options0) [7] ev cl" by simp
  from client_conserves_requests [OF r 0] show ?thesis using r by auto
qed

text \<open>
  When \<open>connect\<close> throws, the request waits on a connection that is not connecting and on which no
  error or packet completes it.
\<close>

lemma failed_connect_keeps_request:
  assumes "connectSocket sockets (asyncPerform rd c) = (Some e, c')" "cn_entry c = None"
  shows "c' = asyncPerform rd c \<and> handleError err c' = Ret ([], False, c')
    \<and> (\<forall>r. handleResponsePacket E buffer c' = Ret r \<longrightarrow> fst r = [] \<and> rd \<in> set (cn_queue (snd (snd r))))"
proof -
  have c: "c' = asyncPerform rd c" using assms(1) by (auto simp: connectSocket_def split: sum.splits option.splits)
  have n: "cn_entry c' = None" "rd \<in> set (cn_queue c')" using assms(2) by (simp_all add: c asyncPerform_def)
  have "handleError err c' = Ret ([], False, c')" using n(1) by (simp add: handleError_def)
  moreover have "fst r = [] \<and> rd \<in> set (cn_queue (snd (snd r)))" if "handleResponsePacket E buffer c' = Ret r" for r
    using that n by (auto simp: handleResponsePacket_def response_packet_def handleError_def Let_def
        split: prod.splits bool.splits sum.splits)
  ultimately show ?thesis using c by blast
qed

end
