(* ===== verification/Client_Transport.thy ===== *)
theory Client_Transport
  imports Client_Run "HOL-Library.While_Combinator"
begin

text \<open>
  The transport of the client (\<open>Transport\<close> in client.cc): its two queues, the sockets and timers it
  knows, the loops that receive and send, and the handlers of the events of the reactor.  What a
  system call returns is an argument.  A handler says which step of the client it makes; that step
  is in Client_Run.  Connections outlive the transport's weak pointers to them, because the pool
  keeps them.
\<close>

section \<open>State\<close>

record connection_entry =
  ce_conn :: nat
  ce_settled :: bool

record send_entry =
  se_conn :: nat
  se_timer :: "nat option"
  se_buffer :: string

record transport =
  tr_requestsQueue :: "send_entry list"
  tr_connectionsQueue :: "connection_entry list"
  tr_connections :: "(nat \<times> connection_entry) list"
  tr_timeouts :: "(nat \<times> nat) list"
  tr_stopHandling :: bool

definition Transport_init :: transport where
  "Transport_init = \<lparr>tr_requestsQueue = [], tr_connectionsQueue = [], tr_connections = [], tr_timeouts = [],
     tr_stopHandling = False\<rparr>"

definition asyncConnect :: "nat \<Rightarrow> transport \<Rightarrow> transport" where
  "asyncConnect i t = t\<lparr>tr_connectionsQueue := tr_connectionsQueue t @ [\<lparr>ce_conn = i, ce_settled = False\<rparr>]\<rparr>"

section \<open>Receiving\<close>

datatype recv_result = Received string | Recv_Again | Recv_Failed string | Recv_Closed

text \<open>What the loop does at its end: which handler it calls, and if it closes the connection.\<close>

datatype incoming =
    Deliver string
  | Deliver_Close string
  | Fail string
  | Fail_Close
  | Nothing

definition MaxBuffer :: nat where "MaxBuffer = 4096"
definition max_max_buffer :: nat where "max_max_buffer = 8 * 1024 * 1024"

text \<open>
  The loop, with the answers of \<open>recv\<close>, the bytes so far and the size of the buffer; \<open>None\<close> when it
  asks for more answers than there are.
\<close>

fun incoming_loop :: "recv_result list \<Rightarrow> string \<Rightarrow> nat \<Rightarrow> incoming option" where
  "incoming_loop [] buffer max_buffer = None"
| "incoming_loop (Recv_Again # rs) buffer max_buffer = Some (if buffer \<noteq> [] then Deliver buffer else Nothing)"
| "incoming_loop (Recv_Failed err # rs) buffer max_buffer = Some (Fail err)"
| "incoming_loop (Recv_Closed # rs) buffer max_buffer = Some (if buffer = [] then Fail_Close else Deliver_Close buffer)"
| "incoming_loop (Received bytes # rs) buffer max_buffer =
     (let buffer' = buffer @ bytes
      in if length buffer' \<ge> max_buffer then
           if max_buffer * 2 > max_max_buffer then Some (Deliver buffer')
           else incoming_loop rs buffer' (max_buffer * 2)
         else incoming_loop rs buffer' max_buffer)"

definition handleIncoming :: "recv_result list \<Rightarrow> connection \<Rightarrow> incoming option" where
  "handleIncoming rs c = (if cn_fd c = None then Some Nothing else incoming_loop rs [] MaxBuffer)"

text \<open>The step of the client that the loop's end is.\<close>

fun incoming_action :: "nat \<Rightarrow> incoming \<Rightarrow> client_action option" where
  "incoming_action i (Deliver bytes) = Some (On_Packet i bytes)"
| "incoming_action i (Deliver_Close bytes) = Some (On_Remote_Close i bytes)"
| "incoming_action i (Fail err) = Some (On_Error i err)"
| "incoming_action i Fail_Close = Some (On_Remote_Close i [])"
| "incoming_action i Nothing = None"

fun closes :: "incoming \<Rightarrow> bool" where
  "closes (Deliver_Close bytes) = True"
| "closes Fail_Close = True"
| "closes _ = False"

section \<open>Sending\<close>

datatype send_result = Sent nat | Would_Block | Refused | Send_Failed

datatype send_outcome =
    Send_Resolved nat
  | Send_Error string
  | Send_Throws string

text \<open>
  One round of the loop: the number of the call, the bytes written and the outcome, if any.  The
  answer of \<open>send\<close> depends on the call and on the length it is asked to write.
\<close>

type_synonym send_state = "nat \<times> nat \<times> send_outcome option"

definition send_round :: "(nat \<Rightarrow> nat \<Rightarrow> send_result) \<Rightarrow> string \<Rightarrow> send_state \<Rightarrow> send_state" where
  "send_round answers buffer s =
     (case s of (k, totalWritten, r) \<Rightarrow>
        let len = length buffer - totalWritten
        in case answers k len of
             Would_Block \<Rightarrow> (k + 1, totalWritten, Some (Send_Throws ''Unimplemented, fix me!''))
           | Refused \<Rightarrow> (k + 1, totalWritten, Some (Send_Error ''Could not send, connection refused''))
           | Send_Failed \<Rightarrow> (k + 1, totalWritten, Some (Send_Error ''Could not send request''))
           | Sent w \<Rightarrow>
               let totalWritten' = totalWritten + w
               in (k + 1, totalWritten', if totalWritten' = len then Some (Send_Resolved totalWritten') else None))"

definition send_loop :: "(nat \<Rightarrow> nat \<Rightarrow> send_result) \<Rightarrow> string \<Rightarrow> send_state option" where
  "send_loop answers buffer = while_option (\<lambda>(k, t, r). r = None) (send_round answers buffer) (0, 0, None)"

text \<open>
  \<open>asyncSendRequestImpl\<close>: the outcome, and the timer that is registered when all has been written.
\<close>

definition asyncSendRequestImpl :: "(nat \<Rightarrow> nat \<Rightarrow> send_result) \<Rightarrow> send_entry \<Rightarrow> connection \<Rightarrow> transport
    \<Rightarrow> (send_outcome \<times> transport) option" where
  "asyncSendRequestImpl answers req c t =
     (if cn_fd c = None then Some (Send_Error ''Could not send request'', t)
      else case send_loop answers (se_buffer req) of
             Some (k, n, Some r) \<Rightarrow>
               Some (r, case (r, se_timer req) of
                          (Send_Resolved _, Some tfd) \<Rightarrow>
                            t\<lparr>tr_timeouts := um_insert (=) tfd (se_conn req) (tr_timeouts t)\<rparr>
                        | _ \<Rightarrow> t)
           | _ \<Rightarrow> None)"

text \<open>On the transport's own thread a request is sent at once, from any other it is queued.\<close>

definition asyncSendRequest :: "bool \<Rightarrow> (nat \<Rightarrow> nat \<Rightarrow> send_result) \<Rightarrow> send_entry \<Rightarrow> connection \<Rightarrow> transport
    \<Rightarrow> (send_outcome option \<times> transport) option" where
  "asyncSendRequest same_thread answers req c t =
     (if \<not> same_thread then Some (None, t\<lparr>tr_requestsQueue := tr_requestsQueue t @ [req]\<rparr>)
      else map_option (\<lambda>(r, t'). (Some r, t')) (asyncSendRequestImpl answers req c t))"

text \<open>What the call means for \<open>performImpl\<close>.\<close>

fun as_answer :: "send_outcome option \<Rightarrow> send_answer" where
  "as_answer None = Send_Queued"
| "as_answer (Some (Send_Resolved n)) = Send_Whole"
| "as_answer (Some (Send_Error err)) = Send_Fails err"
| "as_answer (Some (Send_Throws err)) = Send_Raises (Runtime_Error err)"

text \<open>The error that the client sees on the connection of a request.\<close>

fun send_action :: "nat \<Rightarrow> send_outcome \<Rightarrow> client_action option" where
  "send_action i (Send_Error err) = Some (On_Error i err)"
| "send_action i _ = None"

section \<open>The handlers of the events\<close>

text \<open>
  The requested connections, with what \<open>connect\<close> answers for each of them: true if it succeeds or is
  in progress.  The connection's descriptor is looked up; a descriptor that the map already has
  keeps its old entry.
\<close>

fun connect_all :: "(nat \<Rightarrow> bool) \<Rightarrow> (nat \<Rightarrow> connection) \<Rightarrow> connection_entry list \<Rightarrow> transport \<Rightarrow> transport" where
  "connect_all connects conns [] t = t\<lparr>tr_connectionsQueue := []\<rparr>"
| "connect_all connects conns (ce # ces) t =
     connect_all connects conns ces
       (case cn_fd (conns (ce_conn ce)) of
          None \<Rightarrow> t
        | Some fd \<Rightarrow> if connects (ce_conn ce) then t\<lparr>tr_connections := um_insert (=) fd ce (tr_connections t)\<rparr> else t)"

definition handleConnectionQueue :: "(nat \<Rightarrow> bool) \<Rightarrow> (nat \<Rightarrow> connection) \<Rightarrow> transport \<Rightarrow> transport" where
  "handleConnectionQueue connects conns t = connect_all connects conns (tr_connectionsQueue t) t"

text \<open>A readable descriptor: a socket, a timer, or neither.\<close>

definition handleReadableEntry :: "recv_result list \<Rightarrow> nat \<Rightarrow> (nat \<Rightarrow> connection) \<Rightarrow> transport
    \<Rightarrow> (client_action option \<times> transport) option" where
  "handleReadableEntry rs fd conns t =
     (case um_find (=) (tr_connections t) fd of
        Some ce \<Rightarrow>
          map_option (\<lambda>r. (incoming_action (ce_conn ce) r,
              if closes r then t\<lparr>tr_connections := um_erase (=) (the (cn_fd (conns (ce_conn ce)))) (tr_connections t)\<rparr> else t))
            (handleIncoming rs (conns (ce_conn ce)))
      | None \<Rightarrow>
          (case um_find (=) (tr_timeouts t) fd of
             Some i \<Rightarrow> Some (Some (On_Timeout i), t\<lparr>tr_timeouts := um_erase (=) fd (tr_timeouts t)\<rparr>)
           | None \<Rightarrow> Some (None, t)))"

text \<open>
  A writable descriptor resolves or rejects the promise of its connection, a hung up one rejects it;
  a promise that has been settled before throws.
\<close>

definition settle :: "string \<Rightarrow> nat \<Rightarrow> connection_entry \<Rightarrow> transport \<Rightarrow> transport result" where
  "settle verb fd ce t =
     (if ce_settled ce then Inl (Runtime_Error (''Attempt to '' @ verb @ '' a fulfilled promise''))
      else Inr (t\<lparr>tr_connections := um_assign (=) fd (ce\<lparr>ce_settled := True\<rparr>) (tr_connections t)\<rparr>))"

definition handleWritableEntry :: "nat \<Rightarrow> (nat \<Rightarrow> connection) \<Rightarrow> transport \<Rightarrow> (client_action option \<times> transport) result" where
  "handleWritableEntry fd conns t =
     (case um_find (=) (tr_connections t) fd of
        None \<Rightarrow> Inl (Runtime_Error ''Unknown fd'')
      | Some ce \<Rightarrow>
          if cn_fd (conns (ce_conn ce)) = None
          then map_sum id (\<lambda>t'. (None, t')) (settle ''reject'' fd ce t)
          else map_sum id (\<lambda>t'. (Some (On_Connected (ce_conn ce)), t')) (settle ''resolve'' fd ce t))"

definition handleHangupEntry :: "nat \<Rightarrow> transport \<Rightarrow> transport result" where
  "handleHangupEntry fd t =
     (case um_find (=) (tr_connections t) fd of
        None \<Rightarrow> Inl (Runtime_Error ''Unknown fd'')
      | Some ce \<Rightarrow> settle ''reject'' fd ce t)"

section \<open>What is received\<close>

text \<open>The sizes the buffer has: powers of two up to the largest one.\<close>

definition buffer_size :: "nat \<Rightarrow> bool" where
  "buffer_size n \<longleftrightarrow> (\<exists>k \<le> 11. n = MaxBuffer * 2 ^ k)"

lemma buffer_size_grows:
  assumes "buffer_size n" "n < max_max_buffer"
  shows "buffer_size (n * 2)" "n * 2 \<le> max_max_buffer"
proof -
  obtain k where k: "k \<le> 11" "n = MaxBuffer * 2 ^ k" using assms(1) by (auto simp: buffer_size_def)
  have "k \<noteq> 11" using assms(2) k(2) by (auto simp: MaxBuffer_def max_max_buffer_def)
  then have "Suc k \<le> 11" using k(1) by simp
  moreover have n: "n * 2 = MaxBuffer * 2 ^ Suc k" using k(2) by simp
  ultimately show "buffer_size (n * 2)" unfolding buffer_size_def by blast
  have "(2::nat) ^ Suc k \<le> 2 ^ 11" using \<open>Suc k \<le> 11\<close> by (rule power_increasing) simp
  then show "n * 2 \<le> max_max_buffer" unfolding n by (simp add: MaxBuffer_def max_max_buffer_def)
qed

lemma incoming_loop_chunks:
  assumes "buffer_size m" "length (buffer @ concat chunks) < max_max_buffer"
  shows "\<exists>m'. incoming_loop (map Received chunks @ rs) buffer m = incoming_loop rs (buffer @ concat chunks) m'
    \<and> buffer_size m'"
  using assms
proof (induction chunks arbitrary: buffer m)
  case (Cons c cs)
  let ?m = "if length (buffer @ c) \<ge> m then m * 2 else m"
  have "m < max_max_buffer" if "length (buffer @ c) \<ge> m" using that Cons.prems(2) by simp
  then have m: "buffer_size ?m" "\<not> (length (buffer @ c) \<ge> m \<and> m * 2 > max_max_buffer)"
    using Cons.prems(1) buffer_size_grows [OF Cons.prems(1)] by (auto simp: not_less)
  from Cons.IH [OF m(1), of "buffer @ c"] Cons.prems(2) m(2) show ?case by (auto simp: Let_def)
qed auto

lemma buffer_size_start: "buffer_size MaxBuffer"
  unfolding buffer_size_def by (rule exI [of _ 0]) simp

text \<open>
  C17: a readable socket of the client with fewer than 8 MiB of bytes to read: however they are cut
  into pieces, the connection that owns the socket gets all of them, in order and in one packet; if
  the remote end has closed, the same bytes are handled first and the transport forgets the
  socket.  (With more bytes the packet is delivered before all of them have been read.)
\<close>

theorem readable_delivers:
  assumes "um_find (=) (tr_connections t) fd = Some ce" "cn_fd (conns (ce_conn ce)) = Some fd'"
    and "concat chunks \<noteq> []" "length (concat chunks) < max_max_buffer"
  shows "handleReadableEntry (map Received chunks @ [Recv_Again]) fd conns t
      = Some (Some (On_Packet (ce_conn ce) (concat chunks)), t)
    \<and> (\<exists>t'. handleReadableEntry (map Received chunks @ [Recv_Closed]) fd conns t
          = Some (Some (On_Remote_Close (ce_conn ce) (concat chunks)), t')
        \<and> um_find (=) (tr_connections t') fd' = None)"
  using assms incoming_loop_chunks [OF buffer_size_start, of "[]" chunks "[Recv_Again]"]
    incoming_loop_chunks [OF buffer_size_start, of "[]" chunks "[Recv_Closed]"]
  by (auto simp: handleReadableEntry_def handleIncoming_def str_map.look_era simp del: concat_eq_Nil_conv)

theorem readable_delivers_witness:
  "handleReadableEntry (map Received [''HTTP/1.1'', '' 200''] @ [Recv_Again]) 5
      (\<lambda>i. (Connection_init i 4096)\<lparr>cn_fd := Some 5\<rparr>)
      (Transport_init\<lparr>tr_connections := [(5, \<lparr>ce_conn = 0, ce_settled = True\<rparr>)]\<rparr>)
    = Some (Some (On_Packet 0 ''HTTP/1.1 200''),
        Transport_init\<lparr>tr_connections := [(5, \<lparr>ce_conn = 0, ce_settled = True\<rparr>)]\<rparr>)"
  using readable_delivers [of "Transport_init\<lparr>tr_connections := [(5, \<lparr>ce_conn = 0, ce_settled = True\<rparr>)]\<rparr>" 5
      "\<lparr>ce_conn = 0, ce_settled = True\<rparr>" "\<lambda>i. (Connection_init i 4096)\<lparr>cn_fd := Some 5\<rparr>" 5 "[''HTTP/1.1'', '' 200'']"]
  by (simp add: max_max_buffer_def)

section \<open>What is sent\<close>

lemma send_stop: "while_option (\<lambda>(k, t, r). r = None) f (k, t, Some r) = Some (k, t, Some r)"
  by (subst while_option_unfold) simp

lemma send_go:
  "f (k, t, None) = s \<Longrightarrow> while_option (\<lambda>(k, t, r). r = None) f (k, t, None) = while_option (\<lambda>(k, t, r). r = None) f s"
  by (subst while_option_unfold) simp

text \<open>A buffer that \<open>send\<close> takes at once is sent, and only then the timer of its request is registered.\<close>

lemma send_whole:
  assumes "cn_fd c = Some fd" "answers 0 (length (se_buffer req)) = Sent (length (se_buffer req))"
  shows "asyncSendRequestImpl answers req c t = Some (Send_Resolved (length (se_buffer req)),
     case se_timer req of None \<Rightarrow> t | Some tfd \<Rightarrow> t\<lparr>tr_timeouts := um_insert (=) tfd (se_conn req) (tr_timeouts t)\<rparr>)"
proof -
  have 1: "send_round answers (se_buffer req) (0, 0, None)
      = (1, length (se_buffer req), Some (Send_Resolved (length (se_buffer req))))"
    using assms(2) by (simp add: send_round_def Let_def)
  have "send_loop answers (se_buffer req) = Some (1, length (se_buffer req), Some (Send_Resolved (length (se_buffer req))))"
    unfolding send_loop_def send_go [of "send_round answers (se_buffer req)", OF 1] send_stop ..
  then show ?thesis using assms(1) by (simp add: asyncSendRequestImpl_def split: option.split)
qed

text \<open>The answers that \<open>performImpl\<close> gets, by the thread it runs on and what \<open>send\<close> does.\<close>

lemma send_answers:
  "map_option (as_answer \<circ> fst) (asyncSendRequest False answers req c t) = Some Send_Queued"
  "cn_fd c = Some fd \<Longrightarrow> answers 0 (length (se_buffer req)) = Sent (length (se_buffer req))
    \<Longrightarrow> map_option (as_answer \<circ> fst) (asyncSendRequest True answers req c t) = Some Send_Whole"
  "cn_fd c = Some fd \<Longrightarrow> answers 0 (length (se_buffer req)) = Would_Block
    \<Longrightarrow> map_option (as_answer \<circ> fst) (asyncSendRequest True answers req c t) = Some (Send_Raises (Runtime_Error ''Unimplemented, fix me!''))"
  "cn_fd c = None \<Longrightarrow> map_option (as_answer \<circ> fst) (asyncSendRequest True answers req c t) = Some (Send_Fails ''Could not send request'')"
proof -
  show "map_option (as_answer \<circ> fst) (asyncSendRequest False answers req c t) = Some Send_Queued"
    by (simp add: asyncSendRequest_def)
  show "cn_fd c = Some fd \<Longrightarrow> answers 0 (length (se_buffer req)) = Sent (length (se_buffer req))
    \<Longrightarrow> map_option (as_answer \<circ> fst) (asyncSendRequest True answers req c t) = Some Send_Whole"
    by (simp add: asyncSendRequest_def send_whole)
  assume w: "cn_fd c = Some fd" "answers 0 (length (se_buffer req)) = Would_Block"
  have 1: "send_round answers (se_buffer req) (0, 0, None) = (1, 0, Some (Send_Throws ''Unimplemented, fix me!''))"
    using w(2) by (simp add: send_round_def)
  show "map_option (as_answer \<circ> fst) (asyncSendRequest True answers req c t) = Some (Send_Raises (Runtime_Error ''Unimplemented, fix me!''))"
    using w(1) by (simp add: asyncSendRequest_def asyncSendRequestImpl_def send_loop_def send_go [of "send_round answers (se_buffer req)", OF 1] send_stop)
next
  show "cn_fd c = None \<Longrightarrow> map_option (as_answer \<circ> fst) (asyncSendRequest True answers req c t) = Some (Send_Fails ''Could not send request'')"
    by (simp add: asyncSendRequest_def asyncSendRequestImpl_def)
qed

text \<open>
  The loop compares all that has been written with what was left before the last write.  After a
  first partial write the two differ once everything has been written, and the loop goes on writing
  nothing for ever; and they can agree before, which leaves the rest of the request unsent.
\<close>

lemma while_option_runs:
  assumes "I s" "\<And>s. I s \<Longrightarrow> b s \<and> I (c s)"
  shows "while_option b c s = None"
proof -
  have "I ((c ^^ k) s)" for k by (induction k) (use assms in auto)
  then show ?thesis using assms(2) by (simp add: while_option_def)
qed

lemma partial_send_never_ends:
  assumes "0 < w" "w < length buffer" "\<And>k n. answers k n = Sent (if k = 0 then w else n)"
  shows "send_loop answers buffer = None"
proof -
  let ?I = "\<lambda>(k, t, r). r = None \<and> 0 < k \<and> 0 < t \<and> (t = w \<or> t = length buffer)"
  have first: "send_round answers buffer (0, 0, None) = (1, w, None)"
    using assms by (simp add: send_round_def Let_def)
  have "while_option (\<lambda>(k, t, r). r = None) (send_round answers buffer) (1, w, None) = None"
    by (rule while_option_runs [of ?I]) (use assms in \<open>auto simp: send_round_def Let_def\<close>)
  then show ?thesis unfolding send_loop_def send_go [of "send_round answers buffer", OF first] .
qed

lemma send_truncates:
  assumes "0 < w" "2 * w < length buffer" "answers 0 (length buffer) = Sent w"
    and "answers 1 (length buffer - w) = Sent (length buffer - 2 * w)"
  shows "send_loop answers buffer = Some (2, length buffer - w, Some (Send_Resolved (length buffer - w)))"
proof -
  have 1: "send_round answers buffer (0, 0, None) = (1, w, None)" using assms by (simp add: send_round_def Let_def)
  have 2: "send_round answers buffer (1, w, None) = (2, length buffer - w, Some (Send_Resolved (length buffer - w)))"
    using assms by (auto simp: send_round_def Let_def)
  show ?thesis
    unfolding send_loop_def send_go [of "send_round answers buffer", OF 1] send_go [of "send_round answers buffer", OF 2] send_stop ..
qed

section \<open>Connections\<close>

text \<open>
  After the connection queue has been handled it is empty, and every queued connection whose
  descriptor was new and whose connect did not fail is known by its descriptor.
\<close>

lemma connect_all_keeps:
  "um_find (=) (tr_connections t) fd = Some ce \<Longrightarrow> um_find (=) (tr_connections (connect_all connects conns ces t)) fd = Some ce"
  by (induction ces arbitrary: t) (auto simp: str_map.look_ins split: option.split)

lemma connect_all_knows:
  assumes "ce \<in> set ces" "cn_fd (conns (ce_conn ce)) = Some fd" "connects (ce_conn ce)"
    and "um_find (=) (tr_connections t) fd = None"
    and "\<forall>ce' \<in> set ces. cn_fd (conns (ce_conn ce')) = Some fd \<longrightarrow> ce' = ce"
  shows "um_find (=) (tr_connections (connect_all connects conns ces t)) fd = Some ce"
  using assms
proof (induction ces arbitrary: t)
  case Nil
  from Nil.prems(1) show ?case by simp
next
  case (Cons x xs)
  show ?case
  proof (cases "x = ce")
    case True
    have "um_find (=) (tr_connections (t\<lparr>tr_connections := um_insert (=) fd ce (tr_connections t)\<rparr>)) fd = Some ce"
      using Cons.prems(4) by (simp add: str_map.look_ins)
    from connect_all_keeps [OF this] show ?thesis using True Cons.prems(2,3) by simp
  next
    case False
    then have x: "cn_fd (conns (ce_conn x)) \<noteq> Some fd" "ce \<in> set xs" using Cons.prems(1,5) by auto
    have rest: "\<forall>ce' \<in> set xs. cn_fd (conns (ce_conn ce')) = Some fd \<longrightarrow> ce' = ce" using Cons.prems(5) by simp
    note IH = Cons.IH [OF x(2) Cons.prems(2,3) _ rest]
    show ?thesis
    proof (cases "cn_fd (conns (ce_conn x))")
      case None
      then show ?thesis using IH [OF Cons.prems(4)] by simp
    next
      case (Some fd2)
      let ?t = "t\<lparr>tr_connections := um_insert (=) fd2 x (tr_connections t)\<rparr>"
      have "um_find (=) (tr_connections ?t) fd = None" using Some x(1) Cons.prems(4) by (simp add: str_map.look_ins)
      from IH [OF this] IH [OF Cons.prems(4)] show ?thesis using Some by simp
    qed
  qed
qed

lemma connect_all_empties: "tr_connectionsQueue (connect_all connects conns ces t) = []"
  by (induction ces arbitrary: t) simp_all

text \<open>
  C18: a connection that was asked for, has a socket of its own and whose \<open>connect\<close> succeeds or is
  in progress becomes known by its socket, and when the socket is reported as writable for the
  first time the connection, and no other, starts its requests.
\<close>

theorem connect_then_writable:
  assumes "ce \<in> set (tr_connectionsQueue t)" "\<not> ce_settled ce" "cn_fd (conns (ce_conn ce)) = Some fd" "connects (ce_conn ce)"
    and "um_find (=) (tr_connections t) fd = None"
    and "\<forall>ce' \<in> set (tr_connectionsQueue t). cn_fd (conns (ce_conn ce')) = Some fd \<longrightarrow> ce' = ce"
  shows "\<exists>t'. handleWritableEntry fd conns (handleConnectionQueue connects conns t) = Inr (Some (On_Connected (ce_conn ce)), t')
    \<and> tr_connectionsQueue t' = []
    \<and> handleWritableEntry fd conns t' = Inl (Runtime_Error ''Attempt to resolve a fulfilled promise'')"
proof -
  let ?t = "handleConnectionQueue connects conns t"
  have "um_find (=) (tr_connections ?t) fd = Some ce"
    unfolding handleConnectionQueue_def using assms by (intro connect_all_knows)
  moreover have "tr_connectionsQueue ?t = []" unfolding handleConnectionQueue_def by (rule connect_all_empties)
  ultimately show ?thesis
    using assms(2,3) by (simp add: handleWritableEntry_def settle_def um_find_assign_eq)
qed

theorem connect_then_writable_witness:
  "\<exists>t'. handleWritableEntry 5 (\<lambda>i. (Connection_init i 4096)\<lparr>cn_fd := Some 5\<rparr>)
      (handleConnectionQueue (\<lambda>_. True) (\<lambda>i. (Connection_init i 4096)\<lparr>cn_fd := Some 5\<rparr>) (asyncConnect 0 Transport_init))
    = Inr (Some (On_Connected 0), t')"
proof -
  let ?ce = "\<lparr>ce_conn = 0, ce_settled = False\<rparr>" and ?conns = "\<lambda>i. (Connection_init i 4096)\<lparr>cn_fd := Some 5\<rparr>"
  have "tr_connectionsQueue (asyncConnect 0 Transport_init) = [?ce]"
    "um_find (=) (tr_connections (asyncConnect 0 Transport_init)) 5 = None"
    by (simp_all add: asyncConnect_def Transport_init_def)
  with connect_then_writable [of ?ce "asyncConnect 0 Transport_init" ?conns 5 "\<lambda>_. True"] show ?thesis
    by fastforce
qed

end
