(* ===== verification/Async_Promise.thy ===== *)
theory Async_Promise
  imports Pist_Prelude
begin

text \<open>
  Promises (async.h): the shared cores with their state, value and continuations, \<open>then\<close>, the
  resolver and the rejection, and the combinators \<open>whenAll\<close> and \<open>whenAny\<close>.  Cores and continuations
  are shared pointers, so they live in a heap and are named by their index.  The callbacks of the
  program are functions of the value they are given: they return, throw, or return a promise
  of the heap.  The recursive calls that tell the continuations of a promise that it is settled are
  a list of tasks, worked off in the order of the calls; an exception drops the rest of them, as it
  leaves all the loops.  Types that are only known at run time are numbers.
\<close>

section \<open>The heap\<close>

datatype pstate = Pending | Fulfilled | Rejected

record 'v core =
  co_type :: "nat option"
  co_state :: pstate
  co_value :: "'v option"
  co_exc :: "exn option"
  co_requests :: "nat list"

text \<open>
  What a continuation does when its promise is fulfilled.  The first three are the callbacks of
  \<open>then\<close> by what they return; \<open>Chain_To\<close> passes the value of a returned promise on; the last two are
  the parts of \<open>whenAll\<close> and \<open>whenAny\<close>.
\<close>

datatype 'v on_resolve =
    Returns "'v option \<Rightarrow> exn + 'v"
  | Returns_Void "'v option \<Rightarrow> exn option"
  | Returns_Promise "'v option \<Rightarrow> exn + nat"
  | Chain_To nat
  | All_Part nat nat
  | Any_Part nat

text \<open>
  What it does when its promise is rejected: \<open>Async::Throw\<close>, \<open>Async::NoExcept\<close>, a callback (as
  \<open>Async::IgnoreException\<close> is), or one of the three internal ones.
\<close>

datatype on_reject =
    Throw
  | NoExcept
  | Calls "exn option \<Rightarrow> exn option"
  | Reject_To nat
  | Reject_All nat
  | Reject_Range nat
  | Reject_Any nat

definition IgnoreException :: on_reject where
  "IgnoreException = Calls (\<lambda>_. None)"

record 'v cont =
  ct_resolve :: "'v on_resolve"
  ct_reject :: on_reject
  ct_chain :: nat
  ct_resolveCount :: nat
  ct_rejectCount :: nat

record 'v all_data =
  al_total :: nat
  al_resolved :: nat
  al_rejected :: bool
  al_results :: "'v option list"
  al_pack :: "'v option list \<Rightarrow> 'v option"
  al_target :: nat

record 'v any_data =
  an_done :: bool
  an_pack :: "'v option \<Rightarrow> 'v"
  an_target :: nat

text \<open>
  The heap, with a history of the calls of \<open>doResolve\<close> (\<open>True\<close>) and \<open>doReject\<close> (\<open>False\<close>) and the
  continuations they were made on.  The history is written by these two and read by nothing.
\<close>

record 'v heap =
  hp_cores :: "'v core list"
  hp_conts :: "'v cont list"
  hp_alls :: "'v all_data list"
  hp_anys :: "'v any_data list"
  hp_ran :: "(nat \<times> bool) list"

definition Core_init :: "nat option \<Rightarrow> 'v core" where
  "Core_init ty = \<lparr>co_type = ty, co_state = Pending, co_value = None, co_exc = None, co_requests = []\<rparr>"

definition empty_heap :: "'v heap" where
  "empty_heap = \<lparr>hp_cores = [], hp_conts = [], hp_alls = [], hp_anys = [], hp_ran = []\<rparr>"

definition note_run :: "nat \<times> bool \<Rightarrow> 'v heap \<Rightarrow> 'v heap" where
  "note_run x h = h\<lparr>hp_ran := hp_ran h @ [x]\<rparr>"

definition isPending :: "nat \<Rightarrow> 'v heap \<Rightarrow> bool" where
  "isPending p h \<longleftrightarrow> co_state (hp_cores h ! p) = Pending"
definition isFulfilled :: "nat \<Rightarrow> 'v heap \<Rightarrow> bool" where
  "isFulfilled p h \<longleftrightarrow> co_state (hp_cores h ! p) = Fulfilled"
definition isRejected :: "nat \<Rightarrow> 'v heap \<Rightarrow> bool" where
  "isRejected p h \<longleftrightarrow> co_state (hp_cores h ! p) = Rejected"
definition isSettled :: "nat \<Rightarrow> 'v heap \<Rightarrow> bool" where
  "isSettled p h \<longleftrightarrow> isFulfilled p h \<or> isRejected p h"

definition isVoid :: "'v core \<Rightarrow> bool" where
  "isVoid c \<longleftrightarrow> co_type c = None"

definition put_core :: "nat \<Rightarrow> 'v core \<Rightarrow> 'v heap \<Rightarrow> 'v heap" where
  "put_core p c h = h\<lparr>hp_cores := (hp_cores h)[p := c]\<rparr>"

definition put_cont :: "nat \<Rightarrow> 'v cont \<Rightarrow> 'v heap \<Rightarrow> 'v heap" where
  "put_cont k ct h = h\<lparr>hp_conts := (hp_conts h)[k := ct]\<rparr>"

text \<open>A promise made from a callback, from a value, and from an exception: the new index and heap.\<close>

definition Promise_new :: "nat option \<Rightarrow> 'v heap \<Rightarrow> nat \<times> 'v heap" where
  "Promise_new ty h = (length (hp_cores h), h\<lparr>hp_cores := hp_cores h @ [Core_init ty]\<rparr>)"

text \<open>The value of a core; a void one has none.\<close>

definition core_take :: "'v core \<Rightarrow> exn + 'v option" where
  "core_take c =
     (if isVoid c then Inr None
      else if co_state c \<noteq> Fulfilled then Inl (Runtime_Error ''Attempted to take the value of a not fulfilled promise'')
      else Inr (co_value c))"

definition construct :: "('v \<Rightarrow> nat) \<Rightarrow> 'v \<Rightarrow> 'v core \<Rightarrow> 'v core result" where
  "construct ty v c =
     (if isVoid c then Inl (Runtime_Error ''Can not construct a void core'')
      else if co_type c \<noteq> Some (ty v)
      then Inl (Runtime_Error ''Argument type can not be used to resolve the promise  (TypeId does not match)'')
      else Inr (c\<lparr>co_value := Some v, co_state := Fulfilled\<rparr>))"

definition reject_with :: "exn option \<Rightarrow> 'v core \<Rightarrow> 'v core" where
  "reject_with e c = c\<lparr>co_exc := e, co_state := Rejected\<rparr>"

definition Promise_resolved :: "('v \<Rightarrow> nat) \<Rightarrow> 'v option \<Rightarrow> 'v heap \<Rightarrow> nat \<times> 'v heap" where
  "Promise_resolved ty v h =
     (let c = (case v of None \<Rightarrow> (Core_init None)\<lparr>co_state := Fulfilled\<rparr>
                | Some x \<Rightarrow> (Core_init (Some (ty x)))\<lparr>co_value := Some x, co_state := Fulfilled\<rparr>)
      in (length (hp_cores h), h\<lparr>hp_cores := hp_cores h @ [c]\<rparr>))"

definition Promise_rejected :: "nat option \<Rightarrow> exn \<Rightarrow> 'v heap \<Rightarrow> nat \<times> 'v heap" where
  "Promise_rejected ty e h =
     (length (hp_cores h), h\<lparr>hp_cores := hp_cores h @ [reject_with (Some e) (Core_init ty)]\<rparr>)"

section \<open>Telling the continuations\<close>

text \<open>
  A task runs a continuation for a core; \<open>Done_Task\<close> is what \<open>whenAny\<close> does after its promise has
  told its continuations.
\<close>

datatype task = Resolve_Task nat nat | Reject_Task nat nat | Done_Task nat

datatype stop = Threw exn | Terminated

definition tell_resolved :: "nat \<Rightarrow> 'v heap \<Rightarrow> task list" where
  "tell_resolved p h = map (\<lambda>k. Resolve_Task k p) (co_requests (hp_cores h ! p))"

definition tell_rejected :: "nat \<Rightarrow> 'v heap \<Rightarrow> task list" where
  "tell_rejected p h = map (\<lambda>k. Reject_Task k p) (co_requests (hp_cores h ! p))"

type_synonym 'v effect = "stop option \<times> 'v heap \<times> task list"

text \<open>A value, or the end of a void promise, for a chained core.\<close>

definition fulfil :: "('v \<Rightarrow> nat) \<Rightarrow> nat \<Rightarrow> 'v option \<Rightarrow> 'v heap \<Rightarrow> 'v effect" where
  "fulfil ty p v h =
     (case v of
        None \<Rightarrow> (None, put_core p ((hp_cores h ! p)\<lparr>co_state := Fulfilled\<rparr>) h, tell_resolved p h)
      | Some x \<Rightarrow>
          (case construct ty x (hp_cores h ! p) of
             Inl e \<Rightarrow> (Some (Threw e), h, [])
           | Inr c \<Rightarrow> (None, put_core p c h, tell_resolved p h)))"

definition reject_chain :: "nat \<Rightarrow> exn option \<Rightarrow> 'v heap \<Rightarrow> 'v effect" where
  "reject_chain p e h = (None, put_core p (reject_with e (hp_cores h ! p)) h, tell_rejected p h)"

text \<open>The resolver and the rejection.\<close>

definition Resolver_call :: "('v \<Rightarrow> nat) \<Rightarrow> nat \<Rightarrow> 'v option \<Rightarrow> 'v heap \<Rightarrow> 'v effect" where
  "Resolver_call ty p v h =
     (let c = hp_cores h ! p
      in if co_state c \<noteq> Pending then (Some (Threw (Runtime_Error ''Attempt to resolve a fulfilled promise'')), h, [])
         else if v \<noteq> None \<and> isVoid c
         then (Some (Threw (Runtime_Error ''Attempt to resolve a void promise with arguments'')), h, [])
         else if v = None \<and> \<not> isVoid c
         then (Some (Threw (Runtime_Error ''Attempt ro resolve a non-void promise with no argument'')), h, [])
         else fulfil ty p v h)"

definition Rejection_call :: "nat \<Rightarrow> exn option \<Rightarrow> 'v heap \<Rightarrow> 'v effect" where
  "Rejection_call p e h =
     (if co_state (hp_cores h ! p) \<noteq> Pending
      then (Some (Threw (Runtime_Error ''Attempt to reject a fulfilled promise'')), h, [])
      else reject_chain p e h)"

text \<open>\<open>then\<close>: the new promise, the heap, and the task of the continuation if the promise is settled.\<close>

definition attach :: "nat \<Rightarrow> nat option \<Rightarrow> 'v on_resolve \<Rightarrow> on_reject \<Rightarrow> 'v heap \<Rightarrow> nat \<times> 'v heap \<times> task list" where
  "attach p rt f g h =
     (let (n, h1) = Promise_new rt h; k = length (hp_conts h1);
          h2 = h1\<lparr>hp_conts := hp_conts h1 @ [\<lparr>ct_resolve = f, ct_reject = g, ct_chain = n,
                 ct_resolveCount = 0, ct_rejectCount = 0\<rparr>]\<rparr>;
          c = hp_cores h2 ! p
      in (n, put_core p (c\<lparr>co_requests := co_requests c @ [k]\<rparr>) h2,
          if co_state c = Fulfilled then [Resolve_Task k p]
          else if co_state c = Rejected then [Reject_Task k p] else []))"

section \<open>The combinators\<close>

definition put_all :: "nat \<Rightarrow> 'v all_data \<Rightarrow> 'v heap \<Rightarrow> 'v heap" where
  "put_all d a h = h\<lparr>hp_alls := (hp_alls h)[d := a]\<rparr>"

definition put_any :: "nat \<Rightarrow> 'v any_data \<Rightarrow> 'v heap \<Rightarrow> 'v heap" where
  "put_any d a h = h\<lparr>hp_anys := (hp_anys h)[d := a]\<rparr>"

definition All_resolveT :: "('v \<Rightarrow> nat) \<Rightarrow> nat \<Rightarrow> nat \<Rightarrow> 'v option \<Rightarrow> 'v heap \<Rightarrow> 'v effect" where
  "All_resolveT ty d i v h =
     (let a = hp_alls h ! d
      in if al_rejected a then (None, h, [])
         else
           let a' = a\<lparr>al_results := (al_results a)[i := v], al_resolved := al_resolved a + 1\<rparr>; h' = put_all d a' h
           in if al_resolved a' = al_total a' then Resolver_call ty (al_target a') (al_pack a' (al_results a')) h'
              else (None, h', []))"

definition All_reject :: "nat \<Rightarrow> exn option \<Rightarrow> 'v heap \<Rightarrow> 'v effect" where
  "All_reject d e h =
     (let a = (hp_alls h ! d)\<lparr>al_rejected := True\<rparr> in Rejection_call (al_target a) e (put_all d a h))"

text \<open>The overload for ranges ignores what comes after a rejection.\<close>

definition Range_reject :: "nat \<Rightarrow> exn option \<Rightarrow> 'v heap \<Rightarrow> 'v effect" where
  "Range_reject d e h = (if al_rejected (hp_alls h ! d) then (None, h, []) else All_reject d e h)"

definition Any_resolveT :: "('v \<Rightarrow> nat) \<Rightarrow> nat \<Rightarrow> 'v option \<Rightarrow> 'v heap \<Rightarrow> 'v effect" where
  "Any_resolveT ty d v h =
     (let a = hp_anys h ! d
      in if an_done a then (None, h, [])
         else case Resolver_call ty (an_target a) (Some (an_pack a v)) h of
           (Some e, h', ts) \<Rightarrow> (Some e, h', ts)
         | (None, h', ts) \<Rightarrow> (None, h', ts @ [Done_Task d]))"

definition Any_reject :: "nat \<Rightarrow> exn option \<Rightarrow> 'v heap \<Rightarrow> 'v effect" where
  "Any_reject d e h =
     (let a = (hp_anys h ! d)\<lparr>an_done := True\<rparr> in Rejection_call (an_target a) e (put_any d a h))"

section \<open>Running continuations\<close>

text \<open>
  What a continuation does with the value: the callback, and what \<open>finishResolve\<close> does with its
  result.  \<open>doResolve\<close> takes the value of the core first.
\<close>

definition run_resolve :: "('v \<Rightarrow> nat) \<Rightarrow> 'v cont \<Rightarrow> 'v option \<Rightarrow> 'v heap \<Rightarrow> 'v effect" where
  "run_resolve ty ct v h =
     (case ct_resolve ct of
        Returns f \<Rightarrow> (case f v of Inl e \<Rightarrow> (Some (Threw e), h, []) | Inr w \<Rightarrow> fulfil ty (ct_chain ct) (Some w) h)
      | Returns_Void f \<Rightarrow> (map_option Threw (f v), h, [])
      | Returns_Promise f \<Rightarrow>
          (case f v of
             Inl e \<Rightarrow> (Some (Threw e), h, [])
           | Inr q \<Rightarrow>
               (case attach q None (Chain_To (ct_chain ct)) (Reject_To (ct_chain ct)) h of (n, h', ts) \<Rightarrow> (None, h', ts)))
      | Chain_To d \<Rightarrow> fulfil ty d v h
      | All_Part d i \<Rightarrow> All_resolveT ty d i v h
      | Any_Part d \<Rightarrow> Any_resolveT ty d v h)"

definition doResolve :: "('v \<Rightarrow> nat) \<Rightarrow> nat \<Rightarrow> nat \<Rightarrow> 'v cont \<Rightarrow> 'v heap \<Rightarrow> 'v effect" where
  "doResolve ty k p ct h =
     (let h1 = note_run (k, True) h
      in case core_take (hp_cores h1 ! p) of
           Inl e \<Rightarrow> (Some (Threw e), h1, [])
         | Inr v \<Rightarrow> run_resolve ty ct v h1)"

definition Continuable_resolve :: "('v \<Rightarrow> nat) \<Rightarrow> nat \<Rightarrow> nat \<Rightarrow> 'v heap \<Rightarrow> 'v effect" where
  "Continuable_resolve ty k p h =
     (let ct = hp_conts h ! k; h1 = put_cont k (ct\<lparr>ct_resolveCount := ct_resolveCount ct + 1\<rparr>) h
      in if ct_resolveCount ct \<ge> 1 then (None, h, []) else doResolve ty k p ct h1)"

text \<open>
  After a callback the specialisations for void promises also tell other continuations: those of the
  chained promise, which is not settled, or those of the promise itself, which are told anyway.
\<close>

definition void_rejects :: "'v cont \<Rightarrow> nat \<Rightarrow> 'v heap \<Rightarrow> task list" where
  "void_rejects ct p h =
     (if \<not> isVoid (hp_cores h ! p) then []
      else case ct_resolve ct of
        Returns f \<Rightarrow> tell_rejected (ct_chain ct) h
      | Returns_Promise f \<Rightarrow> tell_rejected p h
      | _ \<Rightarrow> [])"

definition doReject :: "nat \<Rightarrow> nat \<Rightarrow> 'v cont \<Rightarrow> 'v heap \<Rightarrow> 'v effect" where
  "doReject k p ct h =
     (let h1 = note_run (k, False) h; e = co_exc (hp_cores h1 ! p)
      in case ct_reject ct of
           Throw \<Rightarrow> reject_chain (ct_chain ct) e h1
         | NoExcept \<Rightarrow> (Some Terminated, h1, [])
         | Calls g \<Rightarrow> (case g e of Some x \<Rightarrow> (Some (Threw x), h1, []) | None \<Rightarrow> (None, h1, void_rejects ct p h1))
         | Reject_To d \<Rightarrow> reject_chain d e h1
         | Reject_All d \<Rightarrow> All_reject d e h1
         | Reject_Range d \<Rightarrow> Range_reject d e h1
         | Reject_Any d \<Rightarrow> Any_reject d e h1)"

definition Continuable_reject :: "nat \<Rightarrow> nat \<Rightarrow> 'v heap \<Rightarrow> 'v effect" where
  "Continuable_reject k p h =
     (let ct = hp_conts h ! k; h1 = put_cont k (ct\<lparr>ct_rejectCount := ct_rejectCount ct + 1\<rparr>) h
      in if ct_rejectCount ct \<ge> 1 then (None, h, []) else doReject k p ct h1)"

text \<open>Nothing outside the heap is ever named; the test keeps the work terminating without an invariant.\<close>

fun in_heap :: "task \<Rightarrow> 'v heap \<Rightarrow> bool" where
  "in_heap (Resolve_Task k p) h \<longleftrightarrow> k < length (hp_conts h)"
| "in_heap (Reject_Task k p) h \<longleftrightarrow> k < length (hp_conts h)"
| "in_heap (Done_Task d) h \<longleftrightarrow> True"

fun exec_task :: "('v \<Rightarrow> nat) \<Rightarrow> task \<Rightarrow> 'v heap \<Rightarrow> 'v effect" where
  "exec_task ty (Resolve_Task k p) h = Continuable_resolve ty k p h"
| "exec_task ty (Reject_Task k p) h = Continuable_reject k p h"
| "exec_task ty (Done_Task d) h = (None, put_any d ((hp_anys h ! d)\<lparr>an_done := True\<rparr>) h, [])"

subsection \<open>The work ends\<close>

text \<open>
  What is left to run: a callback that returns a promise makes one more continuation, which makes none.
\<close>

definition cont_weight :: "'v cont \<Rightarrow> nat" where
  "cont_weight ct =
     (if ct_resolveCount ct = 0 then (case ct_resolve ct of Returns_Promise f \<Rightarrow> 3 | _ \<Rightarrow> 1) else 0)
     + (if ct_rejectCount ct = 0 then 1 else 0)"

definition weight :: "'v heap \<Rightarrow> nat" where
  "weight h = sum_list (map cont_weight (hp_conts h))"

lemma put_sel [simp]:
  "hp_conts (put_core p c h) = hp_conts h" "hp_conts (put_all d a h) = hp_conts h" "hp_conts (put_any d b h) = hp_conts h"
  "hp_cores (put_cont k ct h) = hp_cores h" "hp_cores (put_all d a h) = hp_cores h" "hp_cores (put_any d b h) = hp_cores h"
  "hp_cores (put_core p c h) = (hp_cores h)[p := c]" "hp_conts (put_cont k ct h) = (hp_conts h)[k := ct]"
  "hp_ran (put_core p c h) = hp_ran h" "hp_ran (put_all d a h) = hp_ran h" "hp_ran (put_any d b h) = hp_ran h"
  "hp_ran (put_cont k ct h) = hp_ran h"
  "hp_cores (note_run x h) = hp_cores h" "hp_conts (note_run x h) = hp_conts h" "hp_alls (note_run x h) = hp_alls h"
  "hp_anys (note_run x h) = hp_anys h" "hp_ran (note_run x h) = hp_ran h @ [x]"
  by (simp_all add: put_core_def put_all_def put_any_def put_cont_def note_run_def)

text \<open>Most operations run nothing and leave alone the continuations and who waits for which promise.\<close>

definition frame :: "'v heap \<Rightarrow> 'v heap \<Rightarrow> bool" where
  "frame h h' \<longleftrightarrow> hp_conts h' = hp_conts h \<and> hp_ran h' = hp_ran h
     \<and> map co_requests (hp_cores h') = map co_requests (hp_cores h)"

lemma frame_refl [simp]: "frame h h"
  by (simp add: frame_def)

lemma frame_put [simp]: "frame h (put_all d a h)" "frame h (put_any d b h)"
  by (simp_all add: frame_def)

lemma frame_trans: "frame h h1 \<Longrightarrow> frame h1 h2 \<Longrightarrow> frame h h2"
  by (simp add: frame_def)

lemma frame_put_core [simp]: "co_requests c = co_requests (hp_cores h ! p) \<Longrightarrow> frame h (put_core p c h)"
  by (cases "p < length (hp_cores h)") (simp_all add: frame_def map_update list_update_same_conv list_update_beyond)

lemma frame_fulfil [simp]: "frame h (fst (snd (fulfil ty p v h)))"
  by (auto simp: fulfil_def construct_def split: option.split sum.split)

lemma frame_reject_chain [simp]: "frame h (fst (snd (reject_chain p e h)))"
  by (simp add: reject_chain_def reject_with_def)

lemma frame_Resolver [simp]: "frame h (fst (snd (Resolver_call ty p v h)))"
  by (simp add: Resolver_call_def Let_def)

lemma frame_Rejection [simp]: "frame h (fst (snd (Rejection_call p e h)))"
  by (simp add: Rejection_call_def)

lemma frame_All_resolveT [simp]: "frame h (fst (snd (All_resolveT ty d i v h)))"
  by (auto simp: All_resolveT_def Let_def intro: frame_trans [OF frame_put(1) frame_Resolver])

lemma frame_All_reject [simp]: "frame h (fst (snd (All_reject d e h)))"
  by (auto simp: All_reject_def Let_def intro: frame_trans [OF frame_put(1) frame_Rejection])

lemma frame_Range_reject [simp]: "frame h (fst (snd (Range_reject d e h)))"
  by (simp add: Range_reject_def)

lemma frame_Any_resolveT [simp]: "frame h (fst (snd (Any_resolveT ty d v h)))"
proof -
  obtain s h' ts where r: "Resolver_call ty (an_target (hp_anys h ! d)) (Some (an_pack (hp_anys h ! d) v)) h = (s, h', ts)"
    by (metis prod_cases3)
  have "frame h h'"
    using frame_Resolver [of h ty "an_target (hp_anys h ! d)" "Some (an_pack (hp_anys h ! d) v)"] by (simp add: r)
  then show ?thesis by (simp add: Any_resolveT_def Let_def r split: option.split)
qed

lemma frame_Any_reject [simp]: "frame h (fst (snd (Any_reject d e h)))"
  by (auto simp: Any_reject_def Let_def intro: frame_trans [OF frame_put(2) frame_Rejection])

text \<open>What \<open>then\<close> and the callbacks do to them: \<open>then\<close> adds one continuation and who waits for it.\<close>

definition attached :: "nat \<Rightarrow> 'v cont \<Rightarrow> 'v heap \<Rightarrow> 'v heap \<Rightarrow> bool" where
  "attached q ct h h' \<longleftrightarrow> hp_conts h' = hp_conts h @ [ct] \<and> hp_ran h' = hp_ran h
     \<and> ct_resolveCount ct = 0 \<and> ct_rejectCount ct = 0
     \<and> length (hp_cores h') = length (hp_cores h) + 1
     \<and> (\<forall>p \<le> length (hp_cores h). co_requests (hp_cores h' ! p) =
          (if p < length (hp_cores h) then co_requests (hp_cores h ! p) else []) @ (if p = q then [length (hp_conts h)] else []))"

lemma attach_attached:
  "attach p rt f g h = (n, h', ts) \<Longrightarrow> attached p \<lparr>ct_resolve = f, ct_reject = g,
     ct_chain = length (hp_cores h), ct_resolveCount = 0, ct_rejectCount = 0\<rparr> h h'"
  by (auto simp: attach_def attached_def Promise_new_def Core_init_def Let_def nth_append nth_list_update)

lemma run_resolve_frame:
  "frame h (fst (snd (run_resolve ty ct v h)))
   \<or> (\<exists>f q n d. ct_resolve ct = Returns_Promise f \<and> attached q \<lparr>ct_resolve = Chain_To d, ct_reject = Reject_To d, ct_chain = n,
        ct_resolveCount = 0, ct_rejectCount = 0\<rparr> h (fst (snd (run_resolve ty ct v h))))"
proof (cases "ct_resolve ct")
  case (Returns_Promise f)
  show ?thesis
  proof (cases "f v")
    case (Inr q)
    obtain n h' ts where a: "attach q None (Chain_To (ct_chain ct)) (Reject_To (ct_chain ct)) h = (n, h', ts)"
      by (metis prod_cases3)
    from attach_attached [OF a] show ?thesis using Returns_Promise Inr a by (auto simp: run_resolve_def)
  qed (simp add: run_resolve_def Returns_Promise)
qed (simp_all add: run_resolve_def split: sum.split)

lemma doReject_frame: "frame (note_run (k, False) h) (fst (snd (doReject k p ct h)))"
  by (simp add: doReject_def Let_def split: on_reject.split option.split)

text \<open>A task that runs its continuation, and what it does to the counts.\<close>

fun runs :: "task \<Rightarrow> 'v heap \<Rightarrow> bool" where
  "runs (Resolve_Task k p) h \<longleftrightarrow> k < length (hp_conts h) \<and> ct_resolveCount (hp_conts h ! k) = 0"
| "runs (Reject_Task k p) h \<longleftrightarrow> k < length (hp_conts h) \<and> ct_rejectCount (hp_conts h ! k) = 0"
| "runs (Done_Task d) h \<longleftrightarrow> False"

lemma weight_update:
  "k < length xs \<Longrightarrow> sum_list (map f (xs[k := x])) + f (xs ! k) = sum_list (map f xs) + (f x :: nat)"
proof (induction xs arbitrary: k)
  case (Cons y ys)
  show ?case
  proof (cases k)
    case (Suc j)
    then show ?thesis using Cons.IH [of j] Cons.prems by simp
  qed simp
qed simp

lemma exec_idle:
  assumes "exec_task ty t h = (s, h', new)" "in_heap t h" "\<not> runs t h"
  shows "s = None \<and> new = [] \<and> frame h h'"
  using assms by (cases t) (auto simp: Continuable_resolve_def Continuable_reject_def Let_def)

text \<open>What a task that runs its continuation does to the heap.\<close>

definition count_run :: "nat \<Rightarrow> 'v heap \<Rightarrow> 'v heap" where
  "count_run k h = note_run (k, True) (put_cont k ((hp_conts h ! k)\<lparr>ct_resolveCount := 1\<rparr>) h)"

definition count_reject :: "nat \<Rightarrow> 'v heap \<Rightarrow> 'v heap" where
  "count_reject k h = note_run (k, False) (put_cont k ((hp_conts h ! k)\<lparr>ct_rejectCount := 1\<rparr>) h)"

lemma Continuable_resolve_frame:
  assumes "ct_resolveCount (hp_conts h ! k) = 0"
  obtains (same) "frame (count_run k h) (fst (snd (Continuable_resolve ty k p h)))"
  | (more) f q n d where "ct_resolve (hp_conts h ! k) = Returns_Promise f"
      "attached q \<lparr>ct_resolve = Chain_To d, ct_reject = Reject_To d, ct_chain = n, ct_resolveCount = 0, ct_rejectCount = 0\<rparr>
        (count_run k h) (fst (snd (Continuable_resolve ty k p h)))"
proof (cases "core_take (hp_cores h ! p)")
  case (Inl e)
  with assms that(1) show ?thesis by (simp add: Continuable_resolve_def doResolve_def count_run_def Let_def)
next
  case (Inr v)
  have "Continuable_resolve ty k p h = run_resolve ty (hp_conts h ! k) v (count_run k h)"
    using assms Inr by (simp add: Continuable_resolve_def doResolve_def count_run_def Let_def)
  with run_resolve_frame [of "count_run k h" ty "hp_conts h ! k" v] that show ?thesis by auto
qed

lemma Continuable_reject_frame:
  "ct_rejectCount (hp_conts h ! k) = 0 \<Longrightarrow> frame (count_reject k h) (fst (snd (Continuable_reject k p h)))"
  unfolding Continuable_reject_def Let_def count_reject_def using doReject_frame by simp

lemma exec_weight:
  assumes "exec_task ty t h = (s, h', new)" "runs t h"
  shows "weight h' < weight h"
proof (cases t)
  case (Resolve_Task k p)
  with assms have k: "k < length (hp_conts h)" "ct_resolveCount (hp_conts h ! k) = 0"
    and h': "h' = fst (snd (Continuable_resolve ty k p h))" by simp_all
  let ?ct = "hp_conts h ! k"
  have u: "sum_list (map cont_weight ((hp_conts h)[k := ?ct\<lparr>ct_resolveCount := 1\<rparr>])) + cont_weight ?ct
      = weight h + cont_weight (?ct\<lparr>ct_resolveCount := 1\<rparr>)"
    unfolding weight_def by (rule weight_update [OF k(1)])
  from k(2) show ?thesis
  proof (cases rule: Continuable_resolve_frame [where ty = ty and p = p])
    case same
    then have "weight h' = sum_list (map cont_weight ((hp_conts h)[k := ?ct\<lparr>ct_resolveCount := 1\<rparr>]))"
      by (simp add: weight_def h' frame_def count_run_def)
    moreover have "cont_weight (?ct\<lparr>ct_resolveCount := 1\<rparr>) < cont_weight ?ct"
      using k(2) by (simp add: cont_weight_def split: on_resolve.split)
    ultimately show ?thesis using u by simp
  next
    case (more f q n d)
    then have "weight h' = sum_list (map cont_weight ((hp_conts h)[k := ?ct\<lparr>ct_resolveCount := 1\<rparr>])) + 2"
      by (simp add: weight_def h' cont_weight_def attached_def count_run_def)
    moreover have "cont_weight (?ct\<lparr>ct_resolveCount := 1\<rparr>) + 3 = cont_weight ?ct"
      using k(2) more(1) by (simp add: cont_weight_def)
    ultimately show ?thesis using u by simp
  qed
next
  case (Reject_Task k p)
  with assms have k: "k < length (hp_conts h)" "ct_rejectCount (hp_conts h ! k) = 0"
    and h': "h' = fst (snd (Continuable_reject k p h))" by simp_all
  let ?ct = "hp_conts h ! k"
  have c: "hp_conts h' = (hp_conts h)[k := ?ct\<lparr>ct_rejectCount := 1\<rparr>]"
    using Continuable_reject_frame [OF k(2), of p] by (simp add: h' frame_def count_reject_def)
  have "weight h' + cont_weight ?ct = weight h + cont_weight (?ct\<lparr>ct_rejectCount := 1\<rparr>)"
    unfolding weight_def c by (rule weight_update [OF k(1)])
  moreover have "cont_weight (?ct\<lparr>ct_rejectCount := 1\<rparr>) < cont_weight ?ct"
    using k(2) by (simp add: cont_weight_def)
  ultimately show ?thesis by simp
qed (use assms in simp)

lemma exec_decreases:
  assumes "exec_task ty t h = (s, h', new)" "in_heap t h"
  shows "weight h' < weight h \<or> weight h' = weight h \<and> new = []"
  using exec_weight [OF assms(1)] exec_idle [OF assms] by (cases "runs t h") (auto simp: weight_def frame_def)

text \<open>The loops: the stop, if any, and the heap.\<close>

function work :: "('v \<Rightarrow> nat) \<Rightarrow> task list \<Rightarrow> 'v heap \<Rightarrow> stop option \<times> 'v heap" where
  "work ty [] h = (None, h)"
| "work ty (t # ts) h =
     (if \<not> in_heap t h then work ty ts h
      else case exec_task ty t h of
        (Some s, h', new) \<Rightarrow> (Some s, h')
      | (None, h', new) \<Rightarrow> work ty (new @ ts) h')"
  by pat_completeness auto
termination
  by (relation "measures [\<lambda>(ty, ts, h). weight h, \<lambda>(ty, ts, h). length ts]") (auto dest!: exec_decreases [OF sym])

section \<open>The interface\<close>

definition then_promise :: "('v \<Rightarrow> nat) \<Rightarrow> nat \<Rightarrow> nat option \<Rightarrow> 'v on_resolve \<Rightarrow> on_reject \<Rightarrow> 'v heap
    \<Rightarrow> nat \<times> stop option \<times> 'v heap" where
  "then_promise ty p rt f g h =
     (case attach p rt f g h of (n, h', ts) \<Rightarrow> (n, work ty ts h'))"

definition resolve_promise :: "('v \<Rightarrow> nat) \<Rightarrow> nat \<Rightarrow> 'v option \<Rightarrow> 'v heap \<Rightarrow> stop option \<times> 'v heap" where
  "resolve_promise ty p v h =
     (case Resolver_call ty p v h of
        (Some s, h', ts) \<Rightarrow> (Some s, h')
      | (None, h', ts) \<Rightarrow> work ty ts h')"

definition reject_promise :: "('v \<Rightarrow> nat) \<Rightarrow> nat \<Rightarrow> exn \<Rightarrow> 'v heap \<Rightarrow> stop option \<times> 'v heap" where
  "reject_promise ty p e h =
     (case Rejection_call p (Some e) h of
        (Some s, h', ts) \<Rightarrow> (Some s, h')
      | (None, h', ts) \<Rightarrow> work ty ts h')"

text \<open>The parts of a combination are attached in order; an exception ends the loop.\<close>

fun when_loop :: "('v \<Rightarrow> nat) \<Rightarrow> (nat \<Rightarrow> 'v on_resolve) \<Rightarrow> on_reject \<Rightarrow> nat \<Rightarrow> nat list \<Rightarrow> 'v heap \<Rightarrow> stop option \<times> 'v heap" where
  "when_loop ty part g i [] h = (None, h)"
| "when_loop ty part g i (p # ps) h =
     (case then_promise ty p None (part i) g h of
        (n, Some s, h') \<Rightarrow> (Some s, h')
      | (n, None, h') \<Rightarrow> when_loop ty part g (i + 1) ps h')"

definition All_data :: "nat \<Rightarrow> ('v option list \<Rightarrow> 'v option) \<Rightarrow> nat \<Rightarrow> 'v all_data" where
  "All_data n pack target = \<lparr>al_total = n, al_resolved = 0, al_rejected = False,
     al_results = replicate n None, al_pack = pack, al_target = target\<rparr>"

definition whenAll :: "('v \<Rightarrow> nat) \<Rightarrow> bool \<Rightarrow> nat option \<Rightarrow> ('v option list \<Rightarrow> 'v option) \<Rightarrow> nat list \<Rightarrow> 'v heap
    \<Rightarrow> nat \<times> stop option \<times> 'v heap" where
  "whenAll ty ranged rt pack ps h =
     (let (t, h1) = Promise_new rt h; d = length (hp_alls h1);
          h2 = h1\<lparr>hp_alls := hp_alls h1 @ [All_data (length ps) pack t]\<rparr>
      in (t, when_loop ty (All_Part d) (if ranged then Reject_Range d else Reject_All d) 0 ps h2))"

definition whenAny :: "('v \<Rightarrow> nat) \<Rightarrow> nat \<Rightarrow> ('v option \<Rightarrow> 'v) \<Rightarrow> nat list \<Rightarrow> 'v heap \<Rightarrow> nat \<times> stop option \<times> 'v heap" where
  "whenAny ty rt pack ps h =
     (let (t, h1) = Promise_new (Some rt) h; d = length (hp_anys h1);
          h2 = h1\<lparr>hp_anys := hp_anys h1 @ [\<lparr>an_done = False, an_pack = pack, an_target = t\<rparr>]\<rparr>
      in (t, when_loop ty (\<lambda>i. Any_Part d) (Reject_Any d) 0 ps h2))"

end
