(* ===== verification/Promise_Laws.thy ===== *)
theory Promise_Laws
  imports Async_Promise
begin

text \<open>
  What promises guarantee: a continuation runs at most once, a settled promise refuses to be settled
  again, a value or an exception travels down a chain of \<open>then\<close>, and \<open>whenAll\<close> collects its results in
  the order of its arguments whatever the order of their arrival.
\<close>

section \<open>Continuations run at most once\<close>

text \<open>A continuation and a direction whose count is no longer zero.\<close>

definition spent :: "'v heap \<Rightarrow> nat \<times> bool \<Rightarrow> bool" where
  "spent h x \<longleftrightarrow> fst x < length (hp_conts h)
     \<and> (if snd x then ct_resolveCount (hp_conts h ! fst x) else ct_rejectCount (hp_conts h ! fst x)) > 0"

text \<open>
  The history has each call once, and it agrees with the counts; and who waits for a promise exists.
\<close>

definition counted :: "'v heap \<Rightarrow> bool" where
  "counted h \<longleftrightarrow> distinct (hp_ran h) \<and> set (hp_ran h) = {x. spent h x}
     \<and> (\<forall>p < length (hp_cores h). \<forall>k \<in> set (co_requests (hp_cores h ! p)). k < length (hp_conts h))"

text \<open>The heap after: still right, with nothing taken out of the history and no continuation or core gone.\<close>

definition later :: "'v heap \<Rightarrow> 'v heap \<Rightarrow> bool" where
  "later h h' \<longleftrightarrow> counted h' \<and> set (hp_ran h) \<subseteq> set (hp_ran h')
     \<and> length (hp_conts h) \<le> length (hp_conts h') \<and> length (hp_cores h) \<le> length (hp_cores h')"

lemma later_refl: "counted h \<Longrightarrow> later h h"
  by (simp add: later_def)

lemma later_trans: "later h h1 \<Longrightarrow> later h1 h2 \<Longrightarrow> later h h2"
  by (auto simp: later_def)

lemma frame_later:
  assumes "frame h h'" "counted h"
  shows "later h h'"
proof -
  have c: "hp_conts h' = hp_conts h" "hp_ran h' = hp_ran h" and l: "length (hp_cores h') = length (hp_cores h)"
    using assms(1) by (auto simp: frame_def dest: map_eq_imp_length_eq)
  have q: "co_requests (hp_cores h' ! p) = co_requests (hp_cores h ! p)" if "p < length (hp_cores h)" for p
    using assms(1) l that unfolding frame_def by (metis nth_map)
  show ?thesis using assms(2) by (simp add: later_def counted_def spent_def c l q)
qed

lemma attached_later:
  assumes "attached q ct h h'" "counted h"
  shows "later h h'"
proof -
  have a: "hp_conts h' = hp_conts h @ [ct]" "hp_ran h' = hp_ran h" "ct_resolveCount ct = 0" "ct_rejectCount ct = 0"
    "length (hp_cores h') = length (hp_cores h) + 1" using assms(1) by (simp_all add: attached_def)
  have "spent h' x \<longleftrightarrow> spent h x" for x
    using a(3,4) by (auto simp: spent_def a(1) nth_append less_Suc_eq)
  moreover have "k < length (hp_conts h')" if "p < length (hp_cores h')" "k \<in> set (co_requests (hp_cores h' ! p))" for p k
  proof -
    have "p \<le> length (hp_cores h)" using that(1) a(5) by simp
    then have "k \<in> set ((if p < length (hp_cores h) then co_requests (hp_cores h ! p) else []) @ (if p = q then [length (hp_conts h)] else []))"
      using assms(1) that(2) by (simp add: attached_def)
    then show ?thesis using assms(2) by (auto simp: counted_def a(1) less_Suc_eq split: if_splits)
  qed
  ultimately show ?thesis using assms(2) a by (simp add: later_def counted_def)
qed

text \<open>Where a continuation is run: its count and the history grow together.\<close>

lemma count_later:
  assumes "counted h" "k < length (hp_conts h)"
  shows "ct_resolveCount (hp_conts h ! k) = 0 \<Longrightarrow> later h (count_run k h)"
    "ct_rejectCount (hp_conts h ! k) = 0 \<Longrightarrow> later h (count_reject k h)"
proof -
  assume z: "ct_resolveCount (hp_conts h ! k) = 0"
  have "spent (count_run k h) x \<longleftrightarrow> spent h x \<or> x = (k, True)" for x
    using assms(2) z by (cases x) (auto simp: spent_def count_run_def nth_list_update)
  moreover have "\<not> spent h (k, True)" using z by (simp add: spent_def)
  ultimately show "later h (count_run k h)" using assms(1) by (auto simp: later_def counted_def count_run_def)
next
  assume z: "ct_rejectCount (hp_conts h ! k) = 0"
  have "spent (count_reject k h) x \<longleftrightarrow> spent h x \<or> x = (k, False)" for x
    using assms(2) z by (cases x) (auto simp: spent_def count_reject_def nth_list_update)
  moreover have "\<not> spent h (k, False)" using z by (simp add: spent_def)
  ultimately show "later h (count_reject k h)" using assms(1) by (auto simp: later_def counted_def count_reject_def)
qed

text \<open>The call a task asks for.\<close>

fun has_run :: "'v heap \<Rightarrow> task \<Rightarrow> bool" where
  "has_run h (Resolve_Task k p) \<longleftrightarrow> (k, True) \<in> set (hp_ran h)"
| "has_run h (Reject_Task k p) \<longleftrightarrow> (k, False) \<in> set (hp_ran h)"
| "has_run h (Done_Task d) \<longleftrightarrow> True"

lemma has_run_later: "has_run h t \<Longrightarrow> later h h' \<Longrightarrow> has_run h' t"
  by (cases t) (auto simp: later_def)

lemma in_heap_later: "in_heap t h \<Longrightarrow> later h h' \<Longrightarrow> in_heap t h'"
  by (cases t) (auto simp: later_def)

lemma count_sel [simp]:
  "hp_cores (count_run k h) = hp_cores h" "hp_alls (count_run k h) = hp_alls h" "hp_anys (count_run k h) = hp_anys h"
  "hp_conts (count_run k h) = (hp_conts h)[k := (hp_conts h ! k)\<lparr>ct_resolveCount := 1\<rparr>]"
  "hp_cores (count_reject k h) = hp_cores h" "hp_conts (count_reject k h) = (hp_conts h)[k := (hp_conts h ! k)\<lparr>ct_rejectCount := 1\<rparr>]"
  by (simp_all add: count_run_def count_reject_def put_cont_def)

lemma hp_alls_put [simp]:
  "hp_alls (put_all d a h) = (hp_alls h)[d := a]" "hp_alls (put_core p c h) = hp_alls h" "hp_alls (put_cont k ct h) = hp_alls h"
  by (simp_all add: put_all_def put_core_def put_cont_def)

lemma exec_runs:
  assumes "exec_task ty t h = (s, h', new)" "in_heap t h" "counted h"
  shows "later h h' \<and> has_run h' t"
proof (cases "runs t h")
  case False
  with exec_idle [OF assms(1,2)] have f: "frame h h'" by blast
  have "has_run h t" using False assms(2,3) by (cases t) (auto simp: counted_def spent_def)
  with frame_later [OF f assms(3)] show ?thesis using has_run_later by blast
next
  case True
  show ?thesis
  proof (cases t)
    case (Resolve_Task k p)
    with True assms(1) have k: "k < length (hp_conts h)" "ct_resolveCount (hp_conts h ! k) = 0"
      and h': "h' = fst (snd (Continuable_resolve ty k p h))" by simp_all
    note c = count_later(1) [OF assms(3) k]
    then have "counted (count_run k h)" by (simp add: later_def)
    then have "later (count_run k h) h'"
      by (rule_tac Continuable_resolve_frame [OF k(2), of ty p]) (simp_all add: h' frame_later attached_later)
    moreover have "has_run (count_run k h) t" by (simp add: Resolve_Task count_run_def)
    ultimately show ?thesis using later_trans [OF c] has_run_later by blast
  next
    case (Reject_Task k p)
    with True assms(1) have k: "k < length (hp_conts h)" "ct_rejectCount (hp_conts h ! k) = 0"
      and h': "h' = fst (snd (Continuable_reject k p h))" by simp_all
    note c = count_later(2) [OF assms(3) k]
    then have "counted (count_reject k h)" by (simp add: later_def)
    with Continuable_reject_frame [OF k(2)] have "later (count_reject k h) h'" unfolding h' by (rule frame_later)
    moreover have "has_run (count_reject k h) t" by (simp add: Reject_Task count_reject_def)
    ultimately show ?thesis using later_trans [OF c] has_run_later by blast
  qed (use True in simp)
qed

text \<open>The loops run all they have to, unless something is thrown.\<close>

lemma work_runs:
  "work ty ts h = (s, h') \<Longrightarrow> counted h \<Longrightarrow> later h h' \<and> (s = None \<longrightarrow> (\<forall>t \<in> set ts. in_heap t h \<longrightarrow> has_run h' t))"
proof (induction ty ts h arbitrary: s h' rule: work.induct)
  case (2 ty t ts h)
  show ?case
  proof (cases "in_heap t h")
    case False
    with 2 show ?thesis by simp
  next
    case True
    obtain s1 h1 new where e: "exec_task ty t h = (s1, h1, new)" by (metis prod_cases3)
    note x = exec_runs [OF e True 2(4)]
    show ?thesis
    proof (cases s1)
      case (Some _)
      then show ?thesis using 2(3) True e x by auto
    next
      case None
      have w: "work ty (new @ ts) h1 = (s, h')" using 2(3) True e None by simp
      have "counted h1" using x by (simp add: later_def)
      with 2(2) [OF _ e [symmetric]] True None w
      have IH: "later h1 h' \<and> (s = None \<longrightarrow> (\<forall>t \<in> set (new @ ts). in_heap t h1 \<longrightarrow> has_run h' t))" by auto
      then show ?thesis using x later_trans has_run_later in_heap_later by (metis UnCI set_ConsD set_append)
    qed
  qed
qed (simp add: later_refl)

text \<open>What a program does with promises; one that throws has no result but may go on.\<close>

datatype 'v promise_op =
    Op_New "nat option"
  | Op_Then nat "nat option" "'v on_resolve" on_reject
  | Op_Resolve nat "'v option"
  | Op_Reject nat exn
  | Op_All bool "nat option" "'v option list \<Rightarrow> 'v option" "nat list"
  | Op_Any nat "'v option \<Rightarrow> 'v" "nat list"

fun apply_op :: "('v \<Rightarrow> nat) \<Rightarrow> 'v promise_op \<Rightarrow> 'v heap \<Rightarrow> 'v heap" where
  "apply_op ty (Op_New rt) h = snd (Promise_new rt h)"
| "apply_op ty (Op_Then p rt f g) h = snd (snd (then_promise ty p rt f g h))"
| "apply_op ty (Op_Resolve p v) h = snd (resolve_promise ty p v h)"
| "apply_op ty (Op_Reject p e) h = snd (reject_promise ty p e h)"
| "apply_op ty (Op_All ranged rt pack ps) h = snd (snd (whenAll ty ranged rt pack ps h))"
| "apply_op ty (Op_Any rt pack ps) h = snd (snd (whenAny ty rt pack ps h))"

lemma then_runs:
  assumes "then_promise ty p rt f g h = (n, s, h')" "counted h"
  shows "later h h' \<and> (s = None \<and> p < length (hp_cores h) \<longrightarrow>
     (isFulfilled p h \<longrightarrow> (length (hp_conts h), True) \<in> set (hp_ran h'))
     \<and> (isRejected p h \<longrightarrow> (length (hp_conts h), False) \<in> set (hp_ran h')))"
proof -
  obtain m h1 ts where a: "attach p rt f g h = (m, h1, ts)" by (metis prod_cases3)
  then have w: "work ty ts h1 = (s, h')" using assms(1) by (simp add: then_promise_def)
  have l: "later h h1" by (rule attached_later [OF attach_attached [OF a] assms(2)])
  then have "counted h1" by (simp add: later_def)
  note r = work_runs [OF w this]
  have "length (hp_conts h) < length (hp_conts h1)" using attach_attached [OF a] by (simp add: attached_def)
  moreover have "ts = (if isFulfilled p h then [Resolve_Task (length (hp_conts h)) p]
      else if isRejected p h then [Reject_Task (length (hp_conts h)) p] else [])" if "p < length (hp_cores h)"
    using a that by (auto simp: attach_def Promise_new_def Let_def nth_append isFulfilled_def isRejected_def)
  moreover have "\<not> (isFulfilled p h \<and> isRejected p h)" by (simp add: isFulfilled_def isRejected_def)
  ultimately show ?thesis using r later_trans [OF l] by auto
qed

lemma waiting_later:
  "counted h \<Longrightarrow> later h h1 \<Longrightarrow> p < length (hp_cores h) \<Longrightarrow> k \<in> set (co_requests (hp_cores h ! p)) \<Longrightarrow> k < length (hp_conts h1)"
  by (fastforce simp: counted_def later_def)

lemma resolve_runs:
  assumes "resolve_promise ty p v h = (s, h')" "counted h"
  shows "later h h' \<and> (s = None \<and> p < length (hp_cores h) \<longrightarrow> (\<forall>k \<in> set (co_requests (hp_cores h ! p)). (k, True) \<in> set (hp_ran h')))"
proof -
  obtain s1 h1 ts where c: "Resolver_call ty p v h = (s1, h1, ts)" by (metis prod_cases3)
  then have "frame h h1" using frame_Resolver [of h ty p v] by simp
  then have l: "later h h1" using assms(2) by (rule frame_later)
  then have n: "counted h1" by (simp add: later_def)
  have t: "ts = tell_resolved p h" if "s1 = None"
    using c that by (auto simp: Resolver_call_def fulfil_def Let_def split: if_splits option.splits sum.splits)
  show ?thesis
  proof (cases s1)
    case None
    then have "work ty (tell_resolved p h) h1 = (s, h')" using assms(1) c t by (simp add: resolve_promise_def)
    from work_runs [OF this n] have "later h1 h'"
      "s = None \<longrightarrow> (\<forall>k \<in> set (co_requests (hp_cores h ! p)). k < length (hp_conts h1) \<longrightarrow> (k, True) \<in> set (hp_ran h'))"
      by (auto simp: tell_resolved_def)
    moreover have "p < length (hp_cores h) \<longrightarrow> (\<forall>k \<in> set (co_requests (hp_cores h ! p)). k < length (hp_conts h1))"
      using waiting_later [OF assms(2) l] by blast
    ultimately show ?thesis using later_trans [OF l] by auto
  qed (use assms(1) c l in \<open>auto simp: resolve_promise_def\<close>)
qed

lemma reject_runs:
  assumes "reject_promise ty p e h = (s, h')" "counted h"
  shows "later h h' \<and> (s = None \<and> p < length (hp_cores h) \<longrightarrow> (\<forall>k \<in> set (co_requests (hp_cores h ! p)). (k, False) \<in> set (hp_ran h')))"
proof -
  obtain s1 h1 ts where c: "Rejection_call p (Some e) h = (s1, h1, ts)" by (metis prod_cases3)
  then have "frame h h1" using frame_Rejection [of h p "Some e"] by simp
  then have l: "later h h1" using assms(2) by (rule frame_later)
  then have n: "counted h1" by (simp add: later_def)
  have t: "ts = tell_rejected p h" if "s1 = None"
    using c that by (auto simp: Rejection_call_def reject_chain_def split: if_splits)
  show ?thesis
  proof (cases s1)
    case None
    then have "work ty (tell_rejected p h) h1 = (s, h')" using assms(1) c t by (simp add: reject_promise_def)
    from work_runs [OF this n] have "later h1 h'"
      "s = None \<longrightarrow> (\<forall>k \<in> set (co_requests (hp_cores h ! p)). k < length (hp_conts h1) \<longrightarrow> (k, False) \<in> set (hp_ran h'))"
      by (auto simp: tell_rejected_def)
    moreover have "p < length (hp_cores h) \<longrightarrow> (\<forall>k \<in> set (co_requests (hp_cores h ! p)). k < length (hp_conts h1))"
      using waiting_later [OF assms(2) l] by blast
    ultimately show ?thesis using later_trans [OF l] by auto
  qed (use assms(1) c l in \<open>auto simp: reject_promise_def\<close>)
qed

lemma when_loop_later: "when_loop ty part g i ps h = (s, h') \<Longrightarrow> counted h \<Longrightarrow> later h h'"
proof (induction ps arbitrary: i h)
  case (Cons p ps)
  obtain n s1 h1 where t: "then_promise ty p None (part i) g h = (n, s1, h1)" by (metis prod_cases3)
  have l: "later h h1" using then_runs [OF t Cons.prems(2)] by blast
  then have "counted h1" by (simp add: later_def)
  then show ?case using Cons l t by (cases s1) (auto intro: later_trans)
qed (simp add: later_refl)

lemma new_later:
  assumes "counted h" "hp_conts h' = hp_conts h" "hp_ran h' = hp_ran h" "hp_cores h' = hp_cores h @ [Core_init rt]"
  shows "later h h'"
  using assms by (auto simp: later_def counted_def spent_def Core_init_def nth_append)

lemma op_later: "counted h \<Longrightarrow> later h (apply_op ty op h)"
proof (cases op)
  case (Op_All ranged rt pack ps)
  assume h: "counted h"
  let ?h = "h\<lparr>hp_cores := hp_cores h @ [Core_init rt], hp_alls := hp_alls h @ [All_data (length ps) pack (length (hp_cores h))]\<rparr>"
  have l: "later h ?h" by (rule new_later [OF h]) simp_all
  obtain t s h' where w: "whenAll ty ranged rt pack ps h = (t, s, h')" by (metis prod_cases3)
  then have "when_loop ty (All_Part (length (hp_alls h))) (if ranged then Reject_Range (length (hp_alls h)) else Reject_All (length (hp_alls h)))
      0 ps ?h = (s, h')"
    by (cases ranged) (auto simp: whenAll_def Promise_new_def Let_def)
  from when_loop_later [OF this] l have "later ?h h'" by (simp add: later_def)
  then show ?thesis using w Op_All later_trans [OF l] by simp
next
  case (Op_Any rt pack ps)
  assume h: "counted h"
  let ?h = "h\<lparr>hp_cores := hp_cores h @ [Core_init (Some rt)],
      hp_anys := hp_anys h @ [\<lparr>an_done = False, an_pack = pack, an_target = length (hp_cores h)\<rparr>]\<rparr>"
  have l: "later h ?h" by (rule new_later [OF h]) simp_all
  obtain t s h' where w: "whenAny ty rt pack ps h = (t, s, h')" by (metis prod_cases3)
  then have "when_loop ty (\<lambda>i. Any_Part (length (hp_anys h))) (Reject_Any (length (hp_anys h))) 0 ps ?h = (s, h')"
    by (auto simp: whenAny_def Promise_new_def Let_def)
  from when_loop_later [OF this] l have "later ?h h'" by (simp add: later_def)
  then show ?thesis using w Op_Any later_trans [OF l] by simp
next
  case (Op_Then p rt f g)
  then show "counted h \<Longrightarrow> ?thesis"
    using then_runs by (metis apply_op.simps(2) prod.collapse)
next
  case (Op_Resolve p v)
  then show "counted h \<Longrightarrow> ?thesis" using resolve_runs by (metis apply_op.simps(3) prod.collapse)
next
  case (Op_Reject p e)
  then show "counted h \<Longrightarrow> ?thesis" using reject_runs by (metis apply_op.simps(4) prod.collapse)
qed (auto simp: Promise_new_def intro: new_later)

lemma ops_counted: "counted (fold (apply_op ty) ops empty_heap)"
proof -
  have "counted h \<Longrightarrow> counted (fold (apply_op ty) ops h)" for h
  proof (induction ops arbitrary: h)
    case (Cons op ops)
    then show ?case using op_later [OF Cons.prems] by (simp add: later_def)
  qed simp
  moreover have "counted empty_heap" by (simp add: counted_def spent_def empty_heap_def)
  ultimately show ?thesis by blast
qed

text \<open>
  C21: whatever promises are made, chained, combined and settled, in any order and by any number of
  calls, and whatever the callbacks do, no continuation is run twice in the same direction.  And
  none is forgotten: when a promise is settled, or a continuation is attached to a settled one, and
  the call returns without an exception, then each continuation concerned has been run.
\<close>

theorem continuations_run_once:
  assumes "h = fold (apply_op ty) ops empty_heap" "p < length (hp_cores h)"
  shows "distinct (hp_ran h)
    \<and> (\<forall>v h'. resolve_promise ty p v h = (None, h') \<longrightarrow> (\<forall>k \<in> set (co_requests (hp_cores h ! p)). (k, True) \<in> set (hp_ran h')))
    \<and> (\<forall>e h'. reject_promise ty p e h = (None, h') \<longrightarrow> (\<forall>k \<in> set (co_requests (hp_cores h ! p)). (k, False) \<in> set (hp_ran h')))
    \<and> (\<forall>rt f g n h'. then_promise ty p rt f g h = (n, None, h') \<longrightarrow>
         (isFulfilled p h \<longrightarrow> (length (hp_conts h), True) \<in> set (hp_ran h'))
         \<and> (isRejected p h \<longrightarrow> (length (hp_conts h), False) \<in> set (hp_ran h')))"
proof -
  have c: "counted h" using ops_counted assms(1) by blast
  show ?thesis
  proof (intro conjI allI impI)
    show "distinct (hp_ran h)" using c by (simp add: counted_def)
  next
    fix v h'
    assume "resolve_promise ty p v h = (None, h')"
    from resolve_runs [OF this c] assms(2)
    show "\<forall>k \<in> set (co_requests (hp_cores h ! p)). (k, True) \<in> set (hp_ran h')" by simp
  next
    fix e h'
    assume "reject_promise ty p e h = (None, h')"
    from reject_runs [OF this c] assms(2)
    show "\<forall>k \<in> set (co_requests (hp_cores h ! p)). (k, False) \<in> set (hp_ran h')" by simp
  next
    fix rt f g n h'
    assume "then_promise ty p rt f g h = (n, None, h')"
    from then_runs [OF this c] assms(2)
    show "isFulfilled p h \<Longrightarrow> (length (hp_conts h), True) \<in> set (hp_ran h')"
      "isRejected p h \<Longrightarrow> (length (hp_conts h), False) \<in> set (hp_ran h')" by simp_all
  qed
qed

text \<open>A promise with two continuations, one of which makes a promise for the other chain.\<close>

theorem continuations_run_once_witness:
  "\<exists>h'. resolve_promise (\<lambda>_. 1) 0 (Some 4) (fold (apply_op (\<lambda>_. 1))
      [Op_New (Some 1), Op_Then 0 (Some 1) (Returns (\<lambda>x. Inr (the x + 1))) Throw,
       Op_Then 0 (Some 1) (Returns_Promise (\<lambda>x. Inr 1)) Throw] (empty_heap :: nat heap)) = (None, h')
    \<and> (0, True) \<in> set (hp_ran h') \<and> (1, True) \<in> set (hp_ran h')"
proof -
  let ?h = "fold (apply_op (\<lambda>_. 1))
      [Op_New (Some 1), Op_Then 0 (Some 1) (Returns (\<lambda>x. Inr (the x + 1))) Throw,
       Op_Then 0 (Some 1) (Returns_Promise (\<lambda>x. Inr 1)) Throw] (empty_heap :: nat heap)"
  obtain s h' where r: "resolve_promise (\<lambda>_. 1) 0 (Some 4) ?h = (s, h')" by fastforce
  have "fst (resolve_promise (\<lambda>_. 1) 0 (Some 4) ?h) = None" "0 < length (hp_cores ?h)" "co_requests (hp_cores ?h ! 0) = [0, 1]"
    by code_simp+
  then show ?thesis using continuations_run_once [OF refl, of 0 "\<lambda>_. 1"
      "[Op_New (Some 1), Op_Then 0 (Some 1) (Returns (\<lambda>x. Inr (the x + 1))) Throw,
       Op_Then 0 (Some 1) (Returns_Promise (\<lambda>x. Inr 1)) Throw]"] r by (metis fst_conv list.set_intros)
qed

declare exec_task.simps [simp del]

section \<open>Chains of \<open>then\<close>\<close>

text \<open>
  A chain from \<open>p\<close> to \<open>q\<close>: each promise has one continuation, made by \<open>then\<close> with a callback that
  returns a value of the next promise's type and with \<open>Async::Throw\<close>, and younger than the one before.
\<close>

definition chain_link :: "('v option \<Rightarrow> exn + 'v) \<Rightarrow> nat \<Rightarrow> 'v cont" where
  "chain_link f n = \<lparr>ct_resolve = Returns f, ct_reject = Throw, ct_chain = n, ct_resolveCount = 0, ct_rejectCount = 0\<rparr>"

fun pipe :: "('v \<Rightarrow> nat) \<Rightarrow> 'v heap \<Rightarrow> nat \<Rightarrow> nat \<Rightarrow> ('v option \<Rightarrow> exn + 'v) list \<Rightarrow> nat \<Rightarrow> bool" where
  "pipe ty h k0 p [] q \<longleftrightarrow> p = q \<and> p < length (hp_cores h) \<and> co_requests (hp_cores h ! p) = []"
| "pipe ty h k0 p (f # fs) q \<longleftrightarrow> p < length (hp_cores h) \<and>
     (\<exists>k n. co_requests (hp_cores h ! p) = [k] \<and> k0 \<le> k \<and> k < length (hp_conts h) \<and> p < n
        \<and> hp_conts h ! k = chain_link f n
        \<and> n < length (hp_cores h) \<and> co_state (hp_cores h ! n) = Pending
        \<and> (\<forall>x y. f (Some x) = Inr y \<longrightarrow> co_type (hp_cores h ! n) = Some (ty y))
        \<and> co_type (hp_cores h ! n) \<noteq> None
        \<and> pipe ty h (k + 1) n fs q)"

fun pass :: "('v option \<Rightarrow> exn + 'v) list \<Rightarrow> 'v \<Rightarrow> exn + 'v" where
  "pass [] v = Inr v"
| "pass (f # fs) v = (case f (Some v) of Inl e \<Rightarrow> Inl e | Inr w \<Rightarrow> pass fs w)"

text \<open>A chain does not depend on older continuations, nor on the state of its first promise.\<close>

lemma pipe_frame:
  assumes "pipe ty h k0 p fs q" "length (hp_cores h') = length (hp_cores h)" "length (hp_conts h') = length (hp_conts h)"
    and "\<forall>k \<ge> k0. hp_conts h' ! k = hp_conts h ! k"
    and "\<forall>n > p. hp_cores h' ! n = hp_cores h ! n"
    and "co_requests (hp_cores h' ! p) = co_requests (hp_cores h ! p)"
  shows "pipe ty h' k0 p fs q"
  using assms
proof (induction fs arbitrary: k0 p)
  case (Cons f fs)
  then obtain k n where k: "co_requests (hp_cores h ! p) = [k]" "k0 \<le> k" "k < length (hp_conts h)" "p < n"
    "hp_conts h ! k = chain_link f n" "n < length (hp_cores h)" "co_state (hp_cores h ! n) = Pending"
    "\<forall>x y. f (Some x) = Inr y \<longrightarrow> co_type (hp_cores h ! n) = Some (ty y)"
    "co_type (hp_cores h ! n) \<noteq> None" "pipe ty h (k + 1) n fs q" by auto
  have "pipe ty h' (k + 1) n fs q"
    using k(2,4,10) Cons.prems by (intro Cons.IH) auto
  then show ?case using Cons.prems k by auto
qed auto

lemma pipe_end: "pipe ty h k0 p fs q \<Longrightarrow> p \<le> q \<and> q < length (hp_cores h)"
  by (induction fs arbitrary: k0 p) fastforce+

text \<open>One link of a chain: the callback's value goes to the next promise, an exception out of the loops.\<close>

lemma link_resolves:
  assumes "pipe ty h k0 p (f # fs) q" "co_state (hp_cores h ! p) = Fulfilled" "co_value (hp_cores h ! p) = Some v"
    "co_type (hp_cores h ! p) \<noteq> None"
  obtains (throws) e k where "f (Some v) = Inl e"
      "work ty (tell_resolved p h) h = (Some (Threw e), count_run k h)"
  | (passes) w k n h1 where "f (Some v) = Inr w" "p < n" "pipe ty h1 (k + 1) n fs q"
      "co_state (hp_cores h1 ! n) = Fulfilled" "co_value (hp_cores h1 ! n) = Some w" "co_type (hp_cores h1 ! n) \<noteq> None"
      "work ty (tell_resolved p h) h = work ty (tell_resolved n h1) h1"
proof -
  from assms(1) obtain k n where k: "co_requests (hp_cores h ! p) = [k]" "k < length (hp_conts h)" "p < n"
    "hp_conts h ! k = chain_link f n" "n < length (hp_cores h)"
    "\<forall>x y. f (Some x) = Inr y \<longrightarrow> co_type (hp_cores h ! n) = Some (ty y)" "pipe ty h (k + 1) n fs q" by auto
  have c: "ct_resolve (hp_conts h ! k) = Returns f" "ct_chain (hp_conts h ! k) = n" "ct_resolveCount (hp_conts h ! k) = 0"
    by (simp_all add: k(4) chain_link_def)
  have t: "tell_resolved p h = [Resolve_Task k p]" by (simp add: tell_resolved_def k(1))
  have take: "core_take (hp_cores h ! p) = Inr (Some v)" using assms(2-4) by (simp add: core_take_def isVoid_def)
  let ?h = "count_run k h"
  have x: "exec_task ty (Resolve_Task k p) h = run_resolve ty (hp_conts h ! k) (Some v) ?h"
    by (simp add: exec_task.simps Continuable_resolve_def doResolve_def count_run_def Let_def c take)
  show thesis
  proof (cases "f (Some v)")
    case (Inl e)
    with throws [OF Inl, of k] show ?thesis using k(2) c(3) by (simp add: t x run_resolve_def c)
  next
    case (Inr w)
    let ?c = "(hp_cores h ! n)\<lparr>co_value := Some w, co_state := Fulfilled\<rparr>" and ?h1 = "put_core n ((hp_cores h ! n)\<lparr>co_value := Some w, co_state := Fulfilled\<rparr>) ?h"
    have ty: "co_type (hp_cores h ! n) = Some (ty w)" using k(6) Inr by blast
    have "exec_task ty (Resolve_Task k p) h = (None, ?h1, tell_resolved n ?h)"
      by (simp add: x run_resolve_def c Inr fulfil_def construct_def isVoid_def ty)
    moreover have "tell_resolved n ?h1 = tell_resolved n ?h" using k(5) by (simp add: tell_resolved_def)
    ultimately have "work ty (tell_resolved p h) h = work ty (tell_resolved n ?h1) ?h1"
      using k(2) c(3) by (simp add: t)
    moreover have "pipe ty ?h1 (k + 1) n fs q" by (rule pipe_frame [OF k(7)]) (use k(5) in auto)
    ultimately show ?thesis using passes [of w n ?h1 k] Inr k(3,5) ty by simp
  qed
qed

lemma pipe_resolve:
  assumes "pipe ty h k0 p fs q" "co_state (hp_cores h ! p) = Fulfilled" "co_value (hp_cores h ! p) = Some v"
    "co_type (hp_cores h ! p) \<noteq> None"
  shows "\<exists>s h'. work ty (tell_resolved p h) h = (s, h')
    \<and> (case pass fs v of
         Inl e \<Rightarrow> s = Some (Threw e)
       | Inr w \<Rightarrow> s = None \<and> co_state (hp_cores h' ! q) = Fulfilled \<and> co_value (hp_cores h' ! q) = Some w)"
  using assms
proof (induction fs arbitrary: k0 p v h)
  case Nil
  then have "work ty (tell_resolved p h) h = (None, h)" "p = q" by (auto simp: tell_resolved_def)
  then show ?case using Nil.prems by simp
next
  case (Cons f fs)
  from Cons.prems show ?case
  proof (cases rule: link_resolves)
    case (throws e k)
    then show ?thesis by simp
  next
    case (passes w k n h1)
    from Cons.IH [OF passes(3-6)] obtain s h' where
      "work ty (tell_resolved n h1) h1 = (s, h')"
      "case pass fs w of Inl e \<Rightarrow> s = Some (Threw e)
       | Inr w \<Rightarrow> s = None \<and> co_state (hp_cores h' ! q) = Fulfilled \<and> co_value (hp_cores h' ! q) = Some w" by blast
    with passes(1,7) show ?thesis by simp
  qed
qed

lemma pipe_reject:
  assumes "pipe ty h k0 p fs q" "co_state (hp_cores h ! p) = Rejected" "co_exc (hp_cores h ! p) = e"
  shows "\<exists>h'. work ty (tell_rejected p h) h = (None, h')
    \<and> co_state (hp_cores h' ! q) = Rejected \<and> co_exc (hp_cores h' ! q) = e"
  using assms
proof (induction fs arbitrary: k0 p h)
  case Nil
  then have "work ty (tell_rejected p h) h = (None, h)" "p = q" by (auto simp: tell_rejected_def)
  then show ?case using Nil.prems by simp
next
  case (Cons f fs)
  from Cons.prems(1) obtain k n where k: "co_requests (hp_cores h ! p) = [k]" "k < length (hp_conts h)" "p < n"
    "hp_conts h ! k = chain_link f n" "n < length (hp_cores h)" "pipe ty h (k + 1) n fs q" by auto
  let ?h = "count_reject k h"
  let ?h1 = "put_core n (reject_with e (hp_cores h ! n)) ?h"
  have t: "tell_rejected p h = [Reject_Task k p]" by (simp add: tell_rejected_def k(1))
  have "exec_task ty (Reject_Task k p) h = (None, ?h1, tell_rejected n ?h)"
    using Cons.prems(3) by (simp add: exec_task.simps Continuable_reject_def doReject_def count_reject_def reject_chain_def Let_def k(4) chain_link_def)
  moreover have "tell_rejected n ?h1 = tell_rejected n ?h" using k(5) by (simp add: tell_rejected_def reject_with_def)
  ultimately have w: "work ty (tell_rejected p h) h = work ty (tell_rejected n ?h1) ?h1"
    using k(2) by (simp add: t k(4) chain_link_def)
  have "pipe ty ?h1 (k + 1) n fs q" by (rule pipe_frame [OF k(6)]) (use k(5) in \<open>auto simp: reject_with_def\<close>)
  moreover have "co_state (hp_cores ?h1 ! n) = Rejected" "co_exc (hp_cores ?h1 ! n) = e"
    using k(5) by (simp_all add: reject_with_def)
  ultimately obtain h' where "work ty (tell_rejected n ?h1) ?h1 = (None, h')"
    "co_state (hp_cores h' ! q) = Rejected" "co_exc (hp_cores h' ! q) = e"
    using Cons.IH by blast
  with w show ?case by simp
qed

section \<open>Chains that \<open>then\<close> builds\<close>

fun then_all :: "('v \<Rightarrow> nat) \<Rightarrow> nat \<Rightarrow> (nat \<times> ('v option \<Rightarrow> exn + 'v)) list \<Rightarrow> 'v heap \<Rightarrow> nat \<times> 'v heap" where
  "then_all ty p [] h = (p, h)"
| "then_all ty p ((rt, f) # fs) h =
     (case then_promise ty p (Some rt) (Returns f) Throw h of (n, s, h') \<Rightarrow> then_all ty n fs h')"

definition typed_callback :: "('v \<Rightarrow> nat) \<Rightarrow> nat \<times> ('v option \<Rightarrow> exn + 'v) \<Rightarrow> bool" where
  "typed_callback ty c \<longleftrightarrow> (\<forall>x y. snd c x = Inr y \<longrightarrow> ty y = fst c)"

lemma then_waits:
  assumes "co_state (hp_cores h ! p) = Pending" "p < length (hp_cores h)"
  shows "then_promise ty p rt f g h = (length (hp_cores h), None,
     h\<lparr>hp_cores := (hp_cores h)[p := (hp_cores h ! p)\<lparr>co_requests := co_requests (hp_cores h ! p) @ [length (hp_conts h)]\<rparr>]
         @ [Core_init rt],
       hp_conts := hp_conts h @ [\<lparr>ct_resolve = f, ct_reject = g, ct_chain = length (hp_cores h), ct_resolveCount = 0, ct_rejectCount = 0\<rparr>]\<rparr>)"
  using assms
  by (simp add: then_promise_def attach_def Promise_new_def Let_def nth_append put_core_def list_update_append)

lemmas then_pending = then_waits [where f = "Returns f" and g = Throw for f, folded chain_link_def]

lemma pipe_snoc:
  assumes "pipe ty h k0 p fs q" "k0 \<le> length (hp_conts h)" "typed_callback ty (rt, f)"
    and "cores' = (hp_cores h)[q := (hp_cores h ! q)\<lparr>co_requests := co_requests (hp_cores h ! q) @ [length (hp_conts h)]\<rparr>]
          @ [Core_init (Some rt)]"
    and "hp_cores h' = cores'" "hp_conts h' = hp_conts h @ [chain_link f (length (hp_cores h))]"
  shows "pipe ty h' k0 p (fs @ [f]) (length (hp_cores h))"
  using assms(1,2)
proof (induction fs arbitrary: k0 p)
  case Nil
  then have "p = q" "q < length (hp_cores h)" "co_requests (hp_cores h ! q) = []" by auto
  then show ?case using Nil.prems(2) assms(3-6) by (simp add: nth_append Core_init_def typed_callback_def)
next
  case (Cons g gs)
  then obtain k n where k: "co_requests (hp_cores h ! p) = [k]" "k0 \<le> k" "k < length (hp_conts h)" "p < n"
    "hp_conts h ! k = chain_link g n" "n < length (hp_cores h)" "co_state (hp_cores h ! n) = Pending"
    "\<forall>x y. g (Some x) = Inr y \<longrightarrow> co_type (hp_cores h ! n) = Some (ty y)"
    "co_type (hp_cores h ! n) \<noteq> None" "pipe ty h (k + 1) n gs q" by auto
  have q: "n \<le> q" "q < length (hp_cores h)" using pipe_end [OF k(10)] by simp_all
  have "pipe ty h' (k + 1) n (gs @ [f]) (length (hp_cores h))" using k(3,10) by (intro Cons.IH) simp_all
  moreover have "hp_cores h' ! p = hp_cores h ! p" using q k(4) assms(4,5) by (simp add: nth_append)
  moreover have "co_state (hp_cores h' ! n) = Pending" "co_type (hp_cores h' ! n) = co_type (hp_cores h ! n)"
    using q k(6,7) assms(4,5) by (auto simp: nth_append nth_list_update)
  moreover have "hp_conts h' ! k = chain_link g n" using k(3,5) assms(6) by (simp add: nth_append)
  ultimately show ?case using k q assms(4-6) by auto
qed

lemma then_all_pipe:
  assumes "pipe ty h 0 p gs q" "co_state (hp_cores h ! q) = Pending" "\<forall>c \<in> set fs. typed_callback ty c"
    and "then_all ty q fs h = (r, h')"
  shows "pipe ty h' 0 p (gs @ map snd fs) r \<and> co_state (hp_cores h' ! p) = co_state (hp_cores h ! p)
    \<and> co_type (hp_cores h' ! p) = co_type (hp_cores h ! p)"
  using assms
proof (induction fs arbitrary: gs q h)
  case (Cons c fs)
  obtain rt f where c: "c = (rt, f)" by fastforce
  have q: "p \<le> q" "q < length (hp_cores h)" using pipe_end [OF Cons.prems(1)] by simp_all
  let ?cores = "(hp_cores h)[q := (hp_cores h ! q)\<lparr>co_requests := co_requests (hp_cores h ! q) @ [length (hp_conts h)]\<rparr>]
      @ [Core_init (Some rt)]"
  let ?h = "h\<lparr>hp_cores := ?cores, hp_conts := hp_conts h @ [chain_link f (length (hp_cores h))]\<rparr>"
  have t: "then_all ty (length (hp_cores h)) fs ?h = (r, h')"
    using Cons.prems(4) by (simp add: c then_pending [OF Cons.prems(2) q(2)])
  have "pipe ty ?h 0 p (gs @ [f]) (length (hp_cores h))"
    using Cons.prems(1,3) c by (intro pipe_snoc [OF Cons.prems(1)]) simp_all
  moreover have "co_state (hp_cores ?h ! length (hp_cores h)) = Pending" by (simp add: nth_append Core_init_def)
  ultimately have "pipe ty h' 0 p ((gs @ [f]) @ map snd fs) r \<and> co_state (hp_cores h' ! p) = co_state (hp_cores ?h ! p)
      \<and> co_type (hp_cores h' ! p) = co_type (hp_cores ?h ! p)"
    using Cons.prems(3) t by (intro Cons.IH) simp_all
  moreover have "co_state (hp_cores ?h ! p) = co_state (hp_cores h ! p)" "co_type (hp_cores ?h ! p) = co_type (hp_cores h ! p)"
    using q by (auto simp: nth_append nth_list_update)
  ultimately show ?case by (simp add: c)
qed auto

text \<open>The continuation of a fulfilled promise runs at once.\<close>

lemma then_fulfilled:
  assumes "co_state (hp_cores h ! p) = Fulfilled" "co_value (hp_cores h ! p) = Some v" "co_type (hp_cores h ! p) \<noteq> None"
    "p < length (hp_cores h)" "f (Some v) = Inr w" "ty w = rt"
  shows "\<exists>h'. then_promise ty p (Some rt) (Returns f) Throw h = (length (hp_cores h), None, h')
    \<and> length (hp_cores h) < length (hp_cores h') \<and> co_state (hp_cores h' ! length (hp_cores h)) = Fulfilled
    \<and> co_value (hp_cores h' ! length (hp_cores h)) = Some w \<and> co_type (hp_cores h' ! length (hp_cores h)) = Some rt"
proof -
  let ?n = "length (hp_cores h)" and ?k = "length (hp_conts h)"
  let ?h = "h\<lparr>hp_cores := (hp_cores h)[p := (hp_cores h ! p)\<lparr>co_requests := co_requests (hp_cores h ! p) @ [?k]\<rparr>]
      @ [Core_init (Some rt)], hp_conts := hp_conts h @ [chain_link f ?n]\<rparr>"
  have a: "attach p (Some rt) (Returns f) Throw h = (?n, ?h, [Resolve_Task ?k p])"
    using assms(1,4) by (simp add: attach_def Promise_new_def Let_def nth_append put_core_def chain_link_def list_update_append)
  have take: "core_take (hp_cores ?h ! p) = Inr (Some v)"
    using assms(1-4) by (simp add: core_take_def isVoid_def nth_append)
  let ?h1 = "count_run ?k ?h"
  let ?h2 = "put_core ?n ((Core_init (Some rt))\<lparr>co_value := Some w, co_state := Fulfilled\<rparr>) ?h1"
  have "exec_task ty (Resolve_Task ?k p) ?h = (None, ?h2, [])"
    using take assms(5,6) by (simp add: exec_task.simps Continuable_resolve_def Let_def chain_link_def doResolve_def run_resolve_def count_run_def fulfil_def
        construct_def isVoid_def Core_init_def tell_resolved_def nth_append)
  then have "then_promise ty p (Some rt) (Returns f) Throw h = (?n, None, ?h2)"
    by (simp add: then_promise_def a)
  then show ?thesis by (simp add: Core_init_def nth_append)
qed

lemma then_all_fulfilled:
  assumes "co_state (hp_cores h ! p) = Fulfilled" "co_value (hp_cores h ! p) = Some v" "co_type (hp_cores h ! p) \<noteq> None"
    "p < length (hp_cores h)" "\<forall>c \<in> set fs. typed_callback ty c" "pass (map snd fs) v = Inr w"
  shows "\<exists>q h'. then_all ty p fs h = (q, h') \<and> co_state (hp_cores h' ! q) = Fulfilled \<and> co_value (hp_cores h' ! q) = Some w"
  using assms
proof (induction fs arbitrary: p v h)
  case (Cons c fs)
  obtain rt f where c: "c = (rt, f)" by fastforce
  obtain u where u: "f (Some v) = Inr u" "pass (map snd fs) u = Inr w"
    using Cons.prems(6) by (auto simp: c split: sum.splits)
  have "ty u = rt" using Cons.prems(5) u(1) by (auto simp: c typed_callback_def)
  from then_fulfilled [where f = f and ty = ty, OF Cons.prems(1-4) u(1) this] obtain h1 where
    h1: "then_promise ty p (Some rt) (Returns f) Throw h = (length (hp_cores h), None, h1)"
    "length (hp_cores h) < length (hp_cores h1)" "co_state (hp_cores h1 ! length (hp_cores h)) = Fulfilled"
    "co_value (hp_cores h1 ! length (hp_cores h)) = Some u" "co_type (hp_cores h1 ! length (hp_cores h)) = Some rt" by blast
  with Cons.IH [OF h1(3,4) _ h1(2)] Cons.prems(5) u(2) show ?case by (simp add: c)
qed auto

text \<open>
  C19: a chain of callbacks that return values, each attached by \<open>then\<close> with \<open>Async::Throw\<close>.  A value
  given to the first promise passes through all the callbacks and ends as the value of the last
  promise, whether the promise was resolved before or after the chain was built; an exception
  thrown by a callback comes out of the resolver; and a rejection reaches the last promise.
  (Callbacks without a result, that return promises, or that swallow exceptions are not covered.)
\<close>

theorem then_chain:
  assumes "Promise_new (Some (ty v)) h = (p, h0)" "\<forall>c \<in> set fs. typed_callback ty c" "then_all ty p fs h0 = (q, h1)"
  shows "(\<exists>s h2. resolve_promise ty p (Some v) h1 = (s, h2) \<and>
       (case pass (map snd fs) v of
          Inl e \<Rightarrow> s = Some (Threw e)
        | Inr w \<Rightarrow> s = None \<and> co_state (hp_cores h2 ! q) = Fulfilled \<and> co_value (hp_cores h2 ! q) = Some w
            \<and> (\<exists>h3 q' h4. resolve_promise ty p (Some v) h0 = (None, h3) \<and> then_all ty p fs h3 = (q', h4)
                 \<and> co_state (hp_cores h4 ! q') = Fulfilled \<and> co_value (hp_cores h4 ! q') = Some w)))
    \<and> (\<exists>h2. reject_promise ty p e h1 = (None, h2) \<and> co_state (hp_cores h2 ! q) = Rejected
         \<and> co_exc (hp_cores h2 ! q) = Some e)"
proof -
  have p: "hp_cores h0 ! p = Core_init (Some (ty v))" "p < length (hp_cores h0)"
    using assms(1) by (auto simp: Promise_new_def)
  have "pipe ty h0 0 p [] p" "co_state (hp_cores h0 ! p) = Pending" using p by (simp_all add: Core_init_def)
  from then_all_pipe [OF this assms(2,3)] have c: "pipe ty h1 0 p (map snd fs) q" "co_state (hp_cores h1 ! p) = Pending"
    "co_type (hp_cores h1 ! p) = Some (ty v)" by (simp_all add: p Core_init_def)
  then have l: "p < length (hp_cores h1)" using pipe_end by fastforce
  let ?r = "put_core p ((hp_cores h1 ! p)\<lparr>co_value := Some v, co_state := Fulfilled\<rparr>) h1"
  have t: "tell_resolved p ?r = tell_resolved p h1" using l by (simp add: tell_resolved_def)
  have "Resolver_call ty p (Some v) h1 = (None, ?r, tell_resolved p ?r)"
    unfolding t using c(2,3) by (simp add: Resolver_call_def Let_def isVoid_def fulfil_def construct_def)
  then have res: "resolve_promise ty p (Some v) h1 = work ty (tell_resolved p ?r) ?r"
    by (simp add: resolve_promise_def)
  have "pipe ty ?r 0 p (map snd fs) q" by (rule pipe_frame [OF c(1)]) (use l in auto)
  from pipe_resolve [OF this, of v] l c(3) obtain s h2 where 1: "work ty (tell_resolved p ?r) ?r = (s, h2)"
    "case pass (map snd fs) v of Inl e \<Rightarrow> s = Some (Threw e)
     | Inr w \<Rightarrow> s = None \<and> co_state (hp_cores h2 ! q) = Fulfilled \<and> co_value (hp_cores h2 ! q) = Some w" by auto
  let ?r0 = "put_core p ((hp_cores h0 ! p)\<lparr>co_value := Some v, co_state := Fulfilled\<rparr>) h0"
  have r0: "resolve_promise ty p (Some v) h0 = (None, ?r0)"
    using p by (simp add: resolve_promise_def Resolver_call_def Let_def isVoid_def fulfil_def construct_def tell_resolved_def Core_init_def)
  have early: "\<exists>q' h4. then_all ty p fs ?r0 = (q', h4) \<and> co_state (hp_cores h4 ! q') = Fulfilled \<and> co_value (hp_cores h4 ! q') = Some w"
    if "pass (map snd fs) v = Inr w" for w
    by (rule then_all_fulfilled [OF _ _ _ _ assms(2) that]) (use p in \<open>simp_all add: Core_init_def\<close>)
  let ?j = "put_core p (reject_with (Some e) (hp_cores h1 ! p)) h1"
  have t: "tell_rejected p ?j = tell_rejected p h1" using l by (simp add: tell_rejected_def reject_with_def)
  have "pipe ty ?j 0 p (map snd fs) q" by (rule pipe_frame [OF c(1)]) (use l in \<open>auto simp: reject_with_def\<close>)
  from pipe_reject [OF this, of "Some e"] l obtain h3 where 2: "work ty (tell_rejected p ?j) ?j = (None, h3)"
    "co_state (hp_cores h3 ! q) = Rejected" "co_exc (hp_cores h3 ! q) = Some e" by (auto simp: reject_with_def)
  have "Rejection_call p (Some e) h1 = (None, ?j, tell_rejected p ?j)"
    unfolding t using c(2) by (simp add: Rejection_call_def reject_chain_def)
  then have rej: "reject_promise ty p e h1 = (None, h3)" by (simp add: reject_promise_def 2(1))
  have "case pass (map snd fs) v of
          Inl e \<Rightarrow> s = Some (Threw e)
        | Inr w \<Rightarrow> s = None \<and> co_state (hp_cores h2 ! q) = Fulfilled \<and> co_value (hp_cores h2 ! q) = Some w
            \<and> (\<exists>h3 q' h4. resolve_promise ty p (Some v) h0 = (None, h3) \<and> then_all ty p fs h3 = (q', h4)
                 \<and> co_state (hp_cores h4 ! q') = Fulfilled \<and> co_value (hp_cores h4 ! q') = Some w)"
    using 1(2) early unfolding r0 by (auto split: sum.splits)
  then show ?thesis using res 1(1) rej 2(2,3) by auto
qed

text \<open>Two callbacks on a number, the second of which fails above ten.\<close>

theorem then_chain_witness:
  "\<exists>h2. resolve_promise (\<lambda>_. 1) 0 (Some 4)
      (snd (then_all (\<lambda>_. 1) 0 [(1, \<lambda>x. Inr (the x + 1)), (1, \<lambda>x. if the x > 10 then Inl (Runtime_Error ''big'') else Inr (the x * 2))]
        (snd (Promise_new (Some 1) (empty_heap :: nat heap)))))
    = (None, h2) \<and> co_value (hp_cores h2 ! 2) = Some 10"
proof -
  let ?ty = "\<lambda>_::nat. 1::nat"
  let ?fs = "[(1, \<lambda>x. Inr (the x + 1)), (1, \<lambda>x. if the x > 10 then Inl (Runtime_Error ''big'') else Inr (the x * 2))]
    :: (nat \<times> (nat option \<Rightarrow> exn + nat)) list"
  let ?h0 = "snd (Promise_new (Some 1) (empty_heap :: nat heap))"
  have n: "Promise_new (Some (?ty 4)) (empty_heap :: nat heap) = (0, ?h0)" by (simp add: Promise_new_def empty_heap_def)
  have q: "fst (then_all ?ty 0 ?fs ?h0) = 2"
    by (simp add: then_pending Promise_new_def empty_heap_def Core_init_def)
  have a: "then_all ?ty 0 ?fs ?h0 = (2, snd (then_all ?ty 0 ?fs ?h0))" by (rule prod_eqI) (simp_all only: q fst_conv snd_conv)
  have t: "\<forall>c \<in> set ?fs. typed_callback ?ty c" by (simp add: typed_callback_def)
  have p: "pass (map snd ?fs) 4 = Inr 10" by simp
  define h1 where "h1 = snd (then_all ?ty 0 ?fs ?h0)"
  from conjunct1 [OF then_chain [where v = 4, OF n t a]] p obtain s h2 where
    "resolve_promise ?ty 0 (Some 4) h1 = (s, h2)" "s = None \<and> co_value (hp_cores h2 ! 2) = Some 10"
    unfolding h1_def [symmetric] by (simp only: sum.case) blast
  then show ?thesis unfolding h1_def by blast
qed

section \<open>Combinations\<close>

text \<open>Values given to promises, one after the other, and all that each causes; \<open>None\<close> if one of them throws.\<close>

fun resolve_each :: "('v \<Rightarrow> nat) \<Rightarrow> (nat \<times> 'v) list \<Rightarrow> 'v heap \<Rightarrow> 'v heap option" where
  "resolve_each ty [] h = Some h"
| "resolve_each ty ((p, v) # xs) h =
     (case resolve_promise ty p (Some v) h of (Some s, h') \<Rightarrow> None | (None, h') \<Rightarrow> resolve_each ty xs h')"

lemma resolve_each_append:
  "resolve_each ty (xs @ ys) h = (case resolve_each ty xs h of None \<Rightarrow> None | Some h' \<Rightarrow> resolve_each ty ys h')"
  by (induction ty xs h rule: resolve_each.induct) (auto split: prod.split option.split)

text \<open>
  The combination number \<open>d\<close> of the promises \<open>ps\<close> with the result \<open>t\<close>, when the first \<open>m\<close> parts have been
  attached, from continuation \<open>k0\<close> on, and the values \<open>xs\<close> have arrived; \<open>pt\<close> are the types.
\<close>

definition all_wait :: "nat \<Rightarrow> ('v option list \<Rightarrow> 'v option) \<Rightarrow> nat \<Rightarrow> nat \<Rightarrow> (nat \<Rightarrow> nat option) \<Rightarrow> nat list \<Rightarrow> nat
    \<Rightarrow> nat \<Rightarrow> (nat \<times> 'v) list \<Rightarrow> 'v heap \<Rightarrow> bool" where
  "all_wait d pack t rt pt ps k0 m xs h \<longleftrightarrow> d < length (hp_alls h) \<and> t < length (hp_cores h) \<and> t \<notin> set ps
     \<and> hp_alls h ! d = (All_data (length ps) pack t)\<lparr>al_resolved := length xs, al_results := map (map_of xs) ps\<rparr>
     \<and> hp_cores h ! t = Core_init (Some rt) \<and> length (hp_conts h) = k0 + m
     \<and> (\<forall>i < m. i < length ps \<longrightarrow> ct_resolve (hp_conts h ! (k0 + i)) = All_Part d i)
     \<and> (\<forall>i < length ps. ps ! i < length (hp_cores h) \<and> (ps ! i \<notin> fst ` set xs \<longrightarrow>
          (i < m \<longrightarrow> ct_resolveCount (hp_conts h ! (k0 + i)) = 0)
          \<and> hp_cores h ! (ps ! i) = (Core_init (pt (ps ! i)))\<lparr>co_requests := if i < m then [k0 + i] else []\<rparr>))"

lemma all_wait_attach:
  assumes "all_wait d pack t rt pt ps k0 m [] h" "m < length ps" "distinct ps"
  shows "\<exists>n h'. then_promise ty (ps ! m) None (All_Part d m) g h = (n, None, h') \<and> all_wait d pack t rt pt ps k0 (Suc m) [] h'"
proof -
  let ?p = "ps ! m"
  have p: "hp_cores h ! ?p = Core_init (pt ?p)" "?p < length (hp_cores h)" "?p \<noteq> t" "length (hp_conts h) = k0 + m"
    using assms(1,2) nth_mem [OF assms(2)] by (auto simp: all_wait_def Core_init_def)
  have "co_state (hp_cores h ! ?p) = Pending" by (simp add: p Core_init_def)
  note w = then_waits [OF this p(2), of ty None "All_Part d m" g]
  let ?h = "h\<lparr>hp_cores := (hp_cores h)[?p := (hp_cores h ! ?p)\<lparr>co_requests := co_requests (hp_cores h ! ?p) @ [length (hp_conts h)]\<rparr>]
         @ [Core_init None],
       hp_conts := hp_conts h @ [\<lparr>ct_resolve = All_Part d m, ct_reject = g, ct_chain = length (hp_cores h), ct_resolveCount = 0, ct_rejectCount = 0\<rparr>]\<rparr>"
  have "all_wait d pack t rt pt ps k0 (Suc m) [] ?h"
    using assms p by (auto simp: all_wait_def nth_append nth_list_update less_Suc_eq Core_init_def nth_eq_iff_index_eq)
  with w show ?thesis by blast
qed

lemma when_loop_waits:
  assumes "all_wait d pack t rt pt ps k0 m [] h" "m \<le> length ps" "distinct ps"
  shows "\<exists>h'. when_loop ty (All_Part d) g m (drop m ps) h = (None, h') \<and> all_wait d pack t rt pt ps k0 (length ps) [] h'"
  using assms
proof (induction "length ps - m" arbitrary: m h)
  case (Suc j)
  then have m: "m < length ps" by simp
  obtain n h1 where t: "then_promise ty (ps ! m) None (All_Part d m) g h = (n, None, h1)"
    and w: "all_wait d pack t rt pt ps k0 (Suc m) [] h1" using all_wait_attach [OF Suc.prems(1) m assms(3)] by blast
  have "\<exists>h'. when_loop ty (All_Part d) g (Suc m) (drop (Suc m) ps) h1 = (None, h') \<and> all_wait d pack t rt pt ps k0 (length ps) [] h'"
    using Suc.hyps(2) m by (intro Suc.hyps(1) w assms(3)) simp_all
  with t show ?case by (simp add: Cons_nth_drop_Suc [OF m, symmetric])
qed simp

lemma results_update:
  assumes "distinct ps" "i < length ps" "ps ! i \<notin> fst ` set xs"
  shows "(map (map_of xs) ps)[i := Some v] = map (map_of (xs @ [(ps ! i, v)])) ps"
proof -
  have "map_of xs (ps ! i) = None" using assms(3) by (simp add: map_of_eq_None_iff)
  then have "map_of (xs @ [(ps ! i, v)]) p = (if p = ps ! i then Some v else map_of xs p)" for p
    by (simp add: map_of_append map_add_def split: option.split)
  then show ?thesis using assms(1,2) by (intro nth_equalityI) (auto simp: nth_list_update nth_eq_iff_index_eq)
qed

lemma resolve_single:
  assumes "Resolver_call ty p v h = (None, h1, [t])" "in_heap t h1"
  shows "resolve_promise ty p v h =
    (case exec_task ty t h1 of (Some s, h', ts) \<Rightarrow> (Some s, h') | (None, h', ts) \<Rightarrow> work ty ts h')"
  using assms by (auto simp: resolve_promise_def split: prod.split option.split)

text \<open>A part of the combination gets its value.\<close>

lemma all_wait_resolve:
  assumes "all_wait d pack t rt pt ps k0 (length ps) xs h" "distinct ps" "i < length ps" "ps ! i \<notin> fst ` set xs" "pt (ps ! i) = Some (ty v)"
  obtains h2 where "length xs + 1 < length ps \<Longrightarrow> all_wait d pack t rt pt ps k0 (length ps) (xs @ [(ps ! i, v)]) h2"
    and "resolve_promise ty (ps ! i) (Some v) h =
      (if length xs + 1 = length ps
       then (case Resolver_call ty t (pack (map (map_of (xs @ [(ps ! i, v)])) ps)) h2 of
               (Some s, h', ts) \<Rightarrow> (Some s, h') | (None, h', ts) \<Rightarrow> work ty ts h')
       else (None, h2))"
    and "hp_cores h2 ! t = Core_init (Some rt)" "t < length (hp_cores h2)"
proof -
  let ?p = "ps ! i" and ?k = "k0 + i"
  have c: "hp_cores h ! ?p = (Core_init (Some (ty v)))\<lparr>co_requests := [?k]\<rparr>" "?p < length (hp_cores h)" "?k < length (hp_conts h)"
    "ct_resolve (hp_conts h ! ?k) = All_Part d i" "ct_resolveCount (hp_conts h ! ?k) = 0" "?p \<noteq> t"
    "hp_alls h ! d = (All_data (length ps) pack t)\<lparr>al_resolved := length xs, al_results := map (map_of xs) ps\<rparr>" "d < length (hp_alls h)"
    using assms nth_mem [OF assms(3)] by (auto simp: all_wait_def)
  let ?c = "(hp_cores h ! ?p)\<lparr>co_value := Some v, co_state := Fulfilled\<rparr>"
  let ?h1 = "count_run ?k (put_core ?p ?c h)"
  let ?a = "(All_data (length ps) pack t)\<lparr>al_resolved := length xs + 1, al_results := map (map_of (xs @ [(?p, v)])) ps\<rparr>"
  let ?h2 = "put_all d ?a ?h1"
  have r: "Resolver_call ty ?p (Some v) h = (None, put_core ?p ?c h, [Resolve_Task ?k ?p])"
    by (simp add: Resolver_call_def fulfil_def construct_def tell_resolved_def isVoid_def Let_def c(1) Core_init_def)
  have take: "core_take ?c = Inr (Some v)" by (simp add: core_take_def isVoid_def c(1) Core_init_def)
  have "exec_task ty (Resolve_Task ?k ?p) (put_core ?p ?c h) = All_resolveT ty d i (Some v) ?h1"
    using c(2-5) take by (simp add: exec_task.simps Continuable_resolve_def doResolve_def run_resolve_def count_run_def Let_def)
  also have "\<dots> = (if length xs + 1 = length ps then Resolver_call ty t (pack (map (map_of (xs @ [(?p, v)])) ps)) ?h2 else (None, ?h2, []))"
    using results_update [OF assms(2-4)] c(7) by (simp add: All_resolveT_def All_data_def Let_def)
  finally have e: "exec_task ty (Resolve_Task ?k ?p) (put_core ?p ?c h) = \<dots>" .
  have "resolve_promise ty ?p (Some v) h =
      (if length xs + 1 = length ps
       then (case Resolver_call ty t (pack (map (map_of (xs @ [(?p, v)])) ps)) ?h2 of
               (Some s, h', ts) \<Rightarrow> (Some s, h') | (None, h', ts) \<Rightarrow> work ty ts h')
       else (None, ?h2))"
    using resolve_single [OF r] c(3) unfolding e by (simp del: map_of_append)
  moreover have "all_wait d pack t rt pt ps k0 (length ps) (xs @ [(?p, v)]) ?h2"
    using assms(1-3) c(2,3,6,8) by (auto simp: all_wait_def nth_list_update nth_eq_iff_index_eq)
  ultimately show thesis by (intro that [of ?h2]) (auto simp: all_wait_def)
qed

lemma resolve_each_waits:
  assumes "all_wait d pack t rt pt ps k0 (length ps) xs h" "distinct ps" "distinct (map fst (xs @ ys))"
    "fst ` set (xs @ ys) \<subseteq> set ps" "length (xs @ ys) < length ps" "\<forall>(p, v) \<in> set ys. pt p = Some (ty v)"
  shows "\<exists>h'. resolve_each ty ys h = Some h' \<and> all_wait d pack t rt pt ps k0 (length ps) (xs @ ys) h'"
  using assms
proof (induction ys arbitrary: xs h)
  case (Cons y ys)
  obtain p v where y: "y = (p, v)" by fastforce
  then obtain i where i: "i < length ps" "ps ! i = p" using Cons.prems(4) by (auto simp: in_set_conv_nth)
  have f: "ps ! i \<notin> fst ` set xs" "pt (ps ! i) = Some (ty v)" "length xs + 1 < length ps" using Cons.prems(3,5,6) y i by auto
  from all_wait_resolve [where ty = ty and v = v and i = i and pt = pt, OF Cons.prems(1,2) i(1) f(1,2)] f(3) obtain h2 where
    h2: "all_wait d pack t rt pt ps k0 (length ps) (xs @ [(p, v)]) h2" "resolve_promise ty p (Some v) h = (None, h2)"
    unfolding i(2) by (metis less_irrefl)
  have "\<exists>h'. resolve_each ty ys h2 = Some h' \<and> all_wait d pack t rt pt ps k0 (length ps) ((xs @ [(p, v)]) @ ys) h'"
    using Cons.prems y by (intro Cons.IH h2(1)) auto
  with h2(2) y show ?case by simp
qed simp

lemma whenAll_waits:
  assumes "whenAll ty ranged (Some rt) pack ps h = (t, s, h1)" "distinct ps"
    and "\<forall>p \<in> set ps. p < length (hp_cores h) \<and> hp_cores h ! p = Core_init (pt p)"
  shows "s = None \<and> all_wait (length (hp_alls h)) pack t rt pt ps (length (hp_conts h)) (length ps) [] h1"
proof -
  let ?d = "length (hp_alls h)" and ?t = "length (hp_cores h)"
  let ?h = "h\<lparr>hp_cores := hp_cores h @ [Core_init (Some rt)], hp_alls := hp_alls h @ [All_data (length ps) pack ?t]\<rparr>"
  have nth: "\<forall>i < length ps. ps ! i < length (hp_cores h) \<and> hp_cores h ! (ps ! i) = Core_init (pt (ps ! i))"
    using assms(3) by simp
  have "?t \<notin> set ps" using assms(3) by auto
  then have "all_wait ?d pack ?t rt pt ps (length (hp_conts h)) 0 [] ?h"
    using nth by (simp add: all_wait_def nth_append All_data_def Core_init_def map_replicate_const less_SucI)
  from when_loop_waits [OF this _ assms(2)] obtain h' where
    "when_loop ty (All_Part ?d) (if ranged then Reject_Range ?d else Reject_All ?d) 0 ps ?h = (None, h')"
    "all_wait ?d pack ?t rt pt ps (length (hp_conts h)) (length ps) [] h'" by fastforce
  then show ?thesis using assms(1) by (cases ranged) (auto simp: whenAll_def Promise_new_def Let_def)
qed

text \<open>
  C20: \<open>whenAll\<close>, with a list of promises or a range, of distinct pending promises with results that
  nobody has chained anything to.  The call does not throw.  When the promises are fulfilled in any order,
  the combined promise is pending until the last of them, then it is fulfilled, and its value is made
  of all the values in the order of the arguments.  None of the resolvers throws.
\<close>

theorem whenAll_any_order:
  assumes "whenAll ty ranged (Some (ty w)) pack ps h = (t, s, h1)" "distinct ps" "ps \<noteq> []"
    and "distinct (map fst xs)" "fst ` set xs = set ps"
    and "\<forall>(p, v) \<in> set xs. p < length (hp_cores h) \<and> hp_cores h ! p = Core_init (Some (ty v))"
    and "pack (map (map_of xs) ps) = Some w"
  shows "s = None
    \<and> (\<exists>h'. resolve_each ty xs h1 = Some h' \<and> co_state (hp_cores h' ! t) = Fulfilled \<and> co_value (hp_cores h' ! t) = Some w)
    \<and> (\<forall>ys z zs. xs = ys @ z # zs \<longrightarrow> (\<exists>h'. resolve_each ty ys h1 = Some h' \<and> co_state (hp_cores h' ! t) = Pending))"
proof -
  define pt where "pt p = co_type (hp_cores h ! p)" for p
  have pt: "\<forall>(p, v) \<in> set xs. pt p = Some (ty v)" using assms(6) by (auto simp: pt_def Core_init_def)
  have "\<forall>p \<in> set ps. p < length (hp_cores h) \<and> hp_cores h ! p = Core_init (pt p)"
    using assms(6) by (fastforce simp: pt_def Core_init_def assms(5) [symmetric])
  from whenAll_waits [OF assms(1,2) this] have s: "s = None"
    and w: "all_wait (length (hp_alls h)) pack t (ty w) pt ps (length (hp_conts h)) (length ps) [] h1" by simp_all
  have len: "length xs = length ps" using assms(2,4,5) by (metis distinct_card length_map list.set_map)
  have before: "\<exists>h'. resolve_each ty ys h1 = Some h' \<and> all_wait (length (hp_alls h)) pack t (ty w) pt ps (length (hp_conts h)) (length ps) ys h'"
    if "xs = ys @ z # zs" for ys z zs
    using resolve_each_waits [OF w assms(2), of ys ty] that assms(4,5) len pt by auto
  have "xs \<noteq> []" using len assms(3) by auto
  then obtain ys p v where xs: "xs = ys @ [(p, v)]" by (metis rev_exhaust prod.exhaust)
  from before [of ys "(p, v)" "[]"] xs obtain h2 where h2: "resolve_each ty ys h1 = Some h2"
    "all_wait (length (hp_alls h)) pack t (ty w) pt ps (length (hp_conts h)) (length ps) ys h2" by auto
  have "p \<in> set ps" using assms(5) by (auto simp: xs)
  then obtain i where i: "i < length ps" "ps ! i = p" by (auto simp: in_set_conv_nth)
  have f: "ps ! i \<notin> fst ` set ys" "pt (ps ! i) = Some (ty v)" "length ys + 1 = length ps" using assms(4) pt len i by (auto simp: xs)
  from all_wait_resolve [where ty = ty and v = v and i = i and pt = pt, OF h2(2) assms(2) i(1) f(1,2)] obtain h3 where
    r: "resolve_promise ty p (Some v) h2 = (case Resolver_call ty t (Some w) h3 of (Some s, h', ts) \<Rightarrow> (Some s, h') | (None, h', ts) \<Rightarrow> work ty ts h')"
    "hp_cores h3 ! t = Core_init (Some (ty w))" "t < length (hp_cores h3)"
    using f(3) assms(7) unfolding i(2) xs by (metis (no_types, lifting))
  have "Resolver_call ty t (Some w) h3 = (None, put_core t ((Core_init (Some (ty w)))\<lparr>co_value := Some w, co_state := Fulfilled\<rparr>) h3, [])"
    by (simp add: Resolver_call_def fulfil_def construct_def tell_resolved_def isVoid_def Let_def r(2) Core_init_def)
  then have "\<exists>h'. resolve_each ty xs h1 = Some h' \<and> co_state (hp_cores h' ! t) = Fulfilled \<and> co_value (hp_cores h' ! t) = Some w"
    using h2(1) r by (simp add: xs resolve_each_append)
  moreover have "\<exists>h'. resolve_each ty ys h1 = Some h' \<and> co_state (hp_cores h' ! t) = Pending" if "xs = ys @ z # zs" for ys z zs
    using before [OF that] by (auto simp: all_wait_def Core_init_def)
  ultimately show ?thesis using s by blast
qed

text \<open>Two numbers, the second of which arrives first.\<close>

theorem whenAll_any_order_witness:
  "\<exists>h'. resolve_each (\<lambda>_. 1) [(1, 40), (0, 2)]
      (snd (snd (whenAll (\<lambda>_. 1) False (Some 1) (\<lambda>rs. Some (the (rs ! 0) * 100 + the (rs ! 1))) [0, 1]
        ((empty_heap :: nat heap)\<lparr>hp_cores := [Core_init (Some 1), Core_init (Some 1)]\<rparr>)))) = Some h'
    \<and> co_value (hp_cores h' ! 2) = Some 240"
proof -
  let ?pack = "\<lambda>rs. Some (the (rs ! 0) * 100 + the (rs ! 1)) :: nat option"
  let ?h = "(empty_heap :: nat heap)\<lparr>hp_cores := [Core_init (Some 1), Core_init (Some 1)]\<rparr>"
  obtain t s h1 where w: "whenAll (\<lambda>_. 1) False (Some ((\<lambda>_. 1) (240 :: nat))) ?pack [0, 1] ?h = (t, s, h1)" by (rule prod_cases3)
  then have t: "t = 2" by (auto simp: whenAll_def Promise_new_def Let_def)
  have x: "distinct [0, 1::nat]" "[0, 1::nat] \<noteq> []" "distinct (map fst [(1::nat, 40::nat), (0, 2)])"
    "fst ` set [(1::nat, 40::nat), (0, 2)] = set [0, 1]"
    "\<forall>(p, v) \<in> set [(1::nat, 40::nat), (0, 2)]. p < length (hp_cores ?h) \<and> hp_cores ?h ! p = Core_init (Some ((\<lambda>_. 1) v))" by auto
  have p: "?pack (map (map_of [(1::nat, 40::nat), (0, 2)]) [0, 1]) = Some 240" by simp
  have h1: "h1 = snd (snd (whenAll (\<lambda>_. 1) False (Some 1) ?pack [0, 1] ?h))" using w by simp
  from whenAll_any_order [OF w x p] show ?thesis unfolding t h1 [symmetric] by blast
qed


subsection \<open>Rejections\<close>

lemma Rejection_settles:
  assumes "Rejection_call t e h = (None, h', ts)" "t < length (hp_cores h)"
  shows "co_state (hp_cores h' ! t) = Rejected"
  using assms by (auto simp: Rejection_call_def reject_chain_def reject_with_def split: if_splits)

text \<open>
  The second of two promises of a \<open>whenAll\<close> that are rejected gets an exception out of its rejection,
  and so does a promise of a \<open>whenAny\<close> that is rejected after another one has been fulfilled.
\<close>

lemma all_second_rejection_throws:
  assumes "All_reject d e h = (None, h1, ts)" "d < length (hp_alls h)" "al_target (hp_alls h ! d) < length (hp_cores h)"
  shows "fst (All_reject d e2 h1) = Some (Threw (Runtime_Error ''Attempt to reject a fulfilled promise''))"
proof -
  let ?a = "(hp_alls h ! d)\<lparr>al_rejected := True\<rparr>" and ?t = "al_target (hp_alls h ! d)"
  have r: "Rejection_call ?t e (put_all d ?a h) = (None, h1, ts)" using assms(1) by (simp add: All_reject_def Let_def)
  have "co_state (hp_cores h1 ! ?t) = Rejected" by (rule Rejection_settles [OF r]) (simp add: assms(3))
  moreover have "hp_alls h1 ! d = ?a" using r assms(2)
    by (auto simp: Rejection_call_def reject_chain_def split: if_splits)
  ultimately show ?thesis by (simp add: All_reject_def Rejection_call_def Let_def)
qed

lemma any_late_rejection_throws:
  assumes "Any_resolveT ty d v h = (None, h1, ts)" "\<not> an_done (hp_anys h ! d)" "an_target (hp_anys h ! d) < length (hp_cores h)"
  shows "fst (Any_reject d e h1) = Some (Threw (Runtime_Error ''Attempt to reject a fulfilled promise''))"
proof -
  let ?t = "an_target (hp_anys h ! d)"
  obtain ts' where r: "Resolver_call ty ?t (Some (an_pack (hp_anys h ! d) v)) h = (None, h1, ts')"
    using assms(1,2) by (auto simp: Any_resolveT_def Let_def split: prod.splits option.splits)
  then have "co_state (hp_cores h1 ! ?t) = Fulfilled" "hp_anys h1 = hp_anys h"
    using assms(3) by (auto simp: Resolver_call_def fulfil_def construct_def put_core_def Let_def split: if_splits sum.splits)
  then show ?thesis by (simp add: Any_reject_def Rejection_call_def Let_def)
qed

text \<open>The combination of no promises at all is never settled, and nor is the promise of a callback without a result.\<close>

lemma empty_range_pending:
  "whenAll ty True rt pack [] h = (t, s, h') \<Longrightarrow> s = None \<and> isPending t h'"
  by (auto simp: whenAll_def Promise_new_def isPending_def Let_def nth_append Core_init_def)

lemma void_callback_pending:
  assumes "co_state (hp_cores h ! p) = Fulfilled" "p < length (hp_cores h)" "core_take (hp_cores h ! p) = Inr v" "f v = None"
  shows "\<exists>h'. then_promise ty p None (Returns_Void f) g h = (length (hp_cores h), None, h')
    \<and> isPending (length (hp_cores h)) h'"
proof -
  let ?n = "length (hp_cores h)" and ?k = "length (hp_conts h)"
  let ?ct = "\<lparr>ct_resolve = Returns_Void f, ct_reject = g, ct_chain = ?n, ct_resolveCount = 0, ct_rejectCount = 0\<rparr>"
  let ?h = "h\<lparr>hp_cores := (hp_cores h)[p := (hp_cores h ! p)\<lparr>co_requests := co_requests (hp_cores h ! p) @ [?k]\<rparr>]
      @ [Core_init None], hp_conts := hp_conts h @ [?ct]\<rparr>"
  have a: "attach p None (Returns_Void f) g h = (?n, ?h, [Resolve_Task ?k p])"
    using assms(1,2) by (simp add: attach_def Promise_new_def Let_def nth_append put_core_def list_update_append)
  have take: "core_take (hp_cores ?h ! p) = Inr v"
    using assms(2,3) by (simp add: core_take_def isVoid_def nth_append split: if_splits)
  have "exec_task ty (Resolve_Task ?k p) ?h = (None, count_run ?k ?h, [])"
    using take assms(4) by (simp add: exec_task.simps Continuable_resolve_def Let_def doResolve_def run_resolve_def count_run_def)
  then show ?thesis by (simp add: then_promise_def a isPending_def nth_append Core_init_def)
qed

end
