(* ===== verification/Server_Transport.thy ===== *)
theory Server_Transport
  imports Byte_Buffers Timer_Pool
begin

text \<open>
  The transport of the server (transport.cc) and its peers (peer.cc): the queue of writes that any
  thread fills, the writes that wait for each socket, the loop that sends them with partial writes
  and retries, the loop that receives, the peers and the timers.  What a system call returns is an
  argument; what happens outside (bytes put on a socket, promises settled, calls of the handler) is
  a list of events.  A peer and a promise are named by a number.  The sockets are without TLS.
\<close>

section \<open>State\<close>

datatype buffer_holder =
    Raw_Holder raw_buffer
  | File_Holder nat nat nat

fun holder_size :: "buffer_holder \<Rightarrow> nat" where
  "holder_size (Raw_Holder b) = rb_length b"
| "holder_size (File_Holder file sz off) = sz"

fun holder_offset :: "buffer_holder \<Rightarrow> nat" where
  "holder_offset (Raw_Holder b) = 0"
| "holder_offset (File_Holder file sz off) = off"

fun isFile :: "buffer_holder \<Rightarrow> bool" where
  "isFile (Raw_Holder b) = False"
| "isFile (File_Holder file sz off) = True"

fun detach :: "nat \<Rightarrow> buffer_holder \<Rightarrow> buffer_holder result" where
  "detach off (Raw_Holder b) = map_sum id Raw_Holder (raw_copy b off)"
| "detach off (File_Holder file sz off0) = Inr (File_Holder file sz off)"

text \<open>What a holder stands for, given the contents of the files.\<close>

fun holder_content :: "(nat \<Rightarrow> string) \<Rightarrow> buffer_holder \<Rightarrow> string" where
  "holder_content files (Raw_Holder b) = rb_data b"
| "holder_content files (File_Holder file sz off) = take sz (files file)"

record write_entry =
  we_deferred :: nat
  we_buffer :: buffer_holder
  we_flags :: int
  we_peerFd :: "nat option"

record srv_timer =
  st_fd :: nat
  st_value :: int
  st_deferred :: nat
  st_active :: bool

record peer =
  pr_fd :: "nat option"
  pr_transport :: bool
  pr_idle :: bool
  pr_data :: "(string \<times> nat) list"

record srv_transport =
  sv_writesQueue :: "write_entry list"
  sv_toWrite :: "(nat \<times> write_entry list) list"
  sv_timersQueue :: "srv_timer list"
  sv_timers :: "(nat \<times> srv_timer) list"
  sv_peersQueue :: "nat list"
  sv_peers :: "(nat \<times> nat) list"

definition Server_init :: srv_transport where
  "Server_init = \<lparr>sv_writesQueue = [], sv_toWrite = [], sv_timersQueue = [], sv_timers = [], sv_peersQueue = [], sv_peers = []\<rparr>"

datatype srv_event =
    Wire nat string
  | Write_Resolved nat nat nat
  | Write_Rejected nat nat string
  | Timer_Resolved nat nat
  | Timer_Rejected nat string
  | On_Input nat string
  | On_Connection nat
  | On_Disconnection nat
  | Closed nat

section \<open>Writing\<close>

text \<open>The promise of \<open>asyncWrite\<close>: the write is queued, whatever the thread.\<close>

definition asyncWrite :: "nat \<Rightarrow> nat option \<Rightarrow> buffer_holder \<Rightarrow> int \<Rightarrow> srv_transport \<Rightarrow> srv_transport" where
  "asyncWrite deferred fd buffer flags t =
     t\<lparr>sv_writesQueue := sv_writesQueue t
        @ [\<lparr>we_deferred = deferred, we_buffer = buffer, we_flags = flags, we_peerFd = fd\<rparr>]\<rparr>"

text \<open>
  The answers of \<open>send\<close> and \<open>sendfile\<close>: so many bytes (never more than asked for), try again, the
  peer is gone (\<open>EBADF\<close>, \<open>EPIPE\<close>, \<open>ECONNRESET\<close>), any other error.
\<close>

datatype write_answer = Accepts nat | Try_Again | Peer_Gone | Write_Error

datatype write_end = W_Done | W_Again | W_Gone | W_Error

text \<open>The inner loop; \<open>None\<close> when it asks for more answers than there are.\<close>

fun write_loop :: "write_answer list \<Rightarrow> nat \<Rightarrow> nat \<Rightarrow> (write_end \<times> nat \<times> write_answer list) option" where
  "write_loop [] sz totalWritten = None"
| "write_loop (Accepts n # as) sz totalWritten =
     (let totalWritten' = totalWritten + min n (sz - totalWritten)
      in if totalWritten' \<ge> sz then Some (W_Done, totalWritten', as) else write_loop as sz totalWritten')"
| "write_loop (Try_Again # as) sz totalWritten = Some (W_Again, totalWritten, as)"
| "write_loop (Peer_Gone # as) sz totalWritten = Some (W_Gone, totalWritten, as)"
| "write_loop (Write_Error # as) sz totalWritten = Some (W_Error, totalWritten, as)"

text \<open>
  The outer loop over the writes of one socket: the events, what is left for the socket (\<open>None\<close> when
  its entry has been erased), and the answers left.
\<close>

fun drain :: "(nat \<Rightarrow> string) \<Rightarrow> nat \<Rightarrow> write_answer list \<Rightarrow> write_entry list
    \<Rightarrow> (srv_event list \<times> write_entry list option \<times> write_answer list) option" where
  "drain files fd as [] = Some ([], Some [], as)"
| "drain files fd as (e # es) =
     (let h = we_buffer e
      in case write_loop as (holder_size h) (holder_offset h) of
           None \<Rightarrow> None
         | Some (r, n, as') \<Rightarrow>
             let sent = Wire fd (drop (holder_offset h) (take n (holder_content files h)));
                 on = (\<lambda>ev. if es = [] then Some (ev, None, as')
                            else map_option (\<lambda>(ev', wq, as''). (ev @ ev', wq, as'')) (drain files fd as' es))
             in case r of
                  W_Done \<Rightarrow> on [sent, Write_Resolved fd (we_deferred e) n]
                | W_Error \<Rightarrow> on [sent, Write_Rejected fd (we_deferred e) ''Could not write data'']
                | W_Gone \<Rightarrow> Some ([sent], None, as')
                | W_Again \<Rightarrow>
                    (case detach n h of
                       Inl ex \<Rightarrow> None
                     | Inr h' \<Rightarrow> Some ([sent], Some (e\<lparr>we_buffer := h'\<rparr> # es), as')))"

definition asyncWriteImpl :: "(nat \<Rightarrow> string) \<Rightarrow> nat \<Rightarrow> write_answer list \<Rightarrow> srv_transport
    \<Rightarrow> (srv_event list \<times> srv_transport \<times> write_answer list) option" where
  "asyncWriteImpl files fd as t =
     (case um_find (=) (sv_toWrite t) fd of
        None \<Rightarrow> Some ([], t, as)
      | Some wq \<Rightarrow>
          map_option (\<lambda>(ev, r, as').
              (ev, t\<lparr>sv_toWrite := (case r of None \<Rightarrow> um_erase (=) fd (sv_toWrite t) | Some wq' \<Rightarrow> um_assign (=) fd wq' (sv_toWrite t))\<rparr>, as'))
            (drain files fd as wq))"

definition isPeerFd :: "nat \<Rightarrow> srv_transport \<Rightarrow> bool" where
  "isPeerFd fd t \<longleftrightarrow> um_find (=) (sv_peers t) fd \<noteq> None"

definition isTimerFd :: "nat \<Rightarrow> srv_transport \<Rightarrow> bool" where
  "isTimerFd fd t \<longleftrightarrow> um_find (=) (sv_timers t) fd \<noteq> None"

definition getPeer :: "nat \<Rightarrow> srv_transport \<Rightarrow> nat result" where
  "getPeer fd t =
     (case um_find (=) (sv_peers t) fd of
        None \<Rightarrow> Inl (Runtime_Error (''No peer found for fd: '' @ dec_str fd)) | Some p \<Rightarrow> Inr p)"

definition push_write :: "nat \<Rightarrow> write_entry \<Rightarrow> srv_transport \<Rightarrow> srv_transport" where
  "push_write fd w t =
     t\<lparr>sv_toWrite := um_assign (=) fd
        ((case um_find (=) (sv_toWrite t) fd of None \<Rightarrow> [] | Some wq \<Rightarrow> wq) @ [w]) (sv_toWrite t)\<rparr>"

fun write_queue_loop :: "(nat \<Rightarrow> string) \<Rightarrow> bool \<Rightarrow> write_answer list \<Rightarrow> write_entry list \<Rightarrow> srv_transport
    \<Rightarrow> (srv_event list \<times> srv_transport \<times> write_answer list) option" where
  "write_queue_loop files flush as [] t = Some ([], t\<lparr>sv_writesQueue := []\<rparr>, as)"
| "write_queue_loop files flush as (w # ws) t =
     (case we_peerFd w of
        None \<Rightarrow> write_queue_loop files flush as ws t
      | Some fd \<Rightarrow>
          if \<not> isPeerFd fd t then write_queue_loop files flush as ws t
          else
            let t' = push_write fd w t
            in if flush then
                 (case asyncWriteImpl files fd as t' of
                    None \<Rightarrow> None
                  | Some (ev, t'', as') \<Rightarrow>
                      map_option (\<lambda>(ev', r). (ev @ ev', r)) (write_queue_loop files flush as' ws t''))
               else write_queue_loop files flush as ws t')"

definition handleWriteQueue :: "(nat \<Rightarrow> string) \<Rightarrow> bool \<Rightarrow> write_answer list \<Rightarrow> srv_transport
    \<Rightarrow> (srv_event list \<times> srv_transport \<times> write_answer list) option" where
  "handleWriteQueue files flush as t = write_queue_loop files flush as (sv_writesQueue t) t"

section \<open>Peers\<close>

definition handlePeer :: "nat \<Rightarrow> peer \<Rightarrow> srv_transport \<Rightarrow> srv_event list \<times> peer \<times> srv_transport" where
  "handlePeer p pr t =
     (case pr_fd pr of
        None \<Rightarrow> ([], pr, t)
      | Some fd \<Rightarrow> ([On_Connection p], pr\<lparr>pr_transport := True\<rparr>, t\<lparr>sv_peers := um_insert (=) fd p (sv_peers t)\<rparr>))"

definition handleNewPeer :: "bool \<Rightarrow> nat \<Rightarrow> peer \<Rightarrow> srv_transport \<Rightarrow> srv_event list \<times> peer \<times> srv_transport" where
  "handleNewPeer right_thread p pr t =
     (let (ev, pr', t') = (if right_thread then handlePeer p pr t else ([], pr, t\<lparr>sv_peersQueue := sv_peersQueue t @ [p]\<rparr>))
      in (ev, pr', case pr_fd pr' of None \<Rightarrow> t' | Some fd \<Rightarrow> t'\<lparr>sv_toWrite := um_insert (=) fd [] (sv_toWrite t')\<rparr>))"

definition closeFd :: "nat \<Rightarrow> srv_transport \<Rightarrow> srv_event list \<times> srv_transport" where
  "closeFd fd t = ([Closed fd], t\<lparr>sv_toWrite := um_erase (=) fd (sv_toWrite t)\<rparr>)"

definition Peer_closeFd :: "peer \<Rightarrow> srv_transport \<Rightarrow> srv_event list \<times> peer \<times> srv_transport" where
  "Peer_closeFd pr t =
     (case pr_fd pr of
        None \<Rightarrow> ([], pr, t)
      | Some fd \<Rightarrow>
          let (ev, t') = (if pr_transport pr then closeFd fd t else ([Closed fd], t))
          in (ev, pr\<lparr>pr_fd := None\<rparr>, t'))"

definition removePeer :: "peer \<Rightarrow> srv_transport \<Rightarrow> srv_event list \<times> peer \<times> srv_transport" where
  "removePeer pr t =
     (case pr_fd pr of
        None \<Rightarrow> ([], pr, t)
      | Some fd \<Rightarrow> Peer_closeFd pr (t\<lparr>sv_peers := um_erase (=) fd (sv_peers t)\<rparr>))"

definition handlePeerDisconnection :: "nat \<Rightarrow> peer \<Rightarrow> srv_transport \<Rightarrow> srv_event list \<times> peer \<times> srv_transport" where
  "handlePeerDisconnection p pr t =
     (case removePeer pr t of (ev, pr', t') \<Rightarrow> (On_Disconnection p # ev, pr', t'))"

text \<open>A peer without a transport throws a \<open>std::logic_error\<close>, of which only the message is kept.\<close>

definition Peer_send :: "nat \<Rightarrow> raw_buffer \<Rightarrow> int \<Rightarrow> peer \<Rightarrow> srv_transport \<Rightarrow> string + srv_transport" where
  "Peer_send deferred buffer flags pr t =
     (if \<not> pr_transport pr then Inl ''Orphaned peer''
      else Inr (asyncWrite deferred (pr_fd pr) (Raw_Holder buffer) flags t))"

definition putData :: "string \<Rightarrow> nat \<Rightarrow> peer \<Rightarrow> peer result" where
  "putData name d pr =
     (if um_find (=) (pr_data pr) name \<noteq> None then Inl (Runtime_Error ''The data already exists'')
      else Inr (pr\<lparr>pr_data := um_insert (=) name d (pr_data pr)\<rparr>))"

definition tryGetData :: "string \<Rightarrow> peer \<Rightarrow> nat option" where
  "tryGetData name pr = um_find (=) (pr_data pr) name"

definition getData :: "string \<Rightarrow> peer \<Rightarrow> nat result" where
  "getData name pr =
     (case tryGetData name pr of None \<Rightarrow> Inl (Runtime_Error ''The data does not exist'') | Some d \<Rightarrow> Inr d)"

section \<open>Receiving\<close>

datatype read_answer = Read_Bytes string | Read_Again | Read_Error | Read_End

text \<open>The loop: what the handler is given, and whether it ends with a disconnection.\<close>

fun read_loop :: "read_answer list \<Rightarrow> nat \<Rightarrow> (srv_event list \<times> bool) option" where
  "read_loop [] p = None"
| "read_loop (Read_Bytes bytes # as) p = map_option (\<lambda>(ev, d). (On_Input p bytes # ev, d)) (read_loop as p)"
| "read_loop (Read_Again # as) p = Some ([], False)"
| "read_loop (Read_Error # as) p = Some ([], True)"
| "read_loop (Read_End # as) p = Some ([], True)"

definition Server_handleIncoming :: "read_answer list \<Rightarrow> nat \<Rightarrow> peer \<Rightarrow> srv_transport
    \<Rightarrow> (srv_event list \<times> peer \<times> srv_transport) option" where
  "Server_handleIncoming as p pr t =
     (if pr_fd pr = None then Some ([], pr, t)
      else case read_loop as p of
             None \<Rightarrow> None
           | Some (ev, d) \<Rightarrow>
               Some (if d then (case handlePeerDisconnection p pr t of (ev', r) \<Rightarrow> (ev @ ev', r)) else (ev, pr, t)))"

section \<open>Timers\<close>

definition armTimerMsImpl :: "srv_timer \<Rightarrow> srv_transport \<Rightarrow> srv_event list \<times> srv_transport" where
  "armTimerMsImpl e t =
     (if isTimerFd (st_fd e) t then ([Timer_Rejected (st_deferred e) ''Timer is already armed''], t)
      else if \<not> valid_spec (arm_spec (st_value e)) then ([Timer_Rejected (st_deferred e) ''Could not set timer time''], t)
      else ([], t\<lparr>sv_timers := um_insert (=) (st_fd e) e (sv_timers t)\<rparr>))"

definition armTimerMs :: "bool \<Rightarrow> nat \<Rightarrow> int \<Rightarrow> nat \<Rightarrow> srv_transport \<Rightarrow> srv_event list \<times> srv_transport" where
  "armTimerMs right_thread fd v deferred t =
     (let e = \<lparr>st_fd = fd, st_value = v, st_deferred = deferred, st_active = True\<rparr>
      in if right_thread then armTimerMsImpl e t else ([], t\<lparr>sv_timersQueue := sv_timersQueue t @ [e]\<rparr>))"

fun timer_queue_loop :: "srv_timer list \<Rightarrow> srv_transport \<Rightarrow> srv_event list \<times> srv_transport" where
  "timer_queue_loop [] t = ([], t\<lparr>sv_timersQueue := []\<rparr>)"
| "timer_queue_loop (e # es) t =
     (case armTimerMsImpl e t of (ev, t') \<Rightarrow> case timer_queue_loop es t' of (ev', t'') \<Rightarrow> (ev @ ev', t''))"

definition handleTimerQueue :: "srv_transport \<Rightarrow> srv_event list \<times> srv_transport" where
  "handleTimerQueue t = timer_queue_loop (sv_timersQueue t) t"

definition disarmTimer :: "nat \<Rightarrow> srv_transport \<Rightarrow> srv_transport result" where
  "disarmTimer fd t =
     (case um_find (=) (sv_timers t) fd of
        None \<Rightarrow> Inl (Runtime_Error ''Timer has not been armed'')
      | Some e \<Rightarrow> Inr (t\<lparr>sv_timers := um_assign (=) fd (e\<lparr>st_active := False\<rparr>) (sv_timers t)\<rparr>))"

datatype timer_read = Wakeups nat | Timer_Again | Timer_Failed | Timer_Short

definition handleTimer :: "timer_read \<Rightarrow> srv_timer \<Rightarrow> srv_event list" where
  "handleTimer r e =
     (if \<not> st_active e then []
      else case r of
        Wakeups n \<Rightarrow> [Timer_Resolved (st_deferred e) n]
      | Timer_Again \<Rightarrow> []
      | Timer_Failed \<Rightarrow> [Timer_Rejected (st_deferred e) ''Could not read timerfd'']
      | Timer_Short \<Rightarrow> [Timer_Rejected (st_deferred e)
          (''Read invalid number of bytes for timer fd: '' @ dec_str (st_fd e))])"

text \<open>A readable timer of \<open>onReady\<close>.\<close>

definition readable_timer :: "timer_read \<Rightarrow> nat \<Rightarrow> srv_transport \<Rightarrow> srv_event list \<times> srv_transport" where
  "readable_timer r fd t =
     (case um_find (=) (sv_timers t) fd of
        None \<Rightarrow> ([], t)
      | Some e \<Rightarrow> (handleTimer r e, t\<lparr>sv_timers := um_erase (=) fd (sv_timers t)\<rparr>))"

end
