(* ===== verification/Server_Writes.thy ===== *)
theory Server_Writes
  imports Server_Transport
begin

text \<open>
  Whatever threads write and however the sockets take it, the bytes of a peer's writes reach its
  socket in the order of the writes, none lost and none twice, and the promise of a write is settled
  when its last byte has been taken.  What a peer sends reaches the handler, and a peer that has
  gone is forgotten and closed once.
\<close>

section \<open>What is on the wire and what waits\<close>

fun wire_of :: "nat \<Rightarrow> srv_event list \<Rightarrow> string" where
  "wire_of fd [] = []"
| "wire_of fd (Wire f bytes # ev) = (if f = fd then bytes else []) @ wire_of fd ev"
| "wire_of fd (_ # ev) = wire_of fd ev"

fun resolved_of :: "nat \<Rightarrow> srv_event list \<Rightarrow> nat list" where
  "resolved_of fd [] = []"
| "resolved_of fd (Write_Resolved f d n # ev) = (if f = fd then [d] else []) @ resolved_of fd ev"
| "resolved_of fd (_ # ev) = resolved_of fd ev"

lemma wire_of_append [simp]: "wire_of fd (a @ b) = wire_of fd a @ wire_of fd b"
  by (induction fd a rule: wire_of.induct) simp_all

lemma resolved_of_append [simp]: "resolved_of fd (a @ b) = resolved_of fd a @ resolved_of fd b"
  by (induction fd a rule: resolved_of.induct) simp_all

text \<open>What a write has left to send.\<close>

definition left_bytes :: "(nat \<Rightarrow> string) \<Rightarrow> write_entry list \<Rightarrow> string" where
  "left_bytes files ws = concat (map (\<lambda>w. drop (holder_offset (we_buffer w)) (holder_content files (we_buffer w))) ws)"

definition ids :: "write_entry list \<Rightarrow> nat list" where
  "ids ws = map we_deferred ws"

lemma left_bytes_simps [simp]:
  "left_bytes files [] = []" "left_bytes files (a @ b) = left_bytes files a @ left_bytes files b"
  "left_bytes files (w # ws) = drop (holder_offset (we_buffer w)) (holder_content files (we_buffer w)) @ left_bytes files ws"
  by (simp_all add: left_bytes_def)

lemma ids_simps [simp]: "ids [] = []" "ids (a @ b) = ids a @ ids b" "ids (w # ws) = we_deferred w # ids ws"
  by (simp_all add: ids_def)

fun holder_ok :: "buffer_holder \<Rightarrow> bool" where
  "holder_ok (Raw_Holder b) \<longleftrightarrow> rb_length b = length (rb_data b)"
| "holder_ok (File_Holder file sz off) \<longleftrightarrow> off \<le> sz"

fun soft :: "write_answer \<Rightarrow> bool" where
  "soft (Accepts n) = True"
| "soft Try_Again = True"
| "soft _ = False"

lemma write_loop_soft:
  assumes "write_loop as sz m = Some (r, n, as')" "\<forall>a \<in> set as. soft a" "m \<le> sz"
  shows "m \<le> n \<and> n \<le> sz \<and> (\<forall>a \<in> set as'. soft a) \<and> (r = W_Done \<and> n = sz \<or> r = W_Again)"
  using assms
proof (induction as sz m rule: write_loop.induct)
  case (2 k as sz m)
  let ?m = "m + min k (sz - m)"
  have "m \<le> ?m" "?m \<le> sz" using 2(4) by auto
  then show ?case using 2 by (fastforce simp: Let_def split: if_splits)
qed auto

lemma holder_size_content: "holder_ok h \<Longrightarrow> take (holder_size h) (holder_content files h) = holder_content files h"
  by (cases h) auto

lemma offset_le_size: "holder_ok h \<Longrightarrow> holder_offset h \<le> holder_size h"
  by (cases h) auto

lemma detach_ok:
  assumes "holder_ok h" "holder_offset h \<le> n" "n \<le> holder_size h"
  shows "\<exists>h'. detach n h = Inr h' \<and> holder_ok h'
    \<and> drop (holder_offset h') (holder_content files h') = drop n (holder_content files h)"
proof (cases h)
  case (Raw_Holder b)
  then show ?thesis using assms by (cases "rb_data b = []") (auto simp: raw_copy_def RawBuffer_def substr_def)
next
  case (File_Holder f sz off)
  then show ?thesis using assms by simp
qed

lemma drop_take_drop: "a \<le> n \<Longrightarrow> drop a (take n xs) @ drop n xs = drop a xs"
  by (metis append_take_drop_id drop_append drop_drop drop_take le_add_diff_inverse2 take_drop)

lemma drain_soft:
  assumes "drain files fd as es = Some (ev, r, as')" "\<forall>a \<in> set as. soft a" "\<forall>e \<in> set es. holder_ok (we_buffer e)"
  shows "wire_of fd ev @ left_bytes files (case r of None \<Rightarrow> [] | Some q \<Rightarrow> q) = left_bytes files es
    \<and> resolved_of fd ev @ ids (case r of None \<Rightarrow> [] | Some q \<Rightarrow> q) = ids es
    \<and> (\<forall>e \<in> set (case r of None \<Rightarrow> [] | Some q \<Rightarrow> q). holder_ok (we_buffer e)) \<and> (\<forall>a \<in> set as'. soft a)"
  using assms
proof (induction es arbitrary: as ev r as')
  case (Cons e es)
  let ?h = "we_buffer e"
  obtain x n as1 where w: "write_loop as (holder_size ?h) (holder_offset ?h) = Some (x, n, as1)"
    using Cons.prems(1) by (auto simp: Let_def split: option.splits prod.splits)
  have h: "holder_ok ?h" using Cons.prems(3) by simp
  note ws = write_loop_soft [OF w Cons.prems(2) offset_le_size [OF h]]
  show ?case
  proof (cases "x = W_Again")
    case True
    from detach_ok [OF h, of n files] ws obtain h' where h': "detach n ?h = Inr h'" "holder_ok h'"
      "drop (holder_offset h') (holder_content files h') = drop n (holder_content files ?h)" by auto
    have "ev = [Wire fd (drop (holder_offset ?h) (take n (holder_content files ?h)))]"
      "r = Some (e\<lparr>we_buffer := h'\<rparr> # es)" "as' = as1"
      using Cons.prems(1) True w h'(1) by (auto simp: Let_def)
    then show ?thesis using ws h'(2,3) Cons.prems(3) drop_take_drop [of "holder_offset ?h" n "holder_content files ?h"]
      by simp
  next
    case False
    then have x: "x = W_Done" "n = holder_size ?h" using ws by auto
    have full: "take n (holder_content files ?h) = holder_content files ?h" using holder_size_content [OF h] x(2) by simp
    show ?thesis
    proof (cases "es = []")
      case True
      then have "ev = [Wire fd (drop (holder_offset ?h) (holder_content files ?h)), Write_Resolved fd (we_deferred e) n]"
        "r = None" "as' = as1" using Cons.prems(1) w x(1) full by (auto simp: Let_def)
      then show ?thesis using True ws by simp
    next
      case ne: False
      obtain ev' r' where d: "drain files fd as1 es = Some (ev', r, as')"
        "ev = [Wire fd (drop (holder_offset ?h) (holder_content files ?h)), Write_Resolved fd (we_deferred e) n] @ ev'"
        using Cons.prems(1) w x(1) full ne by (auto simp: Let_def)
      from Cons.IH [OF d(1)] ws Cons.prems(3) d(2) show ?thesis by simp
    qed
  qed
qed simp

text \<open>The events of one socket are about that socket.\<close>

lemma drain_other:
  assumes "drain files fd as es = Some (ev, r, as')" "fd' \<noteq> fd"
  shows "wire_of fd' ev = [] \<and> resolved_of fd' ev = []"
  using assms(1)
proof (induction es arbitrary: as ev r as')
  case (Cons e es)
  obtain x n as1 where "write_loop as (holder_size (we_buffer e)) (holder_offset (we_buffer e)) = Some (x, n, as1)"
    using Cons.prems by (auto simp: Let_def split: option.splits prod.splits)
  then show ?case using Cons assms(2)
    by (cases x) (auto simp: Let_def split: if_splits sum.splits)
qed simp

section \<open>Runs\<close>

datatype srv_action =
    Act_Write nat "nat option" buffer_holder int
  | Act_Queue bool "write_answer list"
  | Act_Writable nat "write_answer list"

fun srv_act :: "(nat \<Rightarrow> string) \<Rightarrow> srv_action \<Rightarrow> srv_transport \<Rightarrow> (srv_event list \<times> srv_transport) option" where
  "srv_act files (Act_Write d fd h flags) t = Some ([], asyncWrite d fd h flags t)"
| "srv_act files (Act_Queue flush as) t = map_option (\<lambda>(ev, t', as'). (ev, t')) (handleWriteQueue files flush as t)"
| "srv_act files (Act_Writable fd as) t = map_option (\<lambda>(ev, t', as'). (ev, t')) (asyncWriteImpl files fd as t)"

text \<open>Nothing goes wrong: partial writes and retries only, and the buffers are what they say.\<close>

fun orderly :: "srv_action \<Rightarrow> bool" where
  "orderly (Act_Write d fd h flags) \<longleftrightarrow> holder_ok h"
| "orderly (Act_Queue flush as) \<longleftrightarrow> (\<forall>a \<in> set as. soft a)"
| "orderly (Act_Writable fd as) \<longleftrightarrow> (\<forall>a \<in> set as. soft a)"

fun writes_to :: "nat \<Rightarrow> srv_action \<Rightarrow> write_entry list" where
  "writes_to fd (Act_Write d fd' h flags) =
     (if fd' = Some fd then [\<lparr>we_deferred = d, we_buffer = h, we_flags = flags, we_peerFd = fd'\<rparr>] else [])"
| "writes_to fd _ = []"

text \<open>A run, with the writes for the socket \<open>fd\<close> of a peer and the events so far.\<close>

inductive srv_run :: "(nat \<Rightarrow> string) \<Rightarrow> nat \<Rightarrow> srv_transport \<Rightarrow> write_entry list \<Rightarrow> srv_event list \<Rightarrow> srv_transport \<Rightarrow> bool"
  for files fd t0
  where
    srv_start: "srv_run files fd t0 [] [] t0"
  | srv_step: "srv_run files fd t0 ws ev t \<Longrightarrow> orderly a \<Longrightarrow> srv_act files a t = Some (ev', t')
      \<Longrightarrow> srv_run files fd t0 (ws @ writes_to fd a) (ev @ ev') t'"

section \<open>Order and completeness\<close>

definition waiting :: "nat \<Rightarrow> srv_transport \<Rightarrow> write_entry list" where
  "waiting fd t = (case um_find (=) (sv_toWrite t) fd of None \<Rightarrow> [] | Some wq \<Rightarrow> wq)"

definition for_fd :: "nat \<Rightarrow> write_entry list \<Rightarrow> write_entry list" where
  "for_fd fd ws = filter (\<lambda>w. we_peerFd w = Some fd) ws"

lemma for_fd_simps [simp]:
  "for_fd fd [] = []" "for_fd fd (a @ b) = for_fd fd a @ for_fd fd b"
  "for_fd fd (w # ws) = (if we_peerFd w = Some fd then w # for_fd fd ws else for_fd fd ws)"
  by (simp_all add: for_fd_def)

lemma um_find_assigned: "um_find (=) (um_assign (=) k v m) k' = (if k = k' then Some v else um_find (=) m k')"
  by (induction m) auto

text \<open>All that waits for \<open>fd\<close> is in order.\<close>

definition entries_ok :: "write_entry list \<Rightarrow> bool" where
  "entries_ok es \<longleftrightarrow> (\<forall>e \<in> set es. holder_ok (we_buffer e))"

lemma entries_ok_simps [simp]:
  "entries_ok []" "entries_ok (a @ b) \<longleftrightarrow> entries_ok a \<and> entries_ok b" "entries_ok (e # es) \<longleftrightarrow> holder_ok (we_buffer e) \<and> entries_ok es"
  by (auto simp: entries_ok_def)

lemma asyncWriteImpl_same:
  assumes "asyncWriteImpl files fd as t = Some (ev, t', as')" "\<forall>a \<in> set as. soft a" "entries_ok (waiting fd t)"
  shows "wire_of fd ev @ left_bytes files (waiting fd t') = left_bytes files (waiting fd t)
    \<and> resolved_of fd ev @ ids (waiting fd t') = ids (waiting fd t) \<and> entries_ok (waiting fd t')
    \<and> (\<forall>a \<in> set as'. soft a) \<and> sv_peers t' = sv_peers t \<and> sv_writesQueue t' = sv_writesQueue t"
proof (cases "um_find (=) (sv_toWrite t) fd")
  case None
  then show ?thesis using assms by (simp add: asyncWriteImpl_def)
next
  case (Some wq)
  obtain r where d: "drain files fd as wq = Some (ev, r, as')" "t' = t\<lparr>sv_toWrite := (case r of
      None \<Rightarrow> um_erase (=) fd (sv_toWrite t) | Some wq' \<Rightarrow> um_assign (=) fd wq' (sv_toWrite t))\<rparr>"
    using assms(1) Some by (auto simp: asyncWriteImpl_def)
  have w: "waiting fd t = wq" "waiting fd t' = (case r of None \<Rightarrow> [] | Some q \<Rightarrow> q)"
    using Some by (auto simp: waiting_def d(2) um_find_assigned str_map.look_era split: option.split)
  have "\<forall>e \<in> set wq. holder_ok (we_buffer e)" using assms(3) by (simp add: w entries_ok_def)
  from drain_soft [OF d(1) assms(2) this] show ?thesis unfolding w entries_ok_def using d(2) by simp
qed

lemma asyncWriteImpl_other:
  assumes "asyncWriteImpl files fd as t = Some (ev, t', as')" "fd' \<noteq> fd"
  shows "wire_of fd' ev = [] \<and> resolved_of fd' ev = [] \<and> waiting fd' t' = waiting fd' t \<and> sv_peers t' = sv_peers t
    \<and> sv_writesQueue t' = sv_writesQueue t"
proof (cases "um_find (=) (sv_toWrite t) fd")
  case None
  then show ?thesis using assms by (simp add: asyncWriteImpl_def)
next
  case (Some wq)
  obtain r where d: "drain files fd as wq = Some (ev, r, as')" "t' = t\<lparr>sv_toWrite := (case r of
      None \<Rightarrow> um_erase (=) fd (sv_toWrite t) | Some wq' \<Rightarrow> um_assign (=) fd wq' (sv_toWrite t))\<rparr>"
    using assms(1) Some by (auto simp: asyncWriteImpl_def)
  have "waiting fd' t' = waiting fd' t"
    using assms(2) by (auto simp: waiting_def d(2) um_find_assigned str_map.look_era split: option.split)
  then show ?thesis using drain_other [OF d(1) assms(2)] by (simp add: d(2))
qed

lemma asyncWriteImpl_soft:
  assumes "asyncWriteImpl files fd as t = Some (ev, t', as')" "\<forall>a \<in> set as. soft a" "\<forall>f. entries_ok (waiting f t)"
  shows "(\<forall>f. entries_ok (waiting f t')) \<and> (\<forall>a \<in> set as'. soft a)"
  using asyncWriteImpl_same [OF assms(1,2)] asyncWriteImpl_other [OF assms(1)] assms(3) by metis

lemma waiting_push:
  "waiting fd (push_write fd' w t) = waiting fd t @ (if fd' = fd then [w] else [])"
  "sv_peers (push_write fd' w t) = sv_peers t" "sv_writesQueue (push_write fd' w t) = sv_writesQueue t"
  by (auto simp: waiting_def push_write_def um_find_assigned split: option.split)

lemma write_queue_keeps:
  assumes "write_queue_loop files flush as ws t = Some (ev, t', as')" "\<forall>a \<in> set as. soft a"
    and "\<forall>f. entries_ok (waiting f t)" "entries_ok ws" "isPeerFd fd t"
  shows "wire_of fd ev @ left_bytes files (waiting fd t') = left_bytes files (waiting fd t @ for_fd fd ws)
    \<and> resolved_of fd ev @ ids (waiting fd t') = ids (waiting fd t @ for_fd fd ws)
    \<and> (\<forall>f. entries_ok (waiting f t')) \<and> sv_peers t' = sv_peers t \<and> sv_writesQueue t' = []"
  using assms
proof (induction ws arbitrary: as t ev)
  case Nil
  then show ?case by (auto simp: waiting_def)
next
  case (Cons w ws)
  have ok: "holder_ok (we_buffer w)" "entries_ok ws" using Cons.prems(4) by simp_all
  show ?case
  proof (cases "\<exists>f. we_peerFd w = Some f \<and> isPeerFd f t")
    case False
    then have "we_peerFd w \<noteq> Some fd" "write_queue_loop files flush as ws t = Some (ev, t', as')"
      using Cons.prems(1,5) by (auto split: option.splits)
    with Cons.IH [OF _ Cons.prems(2,3) ok(2) Cons.prems(5)] show ?thesis by simp
  next
    case True
    then obtain f where f: "we_peerFd w = Some f" "isPeerFd f t" by blast
    let ?t = "push_write f w t"
    have t: "\<forall>g. entries_ok (waiting g ?t)" "isPeerFd fd ?t" "waiting fd ?t @ for_fd fd ws = waiting fd t @ for_fd fd (w # ws)"
      using Cons.prems(3,5) ok(1) f(1) by (auto simp: waiting_push isPeerFd_def)
    show ?thesis
    proof (cases flush)
      case False
      then have "write_queue_loop files flush as ws ?t = Some (ev, t', as')" using Cons.prems(1) f by simp
      from Cons.IH [OF this Cons.prems(2) t(1) ok(2) t(2)] show ?thesis unfolding t(3) by (simp add: waiting_push)
    next
      case fl: True
      obtain ev1 t1 as1 ev2 where 1: "asyncWriteImpl files f as ?t = Some (ev1, t1, as1)"
        and 2: "write_queue_loop files flush as1 ws t1 = Some (ev2, t', as')" "ev = ev1 @ ev2"
        using Cons.prems(1) f fl by (auto split: option.splits)
      note soft = asyncWriteImpl_soft [OF 1 Cons.prems(2) t(1)]
      have same: "wire_of fd ev1 @ left_bytes files (waiting fd t1) = left_bytes files (waiting fd ?t)
          \<and> resolved_of fd ev1 @ ids (waiting fd t1) = ids (waiting fd ?t) \<and> sv_peers t1 = sv_peers t"
        using asyncWriteImpl_same [OF 1 Cons.prems(2) spec [OF t(1)]] asyncWriteImpl_other [OF 1, of fd]
        by (cases "f = fd") (simp_all add: waiting_push(2,3))
      then have "isPeerFd fd t1" using Cons.prems(5) by (simp add: isPeerFd_def)
      from Cons.IH [OF 2(1) _ _ ok(2) this] soft have IH:
        "wire_of fd ev2 @ left_bytes files (waiting fd t') = left_bytes files (waiting fd t1 @ for_fd fd ws)"
        "resolved_of fd ev2 @ ids (waiting fd t') = ids (waiting fd t1 @ for_fd fd ws)"
        "\<forall>f. entries_ok (waiting f t')" "sv_peers t' = sv_peers t1" "sv_writesQueue t' = []" by auto
      have "wire_of fd ev @ left_bytes files (waiting fd t') = left_bytes files (waiting fd ?t @ for_fd fd ws)"
        using IH(1) same by (simp add: 2(2))
      moreover have "resolved_of fd ev @ ids (waiting fd t') = ids (waiting fd ?t @ for_fd fd ws)"
        using IH(2) same by (simp add: 2(2))
      ultimately show ?thesis using IH(3-5) same unfolding t(3) by simp
    qed
  qed
qed

text \<open>The invariant of a run, for a peer's socket.\<close>

definition run_inv :: "(nat \<Rightarrow> string) \<Rightarrow> nat \<Rightarrow> write_entry list \<Rightarrow> srv_event list \<Rightarrow> srv_transport \<Rightarrow> bool" where
  "run_inv files fd ws ev t \<longleftrightarrow>
     wire_of fd ev @ left_bytes files (waiting fd t @ for_fd fd (sv_writesQueue t)) = left_bytes files ws
     \<and> resolved_of fd ev @ ids (waiting fd t @ for_fd fd (sv_writesQueue t)) = ids ws
     \<and> (\<forall>f. entries_ok (waiting f t)) \<and> entries_ok (sv_writesQueue t) \<and> isPeerFd fd t"

lemma run_inv_step:
  assumes "run_inv files fd ws ev t" "orderly a" "srv_act files a t = Some (ev', t')"
  shows "run_inv files fd (ws @ writes_to fd a) (ev @ ev') t'"
proof (cases a)
  case (Act_Write d f h flags)
  then have "ev' = []" "t' = asyncWrite d f h flags t" using assms(3) by simp_all
  moreover have "waiting g (asyncWrite d f h flags t) = waiting g t" for g by (simp add: waiting_def asyncWrite_def)
  ultimately show ?thesis using assms(1,2) Act_Write by (auto simp: run_inv_def asyncWrite_def isPeerFd_def)
next
  case (Act_Queue flush as)
  then obtain as' where q: "write_queue_loop files flush as (sv_writesQueue t) t = Some (ev', t', as')"
    using assms(3) by (auto simp: handleWriteQueue_def)
  have "\<forall>a \<in> set as. soft a" using assms(2) Act_Queue by simp
  from write_queue_keeps [OF q this] assms(1)
  have "wire_of fd ev' @ left_bytes files (waiting fd t') = left_bytes files (waiting fd t @ for_fd fd (sv_writesQueue t))"
    "resolved_of fd ev' @ ids (waiting fd t') = ids (waiting fd t @ for_fd fd (sv_writesQueue t))"
    "\<forall>f. entries_ok (waiting f t')" "sv_peers t' = sv_peers t" "sv_writesQueue t' = []"
    by (auto simp: run_inv_def)
  then show ?thesis using assms(1) Act_Queue by (simp add: run_inv_def isPeerFd_def)
next
  case (Act_Writable f as)
  then obtain as' where w: "asyncWriteImpl files f as t = Some (ev', t', as')" using assms(3) by auto
  have s: "\<forall>a \<in> set as. soft a" using assms(2) Act_Writable by simp
  have ok: "\<forall>f. entries_ok (waiting f t)" using assms(1) by (simp add: run_inv_def)
  have same: "wire_of fd ev' @ left_bytes files (waiting fd t') = left_bytes files (waiting fd t)
      \<and> resolved_of fd ev' @ ids (waiting fd t') = ids (waiting fd t) \<and> sv_peers t' = sv_peers t
      \<and> sv_writesQueue t' = sv_writesQueue t"
    using asyncWriteImpl_same [OF w s] asyncWriteImpl_other [OF w, of fd] ok by (cases "f = fd") auto
  have "wire_of fd (ev @ ev') @ left_bytes files (waiting fd t' @ for_fd fd (sv_writesQueue t')) = left_bytes files ws"
    using assms(1) same by (simp add: run_inv_def) (metis append.assoc)
  moreover have "resolved_of fd (ev @ ev') @ ids (waiting fd t' @ for_fd fd (sv_writesQueue t')) = ids ws"
    using assms(1) same by (simp add: run_inv_def) (metis append.assoc)
  ultimately show ?thesis using assms(1) same asyncWriteImpl_soft [OF w s ok] Act_Writable
    by (simp add: run_inv_def isPeerFd_def)
qed

text \<open>
  C22: for every peer, in every run of writes from any thread, drained queues and writable sockets,
  with whatever partial writes and retries: the bytes on the peer's socket followed by what waits
  for it are the bytes of the peer's writes in the order of \<open>asyncWrite\<close>, and the promises resolved so
  far, followed by those that wait, are its promises in that order.  When nothing waits, all has
  arrived.
\<close>

theorem writes_in_order:
  assumes "srv_run files fd t0 ws ev t" "sv_writesQueue t0 = []" "\<forall>f. waiting f t0 = []" "isPeerFd fd t0"
  shows "wire_of fd ev @ left_bytes files (waiting fd t @ for_fd fd (sv_writesQueue t)) = left_bytes files ws
    \<and> resolved_of fd ev @ ids (waiting fd t @ for_fd fd (sv_writesQueue t)) = ids ws
    \<and> (waiting fd t = [] \<and> sv_writesQueue t = [] \<longrightarrow> wire_of fd ev = left_bytes files ws \<and> resolved_of fd ev = ids ws)"
proof -
  from assms(1) have "run_inv files fd ws ev t"
  proof induction
    case srv_start
    then show ?case using assms(2-4) by (simp add: run_inv_def)
  next
    case (srv_step ws ev t a ev' t')
    then show ?case by (intro run_inv_step)
  qed
  then show ?thesis by (auto simp: run_inv_def)
qed

text \<open>A write of five bytes that the socket takes in two pieces.\<close>

definition sample_server :: srv_transport where
  "sample_server = Server_init\<lparr>sv_peers := [(5, 0)], sv_toWrite := [(5, [])]\<rparr>"

theorem writes_in_order_witness:
  "\<exists>ws ev t. srv_run (\<lambda>_. []) 5 sample_server ws ev t \<and> wire_of 5 ev = ''hello'' \<and> resolved_of 5 ev = [7]"
proof -
  let ?w = "\<lparr>we_deferred = 7, we_buffer = Raw_Holder (RawBuffer ''hello'' 5), we_flags = 0, we_peerFd = Some 5\<rparr>"
  let ?a1 = "Act_Write 7 (Some 5) (Raw_Holder (RawBuffer ''hello'' 5)) 0" and ?a2 = "Act_Queue False []"
  let ?a3 = "Act_Writable 5 [Accepts 2, Try_Again]" and ?a4 = "Act_Writable 5 [Accepts 9]"
  let ?f = "\<lambda>_::nat. []::string"
  let ?t1 = "sample_server\<lparr>sv_writesQueue := [?w]\<rparr>" and ?t2 = "sample_server\<lparr>sv_toWrite := [(5, [?w])]\<rparr>"
  let ?t3 = "sample_server\<lparr>sv_toWrite := [(5, [?w\<lparr>we_buffer := Raw_Holder (RawBuffer ''llo'' 3)\<rparr>])]\<rparr>"
  let ?t4 = "sample_server\<lparr>sv_toWrite := []\<rparr>"
  note d = sample_server_def Server_init_def
  have 1: "srv_act ?f ?a1 sample_server = Some ([], ?t1)" by (simp add: d asyncWrite_def)
  have 2: "srv_act ?f ?a2 ?t1 = Some ([], ?t2)" by (simp add: d handleWriteQueue_def isPeerFd_def push_write_def)
  have 3: "srv_act ?f ?a3 ?t2 = Some ([Wire 5 ''he''], ?t3)"
    by (simp add: d asyncWriteImpl_def RawBuffer_def raw_copy_def substr_def Let_def)
  have 4: "srv_act ?f ?a4 ?t3 = Some ([Wire 5 ''llo'', Write_Resolved 5 7 3], ?t4)"
    by (simp add: d asyncWriteImpl_def RawBuffer_def Let_def um_erase_def)
  note r = srv_step [OF srv_step [OF srv_step [OF srv_step [OF srv_start _ 1] _ 2] _ 3] _ 4]
  have run: "srv_run ?f 5 sample_server [?w] ([] @ [] @ [Wire 5 ''he''] @ [Wire 5 ''llo'', Write_Resolved 5 7 3]) ?t4"
    using r [where fd = 5] by (simp add: RawBuffer_def)
  have "\<forall>f. waiting f sample_server = []" "isPeerFd 5 sample_server" "sv_writesQueue sample_server = []"
    "waiting 5 ?t4 = []" "sv_writesQueue ?t4 = []"
    by (simp_all add: d waiting_def isPeerFd_def)
  then have "wire_of 5 ([] @ [] @ [Wire 5 ''he''] @ [Wire 5 ''llo'', Write_Resolved 5 7 3]) = left_bytes ?f [?w]
      \<and> resolved_of 5 ([] @ [] @ [Wire 5 ''he''] @ [Wire 5 ''llo'', Write_Resolved 5 7 3]) = ids [?w]"
    using writes_in_order [OF run] by blast
  moreover have "left_bytes ?f [?w] = ''hello''" "ids [?w] = [7]" by (simp_all add: RawBuffer_def)
  ultimately have "wire_of 5 ([] @ [] @ [Wire 5 ''he''] @ [Wire 5 ''llo'', Write_Resolved 5 7 3]) = ''hello''
      \<and> resolved_of 5 ([] @ [] @ [Wire 5 ''he''] @ [Wire 5 ''llo'', Write_Resolved 5 7 3]) = [7]" by metis
  with run show ?thesis by blast
qed

section \<open>Peers\<close>

text \<open>
  C23: what arrives from a peer reaches the handler piece by piece, in order; when the peer closes its
  side or an error occurs, the handler is told once after the last piece, the socket is closed once,
  and the transport forgets the peer and the writes that wait for it in \<open>toWrite\<close>.  The writes that are
  still in the queue from other threads are all kept, those for this peer too.
\<close>

theorem incoming_peer:
  assumes "pr_fd pr = Some fd" "pr_transport pr" "um_find (=) (sv_peers t) fd = Some p" "e \<in> {Read_Error, Read_End}"
  shows "Server_handleIncoming (map Read_Bytes chunks @ [Read_Again]) p pr t = Some (map (On_Input p) chunks, pr, t)
    \<and> (\<exists>pr' t'. Server_handleIncoming (map Read_Bytes chunks @ [e]) p pr t
          = Some (map (On_Input p) chunks @ [On_Disconnection p, Closed fd], pr', t')
        \<and> \<not> isPeerFd fd t' \<and> waiting fd t' = [] \<and> sv_writesQueue t' = sv_writesQueue t \<and> removePeer pr' t' = ([], pr', t')
        \<and> Server_handleIncoming as p pr' t' = Some ([], pr', t'))"
proof -
  have l: "read_loop (map Read_Bytes chunks @ [x]) p = (case x of Read_Bytes b \<Rightarrow> None
      | Read_Again \<Rightarrow> Some (map (On_Input p) chunks, False) | _ \<Rightarrow> Some (map (On_Input p) chunks, True))" for x
    by (induction chunks) (auto split: read_answer.split)
  let ?pr = "pr\<lparr>pr_fd := None\<rparr>"
  let ?t = "t\<lparr>sv_peers := um_erase (=) fd (sv_peers t), sv_toWrite := um_erase (=) fd (sv_toWrite t)\<rparr>"
  have d: "handlePeerDisconnection p pr t = ([On_Disconnection p, Closed fd], ?pr, ?t)"
    using assms(1,2) by (simp add: handlePeerDisconnection_def removePeer_def Peer_closeFd_def closeFd_def)
  have "Server_handleIncoming (map Read_Bytes chunks @ [e]) p pr t
      = Some (map (On_Input p) chunks @ [On_Disconnection p, Closed fd], ?pr, ?t)"
    using assms(1,4) by (auto simp: Server_handleIncoming_def l d)
  moreover have "\<not> isPeerFd fd ?t" "waiting fd ?t = []" "sv_writesQueue ?t = sv_writesQueue t" by (simp_all add: isPeerFd_def waiting_def str_map.look_era)
  moreover have "removePeer ?pr ?t = ([], ?pr, ?t)" "Server_handleIncoming as p ?pr ?t = Some ([], ?pr, ?t)"
    by (simp_all add: removePeer_def Server_handleIncoming_def)
  moreover have "Server_handleIncoming (map Read_Bytes chunks @ [Read_Again]) p pr t = Some (map (On_Input p) chunks, pr, t)"
    using assms(1) by (simp add: Server_handleIncoming_def l)
  ultimately show ?thesis by blast
qed

theorem incoming_peer_witness:
  "\<exists>pr' t'. Server_handleIncoming (map Read_Bytes [''GET '', ''/''] @ [Read_End]) 0
      \<lparr>pr_fd = Some 5, pr_transport = True, pr_idle = False, pr_data = []\<rparr> sample_server
    = Some ([On_Input 0 ''GET '', On_Input 0 ''/'', On_Disconnection 0, Closed 5], pr', t') \<and> \<not> isPeerFd 5 t'"
proof -
  let ?pr = "\<lparr>pr_fd = Some 5, pr_transport = True, pr_idle = False, pr_data = []\<rparr> :: peer"
  have "pr_fd ?pr = Some 5" "pr_transport ?pr" "um_find (=) (sv_peers sample_server) 5 = Some 0"
    by (simp_all add: sample_server_def)
  from conjunct2 [OF incoming_peer [OF this, where e = Read_End and chunks = "[''GET '', ''/'']" and as = "[]"]] show ?thesis by auto
qed

section \<open>Where promises and bytes go astray\<close>

text \<open>A peer that is gone takes the promises of all its writes with it: none of them is ever settled.\<close>

lemma gone_never_settles:
  "\<exists>bytes. drain files fd (Peer_Gone # as) (e # es) = Some ([Wire fd bytes], None, as)"
  by (simp add: Let_def)

text \<open>After a retry a promise is resolved with the length of what was left, not of what was written.\<close>

lemma resolved_count_short:
  assumes "0 < k" "k < length s" "e = \<lparr>we_deferred = d, we_buffer = Raw_Holder (RawBuffer s (length s)), we_flags = 0, we_peerFd = Some fd\<rparr>"
  shows "\<exists>e'. drain files fd [Accepts k, Try_Again] [e] = Some ([Wire fd (take k s)], Some [e'], [])
    \<and> drain files fd [Accepts (length s)] [e'] = Some ([Wire fd (drop k s), Write_Resolved fd d (length s - k)], None, [])"
proof -
  have "s \<noteq> []" using assms(2) by auto
  then show ?thesis using assms by (auto simp: RawBuffer_def raw_copy_def substr_def Let_def min_def)
qed

text \<open>
  A write names its peer by the descriptor.  When the peer disconnects before the queue is drained,
  and the next peer gets the same descriptor, the bytes go to that peer.
\<close>

lemma stale_write_reaches_new_peer:
  assumes "sv_writesQueue t = [w]" "we_peerFd w = Some fd" "pr_fd pr = Some fd" "pr_transport pr" "pr_fd pr2 = Some fd"
  shows "\<exists>t3. (case handlePeerDisconnection p pr t of (_, _, t1) \<Rightarrow> case handlePeer p2 pr2 t1 of (_, _, t2) \<Rightarrow>
        handleWriteQueue files False as t2) = Some ([], t3, as)
    \<and> waiting fd t3 = [w] \<and> getPeer fd t3 = Inr p2"
  using assms
  by (auto simp: handlePeerDisconnection_def removePeer_def Peer_closeFd_def closeFd_def handlePeer_def handleWriteQueue_def
      isPeerFd_def push_write_def waiting_def getPeer_def str_map.look_era str_map.look_ins um_find_assigned)

end
