(* ===== verification/Reactor_Dispatch.thy ===== *)
theory Reactor_Dispatch
  imports Pist_Prelude "HOL-Library.Word"
begin

unbundle bit_operations_syntax

text \<open>
  The reactor (reactor.cc): the keys that name a handler and a worker in 64 bits, the list of
  handlers, the synchronous reactor with its interest list and the loop that hands events to
  handlers, and the asynchronous one that has one synchronous reactor per thread and a clone of
  each handler on each.  A handler is a number; the interest list is what \<open>epoll_ctl\<close> keeps; the
  answers of \<open>epoll_wait\<close> are arguments.  Widths are those of Linux, where a descriptor is an \<open>int\<close>.
\<close>

section \<open>Keys and tags\<close>

definition HandlerBits :: nat where "HandlerBits = 8"

text \<open>The size of \<open>uint64_t\<close> is counted in bytes.\<close>

definition HandlerShift :: nat where "HandlerShift = 8 - HandlerBits"

definition DataMask :: "64 word" where "DataMask = drop_bit HandlerBits (- 1)"

definition MaxHandlers :: nat where "MaxHandlers = 2 ^ HandlerBits - 1"

text \<open>A 64-bit value converted to a descriptor and back.\<close>

definition as_fd :: "64 word \<Rightarrow> 64 word" where
  "as_fd v = scast (ucast v :: 32 word)"

definition encodeTag :: "64 word \<Rightarrow> 64 word \<Rightarrow> 64 word" where
  "encodeTag key v = as_fd (push_bit HandlerShift key OR as_fd v)"

definition decodeTag :: "64 word \<Rightarrow> nat \<times> 64 word" where
  "decodeTag tag = (unat (drop_bit HandlerShift tag), as_fd (tag AND DataMask))"

definition KeyMarker :: "32 word" where "KeyMarker = 0xBADB0B"

definition encodeKey :: "64 word \<Rightarrow> 32 word \<Rightarrow> 64 word" where
  "encodeKey originalKey v = push_bit 32 originalKey OR ucast v"

definition decodeKey :: "64 word \<Rightarrow> 32 word \<times> 32 word" where
  "decodeKey d = (ucast (drop_bit 32 d), ucast (d AND 0xFFFFFFFF))"

section \<open>The synchronous reactor\<close>

text \<open>The list of handlers: the array up to its index.\<close>

definition hl_add :: "nat \<Rightarrow> nat list \<Rightarrow> (64 word \<times> nat list) result" where
  "hl_add h hs =
     (if length hs = MaxHandlers then Inl (Runtime_Error ''Maximum handlers reached'')
      else Inr (of_nat (length hs), hs @ [h]))"

definition hl_at :: "nat \<Rightarrow> nat list \<Rightarrow> nat result" where
  "hl_at i hs = (if i \<ge> length hs then Inl (Runtime_Error ''Attempting to retrieve invalid handler'') else Inr (hs ! i))"

text \<open>
  What \<open>epoll\<close> keeps for a descriptor: the events as bits and the 64 bits of data.  The interest is
  the set of \<open>NotifyOn\<close> flags, as the bits of an \<open>int\<close>.
\<close>

record registration =
  rg_events :: "32 word"
  rg_data :: "64 word"

type_synonym interest_list = "(nat \<times> registration) list"

definition toEpollEvents :: "32 word \<Rightarrow> 32 word" where
  "toEpollEvents interest =
     (if interest AND 1 \<noteq> 0 then 0x001 else 0) OR (if interest AND 2 \<noteq> 0 then 0x004 else 0)
     OR (if interest AND 4 \<noteq> 0 then 0x010 else 0) OR (if interest AND 8 \<noteq> 0 then 0x2000 else 0)"

definition toNotifyOn :: "32 word \<Rightarrow> 32 word" where
  "toNotifyOn events =
     (if events AND 0x001 \<noteq> 0 then 1 else 0) OR (if events AND 0x004 \<noteq> 0 then 2 else 0)
     OR (if events AND 0x010 \<noteq> 0 then 4 else 0) OR (if events AND 0x2000 \<noteq> 0 then 8 else 0)"

definition EPOLLONESHOT :: "32 word" where "EPOLLONESHOT = 0x40000000"

definition EPOLLET :: "32 word" where "EPOLLET = 0x80000000"

text \<open>
  \<open>epoll_ctl\<close> refuses to add what it has, and to change or delete what it has not; of the message of
  the exception only the text of the error is kept, not the call and its place in the source.
\<close>

definition Epoll_addFd :: "nat \<Rightarrow> 32 word \<Rightarrow> 64 word \<Rightarrow> bool \<Rightarrow> interest_list \<Rightarrow> interest_list result" where
  "Epoll_addFd fd interest tag edge fds =
     (if um_find (=) fds fd \<noteq> None then Inl (Runtime_Error ''File exists'')
      else Inr (um_insert (=) fd \<lparr>rg_events = toEpollEvents interest OR (if edge then EPOLLET else 0), rg_data = tag\<rparr> fds))"

definition Epoll_addFdOneShot :: "nat \<Rightarrow> 32 word \<Rightarrow> 64 word \<Rightarrow> bool \<Rightarrow> interest_list \<Rightarrow> interest_list result" where
  "Epoll_addFdOneShot fd interest tag edge fds =
     (if um_find (=) fds fd \<noteq> None then Inl (Runtime_Error ''File exists'')
      else Inr (um_insert (=) fd
        \<lparr>rg_events = toEpollEvents interest OR EPOLLONESHOT OR (if edge then EPOLLET else 0), rg_data = tag\<rparr> fds))"

definition Epoll_rearmFd :: "nat \<Rightarrow> 32 word \<Rightarrow> 64 word \<Rightarrow> bool \<Rightarrow> interest_list \<Rightarrow> interest_list result" where
  "Epoll_rearmFd fd interest tag edge fds =
     (if um_find (=) fds fd = None then Inl (Runtime_Error ''No such file or directory'')
      else Inr (um_assign (=) fd \<lparr>rg_events = toEpollEvents interest OR (if edge then EPOLLET else 0), rg_data = tag\<rparr> fds))"

definition Epoll_removeFd :: "nat \<Rightarrow> interest_list \<Rightarrow> interest_list result" where
  "Epoll_removeFd fd fds =
     (if um_find (=) fds fd = None then Inl (Runtime_Error ''No such file or directory'')
      else Inr (um_erase (=) fd fds))"

record sync_impl =
  sy_handlers :: "nat list"
  sy_fds :: interest_list

definition SyncImpl :: sync_impl where
  "SyncImpl = \<lparr>sy_handlers = [], sy_fds = []\<rparr>"

definition sync_addHandler :: "nat \<Rightarrow> sync_impl \<Rightarrow> (64 word \<times> sync_impl) result" where
  "sync_addHandler h s =
     (case hl_add h (sy_handlers s) of Inl e \<Rightarrow> Inl e | Inr (key, hs) \<Rightarrow> Inr (key, s\<lparr>sy_handlers := hs\<rparr>))"

definition sync_detachAll :: "sync_impl \<Rightarrow> sync_impl" where
  "sync_detachAll s = s\<lparr>sy_handlers := []\<rparr>"

definition sync_handler :: "64 word \<Rightarrow> sync_impl \<Rightarrow> nat result" where
  "sync_handler key s = hl_at (unat key) (sy_handlers s)"

definition sync_registerFd :: "nat \<Rightarrow> 32 word \<Rightarrow> 64 word \<Rightarrow> bool \<Rightarrow> 64 word \<Rightarrow> sync_impl \<Rightarrow> sync_impl result" where
  "sync_registerFd fd interest tag edge key s =
     map_sum id (\<lambda>fds. s\<lparr>sy_fds := fds\<rparr>) (Epoll_addFd fd interest (encodeTag key tag) edge (sy_fds s))"

definition sync_registerFdOneShot :: "nat \<Rightarrow> 32 word \<Rightarrow> 64 word \<Rightarrow> bool \<Rightarrow> 64 word \<Rightarrow> sync_impl \<Rightarrow> sync_impl result" where
  "sync_registerFdOneShot fd interest tag edge key s =
     map_sum id (\<lambda>fds. s\<lparr>sy_fds := fds\<rparr>) (Epoll_addFdOneShot fd interest (encodeTag key tag) edge (sy_fds s))"

definition sync_modifyFd :: "nat \<Rightarrow> 32 word \<Rightarrow> 64 word \<Rightarrow> bool \<Rightarrow> 64 word \<Rightarrow> sync_impl \<Rightarrow> sync_impl result" where
  "sync_modifyFd fd interest tag edge key s =
     map_sum id (\<lambda>fds. s\<lparr>sy_fds := fds\<rparr>) (Epoll_rearmFd fd interest (encodeTag key tag) edge (sy_fds s))"

definition sync_removeFd :: "nat \<Rightarrow> 64 word \<Rightarrow> sync_impl \<Rightarrow> sync_impl result" where
  "sync_removeFd fd key s = map_sum id (\<lambda>fds. s\<lparr>sy_fds := fds\<rparr>) (Epoll_removeFd fd (sy_fds s))"

record poll_event =
  pe_flags :: "32 word"
  pe_tag :: "64 word"

text \<open>What \<open>epoll_wait\<close> reported, events and data, as the events handed on.\<close>

definition poll_events :: "(32 word \<times> 64 word) list \<Rightarrow> poll_event list" where
  "poll_events evs = map (\<lambda>(ev, u64). \<lparr>pe_flags = toNotifyOn ev, pe_tag = u64\<rparr>) evs"

text \<open>
  With several handlers the events are collected per handler in a map that starts empty, with the
  accessor that throws when a key is missing.
\<close>

fun collect_events :: "nat list \<Rightarrow> poll_event list \<Rightarrow> (nat \<times> poll_event list) list \<Rightarrow> (nat \<times> poll_event list) list result" where
  "collect_events hs [] m = Inr m"
| "collect_events hs (e # es) m =
     (case hl_at (fst (decodeTag (pe_tag e))) hs of
        Inl ex \<Rightarrow> Inl ex
      | Inr h \<Rightarrow>
          (case um_find (=) m h of
             None \<Rightarrow> Inl (Out_Of_Range ''_Map_base::at'')
           | Some evs \<Rightarrow> collect_events hs es (um_assign (=) h (evs @ [e]) m)))"

definition handleFds :: "poll_event list \<Rightarrow> sync_impl \<Rightarrow> (nat \<times> poll_event list) list result" where
  "handleFds events s =
     (if length (sy_handlers s) = 1 then map_sum id (\<lambda>h. [(h, events)]) (hl_at 0 (sy_handlers s))
      else collect_events (sy_handlers s) events [])"

text \<open>
  \<open>runOnce\<close>, which returns only after a shutdown: the answers of \<open>poll\<close>, each with the shutdown flag
  at that time; the calls of \<open>onReady\<close>; and how it ends, if it does within these answers.
\<close>

fun run_once_loop :: "(poll_event list \<times> bool) list \<Rightarrow> sync_impl \<Rightarrow> (nat \<times> poll_event list) list \<times> exn option option" where
  "run_once_loop [] s = ([], None)"
| "run_once_loop ((events, shutdown) # ps) s =
     (if events = [] then run_once_loop ps s
      else if shutdown then ([], Some None)
      else case handleFds events s of
        Inl e \<Rightarrow> ([], Some (Some e))
      | Inr calls \<Rightarrow> (case run_once_loop ps s of (calls', r) \<Rightarrow> (calls @ calls', r)))"

definition runOnce :: "(poll_event list \<times> bool) list \<Rightarrow> sync_impl \<Rightarrow> (nat \<times> poll_event list) list \<times> exn option option" where
  "runOnce ps s =
     (if sy_handlers s = [] then ([], Some (Some (Runtime_Error ''You need to set at least one handler'')))
      else run_once_loop ps s)"

section \<open>The asynchronous reactor\<close>

type_synonym async_impl = "sync_impl list"

definition AsyncImpl :: "nat \<Rightarrow> async_impl result" where
  "AsyncImpl threads =
     (if threads > MaxHandlers
      then Inl (Runtime_Error (''Too many worker threads requested (max '' @ dec_str MaxHandlers @ '').''))
      else Inr (replicate threads SyncImpl))"

text \<open>
  A clone of the handler for each worker: the keys of the clones, and the workers so far if one of
  them refuses.
\<close>

fun add_clones :: "(nat \<Rightarrow> nat) \<Rightarrow> nat \<Rightarrow> sync_impl list \<Rightarrow> ((64 word \<times> 64 word) list \<times> exn option) \<times> sync_impl list" where
  "add_clones clone i [] = (([], None), [])"
| "add_clones clone i (w # ws) =
     (case sync_addHandler (clone i) w of
        Inl e \<Rightarrow> (([], Some e), w # ws)
      | Inr (key, w') \<Rightarrow>
          (case add_clones clone (i + 1) ws of
             ((keys, e), ws') \<Rightarrow> (((key, encodeKey key (of_nat i)) # keys, e), w' # ws')))"

text \<open>The key of the handler, those of its clones, and the workers.\<close>

definition async_addHandler :: "(nat \<Rightarrow> nat) \<Rightarrow> async_impl \<Rightarrow> (64 word \<times> 64 word list) result \<times> async_impl" where
  "async_addHandler clone ws =
     (case add_clones clone 0 ws of
        ((keys, Some e), ws') \<Rightarrow> (Inl e, ws')
      | ((keys, None), ws') \<Rightarrow>
          (Inr (push_bit 32 (if keys = [] then 0 else fst (hd keys)) OR ucast KeyMarker, map snd keys), ws'))"

fun map_result :: "('a \<Rightarrow> 'b result) \<Rightarrow> 'a list \<Rightarrow> 'b list result" where
  "map_result f [] = Inr []"
| "map_result f (x # xs) =
     (case f x of Inl e \<Rightarrow> Inl e | Inr y \<Rightarrow> (case map_result f xs of Inl e \<Rightarrow> Inl e | Inr ys \<Rightarrow> Inr (y # ys)))"

definition async_handlers :: "64 word \<Rightarrow> async_impl \<Rightarrow> nat list result" where
  "async_handlers key ws =
     (if snd (decodeKey key) \<noteq> KeyMarker then Inl (Runtime_Error ''Invalid key'')
      else map_result (sync_handler (ucast (fst (decodeKey key)))) ws)"

text \<open>
  \<open>Listener::dispatchPeer\<close>: the handler that gets a new peer, chosen by its descriptor; \<open>None\<close> when the
  descriptor is already closed.  Without workers the program divides by zero.
\<close>

definition dispatchPeer :: "64 word \<Rightarrow> nat option \<Rightarrow> async_impl \<Rightarrow> nat option result" where
  "dispatchPeer transportKey actual_fd ws =
     (case actual_fd of
        None \<Rightarrow> Inr None
      | Some fd \<Rightarrow>
          (case async_handlers transportKey ws of
             Inl e \<Rightarrow> Inl e
           | Inr hs \<Rightarrow> if hs = [] then Inl (Domain_Error ''division by zero'') else Inr (Some (hs ! (fd mod length hs)))))"

definition dispatchCall :: "64 word \<Rightarrow> (64 word \<Rightarrow> sync_impl \<Rightarrow> sync_impl result) \<Rightarrow> async_impl \<Rightarrow> async_impl result" where
  "dispatchCall key f ws =
     (let i = unat (snd (decodeKey key))
      in if i \<ge> length ws then Inl (Out_Of_Range ''vector::_M_range_check'')
         else case f (ucast (fst (decodeKey key))) (ws ! i) of Inl e \<Rightarrow> Inl e | Inr w \<Rightarrow> Inr (ws[i := w]))"

definition async_registerFd :: "nat \<Rightarrow> 32 word \<Rightarrow> 64 word \<Rightarrow> bool \<Rightarrow> 64 word \<Rightarrow> async_impl \<Rightarrow> async_impl result" where
  "async_registerFd fd interest tag edge key ws = dispatchCall key (sync_registerFd fd interest tag edge) ws"

definition async_registerFdOneShot :: "nat \<Rightarrow> 32 word \<Rightarrow> 64 word \<Rightarrow> bool \<Rightarrow> 64 word \<Rightarrow> async_impl \<Rightarrow> async_impl result" where
  "async_registerFdOneShot fd interest tag edge key ws = dispatchCall key (sync_registerFdOneShot fd interest tag edge) ws"

definition async_modifyFd :: "nat \<Rightarrow> 32 word \<Rightarrow> 64 word \<Rightarrow> bool \<Rightarrow> 64 word \<Rightarrow> async_impl \<Rightarrow> async_impl result" where
  "async_modifyFd fd interest tag edge key ws = dispatchCall key (sync_modifyFd fd interest tag edge) ws"

definition async_removeFd :: "nat \<Rightarrow> 64 word \<Rightarrow> async_impl \<Rightarrow> async_impl result" where
  "async_removeFd fd key ws = dispatchCall key (sync_removeFd fd) ws"

definition async_detachAll :: "async_impl \<Rightarrow> async_impl" where
  "async_detachAll ws = map sync_detachAll ws"

section \<open>Keys are read back\<close>

lemma word_low_mask: "(x :: 64 word) AND 0xFFFFFFFF = take_bit 32 x"
  by (simp add: take_bit_eq_mask mask_eq_exp_minus_1)

lemma key_round_trip:
  assumes "k < 2 ^ 32"
  shows "decodeKey (encodeKey k v) = (ucast k, v)"
proof -
  have "take_bit 32 k = k" using assms
    by (simp add: word_unat_eq_iff unsigned_take_bit_eq take_bit_nat_eq_self word_less_nat_alt)
  then have low: "n < 32" if "bit k n" for n using that by (metis bit_take_bit_iff)
  have "drop_bit 32 (push_bit 32 k OR ucast v :: 64 word) = k"
    by (intro bit_word_eqI) (auto simp: bit_simps dest: bit_imp_le_length low)
  moreover have "take_bit 32 (push_bit 32 k OR ucast v :: 64 word) = ucast v"
    by (intro bit_word_eqI) (auto simp: bit_simps dest: bit_imp_le_length)
  moreover have "ucast (ucast v :: 64 word) = v"
    by (intro bit_word_eqI) (auto simp: bit_simps dest: bit_imp_le_length)
  ultimately show ?thesis by (simp only: decodeKey_def encodeKey_def word_low_mask)
qed

lemma fd_tag: "fd < 2 ^ 31 \<Longrightarrow> encodeTag 0 (of_nat fd) = of_nat fd"
proof -
  assume fd: "fd < 2 ^ 31"
  have u: "unat (of_nat fd :: 64 word) = fd" using fd by (simp add: unat_of_nat)
  have "as_fd (of_nat fd) = of_nat fd"
  proof -
    have "ucast (of_nat fd :: 64 word) = (of_nat fd :: 32 word)"
      by (simp add: word_unat_eq_iff unsigned_ucast_eq unsigned_of_nat take_bit_nat_eq_self fd)
    moreover have "sint (of_nat fd :: 32 word) = int fd" using fd
      by (simp add: signed_of_nat signed_take_bit_int_eq_self)
    ultimately show ?thesis by (simp add: as_fd_def scast_eq)
  qed
  then show ?thesis by (simp add: encodeTag_def)
qed

text \<open>What is asked of \<open>epoll\<close> is what is reported; errors, which it always reports, are lost.\<close>

lemma interest_reported:
  "toNotifyOn (toEpollEvents i OR (if oneshot then EPOLLONESHOT else 0) OR (if edge then EPOLLET else 0)) = i AND 15"
proof -
  have b: "i AND 2 ^ n \<noteq> 0 \<longleftrightarrow> bit i n" if "n < 32" for n
    using that by (simp add: bit_iff_and_push_bit_not_eq_0 push_bit_eq_mult)
  have b': "i AND 1 \<noteq> 0 \<longleftrightarrow> bit i 0" "i AND 2 \<noteq> 0 \<longleftrightarrow> bit i 1" "i AND 4 \<noteq> 0 \<longleftrightarrow> bit i 2" "i AND 8 \<noteq> 0 \<longleftrightarrow> bit i 3"
    using b [of 0] b [of 1] b [of 2] b [of 3] by simp_all
  have "i AND 15 = (if bit i 0 then 1 else 0) OR (if bit i 1 then 2 else 0) OR (if bit i 2 then 4 else 0) OR (if bit i 3 then 8 else 0)"
  proof -
    have "i AND 15 = (i AND 1) OR (i AND 2) OR (i AND 4) OR (i AND 8)"
      by (simp flip: bit.conj_disj_distrib)
    moreover have "i AND 2 ^ n = (if bit i n then 2 ^ n else 0)" if "n < 32" for n
      by (rule bit_word_eqI) (auto simp: bit_simps)
    from this [of 0] this [of 1] this [of 2] this [of 3]
    have "i AND 1 = (if bit i 0 then 1 else 0)" "i AND 2 = (if bit i 1 then 2 else 0)"
      "i AND 4 = (if bit i 2 then 4 else 0)" "i AND 8 = (if bit i 3 then 8 else 0)" by simp_all
    ultimately show ?thesis by simp
  qed
  then show ?thesis
    unfolding toEpollEvents_def b' by (simp add: toNotifyOn_def EPOLLONESHOT_def EPOLLET_def)
qed

lemma errors_not_reported: "toNotifyOn 0x008 = 0"
  by code_simp

section \<open>Calls reach their worker and handler\<close>

lemma add_clones_ok:
  assumes "\<forall>w \<in> set ws. length (sy_handlers w) = k" "k < MaxHandlers"
  shows "add_clones clone i ws =
     ((map (\<lambda>j. (of_nat k, encodeKey (of_nat k) (of_nat j))) [i..<i + length ws], None),
      map (\<lambda>(j, w). w\<lparr>sy_handlers := sy_handlers w @ [clone j]\<rparr>) (zip [i..<i + length ws] ws))"
  using assms(1)
proof (induction ws arbitrary: i)
  case (Cons w ws)
  have "sync_addHandler (clone i) w = Inr (of_nat k, w\<lparr>sy_handlers := sy_handlers w @ [clone i]\<rparr>)"
    using Cons.prems assms(2) by (simp add: sync_addHandler_def hl_add_def)
  then show ?case using Cons.IH [of "i + 1"] Cons.prems by (simp add: upt_conv_Cons del: upt_Suc)
qed simp

lemma map_result_ok: "(\<And>x. x \<in> set xs \<Longrightarrow> f x = Inr (g x)) \<Longrightarrow> map_result f xs = Inr (map g xs)"
  by (induction xs) simp_all

lemma small_word: "k < 255 \<Longrightarrow> unat (of_nat k :: 64 word) = k \<and> (of_nat k :: 64 word) < 2 ^ 32"
  by (simp add: unat_of_nat word_less_nat_alt)

text \<open>
  C39: a handler added to a reactor with any number of threads: its key names its clones, one per
  worker, and the key of the clone on a worker sends every call to that worker, with the index of
  the handler there, and touches no other; a new peer goes to the clone its descriptor names; as
  long as it is the only handler, the events of a
  worker go to its clone there, and a descriptor used as a tag comes back as it is.
\<close>

theorem reactor_dispatch:
  assumes "ws \<noteq> []" "length ws \<le> MaxHandlers" "\<forall>w \<in> set ws. length (sy_handlers w) = k" "k < MaxHandlers"
  shows "\<exists>key keys ws'. async_addHandler clone ws = (Inr (key, keys), ws')
    \<and> length keys = length ws \<and> length ws' = length ws
    \<and> async_handlers key ws' = Inr (map clone [0..<length ws])
    \<and> dispatchPeer key (Some fd) ws' = Inr (Some (clone (fd mod length ws)))
    \<and> (\<forall>i < length ws. sync_handler (of_nat k) (ws' ! i) = Inr (clone i)
         \<and> dispatchCall (keys ! i) f ws' = (case f (of_nat k) (ws' ! i) of Inl e \<Rightarrow> Inl e | Inr w \<Rightarrow> Inr (ws'[i := w]))
         \<and> (k = 0 \<longrightarrow> handleFds events (ws' ! i) = Inr [(clone i, events)]
              \<and> (fd < 2 ^ 31 \<longrightarrow> encodeTag (of_nat k) (of_nat fd) = of_nat fd)))"
proof -
  let ?n = "length ws" and ?k = "of_nat k :: 64 word"
  let ?keys = "map (\<lambda>j. encodeKey ?k (of_nat j)) [0..<?n]" and ?key = "push_bit 32 ?k OR ucast KeyMarker"
  let ?ws = "map (\<lambda>(j, w). w\<lparr>sy_handlers := sy_handlers w @ [clone j]\<rparr>) (zip [0..<?n] ws)"
  have m: "MaxHandlers = 255" by (simp add: MaxHandlers_def HandlerBits_def)
  have k: "unat ?k = k" "?k < 2 ^ 32" using small_word assms(4) by (simp_all add: m)
  have u: "ucast (ucast ?k :: 32 word) = ?k" using k assms(4) m
    by (simp add: word_unat_eq_iff unsigned_ucast_eq unsigned_of_nat take_bit_nat_eq_self)
  have add: "async_addHandler clone ws = (Inr (?key, ?keys), ?ws)"
  proof -
    have "[0..<?n] \<noteq> []" "hd [0..<?n] = 0" using assms(1) by simp_all
    then show ?thesis using add_clones_ok [OF assms(3,4), of clone 0]
      by (simp add: async_addHandler_def comp_def hd_map)
  qed
  have w: "?ws ! i = (ws ! i)\<lparr>sy_handlers := sy_handlers (ws ! i) @ [clone i]\<rparr>" if "i < ?n" for i using that by simp
  have h: "sync_handler ?k (?ws ! i) = Inr (clone i)" if "i < ?n" for i
    using that assms(3) k(1) by (simp add: w sync_handler_def hl_at_def nth_append)
  have hs: "async_handlers ?key ?ws = Inr (map clone [0..<?n])"
  proof -
    have d: "decodeKey ?key = (ucast ?k, KeyMarker)" using key_round_trip [OF k(2)] by (simp add: encodeKey_def)
    have "map_result (sync_handler ?k) ?ws = Inr (map (\<lambda>w. last (sy_handlers w)) ?ws)"
    proof (rule map_result_ok)
      fix x assume "x \<in> set ?ws"
      then obtain i where i: "i < ?n" "x = ?ws ! i" by (auto simp: in_set_conv_nth)
      then show "sync_handler ?k x = Inr (last (sy_handlers x))" using h [of i] by simp
    qed
    moreover have "map (\<lambda>w. last (sy_handlers w)) ?ws = map clone [0..<?n]" by (rule nth_equalityI) simp_all
    ultimately show ?thesis by (simp add: async_handlers_def d u)
  qed
  have p: "dispatchPeer ?key (Some fd) ?ws = Inr (Some (clone (fd mod ?n)))"
    using assms(1) hs by (simp add: dispatchPeer_def)
  have c: "dispatchCall (?keys ! i) f ?ws = (case f ?k (?ws ! i) of Inl e \<Rightarrow> Inl e | Inr w \<Rightarrow> Inr (?ws[i := w]))" if i: "i < ?n" for i
  proof -
    have "i < 2 ^ 32" using i assms(2) m by simp
    then have "unat (of_nat i :: 32 word) = i" by (simp add: unat_of_nat)
    moreover have "decodeKey (?keys ! i) = (ucast ?k, of_nat i)" using i key_round_trip [OF k(2)] by simp
    ultimately show ?thesis using i by (simp add: dispatchCall_def Let_def u)
  qed
  have e: "handleFds events (?ws ! i) = Inr [(clone i, events)]" if "i < ?n" "k = 0" for i
    using that assms(3) by (simp add: w handleFds_def hl_at_def)
  have t: "k = 0 \<Longrightarrow> fd < 2 ^ 31 \<Longrightarrow> encodeTag (of_nat k) (of_nat fd) = of_nat fd" using fd_tag by simp
  show ?thesis
    by (intro exI [of _ ?key] exI [of _ ?keys] exI [of _ ?ws] conjI allI impI add hs p h c e t) simp_all
qed

theorem reactor_dispatch_witness:
  "\<exists>key keys ws'. async_addHandler (\<lambda>i. 10 + i) (replicate 3 SyncImpl) = (Inr (key, keys), ws')
    \<and> async_handlers key ws' = Inr [10, 11, 12]
    \<and> dispatchCall (keys ! 2) (sync_registerFd 7 1 7 True) ws'
        = (case sync_registerFd 7 1 7 True 0 (ws' ! 2) of Inl e \<Rightarrow> Inl e | Inr w \<Rightarrow> Inr (ws'[2 := w]))"
proof -
  have h: "replicate 3 SyncImpl \<noteq> []" "length (replicate 3 SyncImpl) \<le> MaxHandlers"
    "\<forall>w \<in> set (replicate 3 SyncImpl). length (sy_handlers w) = 0" "0 < MaxHandlers"
    by (simp_all add: MaxHandlers_def HandlerBits_def SyncImpl_def)
  from reactor_dispatch [OF h, where clone = "\<lambda>i. 10 + i" and f = "sync_registerFd 7 1 7 True"
      and events = "[]" and fd = 0] obtain key keys ws' where
    1: "async_addHandler (\<lambda>i. 10 + i) (replicate 3 SyncImpl) = (Inr (key, keys), ws')"
    "async_handlers key ws' = Inr (map (\<lambda>i. 10 + i) [0..<3])"
    "\<forall>i < 3. dispatchCall (keys ! i) (sync_registerFd 7 1 7 True) ws'
       = (case sync_registerFd 7 1 7 True (of_nat 0) (ws' ! i) of Inl e \<Rightarrow> Inl e | Inr w \<Rightarrow> Inr (ws'[i := w]))"
    by auto
  then show ?thesis by (auto simp: upt_rec)
qed

text \<open>
  The shift of the handler's index is zero, because a size in bytes is taken for one in bits: the tag
  of the second handler's descriptor 4 is 5.  And with two handlers every event throws.
\<close>

lemma second_handler_tag: "encodeTag 1 4 = 5"
  by code_simp

lemma several_handlers_throw:
  assumes "length (sy_handlers s) \<noteq> 1" "events \<noteq> []"
  shows "\<exists>e. handleFds events s = Inl e"
  using assms by (cases events) (auto simp: handleFds_def split: sum.split)

end
