(* ===== verification/Server_Endpoint.thy ===== *)
theory Server_Endpoint
  imports Http_Parser Server_Transport
begin

text \<open>
  The endpoint of a server (endpoint.cc): its options and the transport it makes of them, and the
  timer of the transport, which twice a second looks for peers whose timeout has passed.  Times are
  milliseconds.  The parser and idle flag of a peer are those of Http_Parser, its descriptor that of
  Server_Transport; what a closed peer is sent is an action, as for \<open>onInput\<close>.
\<close>

section \<open>Options\<close>

record timeouts =
  headerTimeout :: int
  bodyTimeout :: int
  keepaliveTimeout :: int

record endpoint_options =
  op_threads :: int
  op_backlog :: int
  op_maxRequestSize :: nat
  op_maxResponseSize :: nat
  op_timeouts :: timeouts

definition Options :: endpoint_options where
  "Options = \<lparr>op_threads = 1, op_backlog = 128, op_maxRequestSize = 4096, op_maxResponseSize = 2 ^ 32 - 1,
     op_timeouts = \<lparr>headerTimeout = 60000, bodyTimeout = 60000, keepaliveTimeout = 300000\<rparr>\<rparr>"

text \<open>The factory of transports: \<open>handler\<close> tells whether \<open>setHandler\<close> has been called.\<close>

definition transport_factory :: "bool \<Rightarrow> endpoint_options \<Rightarrow> timeouts result" where
  "transport_factory handler opts = (if \<not> handler then Inl (Runtime_Error ''Must call setHandler()'') else Inr (op_timeouts opts))"

text \<open>The limits a handler ends with.\<close>

definition Endpoint_setHandler :: "endpoint_options \<Rightarrow> nat \<times> nat" where
  "Endpoint_setHandler opts = (op_maxRequestSize opts, op_maxResponseSize opts)"

definition Endpoint_init :: "endpoint_options \<Rightarrow> (nat \<times> nat) option \<Rightarrow> (nat \<times> nat) option" where
  "Endpoint_init opts handler = map_option (\<lambda>_. (op_maxRequestSize opts, op_maxResponseSize opts)) handler"

section \<open>Idle peers\<close>

text \<open>The steps of the parser are numbered from 0: request line, headers, body.\<close>

definition checkTimeout :: "timeouts \<Rightarrow> bool \<Rightarrow> nat \<Rightarrow> int \<Rightarrow> bool" where
  "checkTimeout ts idle step elapsed =
     (if idle then elapsed > keepaliveTimeout ts
      else if step = 0 \<or> step = 1 then elapsed > headerTimeout ts \<or> elapsed > bodyTimeout ts
      else if step = 2 then elapsed > bodyTimeout ts
      else False)"

text \<open>What the parser of each peer is, when it was last reset, and the peers themselves.\<close>

record endpoint_state =
  ep_http :: "nat \<Rightarrow> http_peer"
  ep_time :: "nat \<Rightarrow> int"
  ep_peer :: "nat \<Rightarrow> peer"
  ep_transport :: srv_transport

definition timed_out :: "timeouts \<Rightarrow> int \<Rightarrow> endpoint_state \<Rightarrow> nat \<Rightarrow> bool" where
  "timed_out ts now s p =
     checkTimeout ts (hp_idle (ep_http s p)) (pa_currentStep (hp_parser (ep_http s p))) (now - ep_time s p)"

text \<open>
  Closing a peer: at once when it is idle, else \<open>ResponseWriter::send\<close>, which makes it idle, with the
  removal as continuation of its promise.
\<close>

definition remove_peer :: "nat \<Rightarrow> endpoint_state \<Rightarrow> srv_event list \<times> endpoint_state" where
  "remove_peer p s =
     (case removePeer (ep_peer s p) (ep_transport s) of
        (ev, pr, t) \<Rightarrow> (ev, s\<lparr>ep_peer := (ep_peer s)(p := pr), ep_transport := t\<rparr>))"

definition closePeer :: "nat \<Rightarrow> endpoint_state \<Rightarrow> (nat \<times> action) list \<times> srv_event list \<times> endpoint_state" where
  "closePeer p s =
     (if hp_idle (ep_http s p) then ([], remove_peer p s)
      else ([(p, A_send Http11 Code_Request_Timeout '''')], [],
            s\<lparr>ep_http := (ep_http s)(p := (ep_http s p)\<lparr>hp_idle := True\<rparr>)\<rparr>))"

fun close_peers :: "nat list \<Rightarrow> endpoint_state \<Rightarrow> (nat \<times> action) list \<times> srv_event list \<times> endpoint_state" where
  "close_peers [] s = ([], [], s)"
| "close_peers (p # ps) s =
     (case closePeer p s of (acts, ev, s') \<Rightarrow>
        (case close_peers ps s' of (acts', ev', s'') \<Rightarrow> (acts @ acts', ev @ ev', s'')))"

definition checkIdlePeers :: "timeouts \<Rightarrow> int \<Rightarrow> endpoint_state \<Rightarrow> (nat \<times> action) list \<times> srv_event list \<times> endpoint_state" where
  "checkIdlePeers ts now s = close_peers (filter (timed_out ts now s) (map snd (sv_peers (ep_transport s)))) s"

section \<open>What a check does\<close>

text \<open>The peers a transport knows have their own descriptors, each under its descriptor.\<close>

definition peers_ok :: "endpoint_state \<Rightarrow> bool" where
  "peers_ok s \<longleftrightarrow> distinct (map fst (sv_peers (ep_transport s)))
     \<and> (\<forall>(fd, p) \<in> set (sv_peers (ep_transport s)). pr_fd (ep_peer s p) = Some fd \<and> pr_transport (ep_peer s p))"

lemma remove_peer_known:
  assumes "pr_fd (ep_peer s p) = Some fd" "pr_transport (ep_peer s p)"
  shows "remove_peer p s = ([Closed fd],
     s\<lparr>ep_peer := (ep_peer s)(p := (ep_peer s p)\<lparr>pr_fd := None\<rparr>),
       ep_transport := (ep_transport s)\<lparr>sv_peers := um_erase (=) fd (sv_peers (ep_transport s)),
         sv_toWrite := um_erase (=) fd (sv_toWrite (ep_transport s))\<rparr>\<rparr>)"
  using assms by (simp add: remove_peer_def removePeer_def Peer_closeFd_def closeFd_def)

lemma closePeer_other: "q \<noteq> p \<Longrightarrow> closePeer p s = (acts, ev, s') \<Longrightarrow>
    ep_http s' q = ep_http s q \<and> ep_peer s' q = ep_peer s q"
  by (auto simp: closePeer_def remove_peer_def split: if_splits prod.splits)

lemma close_peers_other: "q \<notin> set ps \<Longrightarrow> close_peers ps s = (acts, ev, s') \<Longrightarrow>
    ep_http s' q = ep_http s q \<and> ep_peer s' q = ep_peer s q"
proof (induction ps arbitrary: s acts ev s')
  case (Cons p ps)
  obtain a e s1 where 1: "closePeer p s = (a, e, s1)" by (cases "closePeer p s")
  obtain a' e' s2 where 2: "close_peers ps s1 = (a', e', s2)" by (cases "close_peers ps s1")
  show ?case using Cons.IH [OF _ 2] closePeer_other [OF _ 1, of q] Cons.prems by (simp add: 1 2)
qed simp

lemma close_peers_outcome:
  assumes "distinct ps" "close_peers ps s = (acts, ev, s')"
    "\<forall>p \<in> set ps. pr_fd (ep_peer s p) = Some (fd_of p) \<and> pr_transport (ep_peer s p)"
  shows "acts = map (\<lambda>p. (p, A_send Http11 Code_Request_Timeout '''')) (filter (\<lambda>p. \<not> hp_idle (ep_http s p)) ps)
    \<and> ev = map (\<lambda>p. Closed (fd_of p)) (filter (\<lambda>p. hp_idle (ep_http s p)) ps)
    \<and> sv_peers (ep_transport s') = foldl (\<lambda>m p. um_erase (=) (fd_of p) m) (sv_peers (ep_transport s)) (filter (\<lambda>p. hp_idle (ep_http s p)) ps)"
  using assms
proof (induction ps arbitrary: s acts ev s')
  case (Cons p ps)
  obtain a e s1 where 1: "closePeer p s = (a, e, s1)" by (cases "closePeer p s")
  obtain a' e' s2 where 2: "close_peers ps s1 = (a', e', s2)" by (cases "close_peers ps s1")
  have other: "ep_http s1 q = ep_http s q \<and> ep_peer s1 q = ep_peer s q" if "q \<in> set ps" for q
    using closePeer_other [OF _ 1, of q] that Cons.prems(1) by auto
  have f: "filter (\<lambda>p. hp_idle (ep_http s1 p)) ps = filter (\<lambda>p. hp_idle (ep_http s p)) ps"
    "filter (\<lambda>p. \<not> hp_idle (ep_http s1 p)) ps = filter (\<lambda>p. \<not> hp_idle (ep_http s p)) ps"
    using other by (auto intro!: filter_cong)
  have ih: "a' = map (\<lambda>p. (p, A_send Http11 Code_Request_Timeout '''')) (filter (\<lambda>p. \<not> hp_idle (ep_http s p)) ps)
    \<and> e' = map (\<lambda>p. Closed (fd_of p)) (filter (\<lambda>p. hp_idle (ep_http s p)) ps)
    \<and> sv_peers (ep_transport s2) = foldl (\<lambda>m p. um_erase (=) (fd_of p) m) (sv_peers (ep_transport s1)) (filter (\<lambda>p. hp_idle (ep_http s p)) ps)"
    using Cons.IH [OF _ 2] other Cons.prems(1,3) by (simp add: f)
  have p: "pr_fd (ep_peer s p) = Some (fd_of p)" "pr_transport (ep_peer s p)" using Cons.prems(3) by simp_all
  show ?case
  proof (cases "hp_idle (ep_http s p)")
    case True
    then have "a = [] \<and> e = [Closed (fd_of p)] \<and> sv_peers (ep_transport s1) = um_erase (=) (fd_of p) (sv_peers (ep_transport s))"
      using 1 remove_peer_known [OF p] by (auto simp: closePeer_def)
    then show ?thesis using ih Cons.prems(2) True by (auto simp: 1 2)
  next
    case False
    then show ?thesis using ih Cons.prems(2) 1 by (auto simp: 1 2 closePeer_def)
  qed
qed simp

lemma foldl_erase: "foldl (\<lambda>m p. um_erase (=) (f p) m) m ps = filter (\<lambda>kv. fst kv \<notin> f ` set ps) m"
proof (induction ps arbitrary: m)
  case (Cons p ps)
  then show ?case by (auto simp: um_erase_def split_beta intro!: filter_cong)
qed simp

lemma peers_ok_distinct:
  assumes "peers_ok s"
  shows "distinct (map snd (sv_peers (ep_transport s)))"
proof -
  let ?m = "sv_peers (ep_transport s)"
  have "map fst ?m = map (\<lambda>p. the (pr_fd (ep_peer s p))) (map snd ?m)"
    unfolding map_map by (rule map_cong) (use assms in \<open>auto simp: peers_ok_def\<close>)
  then show ?thesis using assms unfolding peers_ok_def by (metis distinct_map)
qed

text \<open>Erasing the descriptors of some peers is leaving those peers out.\<close>

lemma erased_peers:
  assumes "peers_ok s"
  shows "filter (\<lambda>kv. fst kv \<notin> (\<lambda>p. the (pr_fd (ep_peer s p))) ` set (filter sel (map snd (sv_peers (ep_transport s)))))
           (sv_peers (ep_transport s))
    = filter (\<lambda>(fd, p). \<not> sel p) (sv_peers (ep_transport s))"
proof (rule filter_cong)
  let ?m = "sv_peers (ep_transport s)" and ?fd = "\<lambda>p. the (pr_fd (ep_peer s p))"
  fix kv assume kv: "kv \<in> set ?m"
  obtain fd p where fp: "kv = (fd, p)" by (cases kv)
  have fd: "?fd q = fd'" if "(fd', q) \<in> set ?m" for fd' q using assms that by (auto simp: peers_ok_def)
  have same: "p = q" if "(fd, q) \<in> set ?m" for q
    using assms kv that unfolding peers_ok_def fp by (blast dest: eq_key_imp_eq_value)
  have "fd \<in> ?fd ` set (filter sel (map snd ?m)) \<longleftrightarrow> sel p"
  proof
    assume "sel p"
    moreover have "p \<in> snd ` set ?m" using kv unfolding fp by force
    ultimately show "fd \<in> ?fd ` set (filter sel (map snd ?m))"
      using fd [of fd p] kv unfolding fp by (intro image_eqI [of _ _ p]) simp_all
  next
    assume "fd \<in> ?fd ` set (filter sel (map snd ?m))"
    then obtain q fd' where q: "(fd', q) \<in> set ?m" "fd = ?fd q" "sel q" by auto
    then show "sel p" using same [of q] fd [of fd' q] by simp
  qed
  then show "(fst kv \<notin> ?fd ` set (filter sel (map snd ?m))) = (case kv of (fd, p) \<Rightarrow> \<not> sel p)"
    unfolding fp fst_conv prod.case by (rule arg_cong)
qed simp

text \<open>
  C37: a check of the peers, on a transport whose peers are under their own descriptors: the idle peers
  whose timeout has passed are forgotten and their descriptors closed, the busy ones are sent a
  408, and no other peer is touched.
\<close>

theorem idle_check:
  assumes "peers_ok s" "checkIdlePeers ts now s = (acts, ev, s')"
  shows "sv_peers (ep_transport s') =
        filter (\<lambda>(fd, p). \<not> (timed_out ts now s p \<and> hp_idle (ep_http s p))) (sv_peers (ep_transport s))
    \<and> acts = map (\<lambda>(fd, p). (p, A_send Http11 Code_Request_Timeout ''''))
        (filter (\<lambda>(fd, p). timed_out ts now s p \<and> \<not> hp_idle (ep_http s p)) (sv_peers (ep_transport s)))
    \<and> ev = map (\<lambda>(fd, p). Closed fd)
        (filter (\<lambda>(fd, p). timed_out ts now s p \<and> hp_idle (ep_http s p)) (sv_peers (ep_transport s)))
    \<and> (\<forall>q. \<not> timed_out ts now s q \<longrightarrow> ep_http s' q = ep_http s q \<and> ep_peer s' q = ep_peer s q)"
proof -
  let ?m = "sv_peers (ep_transport s)" and ?fd = "\<lambda>p. the (pr_fd (ep_peer s p))"
  let ?ps = "filter (timed_out ts now s) (map snd ?m)"
  have k: "pr_fd (ep_peer s p) = Some fd \<and> pr_transport (ep_peer s p)" if "(fd, p) \<in> set ?m" for fd p
    using assms(1) that by (auto simp: peers_ok_def)
  have run: "close_peers ?ps s = (acts, ev, s')" using assms(2) by (simp add: checkIdlePeers_def)
  have "distinct ?ps" using peers_ok_distinct [OF assms(1)] by simp
  moreover have "\<forall>p \<in> set ?ps. pr_fd (ep_peer s p) = Some (?fd p) \<and> pr_transport (ep_peer s p)" using k by fastforce
  ultimately have out: "acts = map (\<lambda>p. (p, A_send Http11 Code_Request_Timeout '''')) (filter (\<lambda>p. \<not> hp_idle (ep_http s p)) ?ps)"
    "ev = map (\<lambda>p. Closed (?fd p)) (filter (\<lambda>p. hp_idle (ep_http s p)) ?ps)"
    "sv_peers (ep_transport s') = foldl (\<lambda>m p. um_erase (=) (?fd p) m) ?m (filter (\<lambda>p. hp_idle (ep_http s p)) ?ps)"
    using close_peers_outcome [OF _ run, where fd_of = ?fd] by simp_all
  have 1: "acts = map (\<lambda>(fd, p). (p, A_send Http11 Code_Request_Timeout ''''))
      (filter (\<lambda>(fd, p). timed_out ts now s p \<and> \<not> hp_idle (ep_http s p)) ?m)"
    unfolding out(1) filter_map filter_filter by (simp add: comp_def case_prod_beta' conj_commute)
  have 2: "ev = map (\<lambda>(fd, p). Closed fd) (filter (\<lambda>(fd, p). timed_out ts now s p \<and> hp_idle (ep_http s p)) ?m)"
    unfolding out(2) filter_map filter_filter map_map
    by (rule map_cong) (auto simp: comp_def case_prod_beta' conj_commute dest: k)
  have 3: "sv_peers (ep_transport s') = filter (\<lambda>(fd, p). \<not> (timed_out ts now s p \<and> hp_idle (ep_http s p))) ?m"
    unfolding out(3) foldl_erase filter_filter
    using erased_peers [OF assms(1), where sel = "\<lambda>p. timed_out ts now s p \<and> hp_idle (ep_http s p)"] by simp
  have "\<forall>q. \<not> timed_out ts now s q \<longrightarrow> ep_http s' q = ep_http s q \<and> ep_peer s' q = ep_peer s q"
    using close_peers_other [OF _ run] by simp
  then show ?thesis using 1 2 3 by blast
qed

definition sample_endpoint :: endpoint_state where
  "sample_endpoint = \<lparr>ep_http = (\<lambda>p. (onConnection 4096 Address0)\<lparr>hp_idle := (p = 1)\<rparr>), ep_time = (\<lambda>p. if p = 3 then 90000 else 0),
     ep_peer = (\<lambda>p. \<lparr>pr_fd = Some (p + 4), pr_transport = True, pr_idle = False, pr_data = []\<rparr>),
     ep_transport = Server_init\<lparr>sv_peers := [(5, 1), (6, 2), (7, 3)]\<rparr>\<rparr>"

text \<open>Three peers: one idle and one in a head that is late, and one whose time has not come.\<close>

theorem idle_check_witness:
  "\<exists>acts ev s'. checkIdlePeers \<lparr>headerTimeout = 60000, bodyTimeout = 60000, keepaliveTimeout = 60000\<rparr> 100000 sample_endpoint = (acts, ev, s')
     \<and> acts = [(2, A_send Http11 Code_Request_Timeout '''')] \<and> ev = [Closed 5]
     \<and> sv_peers (ep_transport s') = [(6, 2), (7, 3)]"
proof -
  let ?ts = "\<lparr>headerTimeout = 60000, bodyTimeout = 60000, keepaliveTimeout = 60000\<rparr>"
  obtain acts ev s' where r: "checkIdlePeers ?ts 100000 sample_endpoint = (acts, ev, s')" by (metis prod_cases3)
  have ok: "peers_ok sample_endpoint" by (simp add: peers_ok_def sample_endpoint_def)
  show ?thesis using idle_check [OF ok r] r
    by (simp add: sample_endpoint_def timed_out_def checkTimeout_def onConnection_def ParserImpl_def)
qed

section \<open>What the timeouts miss\<close>

text \<open>
  Sending a response makes its peer idle, and only a whole request makes it busy again: while the
  next request on the connection arrives, however slowly, the timeouts of the head and the body do
  not apply.
\<close>

lemma second_request_not_timed:
  assumes "hp_idle hp" "onInput E app b hp = ([], hp')"
  shows "checkTimeout ts (hp_idle hp') step elapsed \<longleftrightarrow> elapsed > keepaliveTimeout ts"
proof -
  have "hp_idle hp'"
    using assms by (auto simp: onInput_def onInput_catch_def onInput_request_def Let_def
        split: prod.splits bool.splits sum.splits PState.splits option.splits if_splits)
  then show ?thesis by (simp add: checkTimeout_def)
qed

text \<open>
  A request given to a handler that will answer later leaves the peer busy with a parser at its first
  step: the timeout of the head now runs against the handler.
\<close>

lemma pending_handler_timed:
  assumes "\<And>request version headers. app request version headers = None"
    "onInput_request app hp = (acts, hp')" "elapsed > headerTimeout ts"
  shows "checkTimeout ts (hp_idle hp') (pa_currentStep (hp_parser hp')) elapsed"
proof -
  have "\<not> hp_idle hp'" "pa_currentStep (hp_parser hp') = 0"
    using assms(1,2) by (auto simp: onInput_request_def Let_def parser_reset_def ParserBase_reset_def)
  then show ?thesis using assms(3) by (simp add: checkTimeout_def)
qed

end
