(* ===== verification/Spec2Isabelle.thy ===== *)
theory Spec2Isabelle
  imports Byte_Buffers Base64_Codec Cookie_Jar Mime_Type Net_Address Http_Header Header_Collection
    Header_Locality Http_Parser Parser_Incremental Parser_Split Handler_Input
    Parser_Roundtrip Head_Roundtrip Response_Writer Response_Stream Response_Roundtrip
    Rest_Router Router_Spec Message_Queue Mail_Slot Bounded_Queue
    Client_Request Timer_Pool Client_Connection Client_Transport
    Promise_Laws Server_Writes Reactor_Dispatch Server_Endpoint
begin

text \<open>
  A verification library for Pistache, the C++ HTTP and REST framework
  (\<open>src/src/{common,client,server}\<close> with \<open>src/include/pistache\<close>).

  \<^bold>\<open>The program.\<close>  A server reads bytes from a socket into the buffer of a peer, parses them step by
  step into a request, hands it to the handler of the application (or to the router, which looks
  for the handler in a segment tree), and prints the response through a bounded stream buffer to
  the transport.  A client does the opposite: it prints a request on a connection it takes from a pool,
  or lets it wait in a bounded queue, and parses the response with the same parser.  Threads
  exchange work through lock-free queues whose consumer sleeps on an eventfd.

  \<^bold>\<open>Conventions.\<close>  A definition has the name of the function it translates, with a prefix where two
  classes share a name or HOL has it already.  Exceptions are values of \<open>exn\<close> in a sum
  (\<open>'a result\<close>); an operation that keeps its effects when it throws returns the exception
  beside the new state.  Objects are records passed and returned.  Bytes are \<open>char\<close>; a \<open>size_t\<close>
  is a \<open>nat\<close>, and where the code converts it to \<open>ssize_t\<close> or lets it wrap this is written out
  (Pist_Prelude); Base64 uses 8-bit words.  Loops are recursive functions with a proved
  termination; no definition uses fuel.  \<open>Queue_destroy\<close>, whose end depends on an invariant, is an
  option whose result is proved to exist; \<open>send_loop\<close> is one too, and need not end.  Hash maps are
  association lists, whose laws are a locale.  The date library, the resolver, the
  compression libraries, the handlers of the application and the results of system calls are
  parameters.  Two bounds appear in statements: \<open>string_max_size\<close>, which is what \<open>std::string\<close>
  can hold, and \<open>2 ^ 63\<close>, below which the positions of a cursor must stay (\<open>wf_cursor\<close>).

  \<^bold>\<open>Theories.\<close>

  \<^item> Pist_Prelude: exceptions, the C character and number routines, hash maps.
  \<^item> Stream_Buf (stream.h, stream.cc): cursors, tokens and matchers, with the equations that
    describe each matcher by list functions on the rest of the buffer.  Byte_Buffers: the array
    buffer of the parser, raw buffers and the growing stream buffer, with the locale of byte sinks.
  \<^item> Base64_Codec (base64.cc), Http_Defs (http_defs.cc), Mime_Type (mime.cc), Cookie_Jar
    (cookie.cc), Net_Address (net.cc), Http_Header (http_header.cc), Header_Collection
    (http_headers.cc): parser and printer of each value with round trips, and their errors.
    Header_Locality: a header parser reads only the bytes of its value.
  \<^item> Http_Parser (http.cc): the three steps of \<open>ParserBase\<close> and \<open>Handler::onInput\<close>.
    Parser_Incremental and Parser_Split: parsing in pieces is parsing at once.  Handler_Input: what
    one input to a connection can do, and the invariant of a connection.  Parser_Roundtrip and
    Head_Roundtrip: printed request lines, chunked bodies, header lines and whole messages are read
    back.
  \<^item> Response_Writer, Response_Stream (http.cc): what the server prints; Response_Roundtrip: the client
    reads it.  Client_Request (client.cc): what the client prints and that the server reads it.
  \<^item> Rest_Router (router.cc): the segment tree and the dispatch of requests; Router_Spec: the tree as a
    finite map from patterns to handlers, stated as a locale and interpreted on the tree.
  \<^item> Message_Queue, Mail_Slot, Bounded_Queue (mailbox.h): the lock-free containers.  Operations are
    cut at their atomic accesses and interleaved by inductive step relations (\<open>reaches\<close>, \<open>mreach\<close>);
    invariants of the reachable states give memory safety, order, no lost wakeup, and the returns
    of the loops.  The locale \<open>fifo\<close> is the contract of a queue.
  \<^item> Timer_Pool (timer_pool.cc): timers.  Client_Connection (client.cc): one connection of the client
    with its handlers, which keep it well formed and complete a request once.  Client_Pool: the
    connections of a domain, the queue of the requests without one, \<open>doRequest\<close> and what happens when
    a request ends.  Client_Run: all steps of a client in any order, with the conservation of its
    requests.  Client_Transport: the sockets and timers of the client, its receiving and sending loops
    (the latter a \<open>while_option\<close>, because it may not end), and which client step an event makes.
  \<^item> Server_Transport (transport.cc, peer.cc): the queue of writes, the loop that sends them, the loop
    that receives, peers and timers.  Server_Writes: in every run the bytes of a peer's writes reach
    its socket in order and their promises are settled in that order; a peer that has gone is
    forgotten.
  \<^item> Reactor_Dispatch (reactor.cc, the epoll wrapper of os.cc, the choice of a worker in listener.cc): keys
    and tags, lists of handlers, registrations, and the dispatch of calls, peers and events to the
    clone of a handler on its worker.  Server_Endpoint (endpoint.cc): options and the timeouts of peers.
  \<^item> Async_Promise (async.h): promises and their continuations in a heap; what settling one causes is a
    list of tasks, worked off by a total function.  The heap has a history of the calls of \<open>doResolve\<close> and
    \<open>doReject\<close>.  Promise_Laws: each continuation runs once, chains of \<open>then\<close>, and \<open>whenAll\<close>.

  \<^bold>\<open>Not modelled.\<close>  The threads of the reactor, the sockets of the listener and the libevent variant of
  the poller are left out; eventmeth.cc, the rest of os.cc and the \<open>pist_\<close> files wrap the operating system; TLS calls OpenSSL, so the sockets of both transports are plain ones; the REST description feeds a third-party
  JSON writer; logging has no effect on the program; subprojects are vendored.  The client's requests over TLS, the
  draining of its queue of sends from other threads, and its locks are left out: each operation of
  the client is one step.  Two locks show where the code takes them twice on one thread: a send that fails
  while \<open>queuesLock\<close> is held, and one with a timer while \<open>timeoutsLock\<close> is held, are \<open>Crash\<close>.  What a
  send answers is an argument (\<open>sender\<close>), and the runs of Client_Run are those whose sends are queued or go out whole.  The concurrent theories assume
  sequentially consistent memory, which the source's exchanges and acquire loads provide for the
  accesses that matter.  \<open>FileBuffer\<close> and the socket options are left out.
\<close>

end
